(* ===== verification/Prelude.thy ===== *)
theory Prelude
  imports Main "HOL-Library.Word"
begin

unbundle bit_operations_syntax

text \<open>
  Shared vocabulary of the development: the C integer types of
  src/src/include/types.h as machine words, byte bitmaps, the first-match
  search every fixed-size table of the kernel is scanned with, C strings, and
  the generic lemmas on words and lists the component theories rely on.
\<close>

section \<open>Machine integers\<close>

type_synonym u8 = "8 word"
type_synonym u16 = "16 word"
type_synonym u32 = "32 word"
type_synonym u64 = "64 word"

text \<open>Memory as 32-bit words by byte address; all modelled accesses are 4-aligned.\<close>

type_synonym mem32 = "u32 \<Rightarrow> u32"

named_theorems frame_simps \<open>fields and slots an operation leaves alone\<close>
named_theorems kdefs \<open>definitions unfolded together when evaluating the model\<close>

lemma unat_u32_bound [simp]: "unat (w :: u32) < 4294967296"
  using unsigned_less [where 'a = nat, of w] by simp

lemma unat_u16_bound [simp]: "unat (w :: u16) < 65536"
  using unsigned_less [where 'a = nat, of w] by simp

lemma unat_u8_bound [simp]: "unat (w :: u8) < 256"
  using unsigned_less [where 'a = nat, of w] by simp

lemma unat_of_nat_small: "n < 2 ^ LENGTH('a) \<Longrightarrow> unat (of_nat n :: 'a :: len word) = n"
  by (simp add: unat_of_nat take_bit_nat_eq_self)

lemma word_unat_inverse: "of_nat (unat w) = (w :: 'a :: len word)"
  by simp

lemma unat_of_nat_u32: "n < 4294967296 \<Longrightarrow> unat (of_nat n :: u32) = n"
  by (rule unat_of_nat_small) simp

lemma unat_div_u32: "unat ((a :: u32) div b) = unat a div unat b"
  by (simp add: unat_div_distrib)

lemma unat_plus_small:
  "unat (a :: u32) + unat b < 4294967296 \<Longrightarrow> unat (a + b) = unat a + unat b"
  by (simp add: unat_word_ariths)

lemma unat_ucast_u32 [simp]:
  "unat (ucast (a :: u8) :: u32) = unat a" "unat (ucast (b :: u16) :: u32) = unat b"
proof -
  have "unat a < 4294967296" "unat b < 4294967296"
    using unat_u8_bound [of a] unat_u16_bound [of b] by linarith+
  then show "unat (ucast a :: u32) = unat a" "unat (ucast b :: u32) = unat b"
    by (simp_all add: unsigned_ucast_eq take_bit_nat_eq_self)
qed

lemma of_nat_inj_u32:
  "a < 4294967296 \<Longrightarrow> b < 4294967296 \<Longrightarrow> (of_nat a = (of_nat b :: u32)) = (a = b)"
  by (metis unat_of_nat_u32)

lemma image_div_interval:
  fixes b l :: nat
  assumes "0 < l"
  shows "(\<lambda>a. a div 4096) ` {b..<b + l} = {b div 4096..<(b + l + 4095) div 4096}"
proof (intro set_eqI iffI)
  fix p assume "p \<in> (\<lambda>a. a div 4096) ` {b..<b + l}"
  then obtain a where a: "b \<le> a" "a < b + l" "p = a div 4096" by auto
  then have "b div 4096 \<le> p" by (simp add: div_le_mono)
  moreover have "Suc p \<le> (b + l + 4095) div 4096"
    using a div_le_mono [of "a + 4096" "b + l + 4095" 4096] by simp
  ultimately show "p \<in> {b div 4096..<(b + l + 4095) div 4096}" by simp
next
  fix p assume p: "p \<in> {b div 4096..<(b + l + 4095) div 4096}"
  show "p \<in> (\<lambda>a. a div 4096) ` {b..<b + l}"
  proof (cases "p = b div 4096")
    case True
    then show ?thesis using assms by auto
  next
    case False
    with p have "b \<le> p * 4096" "p * 4096 < b + l" by auto
    then have "p * 4096 \<in> {b..<b + l}" "p = p * 4096 div 4096" by auto
    then show ?thesis by blast
  qed
qed

lemma unat_and_not_mask: "unat ((w :: 'a :: len word) AND NOT (mask n)) = unat w div 2 ^ n * 2 ^ n"
proof -
  have eq: "w AND NOT (mask n) = push_bit n (drop_bit n w)"
    by (rule bit_word_eqI) (auto simp: bit_simps)
  have "unat w div 2 ^ n * 2 ^ n < 2 ^ LENGTH('a)"
    using div_times_less_eq_dividend [of "unat w" "2 ^ n"] unsigned_less [where 'a = nat, of w] by (rule order_le_less_trans)
  then show ?thesis
    unfolding eq unsigned_push_bit_eq unsigned_drop_bit_eq
    by (simp add: drop_bit_eq_div push_bit_eq_mult take_bit_nat_eq_self)
qed

text \<open>\<^verbatim>\<open>(size + 3) & ~3\<close> rounds up to a multiple of 4 unless the sum wraps.\<close>

definition round4 :: "nat \<Rightarrow> nat" where
  "round4 n = (n + 3) div 4 * 4"

lemma unat_align4: "unat (w :: u32) + 3 < 4294967296 \<Longrightarrow> unat ((w + 3) AND NOT 3) = round4 (unat w)"
proof -
  assume a: "unat w + 3 < 4294967296"
  have "(3 :: u32) = mask 2" by (simp add: mask_eq_exp_minus_1)
  then have "unat ((w + 3) AND NOT 3) = unat (w + 3) div 4 * 4"
    using unat_and_not_mask [of "w + 3" 2] by simp
  moreover have "unat (w + 3) = unat w + 3" using a unat_plus_small [of w 3] by simp
  ultimately show ?thesis by (simp add: round4_def)
qed

lemma round4_props: "round4 n mod 4 = 0" "n \<le> round4 n" "round4 n \<le> n + 3"
  unfolding round4_def by presburger+

section \<open>Byte bitmaps\<close>

text \<open>
  A C bitmap is an array of bytes; unit \<open>n\<close> is bit \<open>n mod 8\<close> of byte
  \<open>n div 8\<close>. The array is a function from byte index to byte: every access
  of the modelled code stays inside the array's bounds.
\<close>

type_synonym bitmap8 = "nat \<Rightarrow> u8"

definition bmp_get :: "bitmap8 \<Rightarrow> nat \<Rightarrow> bool" where
  "bmp_get bm n = (bm (n div 8) AND push_bit (n mod 8) 1 \<noteq> 0)"

definition bmp_set :: "nat \<Rightarrow> bitmap8 \<Rightarrow> bitmap8" where
  "bmp_set n bm = bm(n div 8 := bm (n div 8) OR push_bit (n mod 8) 1)"

definition bmp_clr :: "nat \<Rightarrow> bitmap8 \<Rightarrow> bitmap8" where
  "bmp_clr n bm = bm(n div 8 := bm (n div 8) AND NOT (push_bit (n mod 8) 1))"

lemma and_push_bit_1: "(w AND push_bit k 1 \<noteq> 0) \<longleftrightarrow> bit (w :: 'a :: len word) k"
proof -
  have "w AND push_bit k 1 = (if bit w k then push_bit k 1 else 0)"
    by (rule bit_word_eqI) (auto simp add: bit_simps dest: bit_imp_le_length)
  moreover have "bit w k \<Longrightarrow> push_bit k 1 \<noteq> (0 :: 'a word)"
    by (metis bit_0_eq bit_imp_le_length bit_1_iff bit_push_bit_iff bot_apply bot_bool_def
        diff_self_eq_0 le_refl possible_bit_word)
  ultimately show ?thesis by auto
qed

lemma bmp_get_bit: "bmp_get bm n \<longleftrightarrow> bit (bm (n div 8)) (n mod 8)"
  unfolding bmp_get_def by (rule and_push_bit_1)

lemma divmod8_eq_iff: "n div 8 = m div 8 \<and> n mod 8 = m mod 8 \<longleftrightarrow> n = (m :: nat)"
  by (metis div_mult_mod_eq)

lemma bmp_get_set [simp]: "bmp_get (bmp_set n bm) m \<longleftrightarrow> m = n \<or> bmp_get bm m"
  using divmod8_eq_iff [of m n]
  by (auto simp add: bmp_get_bit bmp_set_def bit_simps)

lemma bmp_get_clr [simp]: "bmp_get (bmp_clr n bm) m \<longleftrightarrow> m \<noteq> n \<and> bmp_get bm m"
  using divmod8_eq_iff [of m n]
  by (auto simp add: bmp_get_bit bmp_clr_def bit_simps)

lemma u8_all_ones: "(w :: u8) = 0xFF \<longleftrightarrow> (\<forall>j<8. bit w j)"
proof -
  have "(0xFF :: u8) = mask 8" by (simp add: mask_eq_exp_minus_1)
  then show ?thesis by (auto simp add: bit_eq_iff bit_mask_iff)
qed

section \<open>Little-endian fields in byte buffers\<close>

text \<open>
  \<^verbatim>\<open>*(uint16_t *)(buf + o)\<close> and \<^verbatim>\<open>*(uint32_t *)(buf + o)\<close> on x86, and the stores.
\<close>

definition le16 :: "u8 list \<Rightarrow> nat \<Rightarrow> u32" where
  "le16 buf i = ucast (buf ! i) OR push_bit 8 (ucast (buf ! Suc i))"

definition le32 :: "u8 list \<Rightarrow> nat \<Rightarrow> u32" where
  "le32 buf i = ucast (buf ! i) OR push_bit 8 (ucast (buf ! (i + 1))) OR
     push_bit 16 (ucast (buf ! (i + 2))) OR push_bit 24 (ucast (buf ! (i + 3)))"

definition put16 :: "u8 list \<Rightarrow> nat \<Rightarrow> u32 \<Rightarrow> u8 list" where
  "put16 buf i v = buf[i := ucast v, Suc i := ucast (drop_bit 8 v)]"

definition put32 :: "u8 list \<Rightarrow> nat \<Rightarrow> u32 \<Rightarrow> u8 list" where
  "put32 buf i v = buf[i := ucast v, i + 1 := ucast (drop_bit 8 v),
     i + 2 := ucast (drop_bit 16 v), i + 3 := ucast (drop_bit 24 v)]"

lemma length_put [simp]: "length (put16 buf i v) = length buf" "length (put32 buf i v) = length buf"
  by (simp_all add: put16_def put32_def)

text \<open>The bytes of a 32-bit value put back together.\<close>

lemma word_bytes16:
  "ucast (ucast (v :: u32) :: u8) OR push_bit 8 (ucast (ucast (drop_bit 8 v) :: u8)) = v AND 0xFFFF"
proof -
  have m: "(0xFFFF :: u32) = mask 16" by (simp add: mask_eq_exp_minus_1)
  have "bit (ucast (ucast v :: u8) OR push_bit 8 (ucast (ucast (drop_bit 8 v) :: u8)) :: u32) n
      = bit (v AND mask 16) n" if "n < 32" for n
    using that by (cases "n < 8"; cases "n < 16") (auto simp: bit_simps simp del: mask_numeral)
  then show ?thesis unfolding m by (intro bit_word_eqI) simp
qed

lemma word_bytes32:
  "ucast (ucast (v :: u32) :: u8) OR push_bit 8 (ucast (ucast (drop_bit 8 v) :: u8)) OR
   push_bit 16 (ucast (ucast (drop_bit 16 v) :: u8)) OR push_bit 24 (ucast (ucast (drop_bit 24 v) :: u8)) = v"
proof (rule bit_word_eqI)
  fix n assume "n < LENGTH(32)"
  then show "bit (ucast (ucast v :: u8) OR push_bit 8 (ucast (ucast (drop_bit 8 v) :: u8)) OR
      push_bit 16 (ucast (ucast (drop_bit 16 v) :: u8)) OR
      push_bit 24 (ucast (ucast (drop_bit 24 v) :: u8)) :: u32) n = bit v n"
    by (cases "n < 8"; cases "n < 16"; cases "n < 24") (auto simp: bit_simps)
qed

lemma le16_put16: "Suc i < length buf \<Longrightarrow> le16 (put16 buf i v) i = v AND 0xFFFF"
  by (simp add: le16_def put16_def word_bytes16)

lemma le32_put32: "i + 3 < length buf \<Longrightarrow> le32 (put32 buf i v) i = v"
  by (simp add: le32_def put32_def word_bytes32)

section \<open>Scanning a fixed-size table\<close>

text \<open>
  The kernel's tables are arrays scanned from index 0 for the first entry
  with a property: \<^verbatim>\<open>for (i = 0; i < N; i++) if (P(t[i])) break;\<close>
\<close>

fun find_slot :: "('e \<Rightarrow> bool) \<Rightarrow> 'e list \<Rightarrow> nat option" where
  "find_slot P [] = None"
| "find_slot P (x # xs) = (if P x then Some 0 else map_option Suc (find_slot P xs))"

lemma find_slot_None: "find_slot P xs = None \<longleftrightarrow> (\<forall>x \<in> set xs. \<not> P x)"
  by (induction xs) auto

lemma find_slot_SomeD:
  "find_slot P xs = Some i \<Longrightarrow> i < length xs \<and> P (xs ! i) \<and> (\<forall>j<i. \<not> P (xs ! j))"
proof (induction xs arbitrary: i)
  case Nil
  then show ?case by simp
next
  case (Cons x xs)
  then show ?case
    by (auto split: if_splits simp: nth_Cons split: nat.splits)
qed

lemma find_slot_cong:
  "(\<And>x. x \<in> set xs \<Longrightarrow> P x = Q x) \<Longrightarrow> find_slot P xs = find_slot Q xs"
  by (induction xs) auto

lemma find_slot_SomeI:
  "i < length xs \<Longrightarrow> P (xs ! i) \<Longrightarrow> \<forall>j<i. \<not> P (xs ! j) \<Longrightarrow> find_slot P xs = Some i"
proof (induction xs arbitrary: i)
  case Nil
  then show ?case by simp
next
  case (Cons x xs)
  show ?case
  proof (cases i)
    case 0
    with Cons.prems show ?thesis by simp
  next
    case (Suc k)
    with Cons.prems have "\<not> P x" by fastforce
    moreover have "find_slot P xs = Some k"
      using Cons.prems Suc by (intro Cons.IH) auto
    ultimately show ?thesis using Suc by simp
  qed
qed

section \<open>Slot tables\<close>

text \<open>
  The contract shared by the kernel's fixed tables, such as the file handles: a
  fixed-length table whose entries are free or in use, an allocation that claims the first free entry, and a release.
  The laws are what each provider promises; the lemmas are what every client of
  such a table may rely on.
\<close>

locale slot_table =
  fixes entries :: "'s \<Rightarrow> 'e list"
    and in_use :: "'e \<Rightarrow> bool"
    and holds :: "'e \<Rightarrow> 'v"
    and claim :: "'v \<Rightarrow> 's \<Rightarrow> nat option \<times> 's"
    and release :: "nat \<Rightarrow> 's \<Rightarrow> 's"
  assumes claim_full:
      "find_slot (\<lambda>e. \<not> in_use e) (entries s) = None \<Longrightarrow> claim v s = (None, s)"
    and claim_free:
      "find_slot (\<lambda>e. \<not> in_use e) (entries s) = Some i \<Longrightarrow>
         \<exists>s' e. claim v s = (Some i, s') \<and> entries s' = (entries s)[i := e] \<and> in_use e \<and> holds e = v"
    and release_slot:
      "i < length (entries s) \<Longrightarrow>
         \<exists>e. entries (release i s) = (entries s)[i := e] \<and> \<not> in_use e"
begin

lemma claim_result:
  assumes "claim v s = (Some i, s')"
  shows "i < length (entries s)" "\<not> in_use (entries s ! i)"
    "in_use (entries s' ! i)" "holds (entries s' ! i) = v"
    "j \<noteq> i \<Longrightarrow> entries s' ! j = entries s ! j"
    "length (entries s') = length (entries s)"
proof -
  let ?f = "find_slot (\<lambda>e. \<not> in_use e) (entries s)"
  have "?f = Some i"
  proof (cases ?f)
    case None
    then show ?thesis using claim_full [of s v] assms by simp
  next
    case (Some k)
    then show ?thesis using claim_free [OF Some, of v] assms by auto
  qed
  then obtain e where i: "i < length (entries s)" "\<not> in_use (entries s ! i)"
    and e: "entries s' = (entries s)[i := e]" "in_use e" "holds e = v"
    using claim_free [of s i v] assms by (auto dest: find_slot_SomeD)
  from i e show "i < length (entries s)" "\<not> in_use (entries s ! i)"
    "in_use (entries s' ! i)" "holds (entries s' ! i) = v"
    "j \<noteq> i \<Longrightarrow> entries s' ! j = entries s ! j"
    "length (entries s') = length (entries s)" by auto
qed

lemma claim_None: "claim v s = (None, s') \<Longrightarrow> s' = s \<and> (\<forall>e \<in> set (entries s). in_use e)"
  by (cases "find_slot (\<lambda>e. \<not> in_use e) (entries s)")
    (use claim_full [of s v] claim_free [of s _ v] in \<open>auto simp: find_slot_None\<close>)

lemma claim_succeeds:
  "e \<in> set (entries s) \<Longrightarrow> \<not> in_use e \<Longrightarrow> \<exists>i s'. claim v s = (Some i, s')"
  by (cases "claim v s"; cases "fst (claim v s)") (auto dest: claim_None)

text \<open>Two claims in a row never hand out the same slot.\<close>

lemma claims_distinct:
  "claim v s = (Some i, s1) \<Longrightarrow> claim w s1 = (Some j, s2) \<Longrightarrow> i \<noteq> j"
  using claim_result(3) [of v s i s1] claim_result(2) [of w s1 j s2] by auto

lemma release_frees:
  "i < length (entries s) \<Longrightarrow> \<exists>j s'. claim v (release i s) = (Some j, s') \<and> j \<le> i"
proof -
  assume i: "i < length (entries s)"
  then obtain e where e: "entries (release i s) = (entries s)[i := e]" "\<not> in_use e"
    using release_slot by blast
  then have "\<not> in_use (entries (release i s) ! i)" "i < length (entries (release i s))"
    using i by auto
  then obtain j where "find_slot (\<lambda>e. \<not> in_use e) (entries (release i s)) = Some j" "j \<le> i"
    by (metis (no_types, lifting) find_slot_None find_slot_SomeD linorder_le_less_linear
        nth_mem option.exhaust)
  then show ?thesis using claim_free [of "release i s" j v] by blast
qed

end

end
