(* ===== verification/Pmm.thy ===== *)
theory Pmm
  imports Prelude
begin

text \<open>
  The physical page allocator, src/src/kernel/pmm.c: a bitmap with one bit per
  4 KB page (1 = used) and two counters. The array has 128 K bytes, one bit for
  each of the 1048576 pages of a 32-bit address, so no access leaves it.
  Diagnostics on the serial port are not part of the state.
\<close>

section \<open>State and operations\<close>

definition PAGE_SIZE :: u32 where
  "PAGE_SIZE = 4096"

record pmm_state =
  pmm_bitmap :: bitmap8
  total_pages :: u32
  used_pages :: u32

definition set_bit_pmm :: "nat \<Rightarrow> bitmap8 \<Rightarrow> bitmap8" where
  "set_bit_pmm page bm = bmp_set page bm"

definition clear_bit_pmm :: "nat \<Rightarrow> bitmap8 \<Rightarrow> bitmap8" where
  "clear_bit_pmm page bm = bmp_clr page bm"

definition test_bit_pmm :: "bitmap8 \<Rightarrow> nat \<Rightarrow> bool" where
  "test_bit_pmm bm page = bmp_get bm page"

definition pmm_init :: "u32 \<Rightarrow> pmm_state" where
  "pmm_init mem_size_kb =
     \<lparr>pmm_bitmap = (\<lambda>_. 0xFF), total_pages = mem_size_kb div 4, used_pages = mem_size_kb div 4\<rparr>"

text \<open>The guarded bit flips that the marking functions share.\<close>

definition mark_page_used :: "nat \<Rightarrow> pmm_state \<Rightarrow> pmm_state" where
  "mark_page_used page st =
     (if test_bit_pmm (pmm_bitmap st) page then st
      else st\<lparr>pmm_bitmap := set_bit_pmm page (pmm_bitmap st), used_pages := used_pages st + 1\<rparr>)"

definition mark_page_free :: "nat \<Rightarrow> pmm_state \<Rightarrow> pmm_state" where
  "mark_page_free page st =
     (if test_bit_pmm (pmm_bitmap st) page
      then st\<lparr>pmm_bitmap := clear_bit_pmm page (pmm_bitmap st), used_pages := used_pages st - 1\<rparr>
      else st)"

definition pmm_mark_used :: "u32 \<Rightarrow> pmm_state \<Rightarrow> pmm_state" where
  "pmm_mark_used phys_addr st = mark_page_used (unat (phys_addr div PAGE_SIZE)) st"

definition pmm_free_page :: "u32 \<Rightarrow> pmm_state \<Rightarrow> pmm_state" where
  "pmm_free_page phys_addr st = mark_page_free (unat (phys_addr div PAGE_SIZE)) st"

definition pmm_mark_region_used :: "u32 \<Rightarrow> u32 \<Rightarrow> pmm_state \<Rightarrow> pmm_state" where
  "pmm_mark_region_used base len st =
     (let page = base div PAGE_SIZE; end_page = (base + len + PAGE_SIZE - 1) div PAGE_SIZE
      in fold mark_page_used [unat page..<unat end_page] st)"

definition pmm_mark_region_free :: "u32 \<Rightarrow> u32 \<Rightarrow> pmm_state \<Rightarrow> pmm_state" where
  "pmm_mark_region_free base len st =
     (let page = base div PAGE_SIZE; end_page = (base + len) div PAGE_SIZE
      in fold mark_page_free [unat page..<unat end_page] st)"

text \<open>
  The two nested loops of the allocator: bytes of the bitmap in order, a byte
  of all ones skipped, otherwise its lowest clear bit.
\<close>

fun pmm_scan :: "nat list \<Rightarrow> bitmap8 \<Rightarrow> nat option" where
  "pmm_scan [] bm = None"
| "pmm_scan (i # rest) bm =
     (if bm i = 0xFF then pmm_scan rest bm
      else case find (\<lambda>j. bm i AND push_bit j 1 = 0) [0..<8] of
             Some j \<Rightarrow> Some (i * 8 + j)
           | None \<Rightarrow> pmm_scan rest bm)"

definition pmm_alloc_page :: "pmm_state \<Rightarrow> u32 \<times> pmm_state" where
  "pmm_alloc_page st =
     (case pmm_scan [0..<unat (total_pages st div 8)] (pmm_bitmap st) of
        Some page \<Rightarrow>
          (of_nat page * PAGE_SIZE,
           st\<lparr>pmm_bitmap := set_bit_pmm page (pmm_bitmap st), used_pages := used_pages st + 1\<rparr>)
      | None \<Rightarrow> (0, st))"

definition pmm_get_free_count :: "pmm_state \<Rightarrow> u32" where
  "pmm_get_free_count st = total_pages st - used_pages st"

section \<open>The set of free pages\<close>

text \<open>Abstraction: the pages whose bit is clear, over the whole bitmap.\<close>

definition pmm_free_set :: "pmm_state \<Rightarrow> nat set" where
  "pmm_free_set st = {p. p < 1048576 \<and> \<not> test_bit_pmm (pmm_bitmap st) p}"

definition pmm_page :: "u32 \<Rightarrow> nat" where
  "pmm_page a = unat a div 4096"

text \<open>
  The counters agree with the bitmap: the difference of the two 32-bit counters
  is the number of clear bits.
\<close>

definition pmm_inv :: "pmm_state \<Rightarrow> bool" where
  "pmm_inv st \<longleftrightarrow> total_pages st - used_pages st = of_nat (card (pmm_free_set st))"

lemmas pmm_bit_defs = set_bit_pmm_def clear_bit_pmm_def test_bit_pmm_def

lemma unat_PAGE_SIZE [simp]: "unat PAGE_SIZE = 4096"
  by (simp add: PAGE_SIZE_def)

lemma unat_page: "unat (a div PAGE_SIZE) = pmm_page a"
  by (simp add: unat_div_u32 pmm_page_def)

lemma pmm_page_bound [simp]: "pmm_page a < 1048576"
  unfolding pmm_page_def by (rule less_mult_imp_div_less) simp

lemma finite_pmm_free_set [simp]: "finite (pmm_free_set st)"
  by (simp add: pmm_free_set_def)

lemma card_pmm_free_set: "card (pmm_free_set st) \<le> 1048576"
  using card_mono [of "{..<1048576::nat}" "pmm_free_set st"] by (auto simp: pmm_free_set_def)

lemma free_set_mark_used [simp]: "pmm_free_set (mark_page_used p st) = pmm_free_set st - {p}"
  by (auto simp: pmm_free_set_def mark_page_used_def pmm_bit_defs)

lemma free_set_mark_free [simp]:
  "p < 1048576 \<Longrightarrow> pmm_free_set (mark_page_free p st) = insert p (pmm_free_set st)"
  by (auto simp: pmm_free_set_def mark_page_free_def pmm_bit_defs)

lemma mark_page_frame [frame_simps]:
  "total_pages (mark_page_used p st) = total_pages st"
  "total_pages (mark_page_free p st) = total_pages st"
  by (simp_all add: mark_page_used_def mark_page_free_def)

lemma mark_used_inv:
  assumes "pmm_inv st" "p < 1048576"
  shows "pmm_inv (mark_page_used p st)"
proof (cases "test_bit_pmm (pmm_bitmap st) p")
  case True
  with assms show ?thesis by (simp add: mark_page_used_def)
next
  case False
  then have mem: "p \<in> pmm_free_set st" using assms by (simp add: pmm_free_set_def)
  then have "card (pmm_free_set st) = Suc (card (pmm_free_set st - {p}))"
    by (metis card_Suc_Diff1 finite_pmm_free_set)
  then have "total_pages st - used_pages st = of_nat (Suc (card (pmm_free_set st - {p})))"
    using assms(1) by (simp add: pmm_inv_def)
  then show ?thesis
    unfolding pmm_inv_def free_set_mark_used frame_simps
    using False by (simp add: mark_page_used_def algebra_simps)
qed

lemma mark_free_inv:
  assumes "pmm_inv st" "p < 1048576"
  shows "pmm_inv (mark_page_free p st)"
proof (cases "test_bit_pmm (pmm_bitmap st) p")
  case False
  with assms show ?thesis by (simp add: mark_page_free_def)
next
  case True
  then have "p \<notin> pmm_free_set st" by (simp add: pmm_free_set_def)
  then have "card (insert p (pmm_free_set st)) = Suc (card (pmm_free_set st))" by simp
  then show ?thesis
    using assms True unfolding pmm_inv_def free_set_mark_free [OF assms(2)] frame_simps
    by (simp add: mark_page_free_def algebra_simps)
qed

lemma fold_mark_used:
  "(\<forall>p \<in> set ps. p < 1048576) \<Longrightarrow>
   pmm_free_set (fold mark_page_used ps st) = pmm_free_set st - set ps \<and>
   total_pages (fold mark_page_used ps st) = total_pages st \<and>
   (pmm_inv st \<longrightarrow> pmm_inv (fold mark_page_used ps st))"
  by (induction ps arbitrary: st) (auto simp: frame_simps mark_used_inv)

lemma fold_mark_free:
  "(\<forall>p \<in> set ps. p < 1048576) \<Longrightarrow>
   pmm_free_set (fold mark_page_free ps st) = pmm_free_set st \<union> set ps \<and>
   total_pages (fold mark_page_free ps st) = total_pages st \<and>
   (pmm_inv st \<longrightarrow> pmm_inv (fold mark_page_free ps st))"
  by (induction ps arbitrary: st) (auto simp: frame_simps mark_free_inv)

lemma region_pages_bound: "\<forall>p \<in> set [pmm_page a..<pmm_page b]. p < 1048576"
  using pmm_page_bound [of b] by (auto intro: less_trans)

lemmas region_used = fold_mark_used [OF region_pages_bound]
lemmas region_free = fold_mark_free [OF region_pages_bound]

lemma pmm_init_free_set: "pmm_free_set (pmm_init kb) = {}"
  using u8_all_ones [where w = "0xFF"]
  by (simp add: pmm_free_set_def pmm_init_def test_bit_pmm_def bmp_get_bit)

lemma pmm_init_inv: "pmm_inv (pmm_init kb)"
  unfolding pmm_inv_def pmm_init_free_set by (simp add: pmm_init_def)

section \<open>The allocator finds the lowest free page\<close>

lemma find_low_bit:
  "find (\<lambda>j. (w :: u8) AND push_bit j 1 = 0) [0..<8] = None \<longleftrightarrow> w = 0xFF"
  by (auto simp: find_None_iff u8_all_ones and_push_bit_1 [symmetric])

lemma find_upt_Some:
  "find P [0..<n] = Some j \<longleftrightarrow> j < n \<and> P j \<and> (\<forall>k<j. \<not> P k)"
  by (auto simp: find_Some_iff)

lemma pmm_scan_Some:
  assumes "pmm_scan [a..<b] bm = Some p"
  shows "a * 8 \<le> p \<and> p < b * 8 \<and> \<not> bmp_get bm p \<and> (\<forall>q. a * 8 \<le> q \<and> q < p \<longrightarrow> bmp_get bm q)"
  using assms
proof (induction "b - a" arbitrary: a)
  case 0
  then show ?case by simp
next
  case (Suc n)
  then have ab: "a < b" by simp
  then have up: "[a..<b] = a # [Suc a..<b]" by (rule upt_conv_Cons)
  show ?case
  proof (cases "bm a = 0xFF")
    case True
    then have full: "\<And>q. q div 8 = a \<Longrightarrow> bmp_get bm q" by (simp add: bmp_get_bit u8_all_ones)
    from Suc.prems True up have "pmm_scan [Suc a..<b] bm = Some p" by simp
    with Suc.hyps(1) [of "Suc a"] Suc.hyps(2)
    have IH: "Suc a * 8 \<le> p" "p < b * 8" "\<not> bmp_get bm p"
      "\<forall>q. Suc a * 8 \<le> q \<and> q < p \<longrightarrow> bmp_get bm q" by auto
    have "bmp_get bm q" if "a * 8 \<le> q" "q < p" for q
      using that IH(4) full [of q] by (cases "Suc a * 8 \<le> q") auto
    with IH show ?thesis by auto
  next
    case False
    then obtain j where j: "find (\<lambda>j. bm a AND push_bit j 1 = 0) [0..<8] = Some j"
      using find_low_bit [of "bm a"] by auto
    then have jp: "j < 8" "\<not> bit (bm a) j" "\<forall>k<j. bit (bm a) k"
      by (auto simp: find_upt_Some and_push_bit_1 [symmetric])
    from Suc.prems False up j have p: "p = a * 8 + j" by simp
    have "bmp_get bm q" if "a * 8 \<le> q" "q < p" for q
    proof -
      from that p jp(1) obtain k where "q = a * 8 + k" "k < j"
        by (metis le_iff_add nat_add_left_cancel_less)
      with jp(1) have "q div 8 = a" "q mod 8 < j" by auto
      with jp show ?thesis by (simp add: bmp_get_bit)
    qed
    with p jp ab show ?thesis by (auto simp: bmp_get_bit)
  qed
qed

lemma pmm_scan_None:
  assumes "pmm_scan [a..<b] bm = None" "a * 8 \<le> q" "q < b * 8"
  shows "bmp_get bm q"
  using assms
proof (induction "b - a" arbitrary: a)
  case 0
  then show ?case by simp
next
  case (Suc n)
  then have up: "[a..<b] = a # [Suc a..<b]" by (simp add: upt_conv_Cons)
  have full: "bm a = 0xFF"
    using Suc.prems(1) up find_low_bit [of "bm a"] by (auto split: option.splits)
  show ?case
  proof (cases "q div 8 = a")
    case True
    with full show ?thesis by (simp add: bmp_get_bit u8_all_ones)
  next
    case False
    with Suc.prems have "Suc a * 8 \<le> q" by auto
    moreover have "n = b - Suc a" "pmm_scan [Suc a..<b] bm = None"
      using Suc.hyps(2) Suc.prems(1) full up by simp_all
    ultimately show ?thesis using Suc.hyps(1) Suc.prems(3) by blast
  qed
qed


text \<open>The pages the allocator can hand out: whole bitmap bytes below \<open>total_pages\<close>.\<close>

definition pmm_allocatable :: "pmm_state \<Rightarrow> nat set" where
  "pmm_allocatable st = {p \<in> pmm_free_set st. p < 8 * (unat (total_pages st) div 8)}"

definition pmm_sized :: "pmm_state \<Rightarrow> bool" where
  "pmm_sized st \<longleftrightarrow> unat (total_pages st) \<le> 1048576"

lemma unat_total_div8: "unat (total_pages st div 8) = unat (total_pages st) div 8"
  by (simp add: unat_div_u32)

lemma page_addr: "p < 1048576 \<Longrightarrow> unat (of_nat p * PAGE_SIZE) = p * 4096"
  by (simp add: PAGE_SIZE_def unat_word_ariths unat_of_nat_u32)

lemma pmm_page_addr: "p < 1048576 \<Longrightarrow> pmm_page (of_nat p * PAGE_SIZE) = p"
  by (simp add: pmm_page_def page_addr)

lemma pmm_alloc_cases:
  assumes "pmm_sized st"
  obtains (page) p where "p \<in> pmm_allocatable st" "\<forall>q \<in> pmm_allocatable st. p \<le> q"
      "pmm_alloc_page st = (of_nat p * PAGE_SIZE, mark_page_used p st)"
    | (none) "pmm_allocatable st = {}" "pmm_alloc_page st = (0, st)"
proof (cases "pmm_scan [0..<unat (total_pages st div 8)] (pmm_bitmap st)")
  case None
  from pmm_scan_None [OF None] have "pmm_allocatable st = {}"
    by (auto simp: pmm_allocatable_def pmm_free_set_def test_bit_pmm_def unat_total_div8
        mult.commute)
  with None none show ?thesis by (simp add: pmm_alloc_page_def)
next
  case (Some p)
  from pmm_scan_Some [OF Some]
  have p: "p < unat (total_pages st) div 8 * 8" "\<not> bmp_get (pmm_bitmap st) p"
    "\<forall>q<p. bmp_get (pmm_bitmap st) q" by (simp_all add: unat_total_div8)
  have "unat (total_pages st) div 8 * 8 \<le> 1048576"
    using assms unfolding pmm_sized_def by presburger
  with p have "p \<in> pmm_allocatable st"
    by (auto simp: pmm_allocatable_def pmm_free_set_def test_bit_pmm_def mult.commute)
  moreover have "\<forall>q \<in> pmm_allocatable st. p \<le> q"
    using p(3) by (auto simp: pmm_allocatable_def pmm_free_set_def test_bit_pmm_def not_less [symmetric])
  moreover have "pmm_alloc_page st = (of_nat p * PAGE_SIZE, mark_page_used p st)"
    using Some p(2) by (simp add: pmm_alloc_page_def mark_page_used_def test_bit_pmm_def)
  ultimately show ?thesis by (rule page)
qed

lemma allocatable_bound: "p \<in> pmm_allocatable st \<Longrightarrow> p < 1048576"
  by (simp add: pmm_allocatable_def pmm_free_set_def)

text \<open>
  C23. \<open>pmm_alloc_page\<close> is exact: when some whole bitmap byte below
  \<open>total_pages\<close> has a free page, it returns the address of the lowest such page
  and takes exactly that page out of the free set; otherwise it returns 0 and
  changes nothing.
\<close>
theorem pmm_alloc_page_lowest:
  assumes "pmm_sized st"
  shows "(if pmm_allocatable st = {} then pmm_alloc_page st = (0, st)
          else let p = Min (pmm_allocatable st)
               in unat (fst (pmm_alloc_page st)) = p * 4096 \<and>
                  pmm_free_set (snd (pmm_alloc_page st)) = pmm_free_set st - {p})"
  using assms
proof (cases rule: pmm_alloc_cases)
  case (page p)
  then have "Min (pmm_allocatable st) = p"
    by (intro Min_eqI) (auto simp: pmm_allocatable_def)
  with page show ?thesis by (auto simp: page_addr [OF allocatable_bound])
next
  case none
  then show ?thesis by simp
qed

theorem pmm_alloc_page_lowest_witness:
  "pmm_sized (pmm_mark_region_free 0x3000 0x2000 (pmm_init 64)) \<and>
   unat (fst (pmm_alloc_page (pmm_mark_region_free 0x3000 0x2000 (pmm_init 64)))) = 3 * 4096"
proof -
  let ?st = "pmm_mark_region_free 0x3000 0x2000 (pmm_init 64)"
  have tot: "total_pages ?st = 16"
    by (simp add: pmm_mark_region_free_def region_free unat_page pmm_init_def)
  have free: "pmm_free_set ?st = {3, 4}"
    by (auto simp: pmm_mark_region_free_def unat_page region_free pmm_init_free_set pmm_page_def)
  have h: "pmm_sized ?st" by (simp add: pmm_sized_def tot)
  have "pmm_allocatable ?st = {3, 4}" by (auto simp: pmm_allocatable_def free tot)
  then show ?thesis using h pmm_alloc_page_lowest [OF h] by (simp add: Let_def)
qed

section \<open>Sequences of operations\<close>

datatype pmm_op =
    Mark_used u32
  | Free_page u32
  | Mark_region_used u32 u32
  | Mark_region_free u32 u32
  | Alloc_page

fun pmm_step :: "pmm_op \<Rightarrow> pmm_state \<Rightarrow> pmm_state" where
  "pmm_step (Mark_used a) st = pmm_mark_used a st"
| "pmm_step (Free_page a) st = pmm_free_page a st"
| "pmm_step (Mark_region_used b l) st = pmm_mark_region_used b l st"
| "pmm_step (Mark_region_free b l) st = pmm_mark_region_free b l st"
| "pmm_step Alloc_page st = snd (pmm_alloc_page st)"

lemma pmm_alloc_frame [frame_simps]: "total_pages (snd (pmm_alloc_page st)) = total_pages st"
  by (simp add: pmm_alloc_page_def split: option.split)

lemma pmm_alloc_inv:
  assumes "pmm_inv st" "pmm_sized st"
  shows "pmm_inv (snd (pmm_alloc_page st))"
  using assms(2) by (cases rule: pmm_alloc_cases) (auto simp: assms(1) mark_used_inv allocatable_bound)

lemma pmm_step_inv:
  "pmm_inv st \<and> pmm_sized st \<Longrightarrow> pmm_inv (pmm_step opn st) \<and> pmm_sized (pmm_step opn st)"
  by (cases opn)
    (auto simp: pmm_mark_used_def pmm_free_page_def pmm_mark_region_used_def Let_def
      pmm_mark_region_free_def mark_used_inv mark_free_inv unat_page frame_simps pmm_sized_def
      region_used region_free pmm_alloc_inv)

lemma pmm_run_inv:
  "pmm_inv st \<and> pmm_sized st \<Longrightarrow> pmm_inv (fold pmm_step ops st) \<and> pmm_sized (fold pmm_step ops st)"
proof (induction ops arbitrary: st)
  case Nil
  then show ?case by simp
next
  case (Cons x ops)
  then have "pmm_inv (pmm_step x st) \<and> pmm_sized (pmm_step x st)" by (intro pmm_step_inv)
  then show ?case using Cons.IH by simp
qed

text \<open>
  C30. After any sequence of page-manager calls from boot, with at most 4 GB of
  memory, \<open>pmm_get_free_count\<close> is exactly the number of pages whose bitmap
  bit is clear: the counters never drift from the bitmap, and double frees or
  double marks are absorbed.
\<close>
theorem pmm_free_count_exact:
  assumes "unat kb \<le> 4194304"
  shows "unat (pmm_get_free_count (fold pmm_step ops (pmm_init kb))) =
         card (pmm_free_set (fold pmm_step ops (pmm_init kb)))"
proof -
  have "pmm_sized (pmm_init kb)"
    using assms by (simp add: pmm_sized_def pmm_init_def unat_div_u32)
  with pmm_init_inv pmm_run_inv have "pmm_inv (fold pmm_step ops (pmm_init kb))" by blast
  then show ?thesis
    using card_pmm_free_set [of "fold pmm_step ops (pmm_init kb)"]
    by (simp add: pmm_inv_def pmm_get_free_count_def unat_of_nat_u32)
qed

theorem pmm_free_count_exact_witness:
  "unat (pmm_get_free_count (fold pmm_step [Mark_region_free 0x3000 0x2000, Alloc_page,
      Free_page 0x3000, Free_page 0x3000] (pmm_init 64))) =
   card (pmm_free_set (fold pmm_step [Mark_region_free 0x3000 0x2000, Alloc_page,
      Free_page 0x3000, Free_page 0x3000] (pmm_init 64)))"
  by (rule pmm_free_count_exact) simp

text \<open>
  A region marked used is never handed out: as long as rounding its end up to
  a page does not wrap the 32-bit address, exactly the pages that contain a byte of
  \<open>[base, base + len)\<close> leave the free set.
\<close>
theorem pmm_region_used_protects:
  assumes "unat base + unat len + 4095 < 4294967296" "0 < unat len"
  shows "pmm_free_set (pmm_mark_region_used base len st) =
         pmm_free_set st - (\<lambda>a. a div 4096) ` {unat base..<unat base + unat len}"
proof -
  have eq: "base + len + PAGE_SIZE - 1 = (base + len) + 4095" by (simp add: PAGE_SIZE_def)
  have bl: "unat (base + len) = unat base + unat len"
    using assms by (simp add: unat_plus_small)
  have e: "unat (base + len + PAGE_SIZE - 1) = unat base + unat len + 4095"
    unfolding eq using assms bl unat_plus_small [of "base + len" 4095] by simp
  have "(\<lambda>a. a div 4096) ` {unat base..<unat base + unat len} =
      {unat base div 4096..<(unat base + unat len + 4095) div 4096}"
    using assms(2) by (rule image_div_interval)
  then show ?thesis
    by (simp add: pmm_mark_region_used_def unat_page region_used) (simp add: pmm_page_def e)
qed

theorem pmm_region_used_protects_witness:
  "pmm_free_set (pmm_mark_region_used 0x1800 0x1000 (pmm_init 64)) =
     pmm_free_set (pmm_init 64) - (\<lambda>a. a div 4096) ` {unat (0x1800 :: u32)..<unat (0x1800 :: u32) + unat (0x1000 :: u32)}"
  by (rule pmm_region_used_protects) simp_all

text \<open>
  The wrap-around that the hypothesis of the last theorem excludes is real: a region
  that reaches the last page of the address space marks nothing.
\<close>

lemma pmm_region_used_wraps: "pmm_mark_region_used 0xFFFFE000 0x2000 st = st"
  by (simp add: pmm_mark_region_used_def PAGE_SIZE_def unat_div_u32)

section \<open>The interface the rest of the kernel uses\<close>

text \<open>
  What the pager, the scheduler and the V86 and DPMI memory code rely on: an allocation
  either fails with address 0 and no effect, or takes one available frame out of the pool
  and returns its non-null, page-aligned address; a release puts the frame back.
  \<open>take_frames\<close> is the allocation loop of its clients, which stops at the first failure.
\<close>

fun take_frames :: "('s \<Rightarrow> u32 \<times> 's) \<Rightarrow> nat \<Rightarrow> 's \<Rightarrow> u32 list \<times> bool \<times> 's" where
  "take_frames alloc 0 s = ([], True, s)"
| "take_frames alloc (Suc n) s =
     (case alloc s of (p, s') \<Rightarrow>
        if p = 0 then ([], False, s')
        else case take_frames alloc n s' of (ps, ok, s'') \<Rightarrow> (p # ps, ok, s''))"

locale frame_source =
  fixes alloc :: "'s \<Rightarrow> u32 \<times> 's"
    and release :: "u32 \<Rightarrow> 's \<Rightarrow> 's"
    and avail :: "'s \<Rightarrow> nat set"
    and ok :: "'s \<Rightarrow> bool"
  assumes alloc_frame:
      "ok s \<Longrightarrow> alloc s = (a, s') \<Longrightarrow> a \<noteq> 0 \<Longrightarrow>
        pmm_page a \<in> avail s \<and> unat a = pmm_page a * 4096 \<and> avail s' = avail s - {pmm_page a} \<and> ok s'"
    and alloc_fails: "ok s \<Longrightarrow> alloc s = (0, s') \<Longrightarrow> s' = s"
    and release_frame:
      "ok s \<Longrightarrow> pmm_page a \<noteq> 0 \<Longrightarrow> ok (release a s) \<and> avail (release a s) = insert (pmm_page a) (avail s)"
    and frame_0: "ok s \<Longrightarrow> 0 \<notin> avail s"
begin

lemma two_frames_distinct:
  assumes "ok s" "alloc s = (a, s1)" "a \<noteq> 0" "alloc s1 = (b, s2)" "b \<noteq> 0"
  shows "pmm_page a \<noteq> pmm_page b"
  using alloc_frame [OF assms(1-3)] alloc_frame [of s1 b s2] assms by auto

lemma take_frames_spec:
  assumes "ok s" "take_frames alloc n s = (ps, b, s')"
  shows "distinct (map pmm_page ps) \<and> pmm_page ` set ps \<subseteq> avail s \<and>
    avail s' = avail s - pmm_page ` set ps \<and> ok s' \<and> (b \<longrightarrow> length ps = n) \<and>
    (\<forall>p \<in> set ps. p \<noteq> 0 \<and> unat p = pmm_page p * 4096)"
  using assms
proof (induction n arbitrary: s ps b s')
  case 0
  then show ?case by simp
next
  case (Suc n)
  obtain p s1 where p: "alloc s = (p, s1)" by fastforce
  show ?case
  proof (cases "p = 0")
    case True
    with Suc.prems p alloc_fails [of s s1] show ?thesis by auto
  next
    case False
    obtain qs c s2 where q: "take_frames alloc n s1 = (qs, c, s2)" by (metis prod_cases3)
    from alloc_frame [OF Suc.prems(1) p False]
    have a: "pmm_page p \<in> avail s" "unat p = pmm_page p * 4096" "avail s1 = avail s - {pmm_page p}" "ok s1"
      by auto
    have r: "ps = p # qs" "b = c" "s' = s2" using Suc.prems(2) p False q by auto
    show ?thesis using Suc.IH [OF a(4) q] False a(1-3) unfolding r by auto
  qed
qed

lemma release_all:
  assumes "ok s" "\<forall>p \<in> set ps. pmm_page p \<noteq> 0"
  shows "ok (fold release ps s) \<and> avail (fold release ps s) = avail s \<union> pmm_page ` set ps"
  using assms
proof (induction ps arbitrary: s)
  case Nil
  then show ?case by simp
next
  case (Cons p ps)
  then have "ok (release p s)" "avail (release p s) = insert (pmm_page p) (avail s)"
    using release_frame [of s p] by auto
  with Cons.IH [of "release p s"] Cons.prems show ?case by auto
qed

text \<open>Taking frames and giving them all back leaves the pool as it was.\<close>

lemma take_release:
  assumes "ok s" "take_frames alloc n s = (ps, b, s')"
  shows "ok (fold release ps s') \<and> avail (fold release ps s') = avail s"
proof -
  note t = take_frames_spec [OF assms]
  have "\<forall>p \<in> set ps. pmm_page p \<noteq> 0" using t frame_0 [OF assms(1)] by (metis image_eqI subsetD)
  moreover have "ok s'" "avail s' \<union> pmm_page ` set ps = avail s" using t by auto
  ultimately show ?thesis using release_all [of s' ps] by simp
qed

end

text \<open>
  The page manager provides the interface once page 0 is reserved, which
  \<open>kernel_main\<close> does before anything allocates.
\<close>

definition pmm_ok :: "pmm_state \<Rightarrow> bool" where
  "pmm_ok st \<longleftrightarrow> pmm_inv st \<and> pmm_sized st \<and> 0 \<notin> pmm_free_set st"

interpretation pmm: frame_source pmm_alloc_page pmm_free_page pmm_free_set pmm_ok
proof (unfold_locales, goal_cases)
  case (1 s a s')
  then have sz: "pmm_sized s" by (simp add: pmm_ok_def)
  show ?case
    using sz
  proof (cases rule: pmm_alloc_cases)
    case (page p)
    then have p: "p < 1048576" "p \<in> pmm_free_set s" and s': "s' = mark_page_used p s"
      and a: "a = of_nat p * PAGE_SIZE"
      using 1(2) by (auto simp: pmm_allocatable_def pmm_free_set_def)
    have "pmm_ok s'" using 1(1) p(1) by (auto simp: s' pmm_ok_def mark_used_inv pmm_sized_def frame_simps)
    with p show ?thesis by (simp add: a s' pmm_page_addr page_addr)
  next
    case none
    with 1 show ?thesis by simp
  qed
next
  case (2 s s')
  then have sz: "pmm_sized s" by (simp add: pmm_ok_def)
  show ?case
    using sz
  proof (cases rule: pmm_alloc_cases)
    case (page p)
    then have "p = 0" using 2(2) page_addr [OF allocatable_bound, of p s] by auto
    with page 2(1) show ?thesis by (auto simp: pmm_ok_def pmm_allocatable_def)
  next
    case none
    with 2 show ?thesis by simp
  qed
next
  case (3 s a)
  then show ?case
    by (auto simp: pmm_ok_def pmm_free_page_def unat_page mark_free_inv pmm_sized_def frame_simps)
next
  case (4 s)
  then show ?case by (simp add: pmm_ok_def)
qed

end
