(* ===== verification/Kheap.thy ===== *)
theory Kheap
  imports Prelude
begin

text \<open>
  The kernel heap, src/src/kernel/heap.c. A block header is three 32-bit words in
  memory (\<open>size\<close>, \<open>free\<close>, \<open>next\<close>), so the heap is a store of 32-bit words by
  address and the free list is walked through the \<open>next\<close> pointers found there.
  A list that is not terminated would make the walks run forever: they are partial
  functions, and that they return on a well-formed heap is part of the theorems.
\<close>

section \<open>Headers in memory and the allocator\<close>

definition HEADER_SIZE :: u32 where
  "HEADER_SIZE = 12"

record heap_state =
  hmem :: mem32
  heap_start :: u32
  heap_end_addr :: u32

text \<open>
  The fields of the header at address \<open>a\<close>: \<open>size\<close> at \<open>a\<close>, \<open>free\<close> at \<open>a + 4\<close>,
  \<open>next\<close> at \<open>a + 8\<close>.
\<close>

definition heap_init :: "u32 \<Rightarrow> u32 \<Rightarrow> heap_state \<Rightarrow> heap_state" where
  "heap_init start0 sz0 st =
     (let start = (start0 + 3) AND NOT 3;
          sz = sz0 - sz0 mod 4;
          m1 = (hmem st)(start := sz - HEADER_SIZE);
          m2 = m1(start + 4 := 1);
          m3 = m2(start + 8 := 0)
      in st\<lparr>hmem := m3, heap_start := start, heap_end_addr := start + sz\<rparr>)"

text \<open>Splitting the tail of a block off as a new free block.\<close>

definition split_block :: "mem32 \<Rightarrow> u32 \<Rightarrow> u32 \<Rightarrow> mem32" where
  "split_block m cur sz =
     (let nb = cur + HEADER_SIZE + sz;
          m1 = m(nb := m cur - sz - HEADER_SIZE);
          m2 = m1(nb + 4 := 1);
          m3 = m2(nb + 8 := m2 (cur + 8));
          m4 = m3(cur := sz)
      in m4(cur + 8 := nb))"

partial_function (option) kmalloc_walk :: "mem32 \<Rightarrow> u32 \<Rightarrow> u32 \<Rightarrow> (u32 \<times> mem32) option" where
  "kmalloc_walk m sz cur =
     (if cur = 0 then Some (0, m)
      else if m (cur + 4) \<noteq> 0 \<and> sz \<le> m cur then
        (let m' = (if sz + HEADER_SIZE + 16 \<le> m cur then split_block m cur sz else m)
         in Some (cur + HEADER_SIZE, m'(cur + 4 := 0)))
      else kmalloc_walk m sz (m (cur + 8)))"

definition kmalloc :: "u32 \<Rightarrow> heap_state \<Rightarrow> (u32 \<times> heap_state) option" where
  "kmalloc sz st =
     (if sz = 0 then Some (0, st)
      else case kmalloc_walk (hmem st) ((sz + 3) AND NOT 3) (heap_start st) of
             None \<Rightarrow> None
           | Some (p, m) \<Rightarrow> Some (p, st\<lparr>hmem := m\<rparr>))"

partial_function (option) kfree_merge :: "mem32 \<Rightarrow> u32 \<Rightarrow> mem32 option" where
  "kfree_merge m cur =
     (if cur = 0 then Some m
      else if m (cur + 4) \<noteq> 0 \<and> m (cur + 8) \<noteq> 0 \<and> m (m (cur + 8) + 4) \<noteq> 0 then
        (let m1 = m(cur := m cur + (HEADER_SIZE + m (m (cur + 8))));
             m2 = m1(cur + 8 := m1 (m1 (cur + 8) + 8))
         in kfree_merge m2 cur)
      else kfree_merge m (m (cur + 8)))"

definition kfree :: "u32 \<Rightarrow> heap_state \<Rightarrow> heap_state option" where
  "kfree ptr st =
     (if ptr = 0 then Some st
      else (let header = ptr - HEADER_SIZE;
                m = (hmem st)(header + 4 := 1)
            in map_option (\<lambda>m'. st\<lparr>hmem := m'\<rparr>) (kfree_merge m (heap_start st))))"

section \<open>The block list\<close>

text \<open>
  Abstraction: the heap is a list of blocks (data size, free flag) laid out without gaps
  from \<open>a\<close> to \<open>e\<close>, each preceded by its 12-byte header, chained by \<open>next\<close>.
\<close>

type_synonym block = "nat \<times> bool"

definition hdr_ok :: "mem32 \<Rightarrow> nat \<Rightarrow> nat \<Rightarrow> bool \<Rightarrow> nat \<Rightarrow> bool" where
  "hdr_ok m a sz f nx \<longleftrightarrow>
     unat (m (of_nat a)) = sz \<and> (m (of_nat a + 4) \<noteq> 0) = f \<and> unat (m (of_nat a + 8)) = nx \<and>
     sz mod 4 = 0"

fun chain :: "mem32 \<Rightarrow> nat \<Rightarrow> block list \<Rightarrow> nat \<Rightarrow> bool" where
  "chain m a [] e = False"
| "chain m a [(sz, f)] e = (hdr_ok m a sz f 0 \<and> a + 12 + sz = e)"
| "chain m a ((sz, f) # b # bs) e =
     (hdr_ok m a sz f (a + 12 + sz) \<and> chain m (a + 12 + sz) (b # bs) e)"

definition heap_rel :: "heap_state \<Rightarrow> block list \<Rightarrow> bool" where
  "heap_rel st bs \<longleftrightarrow>
     chain (hmem st) (unat (heap_start st)) bs (unat (heap_end_addr st)) \<and>
     16 \<le> unat (heap_start st) \<and> unat (heap_start st) mod 4 = 0"

text \<open>First-fit allocation and coalescing on block lists.\<close>

fun abs_alloc :: "nat \<Rightarrow> nat \<Rightarrow> block list \<Rightarrow> (nat \<times> block list) option" where
  "abs_alloc n a [] = None"
| "abs_alloc n a ((sz, f) # bs) =
     (if f \<and> n \<le> sz
      then Some (a + 12, (if n + 28 \<le> sz then [(n, False), (sz - n - 12, True)] else [(sz, False)]) @ bs)
      else map_option (\<lambda>(p, bs'). (p, (sz, f) # bs')) (abs_alloc n (a + 12 + sz) bs))"

fun abs_merge :: "block list \<Rightarrow> block list" where
  "abs_merge ((s1, True) # (s2, True) # bs) = abs_merge ((s1 + 12 + s2, True) # bs)"
| "abs_merge (b # bs) = b # abs_merge bs"
| "abs_merge [] = []"

text \<open>The blocks in use, with their data addresses.\<close>

fun live :: "nat \<Rightarrow> block list \<Rightarrow> (nat \<times> nat) set" where
  "live a [] = {}"
| "live a ((sz, f) # bs) = (if f then {} else {(a + 12, sz)}) \<union> live (a + 12 + sz) bs"

fun abs_free :: "nat \<Rightarrow> nat \<Rightarrow> block list \<Rightarrow> block list" where
  "abs_free p a [] = []"
| "abs_free p a ((sz, f) # bs) =
     (if p = a + 12 then (sz, True) # bs else (sz, f) # abs_free p (a + 12 + sz) bs)"

fun coalesced :: "block list \<Rightarrow> bool" where
  "coalesced ((s1, f1) # (s2, f2) # bs) = (\<not> (f1 \<and> f2) \<and> coalesced ((s2, f2) # bs))"
| "coalesced bs = True"

section \<open>Lemmas on chains\<close>

lemma chain_end: "chain m a bs e \<Longrightarrow> a + 12 \<le> e"
  by (induction m a bs e rule: chain.induct) auto

lemma chain_Cons:
  "chain m a ((sz, f) # bs) e \<longleftrightarrow>
     hdr_ok m a sz f (if bs = [] then 0 else a + 12 + sz) \<and>
     (if bs = [] then a + 12 + sz = e else chain m (a + 12 + sz) bs e)"
  by (cases bs) auto

lemma addr_plus: "of_nat a + 4 = (of_nat (a + 4) :: u32)" "of_nat a + 8 = (of_nat (a + 8) :: u32)"
  "of_nat a + 12 = (of_nat (a + 12) :: u32)"
  by simp_all

lemma hdr_ok_cong:
  assumes "\<And>x :: u32. a \<le> unat x \<Longrightarrow> unat x < a + 12 \<Longrightarrow> m' x = m x" "a + 12 < 4294967296"
  shows "hdr_ok m' a sz f nx = hdr_ok m a sz f nx"
proof -
  have u: "k < 12 \<Longrightarrow> m' (of_nat (a + k)) = m (of_nat (a + k))" for k
    by (rule assms(1)) (use assms(2) in \<open>simp_all add: unat_of_nat_u32 del: of_nat_add\<close>)
  show ?thesis unfolding hdr_ok_def addr_plus using u [of 0] u [of 4] u [of 8] by simp
qed

lemma chain_cong:
  assumes "\<And>x :: u32. a \<le> unat x \<Longrightarrow> m' x = m x" "e < 4294967296"
  shows "chain m a bs e \<Longrightarrow> chain m' a bs e"
  using assms
proof (induction bs arbitrary: a)
  case Nil
  then show ?case by simp
next
  case (Cons b bs)
  obtain sz f where b: "b = (sz, f)" by fastforce
  have e: "a + 12 \<le> e" using chain_end [OF Cons.prems(1)] .
  have h: "hdr_ok m' a s g n = hdr_ok m a s g n" for s g n
    by (rule hdr_ok_cong) (use Cons.prems e in auto)
  show ?case using Cons.prems Cons.IH [of "a + 12 + sz"] by (auto simp: b chain_Cons h)
qed


lemma hdr_addrs:
  assumes "a + 12 < 4294967296"
  shows "unat (of_nat a :: u32) = a" "unat (of_nat a + 4 :: u32) = a + 4"
    "unat (of_nat a + 8 :: u32) = a + 8" "unat (of_nat a + 12 :: u32) = a + 12"
  unfolding addr_plus using assms by (auto simp: unat_of_nat_u32 simp del: of_nat_add)

lemma split_block_hdrs:
  assumes "hdr_ok m a sz True nx" "n + 28 \<le> sz" "a + 12 + sz < 4294967296" "n mod 4 = 0"
  defines "m' \<equiv> (split_block m (of_nat a) (of_nat n))(of_nat a + 4 := 0)"
  shows "hdr_ok m' a n False (a + 12 + n)" "hdr_ok m' (a + 12 + n) (sz - n - 12) True nx"
    "\<And>x. unat x < a \<or> a + 12 + sz \<le> unat x \<Longrightarrow> m' x = m x"
proof -
  define A N :: u32 where "A = of_nat a" and "N = of_nat (a + 12 + n)"
  have A: "unat A = a" "unat (A + 4) = a + 4" "unat (A + 8) = a + 8"
    using assms(2,3) hdr_addrs [of a] by (auto simp: A_def)
  have N: "unat N = a + 12 + n" "unat (N + 4) = a + 12 + n + 4" "unat (N + 8) = a + 12 + n + 8"
    using assms(2,3) hdr_addrs [of "a + 12 + n"] by (auto simp: N_def)
  have nN: "A + 12 + of_nat n = N" by (simp add: A_def N_def)
  note neq = word_unat_eq_iff [of A] word_unat_eq_iff [of N] word_unat_eq_iff [of "A + 4"]
    word_unat_eq_iff [of "A + 8"] word_unat_eq_iff [of "N + 4"] word_unat_eq_iff [of "N + 8"]
  have m': "m' = (m(N := m A - of_nat n - 12, N + 4 := 1, N + 8 := m (A + 8), A := of_nat n,
      A + 8 := N))(A + 4 := 0)"
  proof -
    have "A + 8 \<noteq> N" "A + 8 \<noteq> N + 4" unfolding neq A N by simp_all
    then have "(m(N := v, N + 4 := 1)) (A + 8) = m (A + 8)" for v by (simp only: fun_upd_other not_False_eq_True)
    then show ?thesis
      unfolding m'_def split_block_def A_def [symmetric] Let_def HEADER_SIZE_def nN by simp
  qed
  have h: "unat (m A) = sz" "unat (m (A + 8)) = nx" "sz mod 4 = 0"
    using assms(1) by (simp_all add: hdr_ok_def A_def)
  have u: "unat (of_nat n :: u32) = n" using assms(2,3) by (simp add: unat_of_nat_u32)
  have le: "of_nat n \<le> m A" using h u assms(2) by (simp add: word_le_nat_alt)
  have s1: "unat (m A - of_nat n) = sz - n" using unat_sub [OF le] h u by simp
  have "(12 :: u32) \<le> m A - of_nat n" using s1 assms(2) by (simp add: word_le_nat_alt)
  then have s2: "unat (m A - of_nat n - 12) = sz - n - 12" using unat_sub s1 by fastforce
  have v: "m' A = of_nat n" "m' (A + 4) = 0" "m' (A + 8) = N"
    "m' N = m A - of_nat n - 12" "m' (N + 4) = 1" "m' (N + 8) = m (A + 8)"
    unfolding m' by (simp_all add: neq A N)
  show "hdr_ok m' a n False (a + 12 + n)"
    unfolding hdr_ok_def A_def [symmetric] using v N u assms(4) by simp
  have "(sz - n - 12) mod 4 = 0" using h(3) assms(2,4) by presburger
  then show "hdr_ok m' (a + 12 + n) (sz - n - 12) True nx"
    unfolding hdr_ok_def N_def [symmetric] using v h s2 by simp
  show "m' x = m x" if "unat x < a \<or> a + 12 + sz \<le> unat x" for x
    unfolding m' using that A N assms(2) by (auto simp: fun_upd_def)
qed

lemma take_block_hdr:
  assumes "hdr_ok m a sz True nx" "a + 12 < 4294967296"
  defines "m' \<equiv> m(of_nat a + 4 := 0)"
  shows "hdr_ok m' a sz False nx" "\<And>x. unat x < a \<or> a + 12 \<le> unat x \<Longrightarrow> m' x = m x"
  using assms hdr_addrs [OF assms(2)]
  by (auto simp: hdr_ok_def fun_upd_def word_unat_eq_iff)

lemma next_word:
  assumes "hdr_ok m a sz f (a + 12 + sz)" "a + 12 + sz < 4294967296"
  shows "m (of_nat a + 8) = of_nat (a + 12 + sz)"
proof -
  have "unat (m (of_nat a + 8)) = unat (of_nat (a + 12 + sz) :: u32)"
    using assms unfolding unat_of_nat_u32 [OF assms(2)] by (simp add: hdr_ok_def)
  then show ?thesis by (rule word_unat_eq_iff [THEN iffD2])
qed

section \<open>Allocation refines first fit\<close>

lemma fit_test:
  assumes "hdr_ok m a sz f nx" "n < 4294967296"
  shows "(m (of_nat a + 4) \<noteq> 0 \<and> of_nat n \<le> m (of_nat a)) = (f \<and> n \<le> sz)"
  using assms by (auto simp: hdr_ok_def word_le_nat_alt unat_of_nat_u32)

lemma split_test:
  assumes "hdr_ok m a sz f nx" "n + 28 < 4294967296"
  shows "(of_nat n + HEADER_SIZE + 16 \<le> m (of_nat a)) = (n + 28 \<le> sz)"
proof -
  have "of_nat n + HEADER_SIZE + 16 = (of_nat (n + 28) :: u32)" by (simp add: HEADER_SIZE_def)
  then have "unat (of_nat n + HEADER_SIZE + 16 :: u32) = n + 28"
    using assms(2) by (metis unat_of_nat_u32)
  then show ?thesis using assms(1) by (simp add: hdr_ok_def word_le_nat_alt)
qed

definition walk_post :: "mem32 \<Rightarrow> nat \<Rightarrow> nat \<Rightarrow> block list \<Rightarrow> nat \<Rightarrow> u32 \<times> mem32 \<Rightarrow> bool" where
  "walk_post m n a bs e r \<longleftrightarrow>
     (\<forall>x. unat x < a \<longrightarrow> snd r x = m x) \<and>
     (case abs_alloc n a bs of
        None \<Rightarrow> r = (0, m)
      | Some (q, bs') \<Rightarrow> unat (fst r) = q \<and> chain (snd r) a bs' e)"

lemma kmalloc_walk_refines:
  assumes "chain m a bs e" "e < 4294967296" "16 \<le> a" "n mod 4 = 0" "n < 4294967296"
  shows "\<exists>r. kmalloc_walk m (of_nat n) (of_nat a) = Some r \<and> walk_post m n a bs e r"
  using assms(1,3)
proof (induction bs arbitrary: a)
  case Nil
  then show ?case by simp
next
  case (Cons b bs)
  obtain sz f where b: "b = (sz, f)" by fastforce
  define nx where "nx = (if bs = [] then 0 else a + 12 + sz)"
  have h: "hdr_ok m a sz f nx" and rest: "if bs = [] then a + 12 + sz = e else chain m (a + 12 + sz) bs e"
    using Cons.prems(1) by (auto simp: b chain_Cons nx_def)
  have e: "a + 12 + sz \<le> e" using rest chain_end [of m "a + 12 + sz" bs e] by (auto split: if_splits)
  have a: "of_nat a \<noteq> (0 :: u32)" "unat (of_nat a + 12 :: u32) = a + 12"
    using e assms(2) Cons.prems(2) hdr_addrs [of a] by (auto simp: word_unat_eq_iff [of _ 0])
  show ?case
  proof (cases "f \<and> n \<le> sz")
    case True
    define m1 where "m1 = (if n + 28 \<le> sz then split_block m (of_nat a) (of_nat n) else m)(of_nat a + 4 := 0)"
    have run: "kmalloc_walk m (of_nat n) (of_nat a) = Some (of_nat a + HEADER_SIZE, m1)"
      using True a(1) fit_test [OF h assms(5)] split_test [OF h] e assms(2) Cons.prems(2)
      by (subst kmalloc_walk.simps) (auto simp: m1_def Let_def)
    have "chain m1 a ((if n + 28 \<le> sz then [(n, False), (sz - n - 12, True)] else [(sz, False)]) @ bs) e
      \<and> (\<forall>x. unat x < a \<longrightarrow> m1 x = m x)"
    proof (cases "n + 28 \<le> sz")
      case big: True
      note sp = split_block_hdrs [of m a sz nx n]
      have hd: "hdr_ok m1 a n False (a + 12 + n)" "hdr_ok m1 (a + 12 + n) (sz - n - 12) True nx"
        and fr: "\<And>x. unat x < a \<or> a + 12 + sz \<le> unat x \<Longrightarrow> m1 x = m x"
        using sp h True big e assms(2,4) by (auto simp: m1_def)
      have "bs \<noteq> [] \<Longrightarrow> chain m1 (a + 12 + sz) bs e"
        using rest fr assms(2) by (intro chain_cong [of "a + 12 + sz" m1 m e bs]) auto
      moreover have "a + 12 + n + 12 + (sz - n - 12) = a + 12 + sz" using big by simp
      ultimately show ?thesis using big hd fr rest
        by (auto simp: chain_Cons nx_def add_ac split: if_splits)
    next
      case small: False
      have hd: "hdr_ok m1 a sz False nx" and fr: "\<And>x. unat x < a \<or> a + 12 \<le> unat x \<Longrightarrow> m1 x = m x"
        using take_block_hdr [of m a sz nx] h True small e assms(2) by (auto simp: m1_def)
      have "bs \<noteq> [] \<Longrightarrow> chain m1 (a + 12 + sz) bs e"
        using rest fr assms(2) by (intro chain_cong [of "a + 12 + sz" m1 m e bs]) auto
      then show ?thesis using small hd fr rest by (auto simp: chain_Cons nx_def split: if_splits)
    qed
    then show ?thesis unfolding run using True a(2)
      by (auto simp: walk_post_def b HEADER_SIZE_def)
  next
    case False
    have step: "kmalloc_walk m (of_nat n) (of_nat a) = kmalloc_walk m (of_nat n) (m (of_nat a + 8))"
      using False a(1) fit_test [OF h assms(5)] by (subst kmalloc_walk.simps) auto
    show ?thesis
    proof (cases "bs = []")
      case True
      then have "m (of_nat a + 8) = 0" using h by (simp add: hdr_ok_def nx_def unat_eq_0)
      then show ?thesis unfolding step using False True
        by (subst kmalloc_walk.simps) (auto simp: walk_post_def b)
    next
      case more: False
      then have nxw: "m (of_nat a + 8) = of_nat (a + 12 + sz)"
        using h e assms(2) by (intro next_word [of m a sz f]) (auto simp: nx_def)
      from Cons.IH [of "a + 12 + sz"] rest more Cons.prems(2)
      obtain r where r: "kmalloc_walk m (of_nat n) (of_nat (a + 12 + sz)) = Some r"
        "walk_post m n (a + 12 + sz) bs e r" by auto
      then have fr: "\<And>x. unat x < a + 12 + sz \<Longrightarrow> snd r x = m x" by (simp add: walk_post_def)
      have "hdr_ok (snd r) a sz f nx"
        using h fr e assms(2) by (subst hdr_ok_cong [of a "snd r" m]) auto
      moreover have "bs' \<noteq> []" if "chain (snd r) (a + 12 + sz) bs' e" for bs' using that by auto
      ultimately have "walk_post m n a (b # bs) e r"
        using r(2) False more fr
        by (auto simp: walk_post_def b chain_Cons nx_def split: option.splits)
      with r(1) show ?thesis unfolding step nxw by blast
    qed
  qed
qed


section \<open>Freeing and coalescing\<close>

lemma merge_hdr:
  assumes h1: "hdr_ok m a s1 True (a + 12 + s1)" and h2: "hdr_ok m (a + 12 + s1) s2 True nx"
    and e: "a + 12 + s1 + 12 + s2 < 4294967296"
  defines "N \<equiv> of_nat (a + 12 + s1)"
  defines "m' \<equiv> m(of_nat a := m (of_nat a) + (HEADER_SIZE + m N), of_nat a + 8 := m (N + 8))"
  shows "hdr_ok m' a (s1 + 12 + s2) True nx" "\<And>x. unat x < a \<or> a + 12 \<le> unat x \<Longrightarrow> m' x = m x"
proof -
  have A: "unat (of_nat a :: u32) = a" "unat (of_nat a + 4 :: u32) = a + 4" "unat (of_nat a + 8 :: u32) = a + 8"
    using e hdr_addrs [of a] by auto
  have "unat (HEADER_SIZE + m N) = 12 + s2"
    using h2 e unat_plus_small [of HEADER_SIZE "m N"] by (simp add: hdr_ok_def N_def HEADER_SIZE_def)
  then have "unat (m (of_nat a) + (HEADER_SIZE + m N)) = s1 + 12 + s2"
    using h1 e unat_plus_small [of "m (of_nat a)" "HEADER_SIZE + m N"] by (simp add: hdr_ok_def)
  moreover have "(s1 + 12 + s2) mod 4 = 0"
  proof -
    have "s1 mod 4 = 0" "s2 mod 4 = 0" using h1 h2 by (simp_all add: hdr_ok_def)
    then show ?thesis by presburger
  qed
  moreover have "of_nat a \<noteq> (of_nat a + 4 :: u32)" "of_nat a + 4 \<noteq> (of_nat a + 8 :: u32)" by simp_all
  ultimately show "hdr_ok m' a (s1 + 12 + s2) True nx"
    using h1 h2 by (simp add: hdr_ok_def m'_def N_def)
  show "m' x = m x" if "unat x < a \<or> a + 12 \<le> unat x" for x
    using that A by (auto simp: m'_def fun_upd_def)
qed

lemma abs_merge_step:
  "\<not> (f \<and> bs \<noteq> [] \<and> snd (hd bs)) \<Longrightarrow> abs_merge ((sz, f) # bs) = (sz, f) # abs_merge bs"
proof (cases bs)
  case (Cons b bs')
  assume "\<not> (f \<and> bs \<noteq> [] \<and> snd (hd bs))"
  with Cons show ?thesis by (cases f; cases b; cases "snd b") auto
qed (cases f, simp_all)

lemma abs_merge_Nil: "abs_merge bs = [] \<longleftrightarrow> bs = []"
  by (induction bs rule: abs_merge.induct) auto

lemma kfree_merge_refines:
  assumes "e < 4294967296"
  shows "chain m a bs e \<Longrightarrow> 16 \<le> a \<Longrightarrow>
    \<exists>m'. kfree_merge m (of_nat a) = Some m' \<and> chain m' a (abs_merge bs) e \<and> (\<forall>x. unat x < a \<longrightarrow> m' x = m x)"
proof (induction "length bs" arbitrary: bs m a)
  case 0
  then show ?case by simp
next
  case (Suc n)
  then obtain sz f rest where bs: "bs = (sz, f) # rest" by (metis Suc_length_conv surj_pair)
  define nx where "nx = (if rest = [] then 0 else a + 12 + sz)"
  have h: "hdr_ok m a sz f nx" and tail: "if rest = [] then a + 12 + sz = e else chain m (a + 12 + sz) rest e"
    using Suc.prems(1) by (auto simp: bs chain_Cons nx_def)
  have e: "a + 12 + sz \<le> e" using tail chain_end [of m "a + 12 + sz" rest e] by (auto split: if_splits)
  have a0: "of_nat a \<noteq> (0 :: u32)"
    using e assms Suc.prems(2) hdr_addrs [of a] by (auto simp: word_unat_eq_iff [of _ 0])
  have free: "(m (of_nat a + 4) \<noteq> 0) = f" using h by (simp add: hdr_ok_def)
  show ?case
  proof (cases rest)
    case Nil
    then have "m (of_nat a + 8) = 0" using h by (simp add: hdr_ok_def nx_def unat_eq_0)
    then have "kfree_merge m (of_nat a) = Some m"
      using a0 by (subst kfree_merge.simps) (simp add: kfree_merge.simps)
    then show ?thesis using Suc.prems(1) by (cases f) (auto simp: bs Nil)
  next
    case (Cons b bs')
    obtain s2 f2 where b: "b = (s2, f2)" by fastforce
    define N :: u32 where "N = of_nat (a + 12 + sz)"
    have nx: "nx = a + 12 + sz" by (simp add: nx_def Cons)
    have nw: "m (of_nat a + 8) = N" using next_word [of m a sz f] h e assms by (simp add: nx N_def)
    define nx2 where "nx2 = (if bs' = [] then 0 else a + 12 + sz + 12 + s2)"
    have h2: "hdr_ok m (a + 12 + sz) s2 f2 nx2"
      and tail2: "if bs' = [] then a + 12 + sz + 12 + s2 = e else chain m (a + 12 + sz + 12 + s2) bs' e"
      using tail by (auto simp: Cons b chain_Cons nx2_def)
    have e2: "a + 12 + sz + 12 + s2 \<le> e"
      using tail2 chain_end [of m "a + 12 + sz + 12 + s2" bs' e] by (auto split: if_splits)
    have "unat N = a + 12 + sz" using e2 assms by (simp add: N_def unat_of_nat_u32 del: of_nat_add)
    then have N0: "N \<noteq> 0" by auto
    have free2: "(m (N + 4) \<noteq> 0) = f2" using h2 by (simp add: hdr_ok_def N_def)
    show ?thesis
    proof (cases "f \<and> f2")
      case True
      define m1 where "m1 = m(of_nat a := m (of_nat a) + (HEADER_SIZE + m N), of_nat a + 8 := m (N + 8))"
      have hd: "hdr_ok m1 a (sz + 12 + s2) True nx2"
        and fr: "\<And>x. unat x < a \<or> a + 12 \<le> unat x \<Longrightarrow> m1 x = m x"
        using merge_hdr [of m a sz s2 nx2] h h2 True e2 assms by (auto simp: m1_def N_def nx)
      have "bs' \<noteq> [] \<Longrightarrow> chain m1 (a + 12 + sz + 12 + s2) bs' e"
        using tail2 fr assms by (intro chain_cong [of _ m1 m e bs']) auto
      then have ch: "chain m1 a ((sz + 12 + s2, True) # bs') e"
        using hd tail2 by (auto simp: chain_Cons nx2_def add_ac split: if_splits)
      have "of_nat a \<noteq> N + 8" "of_nat a \<noteq> (of_nat a + 8 :: u32)"
        using \<open>unat N = a + 12 + sz\<close> e2 assms hdr_addrs [of a] hdr_addrs [of "a + 12 + sz"]
        by (auto simp: N_def word_unat_eq_iff [of "of_nat a"])
      then have step: "kfree_merge m (of_nat a) = kfree_merge m1 (of_nat a)"
        using a0 free free2 nw N0 True by (subst kfree_merge.simps) (simp add: Let_def m1_def)
      from Suc.hyps(1) [of "(sz + 12 + s2, True) # bs'" m1 a] Suc.hyps(2) ch Suc.prems(2)
      obtain m' where m': "kfree_merge m1 (of_nat a) = Some m'"
        "chain m' a (abs_merge ((sz + 12 + s2, True) # bs')) e" "\<forall>x. unat x < a \<longrightarrow> m' x = m1 x"
        by (auto simp: bs Cons)
      then show ?thesis using step fr True by (auto simp: bs Cons b)
    next
      case False
      have step: "kfree_merge m (of_nat a) = kfree_merge m N"
        using a0 free free2 nw False by (subst kfree_merge.simps) auto
      from Suc.hyps(1) [of rest m "a + 12 + sz"] Suc.hyps(2) tail Suc.prems(2)
      obtain m' where m': "kfree_merge m N = Some m'" "chain m' (a + 12 + sz) (abs_merge rest) e"
        "\<forall>x. unat x < a + 12 + sz \<longrightarrow> m' x = m x"
        by (auto simp: bs Cons N_def)
      have "hdr_ok m' a sz f nx"
        using h m'(3) e assms by (subst hdr_ok_cong [of a m' m]) auto
      then have "chain m' a ((sz, f) # abs_merge rest) e"
        using m'(2) by (simp add: chain_Cons nx Cons abs_merge_Nil)
      moreover have "abs_merge bs = (sz, f) # abs_merge rest"
        unfolding bs by (rule abs_merge_step) (use False in \<open>auto simp: Cons b\<close>)
      ultimately show ?thesis using step m' by auto
    qed
  qed
qed

lemma live_bounds: "chain m a bs e \<Longrightarrow> (p, n) \<in> live a bs \<Longrightarrow> a + 12 \<le> p \<and> p + n \<le> e"
proof (induction bs arbitrary: a)
  case Nil
  then show ?case by simp
next
  case (Cons b bs)
  obtain sz f where b: "b = (sz, f)" by fastforce
  have end_le: "a + 12 + sz \<le> e"
    using Cons.prems(1) chain_end [of m "a + 12 + sz" bs e] by (auto simp: b chain_Cons split: if_splits)
  show ?case
  proof (cases "(p, n) \<in> live (a + 12 + sz) bs")
    case True
    then have "chain m (a + 12 + sz) bs e" using Cons.prems(1) by (auto simp: b chain_Cons split: if_splits)
    from Cons.IH [OF this True] show ?thesis by simp
  next
    case False
    then show ?thesis using Cons.prems(2) end_le by (auto simp: b split: if_splits)
  qed
qed

lemma mark_free_refines:
  assumes "e < 4294967296"
  shows "chain m a bs e \<Longrightarrow> (p, n) \<in> live a bs \<Longrightarrow>
    chain (m(of_nat (p - 12) + 4 := 1)) a (abs_free p a bs) e \<and> a + 12 \<le> p"
proof (induction bs arbitrary: a)
  case Nil
  then show ?case by simp
next
  case (Cons b bs)
  obtain sz f where b: "b = (sz, f)" by fastforce
  define nx where "nx = (if bs = [] then 0 else a + 12 + sz)"
  have h: "hdr_ok m a sz f nx" and tail: "if bs = [] then a + 12 + sz = e else chain m (a + 12 + sz) bs e"
    using Cons.prems(1) by (auto simp: b chain_Cons nx_def)
  have e: "a + 12 + sz \<le> e" using tail chain_end [of m "a + 12 + sz" bs e] by (auto split: if_splits)
  have A: "unat (of_nat a + 4 :: u32) = a + 4" using hdr_addrs [of a] e assms by simp
  show ?case
  proof (cases "p = a + 12")
    case True
    let ?m = "m(of_nat a + 4 := 1)"
    have "hdr_ok ?m a sz True nx" using h by (simp add: hdr_ok_def)
    moreover have "bs \<noteq> [] \<Longrightarrow> chain ?m (a + 12 + sz) bs e"
      using tail assms A by (intro chain_cong [of _ ?m m e bs]) auto
    ultimately have "chain ?m a ((sz, True) # bs) e" using tail by (auto simp: chain_Cons nx_def)
    moreover have "p - 12 = a" "abs_free p a (b # bs) = (sz, True) # bs" using True by (simp_all add: b)
    ultimately show ?thesis using True by (simp only: le_refl simp_thms)
  next
    case False
    with Cons.prems(2) have lv: "(p, n) \<in> live (a + 12 + sz) bs" by (auto simp: b split: if_splits)
    then have ne: "bs \<noteq> []" by auto
    let ?m = "m(of_nat (p - 12) + 4 := 1)"
    have "chain m (a + 12 + sz) bs e" using tail ne by simp
    from Cons.IH [OF this lv]
    have IH: "chain ?m (a + 12 + sz) (abs_free p (a + 12 + sz) bs) e" "a + 12 + sz + 12 \<le> p" by blast+
    have "p \<le> e" using live_bounds [OF \<open>chain m (a + 12 + sz) bs e\<close> lv] by simp
    then have "unat (of_nat (p - 12) + 4 :: u32) = p - 12 + 4"
      using hdr_addrs [of "p - 12"] IH(2) assms by simp
    then have "hdr_ok ?m a sz f nx"
      using h IH(2) e assms by (subst hdr_ok_cong [of a ?m m]) auto
    moreover have ne': "abs_free p (a + 12 + sz) bs \<noteq> []" using IH(1) chain.simps(1) by metis
    ultimately have "chain ?m a ((sz, f) # abs_free p (a + 12 + sz) bs) e"
      unfolding chain_Cons using IH(1) ne by (simp only: nx_def if_False simp_thms)
    moreover have "abs_free p a (b # bs) = (sz, f) # abs_free p (a + 12 + sz) bs"
      using False by (simp add: b)
    moreover have "a + 12 \<le> p" using IH(2) by simp
    ultimately show ?thesis by metis
  qed
qed


section \<open>Block lists\<close>

lemma live_low: "(p, n) \<in> live a bs \<Longrightarrow> a + 12 \<le> p"
  by (induction a bs rule: live.induct) (auto split: if_splits)

lemma live_disjoint:
  "(p, n) \<in> live a bs \<Longrightarrow> (q, k) \<in> live a bs \<Longrightarrow> p \<noteq> q \<Longrightarrow> p + n + 12 \<le> q \<or> q + k + 12 \<le> p"
proof (induction a bs rule: live.induct)
  case (1 a)
  then show ?case by simp
next
  case (2 a sz f bs)
  then show ?case using live_low [of p n "a + 12 + sz" bs] live_low [of q k "a + 12 + sz" bs]
    by (auto split: if_splits)
qed

lemma abs_alloc_live:
  assumes "abs_alloc n a bs = Some (p, bs')"
  shows "\<exists>k \<ge> n. live a bs' = insert (p, k) (live a bs) \<and> (\<forall>j. (p, j) \<notin> live a bs)"
  using assms
proof (induction n a bs arbitrary: bs' rule: abs_alloc.induct)
  case (1 n a)
  then show ?case by simp
next
  case (2 n a sz f bs)
  show ?case
  proof (cases "f \<and> n \<le> sz")
    case True
    have fresh: "\<forall>j. (a + 12, j) \<notin> live (a + 12 + sz) bs" using live_low by fastforce
    show ?thesis
    proof (cases "n + 28 \<le> sz")
      case big: True
      have bs': "p = a + 12" "bs' = [(n, False), (sz - n - 12, True)] @ bs" using "2.prems" True big by auto
      have "a + 12 + n + 12 + (sz - n - 12) = a + 12 + sz" using big by simp
      then have "live a bs' = insert (p, n) (live a ((sz, f) # bs))"
        unfolding bs' using True by (simp add: add_ac)
      then show ?thesis using True fresh bs' by auto
    next
      case False
      then have bs': "p = a + 12" "bs' = (sz, False) # bs" using "2.prems" True by auto
      then show ?thesis using True fresh by auto
    qed
  next
    case False
    then obtain cs where cs: "abs_alloc n (a + 12 + sz) bs = Some (p, cs)" "bs' = (sz, f) # cs"
      using "2.prems" by (auto split: if_splits)
    from "2.IH" [OF False cs(1)] obtain k where
      k: "n \<le> k" "live (a + 12 + sz) cs = insert (p, k) (live (a + 12 + sz) bs)"
      "\<forall>j. (p, j) \<notin> live (a + 12 + sz) bs" by auto
    have "a + 12 + sz + 12 \<le> p" using k(2) live_low [of p k "a + 12 + sz" cs] by auto
    with k cs show ?thesis by auto
  qed
qed

lemma live_merge: "live a (abs_merge bs) = live a bs"
proof (induction "length bs" arbitrary: a bs)
  case 0
  then show ?case by simp
next
  case (Suc n)
  then obtain sz f rest where bs: "bs = (sz, f) # rest" by (metis Suc_length_conv surj_pair)
  show ?case
  proof (cases "f \<and> rest \<noteq> [] \<and> snd (hd rest)")
    case True
    then obtain s2 bs' where r: "rest = (s2, True) # bs'" by (cases rest) auto
    from Suc.hyps(1) [of "(sz + 12 + s2, True) # bs'" a] Suc.hyps(2)
    show ?thesis using True by (simp add: bs r add_ac)
  next
    case False
    then show ?thesis unfolding bs abs_merge_step [OF False] using Suc.hyps(1) [of rest] Suc.hyps(2)
      by (simp add: bs)
  qed
qed

lemma coalesced_Cons:
  "coalesced ((sz, f) # bs) \<longleftrightarrow> \<not> (f \<and> bs \<noteq> [] \<and> snd (hd bs)) \<and> coalesced bs"
  by (cases bs) auto

lemma abs_merge_hd: "bs \<noteq> [] \<Longrightarrow> snd (hd (abs_merge bs)) = snd (hd bs)"
  by (induction bs rule: abs_merge.induct) auto

lemma coalesced_merge: "coalesced (abs_merge bs)"
proof (induction "length bs" arbitrary: bs)
  case 0
  then show ?case by simp
next
  case (Suc n)
  then obtain sz f rest where bs: "bs = (sz, f) # rest" by (metis Suc_length_conv surj_pair)
  show ?case
  proof (cases "f \<and> rest \<noteq> [] \<and> snd (hd rest)")
    case True
    then obtain s2 bs' where r: "rest = (s2, True) # bs'" by (cases rest) auto
    from Suc.hyps(1) [of "(sz + 12 + s2, True) # bs'"] Suc.hyps(2)
    show ?thesis using True by (simp add: bs r)
  next
    case False
    then show ?thesis unfolding bs abs_merge_step [OF False] coalesced_Cons
      using Suc.hyps(1) [of rest] Suc.hyps(2) abs_merge_hd [of rest] by (auto simp: bs abs_merge_Nil)
  qed
qed

lemma merge_coalesced: "coalesced bs \<Longrightarrow> abs_merge bs = bs"
  by (induction bs) (auto simp: abs_merge_step coalesced_Cons)

lemma live_abs_free:
  "(p, n) \<in> live a bs \<Longrightarrow> live a (abs_free p a bs) = live a bs - {(p, n)}"
proof (induction a bs rule: live.induct)
  case (1 a)
  then show ?case by simp
next
  case (2 a sz f bs)
  show ?case
  proof (cases "p = a + 12")
    case True
    then have "(p, j) \<notin> live (a + 12 + sz) bs" for j using live_low by fastforce
    with True 2 show ?thesis by (auto split: if_splits)
  next
    case False
    with 2 show ?thesis by (auto split: if_splits)
  qed
qed

lemma alloc_free_merge:
  assumes "abs_alloc n a bs = Some (p, bs')" "coalesced bs"
  shows "abs_merge (abs_free p a bs') = bs"
  using assms
proof (induction n a bs arbitrary: bs' rule: abs_alloc.induct)
  case (1 n a)
  then show ?case by simp
next
  case (2 n a sz f bs)
  show ?case
  proof (cases "f \<and> n \<le> sz")
    case True
    have m: "abs_merge ((sz, True) # bs) = (sz, True) # bs"
      using "2.prems"(2) True by (simp add: merge_coalesced)
    show ?thesis
    proof (cases "n + 28 \<le> sz")
      case big: True
      then have "p = a + 12" "bs' = [(n, False), (sz - n - 12, True)] @ bs" using "2.prems" True by auto
      moreover have "n + 12 + (sz - n - 12) = sz" using big by simp
      ultimately show ?thesis using m True by (simp del: add.assoc)
    next
      case False
      then have "p = a + 12" "bs' = (sz, False) # bs" using "2.prems" True by auto
      then show ?thesis using m True by simp
    qed
  next
    case False
    then obtain cs where cs: "abs_alloc n (a + 12 + sz) bs = Some (p, cs)" "bs' = (sz, f) # cs"
      using "2.prems" by (auto split: if_splits)
    have c: "coalesced bs" "\<not> (f \<and> bs \<noteq> [] \<and> snd (hd bs))" using "2.prems"(2) by (auto simp: coalesced_Cons)
    from "2.IH" [OF False cs(1) c(1)] have IH: "abs_merge (abs_free p (a + 12 + sz) cs) = bs" .
    have "p \<noteq> a + 12" using abs_alloc_live [OF cs(1)] live_low by fastforce
    then have fr: "abs_free p a bs' = (sz, f) # abs_free p (a + 12 + sz) cs" by (simp add: cs(2))
    have "\<not> (f \<and> abs_free p (a + 12 + sz) cs \<noteq> [] \<and> snd (hd (abs_free p (a + 12 + sz) cs)))"
      using c(2) abs_merge_hd [of "abs_free p (a + 12 + sz) cs"] abs_merge_Nil [of "abs_free p (a + 12 + sz) cs"]
      by (auto simp: IH)
    from abs_merge_step [OF this] IH show ?thesis by (simp add: fr)
  qed
qed


section \<open>The heap's guarantees\<close>

lemma heap_end_bound [simp]: "unat (heap_end_addr st) < 4294967296"
  by simp

lemma kmalloc_step:
  assumes "heap_rel st bs" "size0 \<noteq> 0" "unat size0 + 3 < 4294967296"
  shows "\<exists>p st'. kmalloc size0 st = Some (p, st') \<and>
    heap_start st' = heap_start st \<and> heap_end_addr st' = heap_end_addr st \<and>
    (case abs_alloc (round4 (unat size0)) (unat (heap_start st)) bs of
       None \<Rightarrow> p = 0 \<and> st' = st
     | Some (q, bs') \<Rightarrow> unat p = q \<and> heap_rel st' bs')"
proof -
  let ?n = "round4 (unat size0)" and ?a = "unat (heap_start st)"
  have n: "?n < 4294967296" "(size0 + 3) AND NOT 3 = of_nat ?n"
  proof -
    show "?n < 4294967296" using round4_props(3) [of "unat size0"] assms(3) by linarith
    have "of_nat (unat ((size0 + 3) AND NOT 3)) = (size0 + 3) AND NOT 3" by (rule word_unat_inverse)
    then show "(size0 + 3) AND NOT 3 = of_nat ?n" unfolding unat_align4 [OF assms(3)] by (rule sym)
  qed
  from kmalloc_walk_refines [of "hmem st" ?a bs "unat (heap_end_addr st)" ?n] assms(1) n(1)
  obtain r where r: "kmalloc_walk (hmem st) (of_nat ?n) (of_nat ?a) = Some r"
    "walk_post (hmem st) ?n ?a bs (unat (heap_end_addr st)) r"
    by (auto simp: heap_rel_def round4_props)
  then have run: "kmalloc size0 st = Some (fst r, st\<lparr>hmem := snd r\<rparr>)"
    using assms(2) n(2) by (simp add: kmalloc_def split: prod.split)
  show ?thesis unfolding run using r(2) assms(1)
    by (auto simp: walk_post_def heap_rel_def split: option.splits)
qed

lemma kfree_step:
  assumes "heap_rel st bs" "(unat p, n) \<in> live (unat (heap_start st)) bs"
  shows "\<exists>st'. kfree p st = Some st' \<and> heap_start st' = heap_start st \<and>
    heap_rel st' (abs_merge (abs_free (unat p) (unat (heap_start st)) bs))"
proof -
  let ?a = "unat (heap_start st)" and ?e = "unat (heap_end_addr st)"
  let ?m = "(hmem st)(p - HEADER_SIZE + 4 := 1)"
  have ch: "chain (hmem st) ?a bs ?e" and a: "16 \<le> ?a" using assms(1) by (auto simp: heap_rel_def)
  from live_bounds [OF ch assms(2)] a have p: "12 \<le> unat p" by linarith
  have hd: "p - HEADER_SIZE = of_nat (unat p - 12)"
    using p by (simp add: HEADER_SIZE_def of_nat_diff)
  from mark_free_refines [OF heap_end_bound ch assms(2)]
  have "chain ?m ?a (abs_free (unat p) ?a bs) ?e" unfolding hd by blast
  from kfree_merge_refines [OF heap_end_bound this a] obtain m' where
    m': "kfree_merge ?m (heap_start st) = Some m'" "chain m' ?a (abs_merge (abs_free (unat p) ?a bs)) ?e" by auto
  have "p \<noteq> 0" using p by auto
  then have "kfree p st = Some (st\<lparr>hmem := m'\<rparr>)" using m'(1) by (simp add: kfree_def Let_def)
  then show ?thesis using m'(2) assms(1) by (simp add: heap_rel_def)
qed

text \<open>
  C3. \<open>kmalloc\<close> always returns on a well-formed heap and behaves as first-fit
  allocation of the size rounded up to 4 on the abstract block list: it returns NULL and
  leaves memory alone when no free block is large enough, and otherwise the data address of
  the first block that fits, split when at least 16 bytes of data would be left over.
\<close>
theorem kmalloc_first_fit:
  assumes "heap_rel st bs" "size0 \<noteq> 0" "unat size0 + 3 < 4294967296"
  shows "\<exists>p st'. kmalloc size0 st = Some (p, st') \<and>
    (case abs_alloc (round4 (unat size0)) (unat (heap_start st)) bs of
       None \<Rightarrow> p = 0 \<and> st' = st
     | Some (q, bs') \<Rightarrow> unat p = q \<and> heap_rel st' bs')"
  using kmalloc_step [OF assms] by blast

text \<open>A boot-time heap of 64 KB at 1 MB, the state the witnesses start from.\<close>

definition heap_demo :: heap_state where
  "heap_demo = heap_init 0x100000 0x10000 \<lparr>hmem = (\<lambda>_. 0), heap_start = 0, heap_end_addr = 0\<rparr>"

lemma heap_init_rel:
  assumes "unat start0 + 3 < 4294967296" "16 \<le> unat start0" "16 \<le> unat size0"
    "round4 (unat start0) + unat size0 < 4294967296"
  shows "heap_rel (heap_init start0 size0 st) [(unat size0 div 4 * 4 - 12, True)]"
proof -
  define A where "A = (start0 + 3) AND NOT 3"
  define S where "S = size0 - size0 mod 4"
  have A: "unat A = round4 (unat start0)" using unat_align4 [OF assms(1)] by (simp add: A_def)
  have "unat (size0 mod 4) = unat size0 mod 4" by (simp add: unat_mod_distrib)
  moreover have "size0 mod 4 \<le> size0" by (simp add: word_le_nat_alt unat_mod_distrib)
  ultimately have S: "unat S = unat size0 div 4 * 4"
    using unat_sub [of "size0 mod 4" size0] by (simp add: S_def minus_mod_eq_div_mult [symmetric])
  have r: "unat size0 div 4 * 4 \<le> unat size0" "16 \<le> unat size0 div 4 * 4" using assms(3) by presburger+
  have "HEADER_SIZE \<le> S" using r by (simp add: word_le_nat_alt S HEADER_SIZE_def)
  then have SH: "unat (S - HEADER_SIZE) = unat size0 div 4 * 4 - 12"
    using unat_sub [of HEADER_SIZE S] S by (simp add: HEADER_SIZE_def)
  have AS: "unat (A + S) = unat A + unat S" using assms(4) r A S by (simp add: unat_plus_small)
  have "16 \<le> round4 (unat start0)" using assms(2) round4_props(2) [of "unat start0"] by linarith
  moreover have "(unat size0 div 4 * 4 - 12) mod 4 = 0" using r(2) by presburger
  moreover have "heap_start (heap_init start0 size0 st) = A" "heap_end_addr (heap_init start0 size0 st) = A + S"
    "hmem (heap_init start0 size0 st) = (hmem st)(A := S - HEADER_SIZE, A + 4 := 1, A + 8 := 0)"
    unfolding heap_init_def Let_def A_def S_def by simp_all
  moreover have "of_nat (round4 (unat start0)) = A" unfolding A [symmetric] by (rule word_unat_inverse)
  ultimately show ?thesis
    using r SH AS A S by (simp add: heap_rel_def hdr_ok_def round4_props)
qed

lemma heap_demo_rel: "heap_rel heap_demo [(0xFFF4, True)]"
  using heap_init_rel [of "0x100000" "0x10000" "\<lparr>hmem = (\<lambda>_. 0), heap_start = 0, heap_end_addr = 0\<rparr>"]
  by (simp add: heap_demo_def round4_def)

lemma heap_demo_start: "heap_start heap_demo = 0x100000"
  by (simp add: heap_demo_def heap_init_def)

theorem kmalloc_first_fit_witness:
  "\<exists>p st'. kmalloc 10 heap_demo = Some (p, st') \<and> unat p = 0x10000C \<and>
     heap_rel st' [(12, False), (0xFFDC, True)]"
  using kmalloc_first_fit [OF heap_demo_rel, of 10] by (simp add: round4_def heap_demo_start)

text \<open>
  C8. Safety of \<open>kmalloc\<close>: a non-null result is 4-aligned, lies inside the heap with at
  least the requested number of bytes, overlaps no block that was live before, and every
  live block stays live at its address and size.
\<close>
theorem kmalloc_safe:
  assumes "heap_rel st bs" "unat size0 + 3 < 4294967296"
    and "kmalloc size0 st = Some (p, st')" "p \<noteq> 0"
  shows "\<exists>bs' n. heap_rel st' bs' \<and> unat size0 \<le> n \<and>
    live (unat (heap_start st')) bs' = insert (unat p, n) (live (unat (heap_start st)) bs) \<and>
    unat (heap_start st) + 12 \<le> unat p \<and> unat p + n \<le> unat (heap_end_addr st) \<and>
    (\<forall>(q, k) \<in> live (unat (heap_start st)) bs. unat p + n \<le> q \<or> q + k \<le> unat p)"
proof -
  let ?a = "unat (heap_start st)"
  have s0: "size0 \<noteq> 0" using assms(3,4) by (auto simp: kmalloc_def)
  note st' = kmalloc_step [OF assms(1) s0 assms(2)]
  then obtain bs' where b: "abs_alloc (round4 (unat size0)) ?a bs = Some (unat p, bs')"
    "heap_rel st' bs'" "heap_start st' = heap_start st" "heap_end_addr st' = heap_end_addr st"
    using assms(3,4) by (auto split: option.splits)
  from abs_alloc_live [OF b(1)] obtain n where
    n: "round4 (unat size0) \<le> n" "live ?a bs' = insert (unat p, n) (live ?a bs)"
    "\<forall>j. (unat p, j) \<notin> live ?a bs" by auto
  have ch: "chain (hmem st') ?a bs' (unat (heap_end_addr st))" using b(2,3,4) by (simp add: heap_rel_def)
  have "(unat p, n) \<in> live ?a bs'" using n(2) by simp
  from live_bounds [OF ch this] have bd: "?a + 12 \<le> unat p" "unat p + n \<le> unat (heap_end_addr st)" by auto
  have "unat p + n \<le> q \<or> q + k \<le> unat p" if "(q, k) \<in> live ?a bs" for q k
    using live_disjoint [of "unat p" n ?a bs' q k] that n(2,3) by force
  with n b bd round4_props(2) [of "unat size0"] show ?thesis
    by (intro exI [of _ bs'] exI [of _ n]) auto
qed

lemma heap_demo_alloc:
  "\<exists>p st'. kmalloc 10 heap_demo = Some (p, st') \<and> p \<noteq> 0 \<and> unat p = 0x10000C \<and>
     heap_start st' = 0x100000 \<and> heap_rel st' [(12, False), (0xFFDC, True)]"
  using kmalloc_step [OF heap_demo_rel, of 10] by (auto simp: round4_def heap_demo_start)

theorem kmalloc_safe_witness:
  "\<exists>p st' bs' n. kmalloc 10 heap_demo = Some (p, st') \<and> p \<noteq> 0 \<and> heap_rel st' bs' \<and> 10 \<le> n \<and>
     live (unat (heap_start st')) bs' = insert (unat p, n) {}"
proof -
  obtain p st' where k: "kmalloc 10 heap_demo = Some (p, st')" "p \<noteq> 0" using heap_demo_alloc by blast
  have "unat (10 :: u32) + 3 < 4294967296" by simp
  from kmalloc_safe [OF heap_demo_rel this k] k show ?thesis by auto
qed

text \<open>
  Freeing what was just allocated restores the block list exactly, on a heap without
  two adjacent free blocks (which every \<open>kfree\<close> re-establishes).
\<close>
theorem kmalloc_kfree_roundtrip:
  assumes "heap_rel st bs" "coalesced bs" "unat size0 + 3 < 4294967296"
    and "kmalloc size0 st = Some (p, st1)" "p \<noteq> 0"
  shows "\<exists>st2. kfree p st1 = Some st2 \<and> heap_rel st2 bs"
proof -
  let ?a = "unat (heap_start st)" and ?e = "unat (heap_end_addr st)"
  have s0: "size0 \<noteq> 0" using assms(4,5) by (auto simp: kmalloc_def)
  note st' = kmalloc_step [OF assms(1) s0 assms(3)]
  then obtain bs' where b: "abs_alloc (round4 (unat size0)) ?a bs = Some (unat p, bs')"
    "heap_rel st1 bs'" "heap_start st1 = heap_start st" "heap_end_addr st1 = heap_end_addr st"
    using assms(4,5) by (auto split: option.splits)
  from abs_alloc_live [OF b(1)] obtain n where "(unat p, n) \<in> live ?a bs'" by auto
  from kfree_step [OF b(2), of p n] this b(3) obtain st2 where
    "kfree p st1 = Some st2" "heap_rel st2 (abs_merge (abs_free (unat p) ?a bs'))" by auto
  then show ?thesis using alloc_free_merge [OF b(1) assms(2)] by auto
qed

theorem kmalloc_kfree_roundtrip_witness:
  "\<exists>p st1 st2. kmalloc 10 heap_demo = Some (p, st1) \<and> kfree p st1 = Some st2 \<and>
     heap_rel st2 [(0xFFF4, True)]"
proof -
  obtain p st' where k: "kmalloc 10 heap_demo = Some (p, st')" "p \<noteq> 0" using heap_demo_alloc by blast
  have "unat (10 :: u32) + 3 < 4294967296" "coalesced [(0xFFF4, True)]" by simp_all
  from kmalloc_kfree_roundtrip [OF heap_demo_rel this(2,1) k] k show ?thesis by auto
qed

text \<open>
  C29. \<open>kfree\<close> of any live block returns, removes exactly that block from the live set,
  and leaves a heap with no two adjacent free blocks.
\<close>
theorem kfree_live:
  assumes "heap_rel st bs" "(unat p, n) \<in> live (unat (heap_start st)) bs"
  shows "\<exists>st' bs'. kfree p st = Some st' \<and> heap_rel st' bs' \<and> coalesced bs' \<and>
    live (unat (heap_start st')) bs' = live (unat (heap_start st)) bs - {(unat p, n)}"
  using kfree_step [OF assms] coalesced_merge live_merge live_abs_free [OF assms(2)] by metis


theorem kfree_live_witness:
  "\<exists>p st1 st' bs'. kmalloc 10 heap_demo = Some (p, st1) \<and> kfree p st1 = Some st' \<and>
     heap_rel st' bs' \<and> coalesced bs' \<and> live (unat (heap_start st')) bs' = {}"
proof -
  obtain p st1 where k: "kmalloc 10 heap_demo = Some (p, st1)" "unat p = 0x10000C"
    "heap_start st1 = 0x100000" "heap_rel st1 [(12, False), (0xFFDC, True)]"
    using heap_demo_alloc by blast
  have lv: "live (unat (heap_start st1)) [(12, False), (0xFFDC, True)] = {(unat p, 12)}"
    using k by simp
  then have "(unat p, 12) \<in> live (unat (heap_start st1)) [(12, False), (0xFFDC, True)]" by simp
  from kfree_live [OF k(4) this] lv k(1) show ?thesis by auto
qed

text \<open>
  The wrap-around the other theorems exclude: for the three largest requests
  \<^verbatim>\<open>(size + 3) & ~3\<close> is 0, so on a heap whose first block is free \<open>kmalloc\<close>
  returns a non-null pointer to a block of less than the requested size: exactly the block
  a zero-byte first-fit would take.
\<close>
theorem kmalloc_size_wraps:
  assumes "heap_rel st ((sz, True) # bs)" "0xFFFFFFFD \<le> unat size0"
  shows "\<exists>p st' n. kmalloc size0 st = Some (p, st') \<and> p \<noteq> 0 \<and> n \<le> sz \<and> n < unat size0 \<and>
    (unat p, n) \<in> live (unat (heap_start st)) (if 28 \<le> sz then [(0, False), (sz - 12, True)] @ bs else (sz, False) # bs) \<and>
    heap_rel st' (if 28 \<le> sz then [(0, False), (sz - 12, True)] @ bs else (sz, False) # bs)"
proof -
  let ?a = "unat (heap_start st)" and ?e = "unat (heap_end_addr st)"
  have "unat (size0 + 3) = (unat size0 + 3) mod 4294967296" by (simp add: unat_word_ariths)
  also have "\<dots> = (unat size0 + 3 - 4294967296) mod 4294967296"
    using assms(2) by (intro le_mod_geq) simp
  also have "\<dots> \<le> unat size0 + 3 - 4294967296" by (rule mod_less_eq_dividend)
  also have "\<dots> < 4" using unat_u32_bound [of size0] by linarith
  finally have "unat (size0 + 3) < 4" .
  moreover have "(3 :: u32) = mask 2" by (simp add: mask_eq_exp_minus_1)
  ultimately have "unat ((size0 + 3) AND NOT 3) = 0"
    using unat_and_not_mask [of "size0 + 3" 2] by simp
  then have z: "(size0 + 3) AND NOT 3 = of_nat 0" by (simp only: unat_eq_0 semiring_1_class.of_nat_0)
  have ch: "chain (hmem st) ?a ((sz, True) # bs) ?e" "16 \<le> ?a" using assms(1) by (auto simp: heap_rel_def)
  from kmalloc_walk_refines [OF ch(1) heap_end_bound ch(2), of 0] obtain r where
    r: "kmalloc_walk (hmem st) (of_nat 0) (of_nat ?a) = Some r"
      "walk_post (hmem st) 0 ?a ((sz, True) # bs) ?e r" by auto
  have "size0 \<noteq> 0" using assms(2) by auto
  then have run: "kmalloc size0 st = Some (fst r, st\<lparr>hmem := snd r\<rparr>)"
    using r(1) unfolding kmalloc_def z by (simp split: prod.split)
  have p: "unat (fst r) = ?a + 12" and
    rel: "heap_rel (st\<lparr>hmem := snd r\<rparr>)
      (if 28 \<le> sz then [(0, False), (sz - 12, True)] @ bs else (sz, False) # bs)"
    using r(2) assms(1) by (auto simp: walk_post_def heap_rel_def)
  have "sz + 12 + ?a \<le> ?e" using ch(1) chain_end [of "hmem st" "?a + 12 + sz" bs ?e]
    by (auto simp: chain_Cons split: if_splits)
  then have "sz < 0xFFFFFFFD" using ch(2) heap_end_bound [of st] by linarith
  with p rel run assms(2) show ?thesis
    by (intro exI [of _ "fst r"] exI [of _ "st\<lparr>hmem := snd r\<rparr>"] exI [of _ "if 28 \<le> sz then 0 else sz"])
      (auto simp: unat_eq_zero [symmetric])
qed

theorem kmalloc_size_wraps_witness:
  "\<exists>p st'. kmalloc 0xFFFFFFFF heap_demo = Some (p, st') \<and> p \<noteq> 0"
  using kmalloc_size_wraps [OF heap_demo_rel, of "0xFFFFFFFF"] by auto

end
