(* ===== verification/Fat_Table.thy ===== *)
theory Fat_Table
  imports Prelude
begin

text \<open>
  The lower half of src/src/kernel/fat.c: volumes, sector access, and the file
  allocation table in its three formats (FAT12, FAT16, FAT32).

  Block devices (the ATA and floppy drivers, which drive hardware through I/O ports)
  appear as a store of 512-byte sectors together with the sets of sectors on which a
  read or a write reports an error; an access that fails leaves buffer and medium alone.
  The two static sector buffers are part of the state, because \<open>fat_read_entry\<close>
  ignores read errors and then decodes whatever the buffer held before. \<open>stack_buf\<close>
  stands for the indeterminate contents of an uninitialised buffer on the stack.
\<close>

section \<open>State\<close>

datatype dev = ATA u8 | FDC

record disk =
  sectors :: "dev \<Rightarrow> u32 \<Rightarrow> u8 list"
  rd_err :: "dev \<Rightarrow> u32 \<Rightarrow> bool"
  wr_err :: "dev \<Rightarrow> u32 \<Rightarrow> bool"

record fat_volume =
  mounted :: bool
  drive_id :: u8
  fat_type :: u8
  bytes_per_sec :: u16
  sec_per_clus :: u8
  reserved_secs :: u16
  num_fats :: u8
  root_entry_cnt :: u16
  total_sectors :: u32
  fat_size :: u32
  root_dir_sectors :: u32
  first_fat_sector :: u32
  first_data_sector :: u32
  root_dir_sector :: u32
  root_cluster :: u32
  cluster_count :: u32
  partition_lba :: u32
  cwd_cluster :: u32
  cwd_path :: "u8 list"
  use_fdc :: bool

record fat_file =
  active :: bool
  f_mode :: u8
  f_drive :: nat
  first_cluster :: u32
  current_cluster :: u32
  position :: u32
  f_size :: u32
  dir_sector :: u32
  dir_offset :: nat

record fat_state =
  volumes :: "fat_volume list"
  active_drive :: nat
  saved_drive :: nat
  handles :: "fat_file list"
  handles_initialized :: bool
  sector_buf :: "u8 list"
  fat_buf :: "u8 list"
  stack_buf :: "u8 list"
  dsk :: disk

definition FAT_MAX_HANDLES :: nat where "FAT_MAX_HANDLES = 32"
definition FAT_MAX_PATH :: nat where "FAT_MAX_PATH = 260"
definition FAT_MAX_DRIVES :: nat where "FAT_MAX_DRIVES = 8"

definition FAT_DRIVE_A :: nat where "FAT_DRIVE_A = 0"
definition FAT_DRIVE_C :: nat where "FAT_DRIVE_C = 2"

text \<open>The static variables at boot: all zero except the active drive.\<close>

definition zero_volume :: fat_volume where
  "zero_volume = \<lparr>mounted = False, drive_id = 0, fat_type = 0, bytes_per_sec = 0, sec_per_clus = 0,
     reserved_secs = 0, num_fats = 0, root_entry_cnt = 0, total_sectors = 0, fat_size = 0,
     root_dir_sectors = 0, first_fat_sector = 0, first_data_sector = 0, root_dir_sector = 0,
     root_cluster = 0, cluster_count = 0, partition_lba = 0, cwd_cluster = 0, cwd_path = [], use_fdc = False\<rparr>"

definition zero_file :: fat_file where
  "zero_file = \<lparr>active = False, f_mode = 0, f_drive = 0, first_cluster = 0, current_cluster = 0,
     position = 0, f_size = 0, dir_sector = 0, dir_offset = 0\<rparr>"

definition fat_init :: "disk \<Rightarrow> u8 list \<Rightarrow> fat_state" where
  "fat_init d stack = \<lparr>volumes = replicate FAT_MAX_DRIVES zero_volume, active_drive = FAT_DRIVE_C, saved_drive = 0,
     handles = replicate FAT_MAX_HANDLES zero_file, handles_initialized = False,
     sector_buf = replicate 512 0, fat_buf = replicate 512 0, stack_buf = stack, dsk = d\<rparr>"

text \<open>The \<^verbatim>\<open>vol\<close> macro: the active volume, read and updated in place.\<close>

definition vol :: "fat_state \<Rightarrow> fat_volume" where
  "vol s = volumes s ! active_drive s"

definition set_vol :: "(fat_volume \<Rightarrow> fat_volume) \<Rightarrow> fat_state \<Rightarrow> fat_state" where
  "set_vol f s = s\<lparr>volumes := (volumes s)[active_drive s := f (vol s)]\<rparr>"

definition push_drive :: "nat \<Rightarrow> fat_state \<Rightarrow> fat_state" where
  "push_drive d s = s\<lparr>saved_drive := active_drive s, active_drive := d\<rparr>"

definition pop_drive :: "fat_state \<Rightarrow> fat_state" where
  "pop_drive s = s\<lparr>active_drive := saved_drive s\<rparr>"

section \<open>Sectors\<close>

definition vol_dev :: "fat_volume \<Rightarrow> dev" where
  "vol_dev v = (if use_fdc v then FDC else ATA (drive_id v))"

text \<open>
  \<open>read_sector lba buf s\<close>: whether the read succeeded, and the buffer afterwards.
\<close>

definition read_sector :: "u32 \<Rightarrow> u8 list \<Rightarrow> fat_state \<Rightarrow> bool \<times> u8 list" where
  "read_sector lba buf s =
     (let d = vol_dev (vol s); a = partition_lba (vol s) + lba
      in if rd_err (dsk s) d a then (False, buf) else (True, sectors (dsk s) d a))"

definition write_sector :: "u32 \<Rightarrow> u8 list \<Rightarrow> fat_state \<Rightarrow> bool \<times> fat_state" where
  "write_sector lba buf s =
     (let d = vol_dev (vol s); a = partition_lba (vol s) + lba
      in if wr_err (dsk s) d a then (False, s)
         else (True, s\<lparr>dsk := (dsk s)\<lparr>sectors := (sectors (dsk s))(d := (sectors (dsk s) d)(a := buf))\<rparr>\<rparr>))"

definition load_fat_buf :: "u32 \<Rightarrow> fat_state \<Rightarrow> fat_state" where
  "load_fat_buf lba s = s\<lparr>fat_buf := snd (read_sector lba (fat_buf s) s)\<rparr>"

definition cluster_to_sector :: "u32 \<Rightarrow> fat_state \<Rightarrow> u32" where
  "cluster_to_sector cluster s =
     (cluster - 2) * ucast (sec_per_clus (vol s)) + first_data_sector (vol s)"

section \<open>FAT entries\<close>

definition bps :: "fat_state \<Rightarrow> u32" where
  "bps s = ucast (bytes_per_sec (vol s))"

definition fat_read_entry :: "u32 \<Rightarrow> fat_state \<Rightarrow> u32 \<times> fat_state" where
  "fat_read_entry cluster s =
     (if fat_type (vol s) = 12 then
        (let fat_offset = cluster + cluster div 2;
             fat_sector = first_fat_sector (vol s) + fat_offset div bps s;
             ent_offset = fat_offset mod bps s;
             s1 = load_fat_buf fat_sector s;
             entry = (if ent_offset = bps s - 1
                      then let buf2 = snd (read_sector (fat_sector + 1) (stack_buf s1) s1)
                           in ucast (fat_buf s1 ! unat ent_offset) OR push_bit 8 (ucast (buf2 ! 0))
                      else le16 (fat_buf s1) (unat ent_offset))
         in (if cluster AND 1 \<noteq> 0 then drop_bit 4 entry else entry AND 0x0FFF, s1))
      else if fat_type (vol s) = 16 then
        (let fat_sector = first_fat_sector (vol s) + cluster * 2 div bps s;
             ent_offset = cluster * 2 mod bps s;
             s1 = load_fat_buf fat_sector s
         in (le16 (fat_buf s1) (unat ent_offset), s1))
      else if fat_type (vol s) = 32 then
        (let fat_sector = first_fat_sector (vol s) + cluster * 4 div bps s;
             ent_offset = cluster * 4 mod bps s;
             s1 = load_fat_buf fat_sector s
         in (le32 (fat_buf s1) (unat ent_offset) AND 0x0FFFFFFF, s1))
      else (0, s))"

text \<open>One FAT copy, based at sector \<open>fat_base\<close>.\<close>

definition write_entry_16 :: "u32 \<Rightarrow> u32 \<Rightarrow> u32 \<Rightarrow> fat_state \<Rightarrow> fat_state" where
  "write_entry_16 fat_base cluster v s =
     (let fat_sector = fat_base + cluster * 2 div bps s;
          ent_offset = cluster * 2 mod bps s;
          s1 = load_fat_buf fat_sector s;
          s2 = s1\<lparr>fat_buf := put16 (fat_buf s1) (unat ent_offset) v\<rparr>
      in snd (write_sector fat_sector (fat_buf s2) s2))"

definition write_entry_32 :: "u32 \<Rightarrow> u32 \<Rightarrow> u32 \<Rightarrow> fat_state \<Rightarrow> fat_state" where
  "write_entry_32 fat_base cluster v s =
     (let fat_sector = fat_base + cluster * 4 div bps s;
          ent_offset = cluster * 4 mod bps s;
          s1 = load_fat_buf fat_sector s;
          s2 = s1\<lparr>fat_buf := put32 (fat_buf s1) (unat ent_offset)
                 ((le32 (fat_buf s1) (unat ent_offset) AND 0xF0000000) OR (v AND 0x0FFFFFFF))\<rparr>
      in snd (write_sector fat_sector (fat_buf s2) s2))"

definition write_entry_12 :: "u32 \<Rightarrow> u32 \<Rightarrow> u32 \<Rightarrow> fat_state \<Rightarrow> fat_state" where
  "write_entry_12 fat_base cluster v s =
     (let fat12_off = cluster + cluster div 2;
          fat_sector = fat_base + fat12_off div bps s;
          off = unat (fat12_off mod bps s);
          s1 = load_fat_buf fat_sector s;
          buf = fat_buf s1;
          spans = (fat12_off mod bps s = bps s - 1);
          buf2 = (if spans then snd (read_sector (fat_sector + 1) (stack_buf s1) s1) else stack_buf s1);
          (buf', buf2') =
            (if cluster AND 1 \<noteq> 0 then
               (let b1 = buf[off := (buf ! off AND 0x0F) OR ucast (push_bit 4 (v AND 0x0F))]
                in if spans then (b1, buf2[0 := ucast (drop_bit 4 v AND 0xFF)])
                   else (b1[off + 1 := ucast (drop_bit 4 v AND 0xFF)], buf2))
             else
               (let b1 = buf[off := ucast (v AND 0xFF)]
                in if spans
                   then (b1, buf2[0 := (buf2 ! 0 AND 0xF0) OR ucast (drop_bit 8 v AND 0x0F)])
                   else (b1[off + 1 := (b1 ! (off + 1) AND 0xF0) OR ucast (drop_bit 8 v AND 0x0F)], buf2)));
          s2 = s1\<lparr>fat_buf := buf'\<rparr>;
          s3 = snd (write_sector fat_sector buf' s2)
      in if spans then snd (write_sector (fat_sector + 1) buf2' s3) else s3)"

definition write_entry_copy :: "u32 \<Rightarrow> u32 \<Rightarrow> nat \<Rightarrow> fat_state \<Rightarrow> fat_state" where
  "write_entry_copy cluster v f s =
     (let fat_base = first_fat_sector (vol s) + of_nat f * fat_size (vol s)
      in if fat_type (vol s) = 16 then write_entry_16 fat_base cluster v s
         else if fat_type (vol s) = 32 then write_entry_32 fat_base cluster v s
         else if fat_type (vol s) = 12 then write_entry_12 fat_base cluster v s
         else s)"

definition fat_write_entry :: "u32 \<Rightarrow> u32 \<Rightarrow> fat_state \<Rightarrow> fat_state" where
  "fat_write_entry cluster v s = fold (write_entry_copy cluster v) [0..<unat (num_fats (vol s))] s"

definition is_eoc :: "fat_state \<Rightarrow> u32 \<Rightarrow> bool" where
  "is_eoc s entry =
     (if fat_type (vol s) = 12 then 0x0FF8 \<le> entry
      else if fat_type (vol s) = 16 then 0xFFF8 \<le> entry
      else if fat_type (vol s) = 32 then 0x0FFFFFF8 \<le> entry
      else True)"

fun alloc_scan :: "u32 list \<Rightarrow> fat_state \<Rightarrow> u32 \<times> fat_state" where
  "alloc_scan [] s = (0, s)"
| "alloc_scan (c # cs) s =
     (case fat_read_entry c s of (e, s1) \<Rightarrow>
        if e = 0 then (c, fat_write_entry c (if fat_type (vol s1) = 16 then 0xFFFF else 0x0FFFFFFF) s1)
        else alloc_scan cs s1)"

text \<open>Cluster numbers \<open>2, \<dots>, cluster_count + 1\<close> (the bound is a 32-bit sum).\<close>

definition data_clusters :: "fat_state \<Rightarrow> u32 list" where
  "data_clusters s = map of_nat [2..<unat (cluster_count (vol s) + 2)]"

definition fat_alloc_cluster :: "fat_state \<Rightarrow> u32 \<times> fat_state" where
  "fat_alloc_cluster s = alloc_scan (data_clusters s) s"

fun count_free_scan :: "u32 list \<Rightarrow> u32 \<Rightarrow> fat_state \<Rightarrow> u32 \<times> fat_state" where
  "count_free_scan [] n s = (n, s)"
| "count_free_scan (c # cs) n s =
     (case fat_read_entry c s of (e, s1) \<Rightarrow> count_free_scan cs (if e = 0 then n + 1 else n) s1)"

definition fat_count_free_clusters :: "fat_state \<Rightarrow> u32 \<times> fat_state" where
  "fat_count_free_clusters s =
     (if \<not> mounted (vol s) then (0, s) else count_free_scan (data_clusters s) 0 s)"

section \<open>The table as an array of bytes\<close>

text \<open>Sectors relative to the start of the volume.\<close>

definition vsec :: "fat_state \<Rightarrow> u32 \<Rightarrow> u8 list" where
  "vsec s a = sectors (dsk s) (vol_dev (vol s)) (partition_lba (vol s) + a)"

definition vread_ok :: "fat_state \<Rightarrow> u32 \<Rightarrow> bool" where
  "vread_ok s a = (\<not> rd_err (dsk s) (vol_dev (vol s)) (partition_lba (vol s) + a))"

definition vwrite_ok :: "fat_state \<Rightarrow> u32 \<Rightarrow> bool" where
  "vwrite_ok s a = (\<not> wr_err (dsk s) (vol_dev (vol s)) (partition_lba (vol s) + a))"

lemma read_sector_ok [simp]: "vread_ok s a \<Longrightarrow> read_sector a buf s = (True, vsec s a)"
  by (simp add: read_sector_def vread_ok_def vsec_def Let_def)

lemma read_sector_fail [simp]: "\<not> vread_ok s a \<Longrightarrow> read_sector a buf s = (False, buf)"
  by (simp add: read_sector_def vread_ok_def Let_def)

lemma fst_read_sector [simp]: "fst (read_sector a buf s) = vread_ok s a"
  by (cases "vread_ok s a") simp_all

lemma fst_write_sector [simp]: "fst (write_sector a buf s) = vwrite_ok s a"
  by (simp add: write_sector_def vwrite_ok_def Let_def)

lemma write_sector_frame [simp]:
  "volumes (snd (write_sector a buf s)) = volumes s"
  "active_drive (snd (write_sector a buf s)) = active_drive s"
  "saved_drive (snd (write_sector a buf s)) = saved_drive s"
  "handles (snd (write_sector a buf s)) = handles s"
  "handles_initialized (snd (write_sector a buf s)) = handles_initialized s"
  "sector_buf (snd (write_sector a buf s)) = sector_buf s"
  "fat_buf (snd (write_sector a buf s)) = fat_buf s"
  "stack_buf (snd (write_sector a buf s)) = stack_buf s"
  "rd_err (dsk (snd (write_sector a buf s))) = rd_err (dsk s)"
  "wr_err (dsk (snd (write_sector a buf s))) = wr_err (dsk s)"
  by (simp_all add: write_sector_def Let_def)

lemma vol_frame [simp]:
  "vol (snd (write_sector a buf s)) = vol s"
  "vol (s\<lparr>fat_buf := b\<rparr>) = vol s" "vol (s\<lparr>sector_buf := b\<rparr>) = vol s" "vol (s\<lparr>handles := h\<rparr>) = vol s"
  by (simp_all add: vol_def)

lemma vok_frame [simp]:
  "vread_ok (snd (write_sector a buf s)) = vread_ok s" "vwrite_ok (snd (write_sector a buf s)) = vwrite_ok s"
  "vread_ok (s\<lparr>fat_buf := b\<rparr>) = vread_ok s" "vwrite_ok (s\<lparr>fat_buf := b\<rparr>) = vwrite_ok s"
  "vread_ok (s\<lparr>sector_buf := b\<rparr>) = vread_ok s" "vwrite_ok (s\<lparr>sector_buf := b\<rparr>) = vwrite_ok s"
  "vread_ok (s\<lparr>handles := h\<rparr>) = vread_ok s" "vwrite_ok (s\<lparr>handles := h\<rparr>) = vwrite_ok s"
  by (simp_all add: vread_ok_def vwrite_ok_def fun_eq_iff)

lemma vsec_frame [simp]:
  "vsec (s\<lparr>fat_buf := b\<rparr>) = vsec s" "vsec (s\<lparr>sector_buf := b\<rparr>) = vsec s" "vsec (s\<lparr>handles := h\<rparr>) = vsec s"
  by (simp_all add: vsec_def fun_eq_iff)

lemma vsec_write_sector:
  "vsec (snd (write_sector a buf s)) = (if vwrite_ok s a then (vsec s)(a := buf) else vsec s)"
  by (auto simp: vsec_def write_sector_def vwrite_ok_def Let_def fun_eq_iff vol_def)

lemma load_fat_buf_eq: "load_fat_buf a s = s\<lparr>fat_buf := (if vread_ok s a then vsec s a else fat_buf s)\<rparr>"
  by (simp add: load_fat_buf_def)

text \<open>
  A usable table: 512-byte sectors, at least one copy, no I/O error in the table, and
  copies that do not wrap around the 32-bit sector numbers.
\<close>

definition fat_sec :: "fat_state \<Rightarrow> nat \<Rightarrow> nat \<Rightarrow> u32" where
  "fat_sec s f i = first_fat_sector (vol s) + of_nat (f * unat (fat_size (vol s)) + i)"

definition fat_ok :: "fat_state \<Rightarrow> bool" where
  "fat_ok s \<longleftrightarrow>
     bytes_per_sec (vol s) = 512 \<and> fat_type (vol s) \<in> {12, 16, 32} \<and> 0 < num_fats (vol s) \<and>
     unat (num_fats (vol s)) * unat (fat_size (vol s)) \<le> 2 ^ 32 \<and>
     (\<forall>f < unat (num_fats (vol s)). \<forall>i < unat (fat_size (vol s)).
        vread_ok s (fat_sec s f i) \<and> vwrite_ok s (fat_sec s f i)) \<and>
     (\<forall>a. length (vsec s a) = 512)"

text \<open>Byte \<open>k\<close> of copy \<open>f\<close> of the table.\<close>

definition fimg :: "fat_state \<Rightarrow> nat \<Rightarrow> nat \<Rightarrow> u8" where
  "fimg s f k = vsec s (fat_sec s f (k div 512)) ! (k mod 512)"

text \<open>The entry of cluster \<open>c\<close> lies inside the table.\<close>

definition entry_end :: "u8 \<Rightarrow> nat \<Rightarrow> nat" where
  "entry_end ty c = (if ty = 12 then c + c div 2 + 2 else if ty = 16 then 2 * c + 2 else 4 * c + 4)"

definition fits :: "fat_state \<Rightarrow> u32 \<Rightarrow> bool" where
  "fits s c \<longleftrightarrow> unat c < 2 ^ 28 \<and> entry_end (fat_type (vol s)) (unat c) \<le> 512 * unat (fat_size (vol s))"

text \<open>Reading and writing an entry in an array of bytes: the on-disk formats.\<close>

definition b16 :: "(nat \<Rightarrow> u8) \<Rightarrow> nat \<Rightarrow> u32" where
  "b16 b k = ucast (b k) OR push_bit 8 (ucast (b (k + 1)))"

definition b32 :: "(nat \<Rightarrow> u8) \<Rightarrow> nat \<Rightarrow> u32" where
  "b32 b k = ucast (b k) OR push_bit 8 (ucast (b (k + 1))) OR
     push_bit 16 (ucast (b (k + 2))) OR push_bit 24 (ucast (b (k + 3)))"

definition entry_get :: "u8 \<Rightarrow> (nat \<Rightarrow> u8) \<Rightarrow> nat \<Rightarrow> u32" where
  "entry_get ty b c =
     (if ty = 12 then (if odd c then drop_bit 4 (b16 b (c + c div 2)) else b16 b (c + c div 2) AND 0xFFF)
      else if ty = 16 then b16 b (2 * c)
      else b32 b (4 * c) AND 0x0FFFFFFF)"

definition entry_put :: "u8 \<Rightarrow> nat \<Rightarrow> u32 \<Rightarrow> (nat \<Rightarrow> u8) \<Rightarrow> nat \<Rightarrow> u8" where
  "entry_put ty c v b =
     (if ty = 12 then
        (let k = c + c div 2
         in if odd c then b(k := (b k AND 0x0F) OR ucast (push_bit 4 (v AND 0x0F)), k + 1 := ucast (drop_bit 4 v AND 0xFF))
            else b(k := ucast (v AND 0xFF), k + 1 := (b (k + 1) AND 0xF0) OR ucast (drop_bit 8 v AND 0x0F)))
      else if ty = 16 then b(2 * c := ucast v, 2 * c + 1 := ucast (drop_bit 8 v))
      else let k = 4 * c; w = (b32 b k AND 0xF0000000) OR (v AND 0x0FFFFFFF)
           in b(k := ucast w, k + 1 := ucast (drop_bit 8 w), k + 2 := ucast (drop_bit 16 w), k + 3 := ucast (drop_bit 24 w)))"

definition entry_mask :: "u8 \<Rightarrow> u32" where
  "entry_mask ty = (if ty = 12 then 0xFFF else if ty = 16 then 0xFFFF else 0x0FFFFFFF)"

subsection \<open>Entries of the byte array\<close>

lemma and_mask_bits: "(x :: u32) AND 0xFFF = take_bit 12 x" "(x :: u32) AND 0xFFFF = take_bit 16 x"
    "(x :: u32) AND 0x0FFFFFFF = take_bit 28 x" "(x :: u32) AND 0xFF = take_bit 8 x" "(x :: u32) AND 0x0F = take_bit 4 x"
    "(y :: u8) AND 0x0F = take_bit 4 y"
  by (simp_all add: take_bit_eq_mask mask_eq_exp_minus_1)

lemma and_F0: "(y :: u8) AND 0xF0 = push_bit 4 (drop_bit 4 y)"
proof -
  have m: "(0xF0 :: u8) = push_bit 4 (mask 4)" by (simp add: mask_eq_exp_minus_1)
  show ?thesis
    unfolding m by (rule bit_word_eqI) (auto simp: bit_simps simp del: mask_numeral push_bit_numeral)
qed

lemma bit_F0000000 [simp]: "bit (0xF0000000 :: u32) n \<longleftrightarrow> 28 \<le> n \<and> n < 32"
proof -
  have "(0xF0000000 :: u32) = push_bit 28 (mask 4)" by (simp add: mask_eq_exp_minus_1)
  then show ?thesis by (auto simp only: bit_push_bit_iff bit_mask_iff possible_bit_word) auto
qed

lemma nibbles12_odd:
  "drop_bit 4 (ucast ((x AND 0x0F) OR ucast (push_bit 4 (v AND 0x0F)) :: u8) OR
     push_bit 8 (ucast (ucast (drop_bit 4 v AND 0xFF) :: u8))) = (v :: u32) AND 0xFFF"
  unfolding and_mask_bits and_F0
proof (rule bit_word_eqI, goal_cases)
  case (1 n)
  then show ?case
    by (cases "n < 4"; cases "n < 12") (auto simp: bit_simps)
qed

lemma nibbles12_even:
  "(ucast (ucast (v AND 0xFF) :: u8) OR
     push_bit 8 (ucast ((y AND 0xF0) OR ucast (drop_bit 8 v AND 0x0F) :: u8))) AND 0xFFF = (v :: u32) AND 0xFFF"
  unfolding and_mask_bits and_F0
proof (rule bit_word_eqI, goal_cases)
  case (1 n)
  then show ?case
    by (cases "n < 8"; cases "n < 12") (auto simp: bit_simps)
qed

text \<open>Neighbours in FAT12 share the middle byte of their three.\<close>

lemma shared_low_nibble:
  "(ucast p OR push_bit 8 (ucast ((x AND 0x0F) OR ucast (push_bit 4 ((v :: u32) AND 0x0F)) :: u8))) AND 0xFFF
   = (ucast (p :: u8) OR push_bit 8 (ucast (x :: u8))) AND (0xFFF :: u32)"
  unfolding and_mask_bits and_F0
proof (rule bit_word_eqI, goal_cases)
  case (1 n)
  then show ?case
    by (cases "n < 8"; cases "n < 12") (auto simp: bit_simps)
qed

lemma shared_high_nibble:
  "drop_bit 4 (ucast ((x AND 0xF0) OR ucast (drop_bit 8 (v :: u32) AND 0x0F) :: u8) OR push_bit 8 (ucast q))
   = drop_bit 4 (ucast (x :: u8) OR push_bit 8 (ucast (q :: u8)) :: u32)"
  unfolding and_mask_bits and_F0
proof (rule bit_word_eqI, goal_cases)
  case (1 n)
  then show ?case
    by (cases "n < 4") (auto simp: bit_simps dest: bit_imp_le_length)
qed

lemma merge28: "((w AND 0xF0000000) OR (v AND 0x0FFFFFFF)) AND 0x0FFFFFFF = (v :: u32) AND 0x0FFFFFFF"
  unfolding and_mask_bits by (rule bit_word_eqI) (auto simp: bit_simps)

lemma b16_upd_other: "k' \<noteq> k \<Longrightarrow> k' + 1 \<noteq> k \<Longrightarrow> b16 (b(k := x)) k' = b16 b k'"
  by (simp add: b16_def)

lemma b32_put: "b32 (b(k := ucast w, k + 1 := ucast (drop_bit 8 w), k + 2 := ucast (drop_bit 16 w), k + 3 := ucast (drop_bit 24 w))) k = w"
  by (simp add: b32_def word_bytes32)

text \<open>An entry just written reads back masked to its width; every other entry is unchanged.\<close>

lemma entry_get_put_same: "entry_get ty (entry_put ty c v b) c = v AND entry_mask ty"
proof -
  consider "ty = 12" "odd c" | "ty = 12" "even c" | "ty = 16" | "ty \<noteq> 12" "ty \<noteq> 16" by blast
  then show ?thesis
  proof cases
    case 1 then show ?thesis
      using nibbles12_odd [of "b (c + c div 2)" v] by (simp add: entry_get_def entry_put_def entry_mask_def b16_def Let_def)
  next
    case 2 then show ?thesis
      using nibbles12_even [of v "b (Suc (c + c div 2))"] by (simp add: entry_get_def entry_put_def entry_mask_def b16_def Let_def)
  next
    case 3 then show ?thesis
      using word_bytes16 [of v] by (simp add: entry_get_def entry_put_def entry_mask_def b16_def)
  next
    case 4 
    let ?w = "(b32 b (4 * c) AND 0xF0000000) OR (v AND 0x0FFFFFFF)"
    from 4 have "entry_get ty (entry_put ty c v b) c = ?w AND 0x0FFFFFFF"
      by (simp only: entry_get_def entry_put_def Let_def b32_put if_False)
    with 4 show ?thesis by (simp only: merge28 entry_mask_def if_False)
  qed
qed

lemma entry_get_put_other: "c \<noteq> c' \<Longrightarrow> entry_get ty (entry_put ty c v b) c' = entry_get ty b c'"
proof -
  assume ne: "c \<noteq> c'"
  consider "ty = 12" | "ty = 16" | "ty \<noteq> 12" "ty \<noteq> 16" by blast
  then show ?thesis
  proof cases
    case 1
    obtain m n where mn: "c = 2 * m \<or> c = 2 * m + 1" "c' = 2 * n \<or> c' = 2 * n + 1"
      by (metis evenE oddE)
    then consider (same) "m \<noteq> n" "even c = even c'" | (eo) "c = 2 * m" "c' = 2 * n + 1" | (oe) "c = 2 * m + 1" "c' = 2 * n"
      using ne by (elim disjE) auto
    then show ?thesis
    proof cases
      case same
      then have "c + c div 2 + i \<noteq> c' + c' div 2 + j" if "i < 2" "j < 2" for i j
        using mn that by (elim disjE) (simp; presburger)+
      from this [of 0 0] this [of 0 1] this [of 1 0] this [of 1 1]
      show ?thesis using 1 by (simp add: entry_get_def entry_put_def b16_def Let_def)
    next
      case eo
      then have k: "c + c div 2 = 3 * m" "c' + c' div 2 = 3 * n + 1" "even c" "odd c'" by auto
      have far: "3 * n + 1 \<noteq> 3 * m" "3 * n + 2 \<noteq> 3 * m" "3 * n + 2 \<noteq> 3 * m + 1" by presburger+
      show ?thesis
        using far 1 shared_high_nibble [of "b (3 * m + 1)" v "b (3 * m + 2)"]
        unfolding entry_get_def entry_put_def b16_def Let_def k
        by (cases "m = n") (use k in auto)
    next
      case oe
      then have k: "c + c div 2 = 3 * m + 1" "c' + c' div 2 = 3 * n" "odd c" "even c'" by auto
      have far: "3 * n \<noteq> 3 * m + 1" "3 * n \<noteq> 3 * m + 2" "3 * n + 1 \<noteq> 3 * m + 2" by presburger+
      show ?thesis
        using far 1 shared_low_nibble [of "b (3 * m)" "b (3 * m + 1)" v]
        unfolding entry_get_def entry_put_def b16_def Let_def k
        by (cases "m = n") (use k in auto)
    qed
  next
    case 2
    with ne show ?thesis by (auto simp: entry_get_def entry_put_def b16_def) 
  next
    case 3
    with ne have "4 * c + i \<noteq> 4 * c' + j" if "i < 4" "j < 4" for i j using that by presburger
    from this [of 0 0] this [of 1 0] this [of 2 0] this [of 3 0] this [of 0 1] this [of 1 1] this [of 2 1] this [of 3 1]
      this [of 0 2] this [of 1 2] this [of 2 2] this [of 3 2] this [of 0 3] this [of 1 3] this [of 2 3] this [of 3 3]
    show ?thesis using 3 by (simp add: entry_get_def entry_put_def Let_def b32_def)
  qed
qed

subsection \<open>Each operation on the byte array\<close>

lemma u32_div512: "n < 2 ^ 32 \<Longrightarrow> (of_nat n :: u32) div 512 = of_nat (n div 512)"
  by (rule word_unat_eq_iff [THEN iffD2]) (simp add: unat_div_distrib unat_of_nat_u32)

lemma u32_mod512: "n < 2 ^ 32 \<Longrightarrow> unat ((of_nat n :: u32) mod 512) = n mod 512"
  by (simp add: unat_mod_distrib unat_of_nat_u32)

lemma entry_offsets:
  assumes "unat (c :: u32) < 2 ^ 28"
  shows "(c + c div 2) div 512 = of_nat ((unat c + unat c div 2) div 512)"
    "unat ((c + c div 2) mod 512) = (unat c + unat c div 2) mod 512"
    "c * 2 div 512 = of_nat (2 * unat c div 512)" "unat (c * 2 mod 512) = 2 * unat c mod 512"
    "c * 4 div 512 = of_nat (4 * unat c div 512)" "unat (c * 4 mod 512) = 4 * unat c mod 512"
proof -
  have e: "c + c div 2 = of_nat (unat c + unat c div 2)" "c * 2 = of_nat (2 * unat c)" "c * 4 = of_nat (4 * unat c)"
    by (simp_all add: word_unat_eq_iff unat_word_ariths unat_of_nat take_bit_eq_mod mult.commute)
  show "(c + c div 2) div 512 = of_nat ((unat c + unat c div 2) div 512)"
    "unat ((c + c div 2) mod 512) = (unat c + unat c div 2) mod 512"
    "c * 2 div 512 = of_nat (2 * unat c div 512)" "unat (c * 2 mod 512) = 2 * unat c mod 512"
    "c * 4 div 512 = of_nat (4 * unat c div 512)" "unat (c * 4 mod 512) = 4 * unat c mod 512"
    unfolding e using assms by (intro u32_div512 u32_mod512; simp)+
qed

lemma bps_512: "fat_ok s \<Longrightarrow> bps s = 512"
  by (simp add: fat_ok_def bps_def)

lemma fat_base_eq: "first_fat_sector (vol s) + of_nat f * fat_size (vol s) + of_nat i = fat_sec s f i"
  by (simp add: fat_sec_def)

lemma fat_sec_inj:
  assumes "fat_ok s" "f < unat (num_fats (vol s))" "g < unat (num_fats (vol s))"
    "i < unat (fat_size (vol s))" "j < unat (fat_size (vol s))"
  shows "fat_sec s f i = fat_sec s g j \<longleftrightarrow> f = g \<and> i = j"
proof -
  let ?n = "unat (num_fats (vol s))" and ?z = "unat (fat_size (vol s))"
  have lt: "h * ?z + k < 2 ^ 32" if "h < ?n" "k < ?z" for h k
  proof -
    have "h * ?z + k < Suc h * ?z" using that by simp
    also have "\<dots> \<le> ?n * ?z" using that by (intro mult_le_mono1) simp
    also have "\<dots> \<le> 2 ^ 32" using assms by (simp add: fat_ok_def)
    finally show ?thesis .
  qed
  have "fat_sec s f i = fat_sec s g j \<longleftrightarrow> f * ?z + i = g * ?z + j"
    unfolding fat_sec_def using lt assms by (simp add: of_nat_inj_u32 del: of_nat_add of_nat_mult)
  also have "\<dots> \<longleftrightarrow> f = g \<and> i = j"
    using assms(4,5) by (metis add.commute add_diff_cancel_right' add_left_cancel div_mult_self3 div_less less_nat_zero_code not_gr_zero plus_nat.add_0)
  finally show ?thesis .
qed

lemma same_sector_iff: "k div 512 = i div 512 \<Longrightarrow> (i mod 512 = k mod 512) = (i = (k :: nat))"
  by (metis div_mult_mod_eq)

lemma nth_sector_upd:
  assumes "length L = 512" "i div 512 = q" "k div 512 = q"
  shows "L[i mod 512 := x] ! (k mod 512) = (if k = i then x else L ! (k mod 512))"
  using assms same_sector_iff [of k i] by (auto simp: nth_list_update)

lemma next_in_sector:
  assumes "k mod 512 + j < 512"
  shows "(k + j) div 512 = k div 512 \<and> (k + j) mod 512 = k mod 512 + (j :: nat)"
proof -
  define q r where "q = k div 512" and "r = k mod 512"
  then have k: "k + j = 512 * q + (r + j)" and r: "r + j < 512" using assms by simp_all
  show ?thesis
    unfolding k q_def [symmetric] r_def [symmetric] using r by (simp only: div_mult_self4 mod_mult_self4) simp
qed

lemma next_sector:
  assumes "k mod 512 = (511 :: nat)"
  shows "(k + 1) div 512 = k div 512 + 1 \<and> (k + 1) mod 512 = 0"
proof -
  have "k + 1 = 512 * (k div 512 + 1)" using assms div_mult_mod_eq [of k 512] by simp
  then show ?thesis by (metis mod_mult_self1_is_0 nonzero_mult_div_cancel_left zero_neq_numeral)
qed

lemma fits_range:
  assumes "fits s c" "k < entry_end (fat_type (vol s)) (unat c)"
  shows "k div 512 < unat (fat_size (vol s))"
  using assms unfolding fits_def by (auto simp: less_mult_imp_div_less mult.commute)

lemma fat_ok_len: "fat_ok s \<Longrightarrow> length (vsec s a) = 512"
  by (simp add: fat_ok_def)

lemma fat_ok_io:
  "fat_ok s \<Longrightarrow> f < unat (num_fats (vol s)) \<Longrightarrow> i < unat (fat_size (vol s)) \<Longrightarrow>
     vread_ok s (fat_sec s f i) \<and> vwrite_ok s (fat_sec s f i)"
  by (simp add: fat_ok_def)

lemma fat_ok_copy: "fat_ok s \<Longrightarrow> 0 < unat (num_fats (vol s))"
  by (simp add: fat_ok_def unat_gt_0 word_neq_0_conv)

lemma fimg_le16:
  "k mod 512 + 1 < 512 \<Longrightarrow> le16 (vsec s (fat_sec s f (k div 512))) (k mod 512) = b16 (fimg s f) k"
  using next_in_sector [of k 1] by (simp add: le16_def b16_def fimg_def)

lemma fimg_le32:
  "k mod 512 + 3 < 512 \<Longrightarrow> le32 (vsec s (fat_sec s f (k div 512))) (k mod 512) = b32 (fimg s f) k"
  using next_in_sector [of k 1] next_in_sector [of k 2] next_in_sector [of k 3]
  by (simp add: le32_def b32_def fimg_def)

lemma fat_sec_Suc: "fat_sec s f i + 1 = fat_sec s f (i + 1)"
  by (simp add: fat_sec_def)

lemma fimg_span:
  "k mod 512 = 511 \<Longrightarrow>
     ucast (vsec s (fat_sec s f (k div 512)) ! (k mod 512)) OR push_bit 8 (ucast (vsec s (fat_sec s f (k div 512) + 1) ! 0))
     = b16 (fimg s f) k"
  using next_sector [of k] by (simp add: b16_def fimg_def fat_sec_Suc)

lemma u32_odd: "((c :: u32) AND 1 \<noteq> 0) = odd (unat c)"
proof -
  have "odd (unat c) = bit (unat c) 0" by (simp add: bit_0)
  also have "\<dots> = odd c" by (simp only: bit_unsigned_iff) (simp add: bit_0)
  finally show ?thesis by (simp add: and_one_eq mod_2_eq_odd)
qed

lemma u32_eq_511: "((x :: u32) = 511) = (unat x = 511)"
  by (simp add: word_unat_eq_iff)

text \<open>The current value of an entry, from the first copy.\<close>

definition fat_view :: "fat_state \<Rightarrow> u32 \<Rightarrow> u32" where
  "fat_view s c = entry_get (fat_type (vol s)) (fimg s 0) (unat c)"

definition entry_sec :: "fat_state \<Rightarrow> nat \<Rightarrow> u32 \<Rightarrow> u32" where
  "entry_sec s f c = fat_sec s f ((if fat_type (vol s) = 12 then unat c + unat c div 2
     else if fat_type (vol s) = 16 then 2 * unat c else 4 * unat c) div 512)"

lemma even_off: "2 * n mod 512 + 1 < (512 :: nat)" "4 * n mod 512 + 3 < (512 :: nat)"
proof -
  have "2 * n mod 512 = 2 * (n mod 256)" "4 * n mod 512 = 4 * (n mod 128)"
    using mult_mod_right [of 2 n 256] mult_mod_right [of 4 n 128] by simp_all
  moreover have "n mod 256 < 256" "n mod 128 < 128" by simp_all
  ultimately show "2 * n mod 512 + 1 < (512 :: nat)" "4 * n mod 512 + 3 < (512 :: nat)" by linarith+
qed

lemma fat_read_entry_eq:
  assumes ok: "fat_ok s" and fits: "fits s c"
  shows "fat_read_entry c s = (fat_view s c, s\<lparr>fat_buf := vsec s (entry_sec s 0 c)\<rparr>)"
proof -
  note len = fat_ok_len [OF ok] and cp = fat_ok_copy [OF ok] and b = bps_512 [OF ok]
  have c28: "unat c < 2 ^ 28" using fits by (simp add: fits_def)
  note off = entry_offsets [OF c28]
  have base: "first_fat_sector (vol s) + of_nat i = fat_sec s 0 i" for i by (simp add: fat_sec_def)
  have rd: "vread_ok s (fat_sec s 0 (k div 512))" if "k < entry_end (fat_type (vol s)) (unat c)" for k
    using fat_ok_io [OF ok cp fits_range [OF fits that]] by simp
  consider "fat_type (vol s) = 12" | "fat_type (vol s) = 16" | "fat_type (vol s) = 32"
    using ok by (auto simp: fat_ok_def)
  then show ?thesis
  proof cases
    case 1
    define k where "k = unat c + unat c div 2"
    have rd1: "vread_ok s (fat_sec s 0 (k div 512))" using rd [of k] 1 by (simp add: k_def entry_end_def)
    have rd2: "vread_ok s (fat_sec s 0 (k div 512) + 1)" if "k mod 512 = 511"
      using rd [of "k + 1"] next_sector [OF that] 1 by (simp add: k_def entry_end_def fat_sec_Suc)
    have m: "k mod 512 + 1 < 512" if "k mod 512 \<noteq> 511" using that mod_less_divisor [of 512 k] by linarith
    show ?thesis
      using 1 rd1 rd2 fimg_le16 [OF m, of s 0] fimg_span [of k s 0]
      by (simp add: fat_read_entry_def b off base load_fat_buf_eq Let_def u32_eq_511 u32_odd
          fat_view_def entry_get_def entry_sec_def flip: k_def del: One_nat_def)
  next
    case 2
    have "vread_ok s (fat_sec s 0 (2 * unat c div 512))" using rd [of "2 * unat c"] 2 by (simp add: entry_end_def)
    with 2 show ?thesis
      using fimg_le16 [OF even_off(1), of s 0 "unat c"]
      by (simp add: fat_read_entry_def b off base load_fat_buf_eq Let_def fat_view_def entry_get_def entry_sec_def)
  next
    case 3
    have "vread_ok s (fat_sec s 0 (4 * unat c div 512))" using rd [of "4 * unat c"] 3 by (simp add: entry_end_def)
    with 3 show ?thesis
      using fimg_le32 [OF even_off(2), of s 0 "unat c"]
      by (simp add: fat_read_entry_def b off base load_fat_buf_eq Let_def fat_view_def entry_get_def entry_sec_def)
  qed
qed

text \<open>
  Two states that agree on everything but the table's sectors and the table buffer.
\<close>

definition fat_region :: "fat_state \<Rightarrow> u32 set" where
  "fat_region s = {fat_sec s f i | f i. f < unat (num_fats (vol s)) \<and> i < unat (fat_size (vol s))}"

definition fat_only :: "fat_state \<Rightarrow> fat_state \<Rightarrow> bool" where
  "fat_only s s' \<longleftrightarrow>
     volumes s' = volumes s \<and> active_drive s' = active_drive s \<and> saved_drive s' = saved_drive s \<and>
     handles s' = handles s \<and> handles_initialized s' = handles_initialized s \<and>
     sector_buf s' = sector_buf s \<and> stack_buf s' = stack_buf s \<and>
     rd_err (dsk s') = rd_err (dsk s) \<and> wr_err (dsk s') = wr_err (dsk s) \<and>
     (\<forall>d. d \<noteq> vol_dev (vol s) \<longrightarrow> sectors (dsk s') d = sectors (dsk s) d) \<and>
     (\<forall>a. a \<notin> fat_region s \<longrightarrow> vsec s' a = vsec s a) \<and>
     (\<forall>a. length (vsec s a) = 512 \<longrightarrow> length (vsec s' a) = 512)"

lemma fat_only_refl [simp, intro]: "fat_only s s" "fat_only s (s\<lparr>fat_buf := b\<rparr>)"
  by (simp_all add: fat_only_def)

lemma fat_only_vol: "fat_only s s' \<Longrightarrow> vol s' = vol s"
  by (simp add: fat_only_def vol_def)

lemma fat_only_views:
  assumes "fat_only s s'"
  shows "vread_ok s' = vread_ok s" "vwrite_ok s' = vwrite_ok s" "fat_sec s' = fat_sec s"
    "fat_region s' = fat_region s" "fits s' = fits s" "is_eoc s' = is_eoc s"
    "cluster_to_sector c s' = cluster_to_sector c s" "data_clusters s' = data_clusters s"
  using assms fat_only_vol [OF assms]
  by (auto simp: fun_eq_iff vread_ok_def vwrite_ok_def fat_sec_def fat_region_def fits_def is_eoc_def
      cluster_to_sector_def data_clusters_def fat_only_def)

lemma fat_only_trans: "fat_only s s1 \<Longrightarrow> fat_only s1 s2 \<Longrightarrow> fat_only s s2"
  using fat_only_views [of s s1] fat_only_vol [of s s1] by (simp add: fat_only_def)

lemma fat_only_ok: "fat_only s s' \<Longrightarrow> fat_ok s \<Longrightarrow> fat_ok s'"
  using fat_only_views [of s s'] fat_only_vol [of s s'] by (simp add: fat_ok_def fat_only_def)

lemma fat_only_write:
  assumes "a \<in> fat_region s" "length buf = 512"
  shows "fat_only s (snd (write_sector a buf s))"
  using assms by (simp add: fat_only_def vsec_write_sector) (simp add: write_sector_def Let_def)

lemma fimg_write:
  assumes "fat_ok s" "f < unat (num_fats (vol s))" "g < unat (num_fats (vol s))"
    "q < unat (fat_size (vol s))" "k div 512 < unat (fat_size (vol s))"
  shows "fimg (snd (write_sector (fat_sec s f q) buf s)) g k =
    (if g = f \<and> k div 512 = q then buf ! (k mod 512) else fimg s g k)"
  using fat_sec_inj [OF assms(1,3,2,5,4)] fat_ok_io [OF assms(1,2,4)]
  by (simp add: fimg_def fat_sec_def vsec_write_sector)

text \<open>What one copy's update does to the byte arrays of all copies.\<close>

definition copy_updated :: "u32 \<Rightarrow> u32 \<Rightarrow> nat \<Rightarrow> fat_state \<Rightarrow> fat_state \<Rightarrow> bool" where
  "copy_updated c v f s s' \<longleftrightarrow> fat_only s s' \<and>
     (\<forall>g k. g < unat (num_fats (vol s)) \<longrightarrow> k div 512 < unat (fat_size (vol s)) \<longrightarrow>
        fimg s' g k = (if g = f then entry_put (fat_type (vol s)) (unat c) v (fimg s f) k else fimg s g k))"

lemma fimg_frame [simp]: "fimg (s\<lparr>fat_buf := b\<rparr>) = fimg s" "fat_sec (s\<lparr>fat_buf := b\<rparr>) = fat_sec s"
    "fat_region (s\<lparr>fat_buf := b\<rparr>) = fat_region s" "fat_ok (s\<lparr>fat_buf := b\<rparr>) = fat_ok s"
  by (simp_all add: fimg_def fat_sec_def fat_region_def fat_ok_def fun_eq_iff)

text \<open>A sector of one copy rewritten in place.\<close>

lemma copy_updated_write:
  assumes ok: "fat_ok s" and f: "f < unat (num_fats (vol s))" and q: "q < unat (fat_size (vol s))"
    and len: "length buf = 512"
    and buf: "\<And>k. k div 512 = q \<Longrightarrow> buf ! (k mod 512) = entry_put (fat_type (vol s)) (unat c) v (fimg s f) k"
    and rest: "\<And>k. k div 512 \<noteq> q \<Longrightarrow> entry_put (fat_type (vol s)) (unat c) v (fimg s f) k = fimg s f k"
  shows "copy_updated c v f s (snd (write_sector (fat_sec s f q) buf (s\<lparr>fat_buf := b\<rparr>)))"
proof -
  let ?s = "s\<lparr>fat_buf := b\<rparr>"
  have "fat_sec s f q \<in> fat_region ?s" using f q by (auto simp: fat_region_def)
  then have "fat_only s (snd (write_sector (fat_sec s f q) buf ?s))"
    using fat_only_trans [OF _ fat_only_write] len by blast
  moreover have "fimg (snd (write_sector (fat_sec s f q) buf ?s)) g k =
      (if g = f \<and> k div 512 = q then buf ! (k mod 512) else fimg s g k)"
    if "g < unat (num_fats (vol s))" "k div 512 < unat (fat_size (vol s))" for g k
    using fimg_write [of ?s f g q k buf] that ok f q by simp
  ultimately show ?thesis using buf rest by (simp add: copy_updated_def)
qed

lemma fat_base: "first_fat_sector (vol s) + of_nat f * fat_size (vol s) + of_nat i = fat_sec s f i"
  by (simp add: fat_sec_def)

lemma div_ne_imp: "k div 512 \<noteq> q \<Longrightarrow> i div 512 = q \<Longrightarrow> k \<noteq> (i :: nat)"
  by auto

lemma write_entry_16_updated:
  assumes ok: "fat_ok s" and fits: "fits s c" and f: "f < unat (num_fats (vol s))" and ty: "fat_type (vol s) = 16"
  shows "copy_updated c v f s (write_entry_16 (first_fat_sector (vol s) + of_nat f * fat_size (vol s)) c v s)"
proof -
  define k0 where "k0 = 2 * unat c"
  have c28: "unat c < 2 ^ 28" using fits by (simp add: fits_def)
  have q: "k0 div 512 < unat (fat_size (vol s))"
    using fits_range [OF fits, of k0] ty by (simp add: k0_def entry_end_def)
  note io = fat_ok_io [OF ok f q]
  have nx: "(k0 + 1) div 512 = k0 div 512" "(k0 + 1) mod 512 = Suc (k0 mod 512)"
    using next_in_sector [of k0 1] even_off(1) [of "unat c"] by (simp_all add: k0_def)
  let ?L = "vsec s (fat_sec s f (k0 div 512))"
  have buf: "put16 ?L (k0 mod 512) v = ?L[k0 mod 512 := ucast v, (k0 + 1) mod 512 := ucast (drop_bit 8 v)]"
    by (simp only: put16_def nx)
  have len: "length ?L = 512" using ok by (rule fat_ok_len)
  have "copy_updated c v f s (snd (write_sector (fat_sec s f (k0 div 512)) (put16 ?L (k0 mod 512) v)
      (s\<lparr>fat_buf := put16 ?L (k0 mod 512) v\<rparr>)))"
  proof (rule copy_updated_write [OF ok f q])
    fix k assume "k div 512 = k0 div 512"
    then show "put16 ?L (k0 mod 512) v ! (k mod 512) = entry_put (fat_type (vol s)) (unat c) v (fimg s f) k"
      unfolding buf entry_put_def ty k0_def [symmetric]
      using len nx(1) by (simp add: nth_sector_upd fimg_def del: One_nat_def)
  next
    fix k assume "k div 512 \<noteq> k0 div 512"
    then have "k \<noteq> k0" "k \<noteq> k0 + 1" using nx(1) by auto
    then show "entry_put (fat_type (vol s)) (unat c) v (fimg s f) k = fimg s f k"
      by (simp add: entry_put_def ty flip: k0_def)
  qed (simp add: len)
  then show ?thesis
    using io by (simp add: write_entry_16_def bps_512 [OF ok] entry_offsets [OF c28] fat_base load_fat_buf_eq Let_def flip: k0_def)
qed

lemma write_entry_32_updated:
  assumes ok: "fat_ok s" and fits: "fits s c" and f: "f < unat (num_fats (vol s))" and ty: "fat_type (vol s) = 32"
  shows "copy_updated c v f s (write_entry_32 (first_fat_sector (vol s) + of_nat f * fat_size (vol s)) c v s)"
proof -
  define k0 where "k0 = 4 * unat c"
  have c28: "unat c < 2 ^ 28" using fits by (simp add: fits_def)
  have q: "k0 div 512 < unat (fat_size (vol s))"
    using fits_range [OF fits, of k0] ty by (simp add: k0_def entry_end_def)
  note io = fat_ok_io [OF ok f q]
  have in_sec: "k0 mod 512 + 3 < 512" using even_off(2) [of "unat c"] by (simp add: k0_def)
  then have nx: "(k0 + j) div 512 = k0 div 512" "k0 mod 512 + j = (k0 + j) mod 512" if "j \<in> {1, 2, 3}" for j
    using next_in_sector [of k0 j] that by auto
  let ?L = "vsec s (fat_sec s f (k0 div 512))"
  define w where "w = (le32 ?L (k0 mod 512) AND 0xF0000000) OR (v AND 0x0FFFFFFF)"
  have w: "w = (b32 (fimg s f) k0 AND 0xF0000000) OR (v AND 0x0FFFFFFF)"
    unfolding w_def by (simp only: fimg_le32 [OF in_sec])
  have buf: "put32 ?L (k0 mod 512) w = ?L[k0 mod 512 := ucast w, (k0 + 1) mod 512 := ucast (drop_bit 8 w),
      (k0 + 2) mod 512 := ucast (drop_bit 16 w), (k0 + 3) mod 512 := ucast (drop_bit 24 w)]"
    unfolding put32_def by (simp only: nx(2) insert_iff simp_thms)
  have len: "length ?L = 512" using ok by (rule fat_ok_len)
  have put: "entry_put (fat_type (vol s)) (unat c) v (fimg s f) =
      (fimg s f)(k0 := ucast w, k0 + 1 := ucast (drop_bit 8 w), k0 + 2 := ucast (drop_bit 16 w), k0 + 3 := ucast (drop_bit 24 w))"
    by (simp only: entry_put_def ty Let_def k0_def [symmetric] w [symmetric]) simp
  have "copy_updated c v f s (snd (write_sector (fat_sec s f (k0 div 512)) (put32 ?L (k0 mod 512) w)
      (s\<lparr>fat_buf := put32 ?L (k0 mod 512) w\<rparr>)))"
  proof (rule copy_updated_write [OF ok f q])
    fix k assume "k div 512 = k0 div 512"
    then show "put32 ?L (k0 mod 512) w ! (k mod 512) = entry_put (fat_type (vol s)) (unat c) v (fimg s f) k"
      unfolding buf put using len nx(1) by (simp add: nth_sector_upd fimg_def del: One_nat_def add_2_eq_Suc')
  next
    fix k assume "k div 512 \<noteq> k0 div 512"
    then have "k \<noteq> k0" "k \<noteq> k0 + 1" "k \<noteq> k0 + 2" "k \<noteq> k0 + 3"
      using nx(1) [of 1] nx(1) [of 2] nx(1) [of 3] by auto
    then show "entry_put (fat_type (vol s)) (unat c) v (fimg s f) k = fimg s f k"
      unfolding put by simp
  qed (simp add: len)
  moreover have "write_entry_32 (first_fat_sector (vol s) + of_nat f * fat_size (vol s)) c v s =
      snd (write_sector (fat_sec s f (k0 div 512)) (put32 ?L (k0 mod 512) w) (s\<lparr>fat_buf := put32 ?L (k0 mod 512) w\<rparr>))"
    unfolding write_entry_32_def bps_512 [OF ok] entry_offsets [OF c28] k0_def [symmetric] Let_def fat_base load_fat_buf_eq w_def
    using io by simp
  ultimately show ?thesis by simp
qed

text \<open>FAT12: the two bytes in one sector, or in two neighbouring ones.\<close>

definition put12_lo :: "nat \<Rightarrow> u32 \<Rightarrow> u8 \<Rightarrow> u8" where
  "put12_lo c v b = (if odd c then (b AND 0x0F) OR ucast (push_bit 4 (v AND 0x0F)) else ucast (v AND 0xFF))"

definition put12_hi :: "nat \<Rightarrow> u32 \<Rightarrow> u8 \<Rightarrow> u8" where
  "put12_hi c v b = (if odd c then ucast (drop_bit 4 v AND 0xFF) else (b AND 0xF0) OR ucast (drop_bit 8 v AND 0x0F))"

lemma entry_put_12:
  "entry_put 12 c v b = (let k = c + c div 2 in b(k := put12_lo c v (b k), k + 1 := put12_hi c v (b (k + 1))))"
  by (simp add: entry_put_def put12_lo_def put12_hi_def Let_def)

lemma write_entry_12_eq:
  assumes "fat_ok s" "fits s c" "f < unat (num_fats (vol s))" "fat_type (vol s) = 12"
  defines "k \<equiv> unat c + unat c div 2"
  defines "A \<equiv> fat_sec s f (k div 512)"
  shows "write_entry_12 (first_fat_sector (vol s) + of_nat f * fat_size (vol s)) c v s =
    (let b1 = (vsec s A)[k mod 512 := put12_lo (unat c) v (vsec s A ! (k mod 512))] in
     if k mod 512 = 511
     then snd (write_sector (A + 1) ((vsec s (A + 1))[0 := put12_hi (unat c) v (vsec s (A + 1) ! 0)])
            (snd (write_sector A b1 (s\<lparr>fat_buf := b1\<rparr>))))
     else (let b2 = b1[(k + 1) mod 512 := put12_hi (unat c) v (b1 ! ((k + 1) mod 512))]
           in snd (write_sector A b2 (s\<lparr>fat_buf := b2\<rparr>))))"
proof -
  have c28: "unat c < 2 ^ 28" using assms by (simp add: fits_def)
  have rd: "vread_ok s (fat_sec s f (i div 512))" if "i < entry_end (fat_type (vol s)) (unat c)" for i
    using fat_ok_io [OF assms(1,3) fits_range [OF assms(2) that]] by simp
  have rd1: "vread_ok s A" using rd [of k] assms(4) by (simp add: A_def k_def entry_end_def)
  have rd2: "vread_ok s (A + 1)" if "k mod 512 = 511"
    using rd [of "k + 1"] next_sector [OF that] assms(4) by (simp add: A_def k_def entry_end_def fat_sec_Suc)
  have nx: "(k + 1) mod 512 = k mod 512 + 1" if "k mod 512 \<noteq> 511"
    using next_in_sector [of k 1] that mod_less_divisor [of 512 k] by linarith
  have A: "first_fat_sector (vol s) + of_nat f * fat_size (vol s) + (c + c div 2) div 512 = A"
    by (simp only: entry_offsets(1) [OF c28] A_def k_def fat_base)
  show ?thesis
    unfolding write_entry_12_def bps_512 [OF assms(1)] load_fat_buf_eq u32_odd
    using rd1 rd2 nx entry_offsets(2) [OF c28]
    by (simp add: A Let_def u32_eq_511 put12_lo_def put12_hi_def flip: k_def del: One_nat_def)
qed

lemma write_entry_12_updated:
  assumes ok: "fat_ok s" and fits: "fits s c" and f: "f < unat (num_fats (vol s))" and ty: "fat_type (vol s) = 12"
  shows "copy_updated c v f s (write_entry_12 (first_fat_sector (vol s) + of_nat f * fat_size (vol s)) c v s)"
proof -
  define k0 where "k0 = unat c + unat c div 2"
  define A where "A = fat_sec s f (k0 div 512)"
  define b1 where "b1 = (vsec s A)[k0 mod 512 := put12_lo (unat c) v (vsec s A ! (k0 mod 512))]"
  note len = fat_ok_len [OF ok]
  have q: "k0 div 512 < unat (fat_size (vol s))" "(k0 + 1) div 512 < unat (fat_size (vol s))"
    using fits_range [OF fits, of k0] fits_range [OF fits, of "k0 + 1"] ty by (simp_all add: k0_def entry_end_def)
  note eq = write_entry_12_eq [OF ok fits f ty, of v, folded k0_def, folded A_def, folded b1_def, unfolded Let_def, folded b1_def]
  note put = entry_put_12 [of "unat c" v "fimg s f", folded ty k0_def, unfolded Let_def, folded k0_def]
  have lenb: "length b1 = 512" by (simp add: b1_def len)
  have b1: "b1 ! (k mod 512) = (if k = k0 then put12_lo (unat c) v (fimg s f k0) else fimg s f k)"
    if "k div 512 = k0 div 512" for k
    using that by (simp add: b1_def nth_sector_upd [OF len _ that] fimg_def A_def)
  show ?thesis
  proof (cases "k0 mod 512 = 511")
    case False
    then have nx: "(k0 + 1) div 512 = k0 div 512"
      using next_in_sector [of k0 1] mod_less_divisor [of 512 k0] by linarith
    have "copy_updated c v f s (snd (write_sector A
        (b1[(k0 + 1) mod 512 := put12_hi (unat c) v (b1 ! ((k0 + 1) mod 512))])
        (s\<lparr>fat_buf := b1[(k0 + 1) mod 512 := put12_hi (unat c) v (b1 ! ((k0 + 1) mod 512))]\<rparr>)))"
      unfolding A_def
    proof (rule copy_updated_write [OF ok f q(1)])
      fix k assume k: "k div 512 = k0 div 512"
      then show "b1[(k0 + 1) mod 512 := put12_hi (unat c) v (b1 ! ((k0 + 1) mod 512))] ! (k mod 512) =
          entry_put (fat_type (vol s)) (unat c) v (fimg s f) k"
        by (simp add: put nth_sector_upd [OF lenb nx k] b1 nx del: One_nat_def)
    next
      fix k assume "k div 512 \<noteq> k0 div 512"
      then have "k \<noteq> k0" "k \<noteq> k0 + 1" using nx by auto
      then show "entry_put (fat_type (vol s)) (unat c) v (fimg s f) k = fimg s f k" by (simp add: put)
    qed (simp add: lenb)
    then show ?thesis using False eq by simp
  next
    case True
    note nx = next_sector [OF True]
    let ?s1 = "snd (write_sector A b1 (s\<lparr>fat_buf := b1\<rparr>))"
    let ?b2 = "(vsec s (A + 1))[0 := put12_hi (unat c) v (vsec s (A + 1) ! 0)]"
    have A1: "A + 1 = fat_sec s f ((k0 + 1) div 512)" using nx by (simp add: A_def fat_sec_Suc)
    have o1: "fat_only s ?s1"
      using fat_only_trans [OF _ fat_only_write, of s "s\<lparr>fat_buf := b1\<rparr>" A b1] f q lenb
      by (auto simp: A_def fat_region_def)
    then have o2: "fat_only s (snd (write_sector (A + 1) ?b2 ?s1))"
      using f q len by (intro fat_only_trans [OF o1 fat_only_write]) (auto simp: A1 fat_only_views [OF o1] fat_region_def)
    have i1: "fimg ?s1 g k = (if g = f \<and> k div 512 = k0 div 512 then b1 ! (k mod 512) else fimg s g k)"
      if "g < unat (num_fats (vol s))" "k div 512 < unat (fat_size (vol s))" for g k
      using fimg_write [of "s\<lparr>fat_buf := b1\<rparr>" f g "k0 div 512" k b1] that ok f q by (simp add: A_def)
    have i2: "fimg (snd (write_sector (A + 1) ?b2 ?s1)) g k =
        (if g = f \<and> k div 512 = (k0 + 1) div 512 then ?b2 ! (k mod 512) else fimg ?s1 g k)"
      if "g < unat (num_fats (vol s))" "k div 512 < unat (fat_size (vol s))" for g k
      using fimg_write [of ?s1 f g "(k0 + 1) div 512" k ?b2] that ok f q
      by (simp add: A1 fat_only_ok [OF o1] fat_only_views [OF o1] del: One_nat_def)
    have b2: "?b2 ! (k mod 512) = (if k = k0 + 1 then put12_hi (unat c) v (fimg s f (k0 + 1)) else fimg s f k)"
      if "k div 512 = (k0 + 1) div 512" for k
      using nth_sector_upd [OF len _ that, of "k0 + 1"] nx that by (simp add: fimg_def A1 del: One_nat_def)
    have "copy_updated c v f s (snd (write_sector (A + 1) ?b2 ?s1))"
      unfolding copy_updated_def put
    proof (intro conjI allI impI)
      fix g k assume "g < unat (num_fats (vol s))" "k div 512 < unat (fat_size (vol s))"
      then show "fimg (snd (write_sector (A + 1) ?b2 ?s1)) g k =
         (if g = f then ((fimg s f)(k0 := put12_lo (unat c) v (fimg s f k0),
             k0 + 1 := put12_hi (unat c) v (fimg s f (k0 + 1)))) k else fimg s g k)"
        using nx b2 [of "k0 + 1"] by (auto simp: i1 i2 b1 b2)
    qed (rule o2)
    then show ?thesis using True eq by simp
  qed
qed

lemma entry_get_cong:
  "(\<And>k. k < entry_end ty c \<Longrightarrow> b k = b' k) \<Longrightarrow> entry_get ty b c = entry_get ty b' c"
  by (auto simp: entry_get_def b16_def b32_def entry_end_def)

lemma entry_put_cong:
  assumes "\<And>k. k < entry_end ty c \<Longrightarrow> b k = b' k" "b k = b' k"
  shows "entry_put ty c v b k = entry_put ty c v b' k"
proof -
  consider "ty = 12" | "ty = 16" | "ty \<noteq> 12" "ty \<noteq> 16" by blast
  then show ?thesis
  proof cases
    case 1
    then have "b (c + c div 2) = b' (c + c div 2)" "b (c + c div 2 + 1) = b' (c + c div 2 + 1)"
      using assms(1) by (simp_all add: entry_end_def)
    with 1 assms(2) show ?thesis by (simp only: entry_put_12 Let_def fun_upd_apply)
  next
    case 2
    with assms(2) show ?thesis by (simp add: entry_put_def)
  next
    case 3
    then have "b32 b (4 * c) = b32 b' (4 * c)" using assms(1) by (simp add: b32_def entry_end_def)
    with 3 assms(2) show ?thesis by (simp only: entry_put_def if_False Let_def fun_upd_apply)
  qed
qed

lemma write_entry_copy_updated:
  assumes "fat_ok s" "fits s c" "f < unat (num_fats (vol s))"
  shows "copy_updated c v f s (write_entry_copy c v f s)"
proof -
  have "fat_type (vol s) \<in> {12, 16, 32}" using assms(1) by (simp add: fat_ok_def)
  then show ?thesis
    using write_entry_16_updated [OF assms] write_entry_32_updated [OF assms] write_entry_12_updated [OF assms]
    by (auto simp: write_entry_copy_def Let_def)
qed

text \<open>All copies receive the new entry, and nothing else changes.\<close>

lemma fold_copies_updated:
  fixes v :: u32
  assumes ok: "fat_ok s" and fits: "fits s c" and n: "n \<le> unat (num_fats (vol s))"
  defines "s' \<equiv> fold (write_entry_copy c v) [0..<n] s"
  shows "fat_only s s' \<and> (\<forall>g k. g < unat (num_fats (vol s)) \<longrightarrow> k div 512 < unat (fat_size (vol s)) \<longrightarrow>
    fimg s' g k = (if g < n then entry_put (fat_type (vol s)) (unat c) v (fimg s g) k else fimg s g k))"
  using n unfolding s'_def
proof (induction n)
  case 0
  show ?case by simp
next
  case (Suc n)
  let ?s1 = "fold (write_entry_copy c v) [0..<n] s"
  from Suc have o1: "fat_only s ?s1"
    and i1: "\<And>g k. g < unat (num_fats (vol s)) \<Longrightarrow> k div 512 < unat (fat_size (vol s)) \<Longrightarrow>
      fimg ?s1 g k = (if g < n then entry_put (fat_type (vol s)) (unat c) v (fimg s g) k else fimg s g k)"
    by auto
  have n: "n < unat (num_fats (vol s))" using Suc.prems by simp
  have fits1: "fits ?s1 c" using fat_only_views(5) [OF o1] fits by simp
  have "copy_updated c v n ?s1 (write_entry_copy c v n ?s1)"
    using n fat_only_vol [OF o1] by (intro write_entry_copy_updated fat_only_ok [OF o1 ok] fits1) simp
  then have o2: "fat_only ?s1 (write_entry_copy c v n ?s1)"
    and i2: "\<And>g k. g < unat (num_fats (vol s)) \<Longrightarrow> k div 512 < unat (fat_size (vol s)) \<Longrightarrow>
      fimg (write_entry_copy c v n ?s1) g k =
        (if g = n then entry_put (fat_type (vol s)) (unat c) v (fimg ?s1 n) k else fimg ?s1 g k)"
    unfolding copy_updated_def fat_only_vol [OF o1] by auto
  have "entry_put (fat_type (vol s)) (unat c) v (fimg ?s1 n) k = entry_put (fat_type (vol s)) (unat c) v (fimg s n) k"
    if "k div 512 < unat (fat_size (vol s))" for k
    using that fits_range [OF fits] i1 [OF n] by (intro entry_put_cong) auto
  with i1 i2 fat_only_trans [OF o1 o2] show ?case by (auto simp: less_Suc_eq)
qed

lemma fat_write_entry_spec:
  assumes "fat_ok s" "fits s c"
  shows "fat_only s (fat_write_entry c v s)"
    and "g < unat (num_fats (vol s)) \<Longrightarrow> k div 512 < unat (fat_size (vol s)) \<Longrightarrow>
      fimg (fat_write_entry c v s) g k = entry_put (fat_type (vol s)) (unat c) v (fimg s g) k"
  using fold_copies_updated [OF assms order_refl, of v] by (simp_all add: fat_write_entry_def)

lemma fat_view_write:
  assumes "fat_ok s" "fits s c" "fits s c'"
  shows "fat_view (fat_write_entry c v s) c' =
    (if c' = c then v AND entry_mask (fat_type (vol s)) else fat_view s c')"
proof -
  let ?ty = "fat_type (vol s)"
  have "fat_view (fat_write_entry c v s) c' = entry_get ?ty (entry_put ?ty (unat c) v (fimg s 0)) (unat c')"
    using fat_write_entry_spec(2) [OF assms(1,2) fat_ok_copy [OF assms(1)]] fits_range [OF assms(3)]
    unfolding fat_view_def fat_only_vol [OF fat_write_entry_spec(1) [OF assms(1,2)]]
    by (intro entry_get_cong) simp
  then show ?thesis
    by (cases "c' = c") (simp_all add: entry_get_put_same entry_get_put_other fat_view_def word_unat_eq_iff)
qed

text \<open>
  C7. Writing the table entry of one cluster, in any of the three formats and also when a FAT12
  entry straddles two sectors: reading it back gives the value masked to the entry's
  width, every other cluster's entry still reads as before, in every copy of the
  table, and no sector outside the table, no other device and no other part of the driver state
  (the table buffer apart) changes.
\<close>
theorem fat_write_entry_roundtrip:
  fixes v :: u32
  assumes "fat_ok s" "fits s c" "fits s c'"
  defines "s' \<equiv> fat_write_entry c v s"
  shows "fst (fat_read_entry c' s') =
      (if c' = c then v AND entry_mask (fat_type (vol s)) else fst (fat_read_entry c' s)) \<and>
    (\<forall>f < unat (num_fats (vol s)). entry_get (fat_type (vol s)) (fimg s' f) (unat c') =
      (if c' = c then v AND entry_mask (fat_type (vol s)) else entry_get (fat_type (vol s)) (fimg s f) (unat c'))) \<and>
    fat_only s s' \<and> fat_ok s'"
proof (intro conjI)
  note o = fat_write_entry_spec(1) [OF assms(1,2), of v, folded s'_def]
  show "fat_only s s'" "fat_ok s'" using o fat_only_ok [OF o assms(1)] by simp_all
  have "fat_read_entry c' s' = (fat_view s' c', s'\<lparr>fat_buf := vsec s' (entry_sec s' 0 c')\<rparr>)"
    using fat_only_ok [OF o assms(1)] fat_only_views(5) [OF o] assms(3) by (intro fat_read_entry_eq) simp_all
  then show "fst (fat_read_entry c' s') =
      (if c' = c then v AND entry_mask (fat_type (vol s)) else fst (fat_read_entry c' s))"
    using fat_view_write [OF assms(1-3), of v] fat_read_entry_eq [OF assms(1,3)] by (simp add: s'_def)
  show "\<forall>f < unat (num_fats (vol s)). entry_get (fat_type (vol s)) (fimg s' f) (unat c') =
      (if c' = c then v AND entry_mask (fat_type (vol s)) else entry_get (fat_type (vol s)) (fimg s f) (unat c'))"
  proof (intro allI impI)
    fix f assume f: "f < unat (num_fats (vol s))"
    have "entry_get (fat_type (vol s)) (fimg s' f) (unat c') =
        entry_get (fat_type (vol s)) (entry_put (fat_type (vol s)) (unat c) v (fimg s f)) (unat c')"
      using fat_write_entry_spec(2) [OF assms(1,2) f] fits_range [OF assms(3)]
      by (intro entry_get_cong) (simp add: s'_def)
    then show "entry_get (fat_type (vol s)) (fimg s' f) (unat c') =
      (if c' = c then v AND entry_mask (fat_type (vol s)) else entry_get (fat_type (vol s)) (fimg s f) (unat c'))"
      by (cases "c' = c") (simp_all add: entry_get_put_same entry_get_put_other word_unat_eq_iff)
  qed
qed

definition example_fat12 :: fat_state where
  "example_fat12 = set_vol (\<lambda>v. v\<lparr>mounted := True, fat_type := 12, bytes_per_sec := 512, sec_per_clus := 1,
      reserved_secs := 1, num_fats := 2, root_entry_cnt := 16, total_sectors := 600, fat_size := 2,
      root_dir_sectors := 1, first_fat_sector := 1, first_data_sector := 6, root_dir_sector := 5,
      cluster_count := 500, partition_lba := 63, cwd_path := [0x2F]\<rparr>)
    (fat_init \<lparr>sectors = \<lambda>d a. replicate 512 0, rd_err = \<lambda>d a. False, wr_err = \<lambda>d a. False\<rparr> [])"

lemma example_fat12_vol [simp]: "vol example_fat12 = \<lparr>mounted = True, drive_id = 0, fat_type = 12, bytes_per_sec = 512,
   sec_per_clus = 1, reserved_secs = 1, num_fats = 2, root_entry_cnt = 16, total_sectors = 600, fat_size = 2,
   root_dir_sectors = 1, first_fat_sector = 1, first_data_sector = 6, root_dir_sector = 5, root_cluster = 0,
   cluster_count = 500, partition_lba = 63, cwd_cluster = 0, cwd_path = [0x2F], use_fdc = False\<rparr>"
  by (simp add: example_fat12_def set_vol_def vol_def fat_init_def zero_volume_def FAT_MAX_DRIVES_def FAT_DRIVE_C_def)

lemma example_fat12_disk [simp]: "dsk example_fat12 =
    \<lparr>sectors = \<lambda>d a. replicate 512 0, rd_err = \<lambda>d a. False, wr_err = \<lambda>d a. False\<rparr>"
  by (simp add: example_fat12_def set_vol_def fat_init_def)

lemma example_fat12_ok: "fat_ok example_fat12"
  by (simp add: fat_ok_def vread_ok_def vwrite_ok_def vsec_def)

lemma example_fat12_fits: "n < 600 \<Longrightarrow> fits example_fat12 (of_nat n)"
  by (simp add: fits_def entry_end_def unat_of_nat_u32)

text \<open>Cluster 341 of a FAT12 volume: its entry straddles two sectors and shares a byte with 340's.\<close>

theorem fat_write_entry_roundtrip_witness:
  "fst (fat_read_entry 341 (fat_write_entry 341 0x0FFFFFFF example_fat12)) = 0xFFF \<and>
   fst (fat_read_entry 340 (fat_write_entry 341 0x0FFFFFFF example_fat12)) = fst (fat_read_entry 340 example_fat12)"
  using fat_write_entry_roundtrip [OF example_fat12_ok example_fat12_fits [of 341] example_fat12_fits [of 341], of "0x0FFFFFFF"]
    fat_write_entry_roundtrip [OF example_fat12_ok example_fat12_fits [of 341] example_fat12_fits [of 340], of "0x0FFFFFFF"]
  by (simp add: entry_mask_def)

section \<open>Allocation and the free count\<close>

text \<open>Every data cluster has an entry in the table.\<close>

definition fat_sized :: "fat_state \<Rightarrow> bool" where
  "fat_sized s \<longleftrightarrow> fat_ok s \<and> unat (cluster_count (vol s)) + 2 \<le> 2 ^ 28 \<and>
     entry_end (fat_type (vol s)) (unat (cluster_count (vol s)) + 1) \<le> 512 * unat (fat_size (vol s))"

lemma fat_only_sized: "fat_only s s' \<Longrightarrow> fat_sized s \<Longrightarrow> fat_sized s'"
  using fat_only_ok fat_only_vol by (simp add: fat_sized_def)

lemma set_data_clusters:
  "fat_sized s \<Longrightarrow> set (data_clusters s) = {c. 2 \<le> c \<and> unat c < unat (cluster_count (vol s)) + 2}"
proof -
  assume s: "fat_sized s"
  then have e: "unat (cluster_count (vol s) + 2) = unat (cluster_count (vol s)) + 2"
    by (subst unat_plus_small) (simp_all add: fat_sized_def)
  have "c \<in> of_nat ` {2..<unat (cluster_count (vol s)) + 2}"
    if "2 \<le> c" "unat c < unat (cluster_count (vol s)) + 2" for c :: u32
    using that by (intro image_eqI [of _ _ "unat c"]) (auto simp: word_le_nat_alt)
  moreover have "2 \<le> (of_nat n :: u32) \<and> unat (of_nat n :: u32) = n" if "2 \<le> n" "n < unat (cluster_count (vol s)) + 2" for n
  proof -
    have "n < 4294967296" using s that by (simp add: fat_sized_def)
    then show ?thesis using that by (simp add: word_le_nat_alt unat_of_nat_u32)
  qed
  ultimately have "of_nat ` {2..<unat (cluster_count (vol s)) + 2} = {c :: u32. 2 \<le> c \<and> unat c < unat (cluster_count (vol s)) + 2}"
    by (intro set_eqI iffI) auto
  then show ?thesis unfolding data_clusters_def e by (simp only: set_map set_upt)
qed

lemma entry_end_mono: "c \<le> d \<Longrightarrow> entry_end ty c \<le> entry_end ty d"
  by (auto simp: entry_end_def intro: add_mono div_le_mono)

lemma sized_fits: "fat_sized s \<Longrightarrow> c \<in> set (data_clusters s) \<Longrightarrow> fits s c"
  using entry_end_mono [of "unat c" "unat (cluster_count (vol s)) + 1" "fat_type (vol s)"]
  by (auto simp: set_data_clusters fits_def fat_sized_def)

lemma distinct_data_clusters: "fat_sized s \<Longrightarrow> distinct (data_clusters s)"
proof -
  assume "fat_sized s"
  then have "unat (cluster_count (vol s) + 2) \<le> 2 ^ 28"
    by (subst unat_plus_small) (simp_all add: fat_sized_def)
  then show ?thesis
    by (auto simp: data_clusters_def distinct_map inj_on_def of_nat_inj_u32)
qed

lemma fat_view_frame [simp]: "fat_view (s\<lparr>fat_buf := b\<rparr>) = fat_view s" "fits (s\<lparr>fat_buf := b\<rparr>) = fits s"
    "data_clusters (s\<lparr>fat_buf := b\<rparr>) = data_clusters s" "is_eoc (s\<lparr>fat_buf := b\<rparr>) = is_eoc s"
  by (simp_all add: fat_view_def fits_def fun_eq_iff data_clusters_def is_eoc_def)

definition eoc_mark :: "fat_state \<Rightarrow> u32" where
  "eoc_mark s = (if fat_type (vol s) = 16 then 0xFFFF else 0x0FFFFFFF)"

lemma eoc_mark_frame [simp]: "eoc_mark (s\<lparr>fat_buf := b\<rparr>) = eoc_mark s"
  by (simp add: eoc_mark_def)

lemma alloc_scan_eq:
  assumes "fat_ok s" "\<forall>c \<in> set cs. fits s c"
  shows "\<exists>b. alloc_scan cs s = (case find (\<lambda>c. fat_view s c = 0) cs of
       None \<Rightarrow> (0, s\<lparr>fat_buf := b\<rparr>)
     | Some c \<Rightarrow> (c, fat_write_entry c (eoc_mark s) (s\<lparr>fat_buf := b\<rparr>)))"
  using assms
proof (induction cs arbitrary: s)
  case Nil
  have "s = s\<lparr>fat_buf := fat_buf s\<rparr>" by simp
  then show ?case by (metis alloc_scan.simps(1) find.simps(1) option.case(1))
next
  case (Cons c cs)
  let ?s1 = "s\<lparr>fat_buf := vsec s (entry_sec s 0 c)\<rparr>"
  have rd: "fat_read_entry c s = (fat_view s c, ?s1)" using Cons.prems by (intro fat_read_entry_eq) auto
  show ?case
  proof (cases "fat_view s c = 0")
    case True
    then show ?thesis by (auto simp: rd eoc_mark_def)
  next
    case False
    then show ?thesis using Cons.IH [of ?s1] Cons.prems
      by (cases "find (\<lambda>c. fat_view s c = 0) cs") (simp_all add: rd)
  qed
qed

lemma eoc_mark_is_eoc: "fat_ok s \<Longrightarrow> is_eoc s (eoc_mark s AND entry_mask (fat_type (vol s))) \<and>
    eoc_mark s AND entry_mask (fat_type (vol s)) \<noteq> 0"
  by (auto simp: is_eoc_def entry_mask_def fat_ok_def eoc_mark_def)

text \<open>The first free cluster of a volume, if it has one.\<close>

definition first_free :: "fat_state \<Rightarrow> u32 option" where
  "first_free s = find (\<lambda>c. fat_view s c = 0) (data_clusters s)"

lemma first_free_SomeD:
  "fat_sized s \<Longrightarrow> first_free s = Some c \<Longrightarrow> c \<in> set (data_clusters s) \<and> fat_view s c = 0"
  by (auto simp: first_free_def find_Some_iff)

lemma fat_alloc_cluster_result:
  assumes "fat_sized s"
  obtains s' where "fat_alloc_cluster s = (case first_free s of None \<Rightarrow> 0 | Some c \<Rightarrow> c, s')"
    "fat_only s s'" "fat_sized s'"
    "\<And>c. fits s c \<Longrightarrow> fat_view s' c =
       (if first_free s = Some c then eoc_mark s AND entry_mask (fat_type (vol s)) else fat_view s c)"
proof -
  have ok: "fat_ok s" using assms by (simp add: fat_sized_def)
  obtain b where b: "fat_alloc_cluster s = (case first_free s of
       None \<Rightarrow> (0, s\<lparr>fat_buf := b\<rparr>)
     | Some c \<Rightarrow> (c, fat_write_entry c (eoc_mark s) (s\<lparr>fat_buf := b\<rparr>)))"
    using alloc_scan_eq [OF ok, of "data_clusters s"] sized_fits [OF assms]
    by (auto simp: fat_alloc_cluster_def first_free_def)
  show ?thesis
  proof (cases "first_free s")
    case None
    then show ?thesis using b assms fat_only_sized [of s "s\<lparr>fat_buf := b\<rparr>"] by (intro that [of "s\<lparr>fat_buf := b\<rparr>"]) auto
  next
    case (Some c)
    let ?s1 = "s\<lparr>fat_buf := b\<rparr>"
    have c: "fits s c" using first_free_SomeD [OF assms Some] sized_fits [OF assms] by blast
    have o: "fat_only s (fat_write_entry c (eoc_mark s) ?s1)"
      using fat_only_trans [OF _ fat_write_entry_spec(1), of s ?s1 c] ok c by simp
    show ?thesis
      using b Some o fat_only_sized [OF o assms] fat_view_write [of ?s1 c _ "eoc_mark s"] ok c
      by (intro that) auto
  qed
qed

definition free_clusters :: "fat_state \<Rightarrow> u32 set" where
  "free_clusters s = {c \<in> set (data_clusters s). fat_view s c = 0}"

lemma count_free_scan_eq:
  assumes "fat_ok s" "\<forall>c \<in> set cs. fits s c"
  shows "\<exists>b. count_free_scan cs n s = (n + of_nat (length (filter (\<lambda>c. fat_view s c = 0) cs)), s\<lparr>fat_buf := b\<rparr>)"
  using assms
proof (induction cs arbitrary: s n)
  case Nil
  have "s = s\<lparr>fat_buf := fat_buf s\<rparr>" by simp
  then show ?case by (auto intro: exI [of _ "fat_buf s"])
next
  case (Cons c cs)
  let ?s1 = "s\<lparr>fat_buf := vsec s (entry_sec s 0 c)\<rparr>"
  have rd: "fat_read_entry c s = (fat_view s c, ?s1)" using Cons.prems by (intro fat_read_entry_eq) auto
  show ?case using Cons.IH [of ?s1 n] Cons.IH [of ?s1 "n + 1"] Cons.prems by (auto simp: rd add.assoc)
qed

lemma fat_count_free_eq:
  assumes "fat_sized s" "mounted (vol s)"
  shows "\<exists>b. fat_count_free_clusters s = (of_nat (card (free_clusters s)), s\<lparr>fat_buf := b\<rparr>)"
proof -
  have "card (free_clusters s) = length (filter (\<lambda>c. fat_view s c = 0) (data_clusters s))"
    unfolding free_clusters_def
    using distinct_data_clusters [OF assms(1)] distinct_card [of "filter (\<lambda>c. fat_view s c = 0) (data_clusters s)"] by simp
  then show ?thesis
    using count_free_scan_eq [of s "data_clusters s" 0] sized_fits [OF assms(1)] assms
    by (simp add: fat_count_free_clusters_def fat_sized_def)
qed

lemma find_minimal:
  "sorted_wrt (<) xs \<Longrightarrow> find P xs = Some x \<Longrightarrow> \<forall>y \<in> set xs. y < x \<longrightarrow> \<not> P (y :: 'a :: linorder)"
  by (induction xs) (auto split: if_splits)

lemma sorted_data_clusters: "fat_sized s \<Longrightarrow> sorted_wrt (<) (data_clusters s)"
proof -
  assume "fat_sized s"
  then have "unat (cluster_count (vol s) + 2) \<le> 2 ^ 28"
    by (subst unat_plus_small) (simp_all add: fat_sized_def)
  then have "(of_nat i :: u32) < of_nat j" if "i < j" "j < unat (cluster_count (vol s) + 2)" for i j
    using that by (simp add: word_less_nat_alt unat_of_nat_u32)
  then show ?thesis
    by (auto simp: data_clusters_def sorted_wrt_map intro!: sorted_wrt_mono_rel [OF _ sorted_wrt_upt])
qed

text \<open>
  C24. \<open>fat_alloc_cluster\<close> returns 0 exactly when no data cluster of the volume
  is free, and then leaves every entry alone; otherwise it returns the lowest free data cluster, which now
  reads as end-of-chain and no longer as free, and every other entry is unchanged. Only sectors of
  the table are written.
\<close>
theorem fat_alloc_cluster_spec:
  assumes "fat_sized s"
  shows "case fat_alloc_cluster s of (r, s') \<Rightarrow>
     fat_only s s' \<and>
     (r = 0 \<longleftrightarrow> free_clusters s = {}) \<and>
     (r = 0 \<longrightarrow> (\<forall>c \<in> set (data_clusters s). fst (fat_read_entry c s') = fst (fat_read_entry c s))) \<and>
     (r \<noteq> 0 \<longrightarrow> r \<in> free_clusters s \<and> (\<forall>c \<in> free_clusters s. r \<le> c) \<and>
        is_eoc s' (fst (fat_read_entry r s')) \<and> free_clusters s' = free_clusters s - {r} \<and>
        (\<forall>c \<in> set (data_clusters s). c \<noteq> r \<longrightarrow> fst (fat_read_entry c s') = fst (fat_read_entry c s)))"
proof -
  obtain s' where eq: "fat_alloc_cluster s = (case first_free s of None \<Rightarrow> 0 | Some c \<Rightarrow> c, s')"
    and o: "fat_only s s'" and sz: "fat_sized s'"
    and v: "\<And>c. fits s c \<Longrightarrow> fat_view s' c =
       (if first_free s = Some c then eoc_mark s AND entry_mask (fat_type (vol s)) else fat_view s c)"
    using fat_alloc_cluster_result [OF assms] by blast
  note views = fat_only_views [OF o]
  have ok: "fat_ok s" "fat_ok s'" using assms sz by (simp_all add: fat_sized_def)
  have rd: "fst (fat_read_entry c s) = fat_view s c" "fst (fat_read_entry c s') = fat_view s' c"
    if "c \<in> set (data_clusters s)" for c
    using fat_read_entry_eq [OF ok(1) sized_fits [OF assms that]] fat_read_entry_eq [OF ok(2)] views(5)
      sized_fits [OF assms that] by auto
  show ?thesis
  proof (cases "first_free s")
    case None
    then have "free_clusters s = {}" by (auto simp: first_free_def free_clusters_def find_None_iff)
    with None show ?thesis using o v rd sized_fits [OF assms] by (simp add: eq)
  next
    case (Some r)
    have r: "r \<in> set (data_clusters s)" "fat_view s r = 0" using first_free_SomeD [OF assms Some] by auto
    then have "r \<noteq> 0" using assms by (auto simp: set_data_clusters)
    moreover have "\<forall>c \<in> free_clusters s. r \<le> c"
      using find_minimal [OF sorted_data_clusters [OF assms] Some [unfolded first_free_def]]
      by (auto simp: free_clusters_def not_less [symmetric])
    moreover have "free_clusters s' = free_clusters s - {r}"
      using v sized_fits [OF assms] Some eoc_mark_is_eoc [OF ok(1)]
      by (auto simp: free_clusters_def views split: if_splits)
    ultimately show ?thesis
      using Some r o v rd sized_fits [OF assms] eoc_mark_is_eoc [OF ok(1)]
      by (auto simp: eq free_clusters_def views)
  qed
qed

lemma example_fat12_sized: "fat_sized example_fat12"
  using example_fat12_ok by (simp add: fat_sized_def entry_end_def)

lemma example_fat12_view0: "fits example_fat12 c \<Longrightarrow> fat_view example_fat12 c = 0"
proof -
  have "fimg example_fat12 0 = (\<lambda>k. 0)" by (simp add: fimg_def vsec_def fun_eq_iff)
  then show ?thesis by (simp add: fat_view_def entry_get_def b16_def)
qed

lemma example_fat12_free: "free_clusters example_fat12 = set (data_clusters example_fat12)"
  using example_fat12_view0 sized_fits [OF example_fat12_sized] by (auto simp: free_clusters_def)

theorem fat_alloc_cluster_spec_witness:
  "fst (fat_alloc_cluster example_fat12) = 2 \<and>
   2 \<notin> free_clusters (snd (fat_alloc_cluster example_fat12))"
proof -
  obtain r s' where a: "fat_alloc_cluster example_fat12 = (r, s')" by fastforce
  have two: "2 \<in> free_clusters example_fat12"
    using example_fat12_sized by (simp add: example_fat12_free set_data_clusters)
  note sp = fat_alloc_cluster_spec [OF example_fat12_sized, unfolded a prod.case]
  have "r \<noteq> 0" using sp two by auto
  moreover then have "2 \<le> r" using sp example_fat12_sized by (simp add: example_fat12_free set_data_clusters)
  moreover have "r \<le> 2" using sp two \<open>r \<noteq> 0\<close> by blast
  ultimately show ?thesis using sp a by simp
qed

text \<open>
  On a mounted volume \<open>fat_count_free_clusters\<close> returns the number of data
  clusters whose entry is 0, and a successful \<open>fat_alloc_cluster\<close> lowers that
  count by exactly one.
\<close>
theorem fat_count_free_exact:
  assumes "fat_sized s" "mounted (vol s)"
  shows "unat (fst (fat_count_free_clusters s)) = card (free_clusters s) \<and>
    (fst (fat_alloc_cluster s) \<noteq> 0 \<longrightarrow>
      unat (fst (fat_count_free_clusters (snd (fat_alloc_cluster s)))) + 1 = unat (fst (fat_count_free_clusters s)))"
proof (intro conjI impI)
  have cnt: "unat (fst (fat_count_free_clusters s)) = card (free_clusters s)"
    if "fat_sized s" "mounted (vol s)" for s
  proof -
    have "card (free_clusters s) \<le> length (data_clusters s)"
      using card_mono [of "set (data_clusters s)" "free_clusters s"] card_length [of "data_clusters s"]
      by (simp add: free_clusters_def)
    also have "\<dots> < 4294967296"
      using unat_u32_bound [of "cluster_count (vol s) + 2"] by (simp only: data_clusters_def length_map length_upt)
    finally show ?thesis using fat_count_free_eq [OF that] by (auto simp: unat_of_nat_u32)
  qed
  show "unat (fst (fat_count_free_clusters s)) = card (free_clusters s)" by (rule cnt [OF assms])
  assume ne: "fst (fat_alloc_cluster s) \<noteq> 0"
  obtain s' where eq: "fat_alloc_cluster s = (case first_free s of None \<Rightarrow> 0 | Some c \<Rightarrow> c, s')"
    and o: "fat_only s s'" and sz: "fat_sized s'"
    and v: "\<And>c. fits s c \<Longrightarrow> fat_view s' c =
       (if first_free s = Some c then eoc_mark s AND entry_mask (fat_type (vol s)) else fat_view s c)"
    using fat_alloc_cluster_result [OF assms(1)] by blast
  from ne eq obtain r where r: "first_free s = Some r" by (cases "first_free s") auto
  have "free_clusters s = insert r (free_clusters s')" "r \<notin> free_clusters s'"
    using v sized_fits [OF assms(1)] r first_free_SomeD [OF assms(1) r] eoc_mark_is_eoc [of s] assms(1)
    by (auto simp: free_clusters_def fat_only_views [OF o] fat_sized_def split: if_splits)
  then have "card (free_clusters s) = card (free_clusters s') + 1"
    by (simp add: free_clusters_def)
  then show "unat (fst (fat_count_free_clusters (snd (fat_alloc_cluster s)))) + 1 = unat (fst (fat_count_free_clusters s))"
    using cnt [OF assms] cnt [OF sz] assms(2) fat_only_vol [OF o] eq by simp
qed

theorem fat_count_free_exact_witness:
  "unat (fst (fat_count_free_clusters example_fat12)) = 500"
proof -
  have "card (free_clusters example_fat12) = length (data_clusters example_fat12)"
    using distinct_card [OF distinct_data_clusters [OF example_fat12_sized]] by (simp only: example_fat12_free)
  then show ?thesis
    using fat_count_free_exact [OF example_fat12_sized] by (simp add: data_clusters_def)
qed

end
