(* ===== verification/Fat_Dir.thy ===== *)
theory Fat_Dir
  imports Fat_Table "HOL-Library.Monad_Syntax"
begin

text \<open>
  Directories of src/src/kernel/fat.c: 8.3 names, iteration over a directory, lookup,
  path resolution and pattern search.

  C strings are lists of bytes without the terminating 0; a read at the end of the string
  yields the terminator. The cluster loops of the source follow the table for as long
  as it does not end the chain, so on a cyclic chain they may never return: they are partial
  functions with \<^const>\<open>None\<close> for a call that does not return. Theorems about them show
  that they do return on well-formed chains.
\<close>

section \<open>Characters\<close>

type_synonym cstr = "u8 list"

abbreviation (input) DOT :: u8 where "DOT \<equiv> 0x2E"
abbreviation (input) SPC :: u8 where "SPC \<equiv> 0x20"
abbreviation (input) SLASH :: u8 where "SLASH \<equiv> 0x2F"
abbreviation (input) BSLASH :: u8 where "BSLASH \<equiv> 0x5C"
abbreviation (input) COLON :: u8 where "COLON \<equiv> 0x3A"
abbreviation (input) STAR :: u8 where "STAR \<equiv> 0x2A"
abbreviation (input) QMARK :: u8 where "QMARK \<equiv> 0x3F"

definition cch :: "cstr \<Rightarrow> nat \<Rightarrow> u8" where
  "cch s i = (if i < length s then s ! i else 0)"

definition is_sep :: "u8 \<Rightarrow> bool" where
  "is_sep c = (c = SLASH \<or> c = BSLASH)"

definition upcase :: "u8 \<Rightarrow> u8" where
  "upcase c = (if 0x61 \<le> c \<and> c \<le> 0x7A then c - 32 else c)"

section \<open>8.3 names\<close>

definition pad :: "nat \<Rightarrow> u8 list \<Rightarrow> u8 list" where
  "pad n xs = take n xs @ replicate (n - length xs) SPC"

definition name_to_83 :: "cstr \<Rightarrow> u8 list" where
  "name_to_83 name =
     (let base = take 8 (takeWhile (\<lambda>c. c \<noteq> DOT) name);
          rest = dropWhile (\<lambda>c. c \<noteq> DOT) (drop (length base) name);
          ext = (case rest of [] \<Rightarrow> [] | _ # r \<Rightarrow> take 3 r)
      in pad 8 (map upcase base) @ pad 3 (map upcase ext))"

definition name_from_83 :: "u8 list \<Rightarrow> cstr" where
  "name_from_83 raw =
     (let base = takeWhile (\<lambda>c. c \<noteq> SPC) (take 8 raw);
          ext = takeWhile (\<lambda>c. c \<noteq> SPC) (take 3 (drop 8 raw))
      in if raw ! 8 \<noteq> SPC then base @ DOT # ext else base)"

section \<open>Directory entries\<close>

definition FAT_ATTR_VOLLABEL :: u8 where "FAT_ATTR_VOLLABEL = 0x08"
definition FAT_ATTR_DIRECTORY :: u8 where "FAT_ATTR_DIRECTORY = 0x10"
definition FAT_ATTR_ARCHIVE :: u8 where "FAT_ATTR_ARCHIVE = 0x20"
definition FAT_ATTR_LFN :: u8 where "FAT_ATTR_LFN = 0x0F"

text \<open>Fields of the 32-byte on-disk entry.\<close>

definition de_attr :: "u8 list \<Rightarrow> u8" where "de_attr e = e ! 11"
definition de_wrt_time :: "u8 list \<Rightarrow> u32" where "de_wrt_time e = le16 e 22"
definition de_wrt_date :: "u8 list \<Rightarrow> u32" where "de_wrt_date e = le16 e 24"
definition de_size :: "u8 list \<Rightarrow> u32" where "de_size e = le32 e 28"

definition de_cluster :: "u8 list \<Rightarrow> u32" where
  "de_cluster e = le16 e 26 OR push_bit 16 (le16 e 20)"

definition de_is_dir :: "u8 list \<Rightarrow> bool" where
  "de_is_dir e = (de_attr e AND FAT_ATTR_DIRECTORY \<noteq> 0)"

text \<open>The entry at byte offset \<open>off\<close> of a sector.\<close>

definition entry_at :: "u8 list \<Rightarrow> nat \<Rightarrow> u8 list" where
  "entry_at buf off = take 32 (drop off buf)"

section \<open>Iteration\<close>

text \<open>
  A callback gets the entry, its sector and offset, and its context; it returns the
  C result (0 to go on) and the new context. Both callbacks of the source only read the entry.
\<close>

type_synonym 'c dir_callback = "u8 list \<Rightarrow> u32 \<Rightarrow> nat \<Rightarrow> 'c \<Rightarrow> int \<times> 'c"

text \<open>The inner loop: \<open>Some r\<close> when it returns \<open>r\<close> from \<^verbatim>\<open>dir_iterate\<close>.\<close>

fun iterate_entries :: "'c dir_callback \<Rightarrow> u32 \<Rightarrow> u8 list \<Rightarrow> nat list \<Rightarrow> 'c \<Rightarrow> int option \<times> 'c" where
  "iterate_entries cb sec buf [] ctx = (None, ctx)"
| "iterate_entries cb sec buf (i # is) ctx =
     (if buf ! (i * 32) = 0 then (Some 0, ctx)
      else case cb (entry_at buf (i * 32)) sec (i * 32) ctx of (ret, ctx1) \<Rightarrow>
        if ret \<noteq> 0 then (Some ret, ctx1) else iterate_entries cb sec buf is ctx1)"

definition entries_per_sector :: "fat_state \<Rightarrow> nat" where
  "entries_per_sector s = unat (bytes_per_sec (vol s)) div 32"

fun iterate_sectors :: "'c dir_callback \<Rightarrow> u32 list \<Rightarrow> 'c \<Rightarrow> fat_state \<Rightarrow> int option \<times> 'c \<times> fat_state" where
  "iterate_sectors cb [] ctx s = (None, ctx, s)"
| "iterate_sectors cb (sec # secs) ctx s =
     (case read_sector sec (sector_buf s) s of (ok, buf) \<Rightarrow>
        if \<not> ok then (Some (-1), ctx, s)
        else let s1 = s\<lparr>sector_buf := buf\<rparr>
             in case iterate_entries cb sec buf [0..<entries_per_sector s1] ctx of (r, ctx1) \<Rightarrow>
                  if r \<noteq> None then (r, ctx1, s1) else iterate_sectors cb secs ctx1 s1)"

definition root_sectors :: "fat_state \<Rightarrow> u32 list" where
  "root_sectors s = map (\<lambda>i. root_dir_sector (vol s) + of_nat i) [0..<unat (root_dir_sectors (vol s))]"

definition cluster_sectors :: "u32 \<Rightarrow> fat_state \<Rightarrow> u32 list" where
  "cluster_sectors clus s = map (\<lambda>i. cluster_to_sector clus s + of_nat i) [0..<unat (sec_per_clus (vol s))]"

partial_function (option) iterate_chain ::
    "'c dir_callback \<Rightarrow> u32 \<Rightarrow> 'c \<Rightarrow> fat_state \<Rightarrow> (int \<times> 'c \<times> fat_state) option" where
  "iterate_chain cb clus ctx s =
     (if is_eoc s clus \<or> clus < 2 then Some (0, ctx, s)
      else case iterate_sectors cb (cluster_sectors clus s) ctx s of (r, ctx1, s1) \<Rightarrow>
        (case r of
           Some ret \<Rightarrow> Some (ret, ctx1, s1)
         | None \<Rightarrow> (case fat_read_entry clus s1 of (clus2, s2) \<Rightarrow> iterate_chain cb clus2 ctx1 s2)))"

definition dir_iterate :: "u32 \<Rightarrow> 'c dir_callback \<Rightarrow> 'c \<Rightarrow> fat_state \<Rightarrow> (int \<times> 'c \<times> fat_state) option" where
  "dir_iterate dir_cluster cb ctx s =
     (if dir_cluster = 0 \<and> fat_type (vol s) \<noteq> 32 then
        (case iterate_sectors cb (root_sectors s) ctx s of (r, ctx1, s1) \<Rightarrow>
           Some (case r of Some ret \<Rightarrow> ret | None \<Rightarrow> 0, ctx1, s1))
      else iterate_chain cb dir_cluster ctx s)"

section \<open>Lookup by name\<close>

text \<open>
  \<^verbatim>\<open>ctx.result\<close> points into \<^verbatim>\<open>sector_buf\<close>, at \<open>result_offset\<close>.
\<close>

record find_ctx =
  target :: "u8 list"
  result_sector :: u32
  result_offset :: nat
  found :: bool

definition find_callback :: "find_ctx dir_callback" where
  "find_callback entry sec off fc =
     (if entry ! 0 = 0xE5 then (0, fc)
      else if de_attr entry = FAT_ATTR_LFN then (0, fc)
      else if take 11 entry \<noteq> target fc then (0, fc)
      else (1, fc\<lparr>result_sector := sec, result_offset := off, found := True\<rparr>))"

definition find_in_dir :: "u32 \<Rightarrow> cstr \<Rightarrow> fat_state \<Rightarrow> (find_ctx \<times> fat_state) option" where
  "find_in_dir dir_cluster name s = do {
     (_, ctx, s1) \<leftarrow> dir_iterate dir_cluster find_callback
        \<lparr>target = name_to_83 name, result_sector = 0, result_offset = 0, found = False\<rparr> s;
     Some (ctx, s1)
   }"

text \<open>\<^verbatim>\<open>*ctx.result\<close>.\<close>

definition ctx_result :: "find_ctx \<Rightarrow> fat_state \<Rightarrow> u8 list" where
  "ctx_result ctx s = entry_at (sector_buf s) (result_offset ctx)"

section \<open>Paths\<close>

definition parse_drive_letter :: "cstr \<Rightarrow> fat_state \<Rightarrow> nat option \<times> cstr" where
  "parse_drive_letter path s =
     (if cch path 0 \<noteq> 0 \<and> cch path 1 = COLON then
        let c = upcase (cch path 0)
        in if 0x41 \<le> c \<and> unat c < 0x41 + FAT_MAX_DRIVES \<and> mounted (volumes s ! (unat c - 0x41))
           then (Some (unat c - 0x41), drop 2 path)
           else (None, path)
      else (None, path))"

definition push_opt :: "nat option \<Rightarrow> fat_state \<Rightarrow> fat_state" where
  "push_opt d s = (case d of None \<Rightarrow> s | Some n \<Rightarrow> push_drive n s)"

definition pop_opt :: "nat option \<Rightarrow> fat_state \<Rightarrow> fat_state" where
  "pop_opt d s = (case d of None \<Rightarrow> s | Some _ \<Rightarrow> pop_drive s)"

text \<open>Index of the last separator.\<close>

fun last_slash :: "cstr \<Rightarrow> nat option" where
  "last_slash [] = None"
| "last_slash (c # cs) =
     (case last_slash cs of Some i \<Rightarrow> Some (Suc i) | None \<Rightarrow> if is_sep c then Some 0 else None)"

partial_function (option) resolve_walk ::
    "cstr \<Rightarrow> nat \<Rightarrow> nat \<Rightarrow> u32 \<Rightarrow> fat_state \<Rightarrow> (u32 \<times> fat_state) option" where
  "resolve_walk path p ls clus s =
     (if \<not> p < ls then Some (clus, s)
      else let component = take 12 (takeWhile (\<lambda>c. \<not> is_sep c) (drop p path));
               p1 = p + length component;
               p2 = (if is_sep (cch path p1) then p1 + 1 else p1)
           in Option.bind (find_in_dir clus component s) (\<lambda>(ctx, s1).
                if \<not> found ctx then Some (0xFFFFFFFF, s1)
                else if \<not> de_is_dir (ctx_result ctx s1) then Some (0xFFFFFFFF, s1)
                else resolve_walk path p2 ls (de_cluster (ctx_result ctx s1)) s1))"

definition root_of :: "fat_state \<Rightarrow> u32" where
  "root_of s = (if fat_type (vol s) = 32 then root_cluster (vol s) else 0)"

text \<open>
  The parent directory's cluster (0xFFFFFFFF on error) and the file name.
\<close>

definition resolve_parent :: "cstr \<Rightarrow> fat_state \<Rightarrow> (u32 \<times> cstr \<times> fat_state) option" where
  "resolve_parent path s =
     (let p0 = (if cch path 0 \<noteq> 0 \<and> cch path 1 = COLON then 2 else 0);
          abs = is_sep (cch path p0);
          clus = (if abs then root_of s else cwd_cluster (vol s));
          p = (if abs then p0 + 1 else p0)
      in case last_slash path of
           None \<Rightarrow> Some (clus, take 12 (drop p path), s)
         | Some ls \<Rightarrow> do {
             (r, s1) \<leftarrow> resolve_walk path p ls clus s;
             Some (r, take 12 (drop (ls + 1) path), s1)
           })"

section \<open>Pattern search\<close>

record fat_find =
  ff_name :: cstr
  ff_attr :: u8
  ff_size :: u32
  ff_date :: u32
  ff_time :: u32
  ff_first_cluster :: u32
  ff_dir_cluster :: u32
  ff_dir_index :: u32
  ff_pattern :: cstr
  ff_drive :: nat

record find_iter_ctx =
  fi_result :: fat_find
  fi_pattern :: "u8 list"
  skip_count :: u32
  current_index :: u32
  fi_found :: bool

definition match_pattern :: "u8 list \<Rightarrow> u8 list \<Rightarrow> bool" where
  "match_pattern raw pattern = list_all (\<lambda>i. pattern ! i = QMARK \<or> pattern ! i = raw ! i) [0..<11]"

definition find_iter_callback :: "find_iter_ctx dir_callback" where
  "find_iter_callback entry sec off fc =
     (let next = fc\<lparr>current_index := current_index fc + 1\<rparr>
      in if entry ! 0 = 0xE5 then (0, next)
         else if de_attr entry = FAT_ATTR_LFN then (0, next)
         else if de_attr entry AND FAT_ATTR_VOLLABEL \<noteq> 0 then (0, next)
         else if current_index fc < skip_count fc then (0, next)
         else if match_pattern entry (fi_pattern fc) then
           (1, fc\<lparr>fi_result := (fi_result fc)\<lparr>ff_name := name_from_83 entry, ff_attr := de_attr entry,
                  ff_size := de_size entry, ff_date := de_wrt_date entry, ff_time := de_wrt_time entry,
                  ff_first_cluster := de_cluster entry, ff_dir_index := current_index fc + 1\<rparr>,
                  fi_found := True\<rparr>)
         else (0, next))"

text \<open>Within one of the two fields, everything from the first star on becomes a question mark.\<close>

definition expand_star :: "u8 list \<Rightarrow> u8 list" where
  "expand_star f = (let k = length (takeWhile (\<lambda>c. c \<noteq> STAR) f) in take k f @ replicate (length f - k) QMARK)"

definition build_find_pattern :: "cstr \<Rightarrow> u8 list" where
  "build_find_pattern pat_name =
     (if cch pat_name 0 = STAR \<and> cch pat_name 1 = DOT \<and> cch pat_name 2 = STAR then replicate 11 QMARK
      else let p = name_to_83 pat_name in expand_star (take 8 p) @ expand_star (drop 8 p))"

definition fat_find_first :: "cstr \<Rightarrow> fat_find \<Rightarrow> fat_state \<Rightarrow> (int \<times> fat_find \<times> fat_state) option" where
  "fat_find_first pattern result s =
     (case parse_drive_letter pattern s of (d, rest) \<Rightarrow>
      let s0 = push_opt d s in
      if \<not> mounted (vol s0) then Some (-1, result, pop_opt d s0)
      else let r0 = result\<lparr>ff_dir_cluster := cwd_cluster (vol s0), ff_dir_index := 0,
                      ff_drive := active_drive s0, ff_pattern := take 12 rest\<rparr>
           in do {
             (_, ctx, s1) \<leftarrow> dir_iterate (cwd_cluster (vol s0)) find_iter_callback
               \<lparr>fi_result = r0, fi_pattern = build_find_pattern (take 12 rest), skip_count = 0,
                current_index = 0, fi_found = False\<rparr> s0;
             Some (if fi_found ctx then 0 else -1, fi_result ctx, pop_opt d s1)
           })"

definition fat_find_next :: "fat_find \<Rightarrow> fat_state \<Rightarrow> (int \<times> fat_find \<times> fat_state) option" where
  "fat_find_next result s =
     (let s0 = push_drive (ff_drive result) s in
      if \<not> mounted (vol s0) then Some (-1, result, pop_drive s0)
      else do {
        (_, ctx, s1) \<leftarrow> dir_iterate (ff_dir_cluster result) find_iter_callback
          \<lparr>fi_result = result, fi_pattern = build_find_pattern (take 12 (ff_pattern result)),
           skip_count = ff_dir_index result, current_index = 0, fi_found = False\<rparr> s0;
        Some (if fi_found ctx then 0 else -1, fi_result ctx, pop_drive s1)
      })"

section \<open>Names round trip\<close>

text \<open>A name field as the formatter leaves it: characters without blanks, then blanks.\<close>

definition field_ok :: "nat \<Rightarrow> u8 list \<Rightarrow> bool" where
  "field_ok n f \<longleftrightarrow> (\<exists>xs. length xs \<le> n \<and> f = xs @ replicate (n - length xs) SPC \<and>
     (\<forall>c \<in> set xs. c \<noteq> SPC \<and> upcase c = c))"

definition raw83_ok :: "u8 list \<Rightarrow> bool" where
  "raw83_ok raw \<longleftrightarrow> length raw = 11 \<and> field_ok 8 (take 8 raw) \<and> field_ok 3 (drop 8 raw) \<and> DOT \<notin> set (take 8 raw)"

lemma upcase_idem [simp]: "upcase (upcase c) = upcase c"
proof (cases "0x61 \<le> c \<and> c \<le> 0x7A")
  case True
  then have "c - 32 < 0x61" by unat_arith
  then show ?thesis using True by (auto simp: upcase_def)
qed (auto simp: upcase_def)

lemma upcase_dot: "upcase c = DOT \<longleftrightarrow> c = DOT" "upcase c = SPC \<longleftrightarrow> c = SPC"
  by (auto simp: upcase_def)

lemma takeWhile_field:
  "\<forall>c \<in> set xs. P c \<Longrightarrow> \<not> P y \<Longrightarrow> takeWhile P (xs @ replicate n y) = xs"
  by (cases n) (simp_all add: takeWhile_append)

lemma pad_eq: "length xs \<le> n \<Longrightarrow> pad n xs = xs @ replicate (n - length xs) SPC"
  by (simp add: pad_def)

lemma length_pad [simp]: "length (pad n xs) = n"
  by (simp add: pad_def min_def)

lemma length_name_to_83 [simp]: "length (name_to_83 n) = 11"
  by (simp add: name_to_83_def Let_def)

text \<open>The two converters on a name split into base and extension.\<close>

lemma name_to_83_base:
  assumes "DOT \<notin> set b" "length b \<le> 8"
  shows "name_to_83 b = pad 8 (map upcase b) @ pad 3 []"
proof -
  have "takeWhile (\<lambda>c. c \<noteq> DOT) b = b" using assms by (auto simp: takeWhile_eq_all_conv)
  then show ?thesis using assms by (simp only: name_to_83_def Let_def) simp
qed

lemma name_to_83_base_ext:
  assumes "DOT \<notin> set b" "length b \<le> 8" "length e \<le> 3"
  shows "name_to_83 (b @ DOT # e) = pad 8 (map upcase b) @ pad 3 (map upcase e)"
proof -
  have "takeWhile (\<lambda>c. c \<noteq> DOT) (b @ DOT # e) = b"
    using assms by (subst takeWhile_append2) auto
  then show ?thesis using assms by (simp add: name_to_83_def Let_def)
qed

lemma map_upcase_id: "\<forall>c \<in> set xs. upcase c = c \<Longrightarrow> map upcase xs = xs"
  by (simp add: map_idI)

lemma name_from_83_fields:
  assumes "length b \<le> 8" "length e \<le> 3" "\<forall>c \<in> set b \<union> set e. c \<noteq> SPC"
  shows "name_from_83 (pad 8 b @ pad 3 e) = (if e = [] then b else b @ DOT # e)"
proof -
  have nth8: "(pad 8 b @ pad 3 e) ! 8 = (if e = [] then SPC else e ! 0)"
    using assms by (cases e) (simp_all add: nth_append pad_eq)
  have "takeWhile (\<lambda>c. c \<noteq> SPC) (pad 8 b) = b" "takeWhile (\<lambda>c. c \<noteq> SPC) (pad 3 e) = e"
    using assms by (simp_all add: pad_eq takeWhile_field)
  then show ?thesis using assms nth8 by (cases e) (simp_all add: name_from_83_def Let_def)
qed



section \<open>Iteration as a pass over the list of entries\<close>

type_synonym slot = "u32 \<times> nat \<times> u8 list"

definition sector_slots :: "fat_state \<Rightarrow> u32 \<Rightarrow> slot list" where
  "sector_slots s sec = map (\<lambda>i. (sec, i * 32, entry_at (vsec s sec) (i * 32))) [0..<16]"

definition dir_slots :: "fat_state \<Rightarrow> u32 list \<Rightarrow> slot list" where
  "dir_slots s secs = concat (map (sector_slots s) secs)"

text \<open>The outcome of a pass, and the entry it stopped at.\<close>

fun iter_slots :: "'c dir_callback \<Rightarrow> slot list \<Rightarrow> 'c \<Rightarrow> int option \<times> 'c \<times> slot option" where
  "iter_slots cb [] ctx = (None, ctx, None)"
| "iter_slots cb ((sec, off, e) # sls) ctx =
     (if e ! 0 = 0 then (Some 0, ctx, Some (sec, off, e))
      else case cb e sec off ctx of (ret, ctx1) \<Rightarrow>
        if ret \<noteq> 0 then (Some ret, ctx1, Some (sec, off, e)) else iter_slots cb sls ctx1)"

lemma iter_slots_append:
  "iter_slots cb (xs @ ys) ctx =
     (case iter_slots cb xs ctx of (None, ctx1, _) \<Rightarrow> iter_slots cb ys ctx1 | r \<Rightarrow> r)"
  by (induction cb xs ctx rule: iter_slots.induct) (auto split: prod.splits option.splits)

text \<open>States that differ in the two sector buffers only.\<close>

definition buf_only :: "fat_state \<Rightarrow> fat_state \<Rightarrow> bool" where
  "buf_only s s' \<longleftrightarrow> s' = s\<lparr>sector_buf := sector_buf s', fat_buf := fat_buf s'\<rparr>"

lemma buf_only_upd [simp, intro]:
  "buf_only s s" "buf_only s (s\<lparr>sector_buf := b\<rparr>)" "buf_only s (s\<lparr>fat_buf := b\<rparr>)"
  by (simp_all add: buf_only_def)

lemma buf_only_fields:
  assumes "buf_only s s'"
  shows "volumes s' = volumes s" "active_drive s' = active_drive s" "saved_drive s' = saved_drive s"
    "handles s' = handles s" "handles_initialized s' = handles_initialized s" "stack_buf s' = stack_buf s" "dsk s' = dsk s"
  using assms unfolding buf_only_def
  by (metis fat_state.select_convs fat_state.update_convs fat_state.surjective)+

lemma buf_onlyI:
  "\<lbrakk>volumes s' = volumes s; active_drive s' = active_drive s; saved_drive s' = saved_drive s;
    handles s' = handles s; handles_initialized s' = handles_initialized s; stack_buf s' = stack_buf s; dsk s' = dsk s\<rbrakk>
   \<Longrightarrow> buf_only s s'"
  by (simp add: buf_only_def)

lemma buf_only_trans: "buf_only s s1 \<Longrightarrow> buf_only s1 s2 \<Longrightarrow> buf_only s s2"
  using buf_only_fields [of s s1] buf_only_fields [of s1 s2] by (intro buf_onlyI) simp_all

lemma buf_only_views:
  assumes "buf_only s s'"
  shows "vol s' = vol s" "vsec s' = vsec s" "vread_ok s' = vread_ok s" "vwrite_ok s' = vwrite_ok s"
    "fat_sec s' = fat_sec s" "fimg s' = fimg s" "fat_view s' = fat_view s" "fits s' = fits s" "is_eoc s' = is_eoc s"
    "cluster_sectors c s' = cluster_sectors c s" "root_sectors s' = root_sectors s"
    "cluster_to_sector c s' = cluster_to_sector c s" "data_clusters s' = data_clusters s"
    "fat_ok s' = fat_ok s" "fat_sized s' = fat_sized s" "dir_slots s' = dir_slots s"
proof -
  note f = buf_only_fields [OF assms]
  show v: "vol s' = vol s" by (simp add: vol_def f)
  show vs: "vsec s' = vsec s" by (simp add: vsec_def v f fun_eq_iff)
  show vr: "vread_ok s' = vread_ok s" by (simp add: vread_ok_def v f fun_eq_iff)
  show vw: "vwrite_ok s' = vwrite_ok s" by (simp add: vwrite_ok_def v f fun_eq_iff)
  show fs: "fat_sec s' = fat_sec s" by (simp add: fat_sec_def v fun_eq_iff)
  show fi: "fimg s' = fimg s" by (simp add: fimg_def vs fs fun_eq_iff)
  show "fat_view s' = fat_view s" by (simp add: fat_view_def v fi fun_eq_iff)
  show "fits s' = fits s" by (simp add: fits_def v fun_eq_iff)
  show "is_eoc s' = is_eoc s" by (simp add: is_eoc_def v fun_eq_iff)
  show cs: "cluster_to_sector c s' = cluster_to_sector c s" for c by (simp add: cluster_to_sector_def v)
  show "cluster_sectors c s' = cluster_sectors c s" by (simp add: cluster_sectors_def v cs)
  show "root_sectors s' = root_sectors s" by (simp add: root_sectors_def v)
  show "data_clusters s' = data_clusters s" by (simp add: data_clusters_def v)
  show ok: "fat_ok s' = fat_ok s" by (simp add: fat_ok_def v vs vr vw fs)
  show "fat_sized s' = fat_sized s" by (simp add: fat_sized_def v ok)
  have "sector_slots s' = sector_slots s" by (simp add: sector_slots_def vs fun_eq_iff)
  then show "dir_slots s' = dir_slots s" by (intro ext) (simp add: dir_slots_def)
qed

lemma entries_iter:
  assumes "length buf = 512" "\<forall>i \<in> set is. i < 16"
    "iter_slots cb (map (\<lambda>i. (sec, i * 32, entry_at buf (i * 32))) is) ctx = (r, ctx1, st)"
  shows "iterate_entries cb sec buf is ctx = (r, ctx1)"
  using assms(2,3)
proof (induction "is" arbitrary: ctx)
  case (Cons i "is")
  have "entry_at buf (i * 32) ! 0 = buf ! (i * 32)" using Cons.prems assms(1) by (simp add: entry_at_def)
  then show ?case using Cons by (auto split: prod.splits if_splits)
qed simp

lemma iter_slots_stop_sector:
  "iter_slots cb sls ctx = (r, ctx1, st) \<Longrightarrow> (r = None \<longleftrightarrow> st = None) \<and> (\<forall>x. st = Some x \<longrightarrow> x \<in> set sls)"
  by (induction cb sls ctx arbitrary: r ctx1 st rule: iter_slots.induct) (auto split: if_splits prod.splits)

lemma iterate_sectors_eq:
  assumes "\<forall>sec \<in> set secs. vread_ok s sec" "bytes_per_sec (vol s) = 512" "\<forall>a. length (vsec s a) = 512"
    and it: "iter_slots cb (dir_slots s secs) ctx = (r, ctx1, st)"
  shows "\<exists>s'. iterate_sectors cb secs ctx s = (r, ctx1, s') \<and> buf_only s s' \<and>
    (\<forall>sec off e. st = Some (sec, off, e) \<longrightarrow> sector_buf s' = vsec s sec)"
  using assms
proof (induction secs arbitrary: ctx s)
  case Nil
  then show ?case by (auto simp: dir_slots_def)
next
  case (Cons sec secs)
  let ?s1 = "s\<lparr>sector_buf := vsec s sec\<rparr>"
  have b1: "buf_only s ?s1" by simp
  have eps: "entries_per_sector ?s1 = 16" using Cons.prems by (simp add: entries_per_sector_def)
  obtain r1 c1 st1 where i1: "iter_slots cb (sector_slots s sec) ctx = (r1, c1, st1)" by (metis prod_cases3)
  then have e1: "iterate_entries cb sec (vsec s sec) [0..<16] ctx = (r1, c1)"
    using entries_iter [of "vsec s sec" "[0..<16]" cb sec ctx] Cons.prems
    by (auto simp: sector_slots_def)
  have rd: "read_sector sec (sector_buf s) s = (True, vsec s sec)" using Cons.prems by simp
  show ?case
  proof (cases r1)
    case None
    then have "iter_slots cb (dir_slots ?s1 secs) c1 = (r, ctx1, st)"
      using Cons.prems(4) i1 None unfolding buf_only_views(16) [OF b1] by (simp add: dir_slots_def iter_slots_append)
    then obtain s' where "iterate_sectors cb secs c1 ?s1 = (r, ctx1, s')" "buf_only ?s1 s'"
      "\<forall>sec' off e. st = Some (sec', off, e) \<longrightarrow> sector_buf s' = vsec s sec'"
      using Cons.IH [of ?s1 c1] Cons.prems by auto
    then show ?thesis using None rd e1 eps buf_only_trans [OF b1] by (auto simp: Let_def)
  next
    case (Some x)
    then have eq: "(r, ctx1, st) = (r1, c1, st1)"
      using Cons.prems(4) i1 by (simp add: dir_slots_def iter_slots_append)
    have "\<forall>sec' off e. st = Some (sec', off, e) \<longrightarrow> sec' = sec"
      using iter_slots_stop_sector [OF i1] eq by (auto simp: sector_slots_def)
    then show ?thesis using Some rd e1 eps eq by (auto simp: Let_def)
  qed
qed

section \<open>Cluster chains\<close>

text \<open>\<open>cs\<close> is the list of clusters reached from \<open>c\<close> before an end-of-chain mark.\<close>

fun fat_chain :: "fat_state \<Rightarrow> u32 \<Rightarrow> u32 list \<Rightarrow> bool" where
  "fat_chain s c [] = is_eoc s c"
| "fat_chain s c (x # xs) = (x = c \<and> \<not> is_eoc s c \<and> 2 \<le> c \<and> fits s c \<and> fat_chain s (fat_view s c) xs)"

lemma fat_chain_cong:
  "fat_view s' = fat_view s \<Longrightarrow> fits s' = fits s \<Longrightarrow> is_eoc s' = is_eoc s \<Longrightarrow> fat_chain s' c cs = fat_chain s c cs"
  by (induction cs arbitrary: c) auto

lemma fat_read_entry_buf:
  "fat_ok s \<Longrightarrow> fits s c \<Longrightarrow> \<exists>s'. fat_read_entry c s = (fat_view s c, s') \<and> buf_only s s' \<and> sector_buf s' = sector_buf s"
  by (simp add: fat_read_entry_eq)

definition chain_sectors :: "fat_state \<Rightarrow> u32 list \<Rightarrow> u32 list" where
  "chain_sectors s cs = concat (map (\<lambda>c. cluster_sectors c s) cs)"

lemma iterate_chain_eq:
  assumes "fat_chain s c cs" "fat_ok s" "\<forall>sec \<in> set (chain_sectors s cs). vread_ok s sec"
    and "iter_slots cb (dir_slots s (chain_sectors s cs)) ctx = (r, ctx1, st)"
  shows "\<exists>s'. iterate_chain cb c ctx s = Some (case r of Some x \<Rightarrow> x | None \<Rightarrow> 0, ctx1, s') \<and> buf_only s s' \<and>
    (\<forall>sec off e. st = Some (sec, off, e) \<longrightarrow> sector_buf s' = vsec s sec)"
  using assms
proof (induction cs arbitrary: c ctx s)
  case Nil
  then show ?case by (auto simp: iterate_chain.simps [of cb c] chain_sectors_def dir_slots_def)
next
  case (Cons x cs)
  then have x: "x = c" "\<not> is_eoc s c" "2 \<le> c" "fits s c" and ch: "fat_chain s (fat_view s c) cs" by auto
  let ?A = "cluster_sectors c s"
  obtain r1 c1 st1 where i1: "iter_slots cb (dir_slots s ?A) ctx = (r1, c1, st1)" by (metis prod_cases3)
  obtain s1 where s1: "iterate_sectors cb ?A ctx s = (r1, c1, s1)" "buf_only s s1"
    "\<forall>sec off e. st1 = Some (sec, off, e) \<longrightarrow> sector_buf s1 = vsec s sec"
    using iterate_sectors_eq [OF _ _ _ i1] Cons.prems(2,3) x
    by (auto simp: chain_sectors_def fat_ok_def)
  have split: "dir_slots s (chain_sectors s (x # cs)) = dir_slots s ?A @ dir_slots s (chain_sectors s cs)"
    using x by (simp add: chain_sectors_def dir_slots_def)
  note v1 = buf_only_views [OF s1(2)]
  have unf: "iterate_chain cb c ctx s = (case r1 of Some ret \<Rightarrow> Some (ret, c1, s1)
      | None \<Rightarrow> (case fat_read_entry c s1 of (clus2, s2) \<Rightarrow> iterate_chain cb clus2 c1 s2))"
    using x s1(1) by (subst iterate_chain.simps) (simp add: not_less [symmetric])
  show ?case
  proof (cases r1)
    case None
    obtain s2 where s2: "fat_read_entry c s1 = (fat_view s c, s2)" "buf_only s1 s2"
      using fat_read_entry_buf [of s1 c] v1 x Cons.prems(2) by auto
    note b2 = buf_only_trans [OF s1(2) s2(2)]
    note v2 = buf_only_views [OF b2]
    have cs2: "chain_sectors s2 cs = chain_sectors s cs" by (simp add: chain_sectors_def v2)
    have "fat_chain s2 (fat_view s c) cs" using ch fat_chain_cong [of s2 s] v2 by simp
    moreover have "iter_slots cb (dir_slots s2 (chain_sectors s2 cs)) c1 = (r, ctx1, st)"
      using Cons.prems(4) i1 None by (simp add: split iter_slots_append v2 cs2)
    ultimately obtain s' where "iterate_chain cb (fat_view s c) c1 s2 =
        Some (case r of Some x \<Rightarrow> x | None \<Rightarrow> 0, ctx1, s')" "buf_only s2 s'"
      "\<forall>sec off e. st = Some (sec, off, e) \<longrightarrow> sector_buf s' = vsec s sec"
      using Cons.IH [of s2 "fat_view s c" c1] Cons.prems(2,3) by (auto simp: v2 cs2 chain_sectors_def)
    then show ?thesis using None unf s2 buf_only_trans [OF b2] by auto
  next
    case (Some y)
    then have "(r, ctx1, st) = (r1, c1, st1)" using Cons.prems(4) i1 by (simp add: split iter_slots_append)
    then show ?thesis using Some unf s1 by auto
  qed
qed

section \<open>Lookup\<close>

text \<open>The sectors of a directory, all readable: the fixed root, or a terminated chain.\<close>

definition dir_at :: "fat_state \<Rightarrow> u32 \<Rightarrow> u32 list \<Rightarrow> bool" where
  "dir_at s dir secs \<longleftrightarrow> fat_ok s \<and> (\<forall>sec \<in> set secs. vread_ok s sec) \<and>
     (if dir = 0 \<and> fat_type (vol s) \<noteq> 32 then secs = root_sectors s
      else \<exists>cs. fat_chain s dir cs \<and> secs = chain_sectors s cs)"

lemma dir_iterate_eq:
  assumes d: "dir_at s dir secs"
    and it: "iter_slots cb (dir_slots s secs) ctx = (r, ctx1, st)"
  shows "\<exists>s'. dir_iterate dir cb ctx s = Some (case r of Some x \<Rightarrow> x | None \<Rightarrow> 0, ctx1, s') \<and> buf_only s s' \<and>
    (\<forall>sec off e. st = Some (sec, off, e) \<longrightarrow> sector_buf s' = vsec s sec)"
proof (cases "dir = 0 \<and> fat_type (vol s) \<noteq> 32")
  case True
  then have "secs = root_sectors s" using d by (simp add: dir_at_def)
  then show ?thesis
    using iterate_sectors_eq [OF _ _ _ it] d True
    by (auto simp: dir_iterate_def dir_at_def fat_ok_def)
next
  case False
  then obtain cs where "fat_chain s dir cs" "secs = chain_sectors s cs" using d unfolding dir_at_def by metis
  then show ?thesis
    using iterate_chain_eq [of s dir cs cb ctx r ctx1 st] d it
    unfolding dir_iterate_def if_not_P [OF False] by (simp add: dir_at_def)
qed

text \<open>The first live entry with a given 8.3 name, before the end mark.\<close>

definition matches83 :: "u8 list \<Rightarrow> u8 list \<Rightarrow> bool" where
  "matches83 tgt e \<longleftrightarrow> e ! 0 \<noteq> 0xE5 \<and> de_attr e \<noteq> FAT_ATTR_LFN \<and> take 11 e = tgt"

definition dir_lookup :: "u8 list \<Rightarrow> slot list \<Rightarrow> slot option" where
  "dir_lookup tgt sls = find (\<lambda>(sec, off, e). matches83 tgt e) (takeWhile (\<lambda>(sec, off, e). e ! 0 \<noteq> 0) sls)"

lemma find_iter_slots:
  "\<not> found fc \<Longrightarrow> \<exists>r st. iter_slots find_callback sls fc =
     (case dir_lookup (target fc) sls of
        None \<Rightarrow> (r, fc, st)
      | Some (sec, off, e) \<Rightarrow> (Some 1, fc\<lparr>result_sector := sec, result_offset := off, found := True\<rparr>, Some (sec, off, e)))"
proof (induction sls)
  case (Cons sl sls)
  obtain sec off e where sl: "sl = (sec, off, e)" by (metis prod_cases3)
  consider "e ! 0 = 0" | "e ! 0 \<noteq> 0" "matches83 (target fc) e" | "e ! 0 \<noteq> 0" "\<not> matches83 (target fc) e" by blast
  then show ?case
  proof cases
    case 3
    then have "find_callback e sec off fc = (0, fc)" by (auto simp: find_callback_def matches83_def)
    then show ?thesis using 3 Cons by (simp add: sl dir_lookup_def)
  qed (auto simp: sl dir_lookup_def find_callback_def matches83_def)
qed (simp add: dir_lookup_def)

lemma dir_lookup_slot: "dir_lookup tgt (dir_slots s secs) = Some (sec, off, e) \<Longrightarrow>
    sec \<in> set secs \<and> off < 512 \<and> e = entry_at (vsec s sec) off \<and> matches83 tgt e \<and> e ! 0 \<noteq> 0"
  unfolding dir_lookup_def find_Some_iff
  by (auto dest!: nth_mem set_takeWhileD simp: dir_slots_def sector_slots_def)

lemma find_in_dir_result:
  assumes "dir_at s dir secs"
  shows "\<exists>ctx s'. find_in_dir dir name s = Some (ctx, s') \<and> buf_only s s' \<and>
    (case dir_lookup (name_to_83 name) (dir_slots s secs) of
       None \<Rightarrow> \<not> found ctx
     | Some (sec, off, e) \<Rightarrow> found ctx \<and> result_sector ctx = sec \<and> result_offset ctx = off \<and> ctx_result ctx s' = e)"
proof -
  let ?c = "\<lparr>target = name_to_83 name, result_sector = 0, result_offset = 0, found = False\<rparr>"
  obtain r ctx st where it: "iter_slots find_callback (dir_slots s secs) ?c = (r, ctx, st)" by (metis prod_cases3)
  obtain s' where s': "dir_iterate dir find_callback ?c s = Some (case r of Some x \<Rightarrow> x | None \<Rightarrow> 0, ctx, s')"
    "buf_only s s'" "\<forall>sec off e. st = Some (sec, off, e) \<longrightarrow> sector_buf s' = vsec s sec"
    using dir_iterate_eq [OF assms it] by blast
  have f: "find_in_dir dir name s = Some (ctx, s')" by (simp add: find_in_dir_def s')
  show ?thesis
  proof (cases "dir_lookup (name_to_83 name) (dir_slots s secs)")
    case None
    then have "ctx = ?c" using find_iter_slots [of ?c "dir_slots s secs"] it by auto
    then show ?thesis using f s' None by auto
  next
    case (Some sl)
    obtain sec off e where sl: "sl = (sec, off, e)" by (metis prod_cases3)
    have "ctx = ?c\<lparr>result_sector := sec, result_offset := off, found := True\<rparr>" "st = Some (sec, off, e)"
      using find_iter_slots [of ?c "dir_slots s secs"] it Some sl by auto
    moreover have "e = entry_at (vsec s sec) off" using dir_lookup_slot [of _ s secs] Some sl by auto
    ultimately show ?thesis using f s' Some sl by (auto simp: ctx_result_def)
  qed
qed

text \<open>
  C14. On a volume with a sound table, looking up a name in a directory (the fixed
  root or a cluster chain that ends) always returns. It finds exactly the first entry before
  the end mark that is not deleted, not part of a long name and has the encoded name, and reports
  its sector, its offset and, through the sector buffer, its contents; it finds
  nothing exactly when there is no such entry. Nothing but the two sector buffers changes.
\<close>
theorem find_in_dir_correct:
  assumes "dir_at s dir secs"
  shows "\<exists>ctx s'. find_in_dir dir name s = Some (ctx, s') \<and> buf_only s s' \<and>
    (case dir_lookup (name_to_83 name) (dir_slots s secs) of
       None \<Rightarrow> \<not> found ctx
     | Some (sec, off, e) \<Rightarrow> found ctx \<and> result_sector ctx = sec \<and> result_offset ctx = off \<and> ctx_result ctx s' = e)"
  by (rule find_in_dir_result [OF assms])

text \<open>An example: a FAT12 root directory whose only file is \<open>AB.T\<close>.\<close>

definition example_entry :: "u8 list" where
  "example_entry = [0x41, 0x42, SPC, SPC, SPC, SPC, SPC, SPC, 0x54, SPC, SPC, 0x20] @ replicate 20 0"

definition example_root :: fat_state where
  "example_root = example_fat12\<lparr>dsk := \<lparr>sectors = \<lambda>d a. if a = 68 then example_entry @ replicate 480 0 else replicate 512 0,
     rd_err = \<lambda>d a. False, wr_err = \<lambda>d a. False\<rparr>\<rparr>"

lemma example_root_vol [simp]: "vol example_root = vol example_fat12"
  by (simp add: example_root_def vol_def)

lemma example_root_vsec [simp]: "vsec example_root a = (if a = 5 then example_entry @ replicate 480 0 else replicate 512 0)"
  by (simp add: vsec_def) (simp add: example_root_def)

lemma example_root_io [simp]: "vread_ok example_root a" "vwrite_ok example_root a"
  by (simp_all add: vread_ok_def vwrite_ok_def) (simp_all add: example_root_def)

lemma example_root_ok: "fat_ok example_root"
  by (simp add: fat_ok_def example_entry_def)

lemma example_root_dir: "dir_at example_root 0 [5]"
  by (simp add: dir_at_def example_root_ok root_sectors_def)

lemma example_root_slots: "dir_slots example_root [5] = (5, 0, example_entry) # tl (dir_slots example_root [5])"
  by (simp add: dir_slots_def sector_slots_def upt_conv_Cons entry_at_def example_entry_def)

lemma example_name83: "name_to_83 [0x61, 0x62, DOT, 0x74] = take 11 example_entry"
  by code_simp

lemma example_root_lookup:
  "dir_lookup (name_to_83 [0x61, 0x62, DOT, 0x74]) (dir_slots example_root [5]) = Some (5, 0, example_entry)"
  by (subst example_root_slots, simp add: dir_lookup_def matches83_def example_name83)
    (simp add: example_entry_def de_attr_def FAT_ATTR_LFN_def)

theorem find_in_dir_correct_witness:
  "\<exists>ctx s'. find_in_dir 0 [0x61, 0x62, DOT, 0x74] example_root = Some (ctx, s') \<and> found ctx \<and>
     result_sector ctx = 5 \<and> result_offset ctx = 0 \<and> ctx_result ctx s' = example_entry"
  using find_in_dir_correct [OF example_root_dir, of "[0x61, 0x62, DOT, 0x74]"]
  unfolding example_root_lookup by auto

section \<open>Lookups never write\<close>

text \<open>Whatever they return, the lookups change nothing but the two sector buffers.\<close>

lemma load_fat_buf_buf: "buf_only s (load_fat_buf a s)"
  by (simp add: load_fat_buf_eq)

lemma fat_read_entry_buf_only: "buf_only s (snd (fat_read_entry c s))"
  by (auto simp: fat_read_entry_def Let_def load_fat_buf_buf)

lemma iterate_sectors_buf: "iterate_sectors cb secs ctx s = (r, ctx', s') \<Longrightarrow> buf_only s s'"
proof (induction cb secs ctx s rule: iterate_sectors.induct)
  case (2 cb sec secs ctx s)
  obtain ok buf where rd: "read_sector sec (sector_buf s) s = (ok, buf)" by fastforce
  obtain r1 c1 where it: "iterate_entries cb sec buf [0..<entries_per_sector (s\<lparr>sector_buf := buf\<rparr>)] ctx = (r1, c1)" by fastforce
  show ?case
  proof (cases "ok \<and> r1 = None")
    case True
    then have "buf_only (s\<lparr>sector_buf := buf\<rparr>) s'" using 2 rd it by (auto simp: Let_def)
    then show ?thesis by (rule buf_only_trans [OF buf_only_upd(2)])
  next
    case False
    then show ?thesis using 2(2) rd it by (auto simp: Let_def split: if_splits)
  qed
qed auto

lemma iterate_chain_buf: "iterate_chain cb c ctx s = Some y \<Longrightarrow> buf_only s (snd (snd y))"
proof (erule iterate_chain.raw_induct [where P = "\<lambda>cb c ctx s y. buf_only s (snd (snd y))", rotated], goal_cases)
  case (1 rec cb clus ctx s y)
  show ?case
  proof (cases "is_eoc s clus \<or> clus < 2")
    case True
    then show ?thesis using 1(2) by auto
  next
    case False
    obtain r c1 s1 where it: "iterate_sectors cb (cluster_sectors clus s) ctx s = (r, c1, s1)" by (metis prod_cases3)
    note b1 = iterate_sectors_buf [OF it]
    show ?thesis
    proof (cases r)
      case (Some x)
      then show ?thesis using 1(2) False it b1 by auto
    next
      case None
      obtain c2 s2 where rd: "fat_read_entry clus s1 = (c2, s2)" by fastforce
      then have "buf_only s1 s2" using fat_read_entry_buf_only [of s1 clus] by simp
      moreover have "rec cb c2 c1 s2 = Some y" using 1(2) False it None rd by simp
      ultimately show ?thesis using 1(1) b1 buf_only_trans by blast
    qed
  qed
qed

lemma dir_iterate_buf: "dir_iterate d cb ctx s = Some (r, ctx', s') \<Longrightarrow> buf_only s s'"
  using iterate_chain_buf [of cb d ctx s "(r, ctx', s')"] iterate_sectors_buf [of cb "root_sectors s" ctx s]
  by (auto simp: dir_iterate_def split: if_splits prod.splits)

lemma find_in_dir_buf: "find_in_dir d n s = Some (ctx, s') \<Longrightarrow> buf_only s s'"
  by (auto simp: find_in_dir_def Option.bind_eq_Some_conv dest: dir_iterate_buf)

lemma resolve_walk_buf: "resolve_walk path p ls c s = Some y \<Longrightarrow> buf_only s (snd y)"
proof (erule resolve_walk.raw_induct [where P = "\<lambda>path p ls c s y. buf_only s (snd y)", rotated], goal_cases)
  case (1 rec path p ls clus s y)
  then show ?case
    by (cases y) (auto simp: Let_def Option.bind_eq_Some_conv split: if_splits dest!: find_in_dir_buf
        intro: buf_only_trans)
qed

lemma resolve_parent_buf: "resolve_parent path s = Some (c, n, s') \<Longrightarrow> buf_only s s'"
  by (auto simp: resolve_parent_def Let_def Option.bind_eq_Some_conv split: option.splits if_splits
      dest!: resolve_walk_buf)

end
