(* ===== verification/Fat_File.thy ===== *)
theory Fat_File
  imports Fat_Dir
begin

text \<open>
  Files and directories of src/src/kernel/fat.c: the handle table, open and create, close,
  read, write, seek, chdir, mkdir, delete, rmdir and rename.

  Results are the C return values as integers; a call that never returns is
  \<^const>\<open>None\<close>. Byte counts are 32-bit words, so \<open>position + count\<close> wraps as in the source.
  A volume with \<open>sec_per_clus = 0\<close>, on which the source divides by zero, is outside
  the model.
\<close>

section \<open>Handles\<close>

text \<open>The first inactive slot is filled; -1 when all are in use.\<close>

definition alloc_handle :: "fat_file \<Rightarrow> fat_state \<Rightarrow> int \<times> fat_state" where
  "alloc_handle f s =
     (case find_slot (\<lambda>h. \<not> active h) (handles s) of
        None \<Rightarrow> (-1, s)
      | Some i \<Rightarrow> (int i, s\<lparr>handles := (handles s)[i := f]\<rparr>))"

definition new_handle :: "u8 \<Rightarrow> u32 \<Rightarrow> u32 \<Rightarrow> u32 \<Rightarrow> nat \<Rightarrow> fat_state \<Rightarrow> fat_file" where
  "new_handle mode clus fsz sec off s =
     \<lparr>active = True, f_mode = mode, f_drive = active_drive s, first_cluster = clus, current_cluster = clus,
      position = 0, f_size = fsz, dir_sector = sec, dir_offset = off\<rparr>"

text \<open>The handle a call refers to, if it is in range and active.\<close>

definition get_handle :: "int \<Rightarrow> fat_state \<Rightarrow> fat_file option" where
  "get_handle handle s =
     (if handle < 0 \<or> handle \<ge> int FAT_MAX_HANDLES then None
      else let f = handles s ! nat handle in if active f then Some f else None)"

definition put_handle :: "int \<Rightarrow> fat_file \<Rightarrow> fat_state \<Rightarrow> fat_state" where
  "put_handle handle f s = s\<lparr>handles := (handles s)[nat handle := f]\<rparr>"

section \<open>Free directory entries\<close>

text \<open>The 32 bytes of a new entry; all fields are assigned.\<close>

definition le_bytes16 :: "u32 \<Rightarrow> u8 list" where
  "le_bytes16 v = [ucast v, ucast (drop_bit 8 v)]"

definition le_bytes32 :: "u32 \<Rightarrow> u8 list" where
  "le_bytes32 v = [ucast v, ucast (drop_bit 8 v), ucast (drop_bit 16 v), ucast (drop_bit 24 v)]"

definition make_dirent :: "u8 list \<Rightarrow> u8 \<Rightarrow> u32 \<Rightarrow> u32 \<Rightarrow> u8 list" where
  "make_dirent name83 attr clus fsz =
     name83 @ [attr, 0, 0, 0, 0, 0, 0, 0, 0] @ le_bytes16 (drop_bit 16 clus AND 0xFFFF) @ [0, 0, 0, 0] @
     le_bytes16 (clus AND 0xFFFF) @ le_bytes32 fsz"

definition splice :: "'a list \<Rightarrow> nat \<Rightarrow> 'a list \<Rightarrow> 'a list" where
  "splice buf off xs = take off buf @ xs @ drop (off + length xs) buf"

datatype free_slot = Slot u32 nat | Read_error | No_slot

definition free_in_sector :: "u8 list \<Rightarrow> nat \<Rightarrow> nat option" where
  "free_in_sector buf n = find (\<lambda>j. buf ! (j * 32) = 0 \<or> buf ! (j * 32) = 0xE5) [0..<n]"

fun free_scan :: "u32 list \<Rightarrow> fat_state \<Rightarrow> free_slot \<times> fat_state" where
  "free_scan [] s = (No_slot, s)"
| "free_scan (sec # secs) s =
     (case read_sector sec (sector_buf s) s of (ok, buf) \<Rightarrow>
        if \<not> ok then (Read_error, s)
        else let s1 = s\<lparr>sector_buf := buf\<rparr>
             in case free_in_sector buf (entries_per_sector s1) of
                  Some j \<Rightarrow> (Slot sec (j * 32), s1)
                | None \<Rightarrow> free_scan secs s1)"

text \<open>
  The cluster loop: a read error ends the cluster's sectors, not the loop; there is no
  check that the cluster number is at least 2.
\<close>

partial_function (option) free_chain :: "u32 \<Rightarrow> fat_state \<Rightarrow> (free_slot \<times> fat_state) option" where
  "free_chain clus s =
     (case free_scan (cluster_sectors clus s) s of (r, s1) \<Rightarrow>
        (case r of
           Slot sec off \<Rightarrow> Some (Slot sec off, s1)
         | _ \<Rightarrow> (case fat_read_entry clus s1 of (nxt, s2) \<Rightarrow>
                   if is_eoc s2 nxt then Some (No_slot, s2) else free_chain nxt s2)))"

definition store_dirent :: "u32 \<Rightarrow> nat \<Rightarrow> u8 list \<Rightarrow> fat_state \<Rightarrow> fat_state" where
  "store_dirent sec off ent s =
     (let s1 = s\<lparr>sector_buf := splice (sector_buf s) off ent\<rparr>
      in snd (write_sector sec (sector_buf s1) s1))"

definition add_dir_entry :: "u32 \<Rightarrow> cstr \<Rightarrow> u8 \<Rightarrow> u32 \<Rightarrow> u32 \<Rightarrow> fat_state \<Rightarrow> (int \<times> fat_state) option" where
  "add_dir_entry dir_cluster name attr clus fsz s =
     (let ent = make_dirent (name_to_83 name) attr clus fsz
      in if dir_cluster = 0 \<and> fat_type (vol s) \<noteq> 32 then
           (case free_scan (root_sectors s) s of (r, s1) \<Rightarrow>
              Some (case r of Slot sec off \<Rightarrow> (0, store_dirent sec off ent s1) | _ \<Rightarrow> (-1, s1)))
         else do {
           (r, s1) \<leftarrow> free_chain dir_cluster s;
           Some (case r of Slot sec off \<Rightarrow> (0, store_dirent sec off ent s1) | _ \<Rightarrow> (-1, s1))
         })"

section \<open>Open and create\<close>

definition open_slot :: "cstr \<Rightarrow> u8 \<Rightarrow> u32 \<Rightarrow> u32 \<Rightarrow> nat \<Rightarrow> fat_state \<Rightarrow> int \<times> fat_state" where
  "open_slot filename mode clus sec off s =
     (let s1 = store_dirent sec off (make_dirent (name_to_83 filename) FAT_ATTR_ARCHIVE clus 0) s
      in alloc_handle (new_handle mode clus 0 sec off s1) s1)"

text \<open>
  After a fixed root directory without a free entry the source falls through to the
  cluster loop with cluster 0.
\<close>

definition create_file :: "u32 \<Rightarrow> cstr \<Rightarrow> u8 \<Rightarrow> fat_state \<Rightarrow> (int \<times> fat_state) option" where
  "create_file dir_cluster filename mode s =
     (case fat_alloc_cluster s of (new_cluster, s1) \<Rightarrow>
        if new_cluster = 0 then Some (-1, s1)
        else let chain = (\<lambda>s2. do {
                   (r, s3) \<leftarrow> free_chain dir_cluster s2;
                   Some (case r of Slot sec off \<Rightarrow> open_slot filename mode new_cluster sec off s3 | _ \<Rightarrow> (-1, s3))
                 })
             in if dir_cluster = 0 \<and> fat_type (vol s1) \<noteq> 32 then
                  (case free_scan (root_sectors s1) s1 of (r, s2) \<Rightarrow>
                     (case r of
                        Slot sec off \<Rightarrow> Some (open_slot filename mode new_cluster sec off s2)
                      | Read_error \<Rightarrow> Some (-1, s2)
                      | No_slot \<Rightarrow> chain s2))
                else chain s1)"

text \<open>
  The frame shared by the path operations: drive prefix, mounted check, parent
  resolution, and the drive switched back on every exit.
\<close>

definition with_parent ::
    "cstr \<Rightarrow> (u32 \<Rightarrow> cstr \<Rightarrow> fat_state \<Rightarrow> (int \<times> fat_state) option) \<Rightarrow> fat_state \<Rightarrow> (int \<times> fat_state) option" where
  "with_parent path body s =
     (case parse_drive_letter path s of (d, rest) \<Rightarrow>
      let s0 = push_opt d s in
      if \<not> mounted (vol s0) then Some (-1, pop_opt d s0)
      else do {
        (dir_cluster, filename, s1) \<leftarrow> resolve_parent rest s0;
        if dir_cluster = 0xFFFFFFFF then Some (-1, pop_opt d s1)
        else do {
          (r, s2) \<leftarrow> body dir_cluster filename s1;
          Some (r, pop_opt d s2)
        }
      })"

definition fat_open :: "cstr \<Rightarrow> u8 \<Rightarrow> fat_state \<Rightarrow> (int \<times> fat_state) option" where
  "fat_open path mode = with_parent path (\<lambda>dir_cluster filename s. do {
     (ctx, s1) \<leftarrow> find_in_dir dir_cluster filename s;
     if \<not> found ctx then
       (if mode = 0 then Some (-1, s1) else create_file dir_cluster filename mode s1)
     else let e = ctx_result ctx s1
          in if de_is_dir e then Some (-1, s1)
             else Some (alloc_handle (new_handle mode (de_cluster e) (de_size e)
                    (result_sector ctx) (result_offset ctx) s1) s1)
   })"

section \<open>Close, read and write\<close>

text \<open>Return values of type \<^verbatim>\<open>int\<close> made from a 32-bit count.\<close>

definition ret32 :: "u32 \<Rightarrow> int" where
  "ret32 n = sint n"

definition fat_close :: "int \<Rightarrow> fat_state \<Rightarrow> int \<times> fat_state" where
  "fat_close handle s =
     (case get_handle handle s of
        None \<Rightarrow> (-1, s)
      | Some f \<Rightarrow>
          (let s0 = push_drive (f_drive f) s;
               s1 = (if f_mode f > 0 then
                       (case read_sector (dir_sector f) (sector_buf s0) s0 of (ok, buf) \<Rightarrow>
                          if \<not> ok then s0
                          else let b1 = put32 buf (dir_offset f + 28) (f_size f);
                                   b2 = put16 b1 (dir_offset f + 26) (first_cluster f AND 0xFFFF);
                                   b3 = put16 b2 (dir_offset f + 20) (drop_bit 16 (first_cluster f) AND 0xFFFF)
                               in snd (write_sector (dir_sector f) b3 (s0\<lparr>sector_buf := b3\<rparr>)))
                     else s0)
           in (0, pop_drive (put_handle handle (f\<lparr>active := False\<rparr>) s1))))"

definition cluster_bytes :: "fat_state \<Rightarrow> u32" where
  "cluster_bytes s = ucast (sec_per_clus (vol s)) * 512"

text \<open>Walk \<open>n\<close> links from \<open>clus\<close>, stopping early at an end mark.\<close>

fun read_walk :: "nat \<Rightarrow> u32 \<Rightarrow> fat_state \<Rightarrow> u32 \<times> fat_state" where
  "read_walk 0 clus s = (clus, s)"
| "read_walk (Suc n) clus s =
     (if is_eoc s clus then (clus, s) else case fat_read_entry clus s of (clus1, s1) \<Rightarrow> read_walk n clus1 s1)"

text \<open>
  The copy loop: \<open>done\<close> is the list of bytes stored in the caller's buffer so far,
  \<open>left\<close> is \<open>count - bytes_read\<close>. Each round copies at least one byte.
\<close>

definition chunk_len :: "u32 \<Rightarrow> u32 \<Rightarrow> u32" where
  "chunk_len byte_in_sector lft = (if 512 - byte_in_sector > lft then lft else 512 - byte_in_sector)"

lemma chunk_len_props:
  assumes "lft \<noteq> 0"
  shows "chunk_len (x mod 512) lft \<noteq> 0" "chunk_len (x mod 512) lft \<le> lft"
proof -
  have "x mod 512 < (512 :: u32)" by (simp add: word_less_nat_alt unat_mod_distrib)
  then have "512 - x mod 512 \<noteq> 0" by auto
  then show "chunk_len (x mod 512) lft \<noteq> 0" "chunk_len (x mod 512) lft \<le> lft"
    using assms by (auto simp: chunk_len_def)
qed

lemma chunk_len_decreases: "lft \<noteq> 0 \<Longrightarrow> unat (lft - chunk_len (x mod 512) lft) < unat lft"
  using chunk_len_props [of lft x] by (simp add: unat_sub unat_gt_0 word_le_nat_alt)

function read_loop :: "u32 \<Rightarrow> fat_file \<Rightarrow> u8 list \<Rightarrow> fat_state \<Rightarrow> u8 list \<times> fat_file \<times> fat_state" where
  "read_loop lft f acc s =
     (if lft = 0 \<or> is_eoc s (current_cluster f) then (acc, f, s)
      else let cluster_offset = position f mod cluster_bytes s;
               byte_in_sector = cluster_offset mod 512;
               sec = cluster_to_sector (current_cluster f) s + cluster_offset div 512
           in case read_sector sec (sector_buf s) s of (ok, buf) \<Rightarrow>
             if \<not> ok then (acc, f, s)
             else let s1 = s\<lparr>sector_buf := buf\<rparr>;
                      n = chunk_len byte_in_sector lft;
                      acc1 = acc @ take (unat n) (drop (unat byte_in_sector) buf);
                      f1 = f\<lparr>position := position f + n\<rparr>
                  in if position f1 mod cluster_bytes s1 = 0
                     then (case fat_read_entry (current_cluster f1) s1 of (c, s2) \<Rightarrow>
                             read_loop (lft - n) (f1\<lparr>current_cluster := c\<rparr>) acc1 s2)
                     else read_loop (lft - n) f1 acc1 s1)"
  by pat_completeness auto
termination
  by (relation "measure (\<lambda>(lft, _). unat lft)") (auto simp: chunk_len_decreases)

definition fat_read :: "int \<Rightarrow> u32 \<Rightarrow> fat_state \<Rightarrow> int \<times> u8 list \<times> fat_state" where
  "fat_read handle count s =
     (case get_handle handle s of
        None \<Rightarrow> (-1, [], s)
      | Some f \<Rightarrow>
          (let s0 = push_drive (f_drive f) s;
               count1 = (if position f + count > f_size f then f_size f - position f else count)
           in if count1 = 0 then (0, [], pop_drive s0)
              else case read_walk (unat (position f div cluster_bytes s0)) (first_cluster f) s0 of (clus, s1) \<Rightarrow>
                (case read_loop count1 (f\<lparr>current_cluster := clus\<rparr>) [] s1 of (bytes, f2, s2) \<Rightarrow>
                   (ret32 (of_nat (length bytes)), bytes, pop_drive (put_handle handle f2 s2)))))"

text \<open>Follow the link of \<open>clus\<close>, extending the chain by one cluster at its end; \<open>None\<close> on a full disk.\<close>

definition next_or_alloc :: "u32 \<Rightarrow> fat_state \<Rightarrow> u32 option \<times> fat_state" where
  "next_or_alloc clus s =
     (case fat_read_entry clus s of (nxt, s1) \<Rightarrow>
        if is_eoc s1 nxt then
          (case fat_alloc_cluster s1 of (nw, s2) \<Rightarrow>
             if nw = 0 then (None, s2) else (Some nw, fat_write_entry clus nw s2))
        else (Some nxt, s1))"

fun write_walk :: "nat \<Rightarrow> u32 \<Rightarrow> fat_state \<Rightarrow> u32 option \<times> fat_state" where
  "write_walk 0 clus s = (Some clus, s)"
| "write_walk (Suc n) clus s =
     (case next_or_alloc clus s of
        (None, s1) \<Rightarrow> (None, s1)
      | (Some nxt, s1) \<Rightarrow> write_walk n nxt s1)"

definition advance :: "u32 \<Rightarrow> fat_file \<Rightarrow> fat_file" where
  "advance n f = (let p = position f + n in f\<lparr>position := p, f_size := (if p > f_size f then p else f_size f)\<rparr>)"

function write_loop :: "u32 \<Rightarrow> u8 list \<Rightarrow> u32 \<Rightarrow> fat_file \<Rightarrow> fat_state \<Rightarrow> u32 \<times> fat_file \<times> fat_state" where
  "write_loop lft data written f s =
     (if lft = 0 then (written, f, s)
      else let cluster_offset = position f mod cluster_bytes s;
               byte_in_sector = cluster_offset mod 512;
               sec = cluster_to_sector (current_cluster f) s + cluster_offset div 512;
               (ok, buf) = (if byte_in_sector \<noteq> 0 \<or> lft < 512 then read_sector sec (sector_buf s) s
                            else (True, sector_buf s))
           in if \<not> ok then (written, f, s)
              else let n = chunk_len byte_in_sector lft;
                       buf1 = splice buf (unat byte_in_sector) (take (unat n) data);
                       s1 = s\<lparr>sector_buf := buf1\<rparr>
                   in case write_sector sec buf1 s1 of (wok, s2) \<Rightarrow>
                     if \<not> wok then (written, f, s2)
                     else let f1 = advance n f; w1 = written + n
                          in if position f1 mod cluster_bytes s2 = 0 \<and> lft - n \<noteq> 0 then
                               (case next_or_alloc (current_cluster f1) s2 of
                                  (None, s3) \<Rightarrow> (w1, f1, s3)
                                | (Some c, s3) \<Rightarrow> write_loop (lft - n) (drop (unat n) data) w1 (f1\<lparr>current_cluster := c\<rparr>) s3)
                             else write_loop (lft - n) (drop (unat n) data) w1 f1 s2)"
  by pat_completeness auto
termination
  by (relation "measure (\<lambda>(lft, _). unat lft)") (auto simp: chunk_len_decreases)

definition fat_write :: "int \<Rightarrow> u8 list \<Rightarrow> fat_state \<Rightarrow> int \<times> fat_state" where
  "fat_write handle data s =
     (case get_handle handle s of
        None \<Rightarrow> (-1, s)
      | Some f \<Rightarrow>
          if f_mode f = 0 then (-1, s)
          else (let s0 = push_drive (f_drive f) s
                in case write_walk (unat (position f div cluster_bytes s0)) (first_cluster f) s0 of
                     (None, s1) \<Rightarrow> (0, pop_drive s1)
                   | (Some clus, s1) \<Rightarrow>
                       (case write_loop (of_nat (length data)) data 0 (f\<lparr>current_cluster := clus\<rparr>) s1 of (n, f2, s2) \<Rightarrow>
                          (ret32 n, pop_drive (put_handle handle f2 s2)))))"

definition fat_seek :: "int \<Rightarrow> u32 \<Rightarrow> fat_state \<Rightarrow> int \<times> fat_state" where
  "fat_seek handle offset s =
     (case get_handle handle s of
        None \<Rightarrow> (-1, s)
      | Some f \<Rightarrow> (0, put_handle handle (f\<lparr>position := (if offset > f_size f then f_size f else offset)\<rparr>) s))"

definition fat_get_size :: "int \<Rightarrow> fat_state \<Rightarrow> u32" where
  "fat_get_size handle s = (case get_handle handle s of None \<Rightarrow> 0 | Some f \<Rightarrow> f_size f)"

definition fat_get_position :: "int \<Rightarrow> fat_state \<Rightarrow> u32" where
  "fat_get_position handle s = (case get_handle handle s of None \<Rightarrow> 0 | Some f \<Rightarrow> position f)"

text \<open>The time and the date, in this order.\<close>

definition fat_get_datetime :: "int \<Rightarrow> fat_state \<Rightarrow> (u32 \<times> u32) \<times> fat_state" where
  "fat_get_datetime handle s =
     (case get_handle handle s of
        None \<Rightarrow> ((0, 0), s)
      | Some f \<Rightarrow>
          (let s0 = push_drive (f_drive f) s
           in case read_sector (dir_sector f) (sector_buf s0) s0 of (ok, buf) \<Rightarrow>
                if ok then let e = entry_at buf (dir_offset f)
                           in ((de_wrt_time e, de_wrt_date e), pop_drive (s0\<lparr>sector_buf := buf\<rparr>))
                else ((0, 0), pop_drive s0)))"

declare read_loop.simps [simp del] write_loop.simps [simp del]

section \<open>Directory operations\<close>

text \<open>
  \<^verbatim>\<open>cwd_path\<close> has \<open>FAT_MAX_PATH\<close> bytes and \<^verbatim>\<open>use_fdc\<close> follows it in the
  structure: the terminator of a path of exactly \<open>FAT_MAX_PATH\<close> bytes is stored over the low
  byte of \<^verbatim>\<open>use_fdc\<close>, which is 0 or 1. Longer paths are outside the model.
\<close>

definition set_cwd :: "u32 \<Rightarrow> cstr \<Rightarrow> fat_state \<Rightarrow> fat_state" where
  "set_cwd clus path = set_vol (\<lambda>v. v\<lparr>cwd_cluster := clus, cwd_path := path,
     use_fdc := (use_fdc v \<and> length path \<noteq> FAT_MAX_PATH)\<rparr>)"

definition cwd_after :: "cstr \<Rightarrow> cstr \<Rightarrow> cstr" where
  "cwd_after rest old =
     (if is_sep (cch rest 0) then take (FAT_MAX_PATH - 1) rest
      else let pre = (if length old > 1 then old @ [SLASH] else old)
           in pre @ take (FAT_MAX_PATH - 1 - length pre) rest)"

definition fat_chdir :: "cstr \<Rightarrow> fat_state \<Rightarrow> (int \<times> fat_state) option" where
  "fat_chdir path s =
     (case parse_drive_letter path s of (d, rest) \<Rightarrow>
      let s0 = push_opt d s in
      if \<not> mounted (vol s0) then Some (-1, pop_opt d s0)
      else if is_sep (cch rest 0) \<and> cch rest 1 = 0 then Some (0, pop_opt d (set_cwd (root_of s0) [SLASH] s0))
      else do {
        (dir_cluster, filename, s1) \<leftarrow> resolve_parent rest s0;
        if dir_cluster = 0xFFFFFFFF then Some (-1, pop_opt d s1)
        else do {
          (ctx, s2) \<leftarrow> find_in_dir dir_cluster filename s1;
          if \<not> found ctx then Some (-1, pop_opt d s2)
          else let e = ctx_result ctx s2
               in if \<not> de_is_dir e then Some (-1, pop_opt d s2)
                  else Some (0, pop_opt d (set_cwd (de_cluster e) (cwd_after rest (cwd_path (vol s2))) s2))
        }
      })"

text \<open>The bytes stored in the caller's buffer before the terminator (\<open>size - 1\<close> wraps for size 0).\<close>

definition fat_getcwd :: "u32 \<Rightarrow> fat_state \<Rightarrow> int \<times> cstr" where
  "fat_getcwd sz s = (if \<not> mounted (vol s) then (-1, []) else (0, take (unat (sz - 1)) (cwd_path (vol s))))"

definition dot_entry :: "u8 list \<Rightarrow> u32 \<Rightarrow> u8 list" where
  "dot_entry nm clus = make_dirent (pad 11 nm) FAT_ATTR_DIRECTORY clus 0"

definition new_dir_sector :: "u32 \<Rightarrow> u32 \<Rightarrow> nat \<Rightarrow> u8 list" where
  "new_dir_sector new_cluster parent i =
     (if i = 0 then splice (splice (replicate 512 0) 0 (dot_entry [DOT] new_cluster)) 32 (dot_entry [DOT, DOT] parent)
      else replicate 512 0)"

definition init_dir_sector :: "u32 \<Rightarrow> u32 \<Rightarrow> nat \<Rightarrow> fat_state \<Rightarrow> fat_state" where
  "init_dir_sector new_cluster parent i s =
     (let s1 = s\<lparr>sector_buf := new_dir_sector new_cluster parent i\<rparr>
      in snd (write_sector (cluster_to_sector new_cluster s1 + of_nat i) (sector_buf s1) s1))"

definition init_dir_cluster :: "u32 \<Rightarrow> u32 \<Rightarrow> fat_state \<Rightarrow> fat_state" where
  "init_dir_cluster new_cluster parent s =
     fold (init_dir_sector new_cluster parent) [0..<unat (sec_per_clus (vol s))] s"

definition fat_mkdir :: "cstr \<Rightarrow> fat_state \<Rightarrow> (int \<times> fat_state) option" where
  "fat_mkdir path = with_parent path (\<lambda>dir_cluster filename s. do {
     (ctx, s1) \<leftarrow> find_in_dir dir_cluster filename s;
     if found ctx then Some (-1, s1)
     else case fat_alloc_cluster s1 of (new_cluster, s2) \<Rightarrow>
       if new_cluster = 0 then Some (-1, s2)
       else do {
         (r, s3) \<leftarrow> add_dir_entry dir_cluster filename FAT_ATTR_DIRECTORY new_cluster 0
                      (init_dir_cluster new_cluster dir_cluster s2);
         if r < 0 then Some (-1, fat_write_entry new_cluster 0 s3) else Some (0, s3)
       }
   })"

partial_function (option) free_chain_entries :: "u32 \<Rightarrow> fat_state \<Rightarrow> fat_state option" where
  "free_chain_entries cluster s =
     (if cluster < 2 \<or> is_eoc s cluster then Some s
      else case fat_read_entry cluster s of (nxt, s1) \<Rightarrow>
        free_chain_entries nxt (fat_write_entry cluster 0 s1))"

definition mark_deleted :: "u32 \<Rightarrow> nat \<Rightarrow> fat_state \<Rightarrow> fat_state" where
  "mark_deleted sec off s =
     (case read_sector sec (sector_buf s) s of (ok, buf) \<Rightarrow>
        if \<not> ok then s
        else let b1 = buf[off := 0xE5] in snd (write_sector sec b1 (s\<lparr>sector_buf := b1\<rparr>)))"

definition fat_delete :: "cstr \<Rightarrow> fat_state \<Rightarrow> (int \<times> fat_state) option" where
  "fat_delete path = with_parent path (\<lambda>dir_cluster filename s. do {
     (ctx, s1) \<leftarrow> find_in_dir dir_cluster filename s;
     if \<not> found ctx then Some (-1, s1)
     else let e = ctx_result ctx s1
          in if de_is_dir e then Some (-1, s1)
             else do {
               s2 \<leftarrow> free_chain_entries (de_cluster e) s1;
               Some (0, mark_deleted (result_sector ctx) (result_offset ctx) s2)
             }
   })"

text \<open>The emptiness scan of \<^verbatim>\<open>fat_rmdir\<close>.\<close>

datatype empty_scan = End_mark | In_use | Go_on

fun empty_entries :: "u8 list \<Rightarrow> nat list \<Rightarrow> empty_scan" where
  "empty_entries buf [] = Go_on"
| "empty_entries buf (j # js) =
     (let e0 = buf ! (j * 32); e1 = buf ! (j * 32 + 1)
      in if e0 = 0 then End_mark
         else if e0 = 0xE5 then empty_entries buf js
         else if e0 = DOT \<and> (e1 = SPC \<or> e1 = DOT) then empty_entries buf js
         else In_use)"

fun empty_sectors :: "u32 list \<Rightarrow> fat_state \<Rightarrow> empty_scan \<times> fat_state" where
  "empty_sectors [] s = (Go_on, s)"
| "empty_sectors (sec # secs) s =
     (case read_sector sec (sector_buf s) s of (ok, buf) \<Rightarrow>
        if \<not> ok then (Go_on, s)
        else let s1 = s\<lparr>sector_buf := buf\<rparr>
             in case empty_entries buf [0..<entries_per_sector s1] of
                  Go_on \<Rightarrow> empty_sectors secs s1
                | r \<Rightarrow> (r, s1))"

partial_function (option) dir_is_empty :: "u32 \<Rightarrow> fat_state \<Rightarrow> (bool \<times> fat_state) option" where
  "dir_is_empty clus s =
     (case empty_sectors (cluster_sectors clus s) s of (r, s1) \<Rightarrow>
        (case r of
           End_mark \<Rightarrow> Some (True, s1)
         | In_use \<Rightarrow> Some (False, s1)
         | Go_on \<Rightarrow> (case fat_read_entry clus s1 of (nxt, s2) \<Rightarrow>
                      if is_eoc s2 nxt then Some (True, s2) else dir_is_empty nxt s2)))"

definition fat_rmdir :: "cstr \<Rightarrow> fat_state \<Rightarrow> (int \<times> fat_state) option" where
  "fat_rmdir path = with_parent path (\<lambda>dir_cluster filename s. do {
     (ctx, s1) \<leftarrow> find_in_dir dir_cluster filename s;
     if \<not> found ctx then Some (-1, s1)
     else let e = ctx_result ctx s1
          in if \<not> de_is_dir e then Some (-1, s1)
             else do {
               (empty, s2) \<leftarrow> dir_is_empty (de_cluster e) s1;
               if \<not> empty then Some (-1, s2)
               else do {
                 s3 \<leftarrow> free_chain_entries (de_cluster e) s2;
                 Some (0, mark_deleted (result_sector ctx) (result_offset ctx) s3)
               }
             }
   })"

text \<open>
  The new name is the part of \<^verbatim>\<open>new_path\<close> after its last separator; no check that it
  is free, and the entry stays in its directory.
\<close>

definition fat_rename :: "cstr \<Rightarrow> cstr \<Rightarrow> fat_state \<Rightarrow> (int \<times> fat_state) option" where
  "fat_rename old_path new_path s =
     (case (parse_drive_letter old_path s, parse_drive_letter new_path s) of
        ((old_drive, old_rest), (new_drive, new_rest)) \<Rightarrow>
      if old_drive \<noteq> None \<and> new_drive \<noteq> None \<and> old_drive \<noteq> new_drive then Some (-1, s)
      else let d = (if old_drive \<noteq> None then old_drive else new_drive); s0 = push_opt d s
           in if \<not> mounted (vol s0) then Some (-1, pop_opt d s0)
              else do {
                (dir_cluster, old_name, s1) \<leftarrow> resolve_parent old_rest s0;
                if dir_cluster = 0xFFFFFFFF then Some (-1, pop_opt d s1)
                else do {
                  (ctx, s2) \<leftarrow> find_in_dir dir_cluster old_name s1;
                  if \<not> found ctx then Some (-1, pop_opt d s2)
                  else let tail = (case last_slash new_rest of None \<Rightarrow> new_rest | Some i \<Rightarrow> drop (i + 1) new_rest);
                           buf = snd (read_sector (result_sector ctx) (sector_buf s2) s2);
                           b1 = splice buf (result_offset ctx) (name_to_83 (take 12 tail));
                           s3 = snd (write_sector (result_sector ctx) b1 (s2\<lparr>sector_buf := b1\<rparr>))
                       in Some (0, pop_opt d s3)
                }
              })"

section \<open>Queries and the selected drive\<close>

definition fat_get_type :: "fat_state \<Rightarrow> int" where "fat_get_type s = uint (fat_type (vol s))"
definition fat_get_total_clusters :: "fat_state \<Rightarrow> u32" where "fat_get_total_clusters s = cluster_count (vol s)"
definition fat_get_sec_per_clus :: "fat_state \<Rightarrow> u32" where "fat_get_sec_per_clus s = ucast (sec_per_clus (vol s))"
definition fat_is_floppy :: "fat_state \<Rightarrow> bool" where "fat_is_floppy s = use_fdc (vol s)"
definition fat_get_drive :: "fat_state \<Rightarrow> nat" where "fat_get_drive s = active_drive s"

definition fat_is_mounted :: "int \<Rightarrow> fat_state \<Rightarrow> bool" where
  "fat_is_mounted drive s =
     (if drive < 0 \<or> drive \<ge> int FAT_MAX_DRIVES then False else mounted (volumes s ! nat drive))"

definition fat_get_source :: "int \<Rightarrow> fat_state \<Rightarrow> (bool \<times> u8 \<times> u32) option" where
  "fat_get_source drive s =
     (if drive < 0 \<or> drive \<ge> int FAT_MAX_DRIVES then None
      else let v = volumes s ! nat drive
           in if \<not> mounted v then None else Some (use_fdc v, drive_id v, partition_lba v))"

definition fat_set_drive :: "int \<Rightarrow> fat_state \<Rightarrow> fat_state" where
  "fat_set_drive drive s =
     (if drive \<ge> 0 \<and> drive < int FAT_MAX_DRIVES \<and> mounted (volumes s ! nat drive)
      then s\<lparr>active_drive := nat drive\<rparr> else s)"

end
