(* ===== verification/Fat_Rw.thy ===== *)
theory Fat_Rw
  imports Fat_File
begin

text \<open>
  Contents of files: the bytes of a cluster chain, and the theorems that
  \<^const>\<open>fat_read\<close> returns them and \<^const>\<open>fat_write\<close> replaces them, extending the chain
  where needed.
\<close>

section \<open>Lists of equal blocks\<close>

lemma drop_concat_blocks:
  assumes "\<forall>x \<in> set xss. length x = L" "i \<le> length xss"
  shows "drop (i * L) (concat xss) = concat (drop i xss)"
  using assms
proof (induction xss arbitrary: i)
  case (Cons x xss)
  then show ?case by (cases i) (auto simp: add.commute)
qed simp

lemma length_concat_blocks: "\<forall>x \<in> set xss. length x = L \<Longrightarrow> length (concat xss) = length xss * L"
  by (induction xss) auto

lemma drop_in_block:
  assumes "\<forall>x \<in> set xss. length x = L" "p div L < length xss" "0 < L"
  shows "drop p (concat xss) = drop (p mod L) (xss ! (p div L)) @ concat (drop (Suc (p div L)) xss)"
proof -
  have "drop p (concat xss) = drop (p mod L) (drop (p div L * L) (concat xss))"
    by (simp add: add.commute)
  also have "\<dots> = drop (p mod L) (concat (drop (p div L) xss))"
    using drop_concat_blocks [OF assms(1)] assms(2) by simp
  also have "drop (p div L) xss = (xss ! (p div L)) # drop (Suc (p div L)) xss"
    using assms(2) by (simp add: Cons_nth_drop_Suc)
  finally show ?thesis
    using assms by (simp add: less_imp_le)
qed

lemma nth_concat_blocks:
  assumes "\<forall>x \<in> set xss. length x = L" "q div L < length xss" "0 < L"
  shows "concat xss ! q = xss ! (q div L) ! (q mod L)"
proof -
  have "q < length (concat xss)"
    using assms length_concat_blocks [OF assms(1)] by (simp add: div_less_iff_less_mult)
  then have "concat xss ! q = hd (drop q (concat xss))" by (simp add: hd_drop_conv_nth)
  moreover have "q mod L < length (xss ! (q div L))" using assms by simp
  ultimately show ?thesis unfolding drop_in_block [OF assms] by (simp add: hd_append hd_drop_conv_nth)
qed

section \<open>Geometry of the data area\<close>

definition spc :: "fat_state \<Rightarrow> nat" where
  "spc s = unat (sec_per_clus (vol s))"

text \<open>
  Data clusters are proper cluster numbers, their sectors are distinct, outside the table
  and free of I/O errors.
\<close>

definition vol_geom :: "fat_state \<Rightarrow> bool" where
  "vol_geom s \<longleftrightarrow> fat_sized s \<and> 0 < spc s \<and>
     (\<forall>c \<in> set (data_clusters s). \<not> is_eoc s c \<and> c AND entry_mask (fat_type (vol s)) = c) \<and>
     (\<forall>c \<in> set (data_clusters s). \<forall>d \<in> set (data_clusters s). \<forall>k < spc s. \<forall>l < spc s.
        cluster_to_sector c s + of_nat k = cluster_to_sector d s + of_nat l \<longrightarrow> c = d \<and> k = l) \<and>
     (\<forall>c \<in> set (data_clusters s). \<forall>k < spc s.
        let a = cluster_to_sector c s + of_nat k in a \<notin> fat_region s \<and> vread_ok s a \<and> vwrite_ok s a)"

lemma vol_geomD:
  assumes "vol_geom s"
  shows "fat_sized s" "fat_ok s" "0 < spc s"
    "c \<in> set (data_clusters s) \<Longrightarrow> \<not> is_eoc s c \<and> c AND entry_mask (fat_type (vol s)) = c \<and> 2 \<le> c \<and> fits s c"
    "c \<in> set (data_clusters s) \<Longrightarrow> a \<in> set (cluster_sectors c s) \<Longrightarrow> a \<notin> fat_region s \<and> vread_ok s a \<and> vwrite_ok s a"
    "\<forall>a. length (vsec s a) = 512"
  using assms sized_fits [of s c] set_data_clusters [of s]
  by (auto simp: vol_geom_def fat_sized_def fat_ok_def cluster_sectors_def spc_def Let_def)

lemma fat_only_geom: "fat_only s s' \<Longrightarrow> vol_geom s \<Longrightarrow> vol_geom s'"
  using fat_only_views [of s s'] fat_only_vol [of s s'] fat_only_sized [of s s']
  by (simp add: vol_geom_def spc_def)

lemma cluster_sectors_nth: "k < spc s \<Longrightarrow> cluster_sectors c s ! k = cluster_to_sector c s + of_nat k"
  by (simp add: cluster_sectors_def spc_def)

lemma length_cluster_sectors [simp]: "length (cluster_sectors c s) = spc s"
  by (simp add: cluster_sectors_def spc_def)

lemma chain_sectors_nth:
  assumes "0 < spc s" "q < length cs * spc s"
  shows "chain_sectors s cs ! q = cluster_to_sector (cs ! (q div spc s)) s + of_nat (q mod spc s)"
proof -
  have d: "q div spc s < length cs" using assms by (simp add: div_less_iff_less_mult)
  then show ?thesis
    unfolding chain_sectors_def
    by (subst nth_concat_blocks [where L = "spc s"]) (use assms d in \<open>simp_all add: cluster_sectors_nth\<close>)
qed

lemma length_chain_sectors: "length (chain_sectors s cs) = length cs * spc s"
  unfolding chain_sectors_def by (subst length_concat_blocks [where L = "spc s"]) auto

lemma distinct_chain_sectors:
  assumes "vol_geom s" "distinct cs" "set cs \<subseteq> set (data_clusters s)"
  shows "distinct (chain_sectors s cs)"
  unfolding distinct_conv_nth
proof (intro allI impI)
  fix i j assume ij: "i < length (chain_sectors s cs)" "j < length (chain_sectors s cs)" "i \<noteq> j"
  let ?m = "spc s"
  note sp = vol_geomD(3) [OF assms(1)]
  have l: "i div ?m < length cs" "j div ?m < length cs"
    using ij sp by (simp_all add: length_chain_sectors div_less_iff_less_mult)
  have "cs ! (i div ?m) \<noteq> cs ! (j div ?m) \<or> i mod ?m \<noteq> j mod ?m"
    using ij(3) l assms(2) by (metis div_mult_mod_eq nth_eq_iff_index_eq)
  moreover have "cs ! (i div ?m) \<in> set (data_clusters s)" "cs ! (j div ?m) \<in> set (data_clusters s)"
    using l assms(3) by (auto dest: nth_mem)
  ultimately show "chain_sectors s cs ! i \<noteq> chain_sectors s cs ! j"
    using assms(1) sp ij unfolding chain_sectors_nth [OF sp ij(1) [unfolded length_chain_sectors]]
      chain_sectors_nth [OF sp ij(2) [unfolded length_chain_sectors]] vol_geom_def
    by (meson mod_less_divisor)
qed

section \<open>File contents\<close>

definition file_bytes :: "fat_state \<Rightarrow> u32 list \<Rightarrow> u8 list" where
  "file_bytes s cs = concat (map (vsec s) (chain_sectors s cs))"

definition CB :: "fat_state \<Rightarrow> nat" where
  "CB s = 512 * spc s"

lemma unat_cluster_bytes: "unat (cluster_bytes s) = CB s"
proof -
  have "unat (sec_per_clus (vol s)) * 512 < 4294967296"
    using unat_u8_bound [of "sec_per_clus (vol s)"] by linarith
  then show ?thesis
    by (simp add: cluster_bytes_def CB_def spc_def unat_word_ariths mult.commute)
qed

lemma length_file_bytes: "\<forall>a. length (vsec s a) = 512 \<Longrightarrow> length (file_bytes s cs) = length cs * CB s"
  unfolding file_bytes_def by (subst length_concat_blocks [where L = 512]) (auto simp: length_chain_sectors CB_def)

text \<open>The sector holding byte \<open>p\<close> of a chain.\<close>

lemma chain_sector_of_byte:
  assumes "0 < spc s" "p < length cs * CB s"
  shows "p div 512 < length (chain_sectors s cs)" "p div CB s < length cs"
    "chain_sectors s cs ! (p div 512) = cluster_to_sector (cs ! (p div CB s)) s + of_nat (p mod CB s div 512)"
    "p mod CB s div 512 < spc s" "p mod CB s mod 512 = p mod 512"
proof -
  have q: "p div 512 < length cs * spc s" using assms by (simp add: CB_def div_less_iff_less_mult ac_simps)
  then show "p div 512 < length (chain_sectors s cs)" by (simp add: length_chain_sectors)
  have d: "p div 512 div spc s = p div CB s" "p div 512 mod spc s = p mod CB s div 512"
    by (simp_all add: CB_def div_mult2_eq mod_mult2_eq)
  show "p div CB s < length cs" using assms by (simp add: CB_def div_less_iff_less_mult)
  show "chain_sectors s cs ! (p div 512) = cluster_to_sector (cs ! (p div CB s)) s + of_nat (p mod CB s div 512)"
    using chain_sectors_nth [OF assms(1) q] d by simp
  show "p mod CB s div 512 < spc s" using d(2) assms(1) by (metis mod_less_divisor)
  show "p mod CB s mod 512 = p mod 512" by (simp add: CB_def mod_mod_cancel)
qed

lemma take_file_bytes:
  assumes "0 < spc s" "p < length cs * CB s" "n \<le> 512 - p mod 512" "\<forall>a. length (vsec s a) = 512"
  shows "take n (drop p (file_bytes s cs)) = take n (drop (p mod 512) (vsec s (chain_sectors s cs ! (p div 512))))"
proof -
  have "drop p (file_bytes s cs) = drop (p mod 512) (vsec s (chain_sectors s cs ! (p div 512))) @
      concat (drop (Suc (p div 512)) (map (vsec s) (chain_sectors s cs)))"
    unfolding file_bytes_def using chain_sector_of_byte(1) [OF assms(1,2)] assms(4)
    by (subst drop_in_block [where L = 512]) auto
  then show ?thesis using assms by simp
qed

section \<open>Reading\<close>

lemma read_walk_spec:
  "fat_chain s c cs \<Longrightarrow> n \<le> length cs \<Longrightarrow> fat_ok s \<Longrightarrow>
     \<exists>c' s'. read_walk n c s = (c', s') \<and> buf_only s s' \<and> fat_chain s c' (drop n cs)"
proof (induction n arbitrary: c cs s)
  case (Suc n)
  then obtain cs' where cs: "cs = c # cs'" and c: "\<not> is_eoc s c" "fits s c" "fat_chain s (fat_view s c) cs'"
    by (cases cs) auto
  obtain s1 where s1: "fat_read_entry c s = (fat_view s c, s1)" "buf_only s s1"
    using fat_read_entry_buf [OF Suc.prems(3) c(2)] by blast
  note v = buf_only_views [OF s1(2)]
  have ch: "fat_chain s1 d xs = fat_chain s d xs" for d xs using fat_chain_cong [of s1 s] v by simp
  obtain c' s' where "read_walk n (fat_view s c) s1 = (c', s')" "buf_only s1 s'" "fat_chain s1 c' (drop n cs')"
    using Suc.IH [of s1 "fat_view s c" cs'] c(3) Suc.prems cs v ch by auto
  then show ?case using c s1 cs buf_only_trans [OF s1(2)] ch by auto
qed auto

lemma unat_chunk_len:
  "unat b < 512 \<Longrightarrow> unat (chunk_len b lft) = min (512 - unat b) (unat lft)"
proof -
  assume "unat b < 512"
  then have "unat (512 - b) = 512 - unat b" by (subst unat_sub) (simp_all add: word_le_nat_alt)
  then show ?thesis by (auto simp: chunk_len_def word_less_nat_alt)
qed

lemma unat_512: "unat (512 :: u32) = 512"
  by simp

lemma byte_position:
  fixes s :: fat_state and w :: u32
  defines "p \<equiv> unat w"
  shows "unat (w mod cluster_bytes s mod 512) = p mod 512"
    "w mod cluster_bytes s div 512 = of_nat (p mod CB s div 512)"
    "(w mod cluster_bytes s = 0) = (p mod CB s = 0)"
proof -
  have m: "unat (w mod cluster_bytes s) = p mod CB s" by (simp add: unat_mod_distrib unat_cluster_bytes p_def)
  show "unat (w mod cluster_bytes s mod 512) = p mod 512"
    by (simp add: unat_mod_distrib [of _ 512] m) (simp add: CB_def mod_mod_cancel)
  show "w mod cluster_bytes s div 512 = of_nat (p mod CB s div 512)"
    by (metis m unat_div_u32 unat_512 word_unat_inverse)
  show "(w mod cluster_bytes s = 0) = (p mod CB s = 0)"
    using m by (metis unat_0 unat_eq_zero)
qed

text \<open>The last byte of a chunk decides whether the cluster is exhausted.\<close>

lemma chunk_in_cluster:
  assumes "0 < spc s" "n \<le> 512 - p mod 512" "0 < n"
  shows "(p + n) div CB s = (if (p + n) mod CB s = 0 then Suc (p div CB s) else p div CB s)"
proof -
  let ?m = "CB s" and ?r = "p mod CB s"
  have r: "?r mod 512 = p mod 512" by (simp add: CB_def mod_mod_cancel)
  have "?r < ?m" using assms by (simp add: CB_def)
  moreover have "?r = ?r div 512 * 512 + p mod 512" using r div_mult_mod_eq [of ?r 512] by simp
  moreover have "?r div 512 < spc s" using assms(1) by (simp add: CB_def mod_mult2_eq)
  then have "?r div 512 * 512 + 512 \<le> ?m" using mult_le_mono1 [of "Suc (?r div 512)" "spc s" 512] by (simp add: CB_def)
  moreover have "p mod 512 < 512" by simp
  ultimately have le: "?r + n \<le> ?m" using assms(2) by linarith
  have pn: "p + n = p div ?m * ?m + (?r + n)" by simp
  show ?thesis
  proof (cases "?r + n = ?m")
    case True
    then have "p + n = Suc (p div ?m) * ?m" using pn by simp
    then show ?thesis using assms(1) by (simp add: CB_def)
  next
    case False
    then have lt: "?r + n < ?m" using le by simp
    then have "(p + n) div ?m = p div ?m" "(p + n) mod ?m = ?r + n"
      by (simp_all only: pn) (simp_all add: CB_def assms(1))
    then show ?thesis using assms(3) by simp
  qed
qed

lemma file_bytes_buf: "buf_only s s' \<Longrightarrow> file_bytes s' = file_bytes s \<and> chain_sectors s' = chain_sectors s \<and>
    CB s' = CB s \<and> spc s' = spc s \<and> cluster_bytes s' = cluster_bytes s"
  using buf_only_views(1,2,10) [of s s']
  by (auto simp: file_bytes_def chain_sectors_def CB_def spc_def cluster_bytes_def intro!: ext)

lemma cluster_bytes_frame [simp]: "cluster_bytes (s\<lparr>sector_buf := b\<rparr>) = cluster_bytes s"
  by (simp add: cluster_bytes_def)

lemma read_loop_spec:
  assumes "fat_ok s" "0 < spc s" "\<forall>sec \<in> set (chain_sectors s cs). vread_ok s sec"
    "unat (position f) + unat lft \<le> length cs * CB s" "unat (position f) + unat lft < 2 ^ 32"
    "fat_chain s (current_cluster f) (drop (unat (position f) div CB s) cs)"
  shows "\<exists>f' s'. read_loop lft f acc s = (acc @ take (unat lft) (drop (unat (position f)) (file_bytes s cs)), f', s') \<and>
     buf_only s s' \<and> f'\<lparr>current_cluster := c\<rparr> = f\<lparr>position := position f + lft, current_cluster := c\<rparr>"
  using assms
proof (induction "unat lft" arbitrary: lft f acc s rule: less_induct)
  case less
  let ?p = "unat (position f)"
  show ?case
  proof (cases "lft = 0")
    case True
    then show ?thesis by (simp add: read_loop.simps [of 0 f])
  next
    case False
    then have lt: "0 < unat lft" by (simp add: unat_gt_0)
    then have p: "?p < length cs * CB s" using less.prems(4) by linarith
    note cb = chain_sector_of_byte [OF less.prems(2) p] and bp = byte_position [of "position f" s]
    obtain cl rest where dr: "drop (?p div CB s) cs = cl # rest" "cl = cs ! (?p div CB s)" "rest = drop (Suc (?p div CB s)) cs"
      using cb(2) by (metis Cons_nth_drop_Suc)
    then have cl: "cl = current_cluster f" "\<not> is_eoc s cl" "fits s cl" "fat_chain s (fat_view s cl) rest"
      using less.prems(6) by auto
    let ?b = "position f mod cluster_bytes s mod 512"
    let ?sec = "chain_sectors s cs ! (?p div 512)"
    have sec: "cluster_to_sector (current_cluster f) s + position f mod cluster_bytes s div 512 = ?sec"
      unfolding cb(3) bp(2) using dr(2) cl(1) by simp
    have rd: "read_sector ?sec (sector_buf s) s = (True, vsec s ?sec)"
      using less.prems(3) cb(1) by simp
    define n where "n = chunk_len ?b lft"
    have b512: "unat ?b < 512" by (simp add: bp(1))
    have un: "unat n = min (512 - ?p mod 512) (unat lft)" unfolding n_def unat_chunk_len [OF b512] bp(1) ..
    have nle: "unat n \<le> unat lft" "0 < unat n" "unat n \<le> 512 - ?p mod 512" using lt by (simp_all add: un)
    have left: "unat (lft - n) = unat lft - unat n" using nle by (simp add: unat_sub word_le_nat_alt)
    have pos: "unat (position f + n) = ?p + unat n"
      using nle less.prems(5) by (intro unat_plus_small) simp
    let ?s1 = "s\<lparr>sector_buf := vsec s ?sec\<rparr>"
    let ?f1 = "f\<lparr>position := position f + n\<rparr>"
    let ?acc1 = "acc @ take (unat n) (drop ?p (file_bytes s cs))"
    have acc: "take (unat n) (drop (unat ?b) (vsec s ?sec)) = take (unat n) (drop ?p (file_bytes s cs))"
      using take_file_bytes [OF less.prems(2) p nle(3)] less.prems(1) by (simp add: bp(1) fat_ok_def)
    have fin: "(acc @ take (unat n) (drop ?p (file_bytes s cs))) @ take (unat (lft - n)) (drop (?p + unat n) (file_bytes s cs)) =
        acc @ take (unat lft) (drop ?p (file_bytes s cs))"
      using nle(1) left by (simp add: take_add [symmetric] add.commute flip: drop_drop)
    have unf: "read_loop lft f acc s = (if (?p + unat n) mod CB s = 0
        then (case fat_read_entry cl ?s1 of (c, s2) \<Rightarrow> read_loop (lft - n) (?f1\<lparr>current_cluster := c\<rparr>) ?acc1 s2)
        else read_loop (lft - n) ?f1 ?acc1 ?s1)"
      using False cl byte_position(3) [of "position f + n" s, unfolded pos]
      by (subst read_loop.simps) (simp add: Let_def sec rd acc flip: n_def)
    note dv = chunk_in_cluster [OF less.prems(2) nle(3,2)]
    show ?thesis
    proof (cases "(?p + unat n) mod CB s = 0")
      case True
      obtain s2 where s2: "fat_read_entry cl ?s1 = (fat_view s cl, s2)" "buf_only ?s1 s2"
        using fat_read_entry_buf [of ?s1 cl] cl(3) less.prems(1) buf_only_views [of s ?s1] by auto
      have b2: "buf_only s s2" using buf_only_trans [OF _ s2(2), of s] by simp
      note v2 = buf_only_views [OF b2] file_bytes_buf [OF b2]
      let ?f2 = "?f1\<lparr>current_cluster := fat_view s cl\<rparr>"
      have "\<exists>f' s'. read_loop (lft - n) ?f2 ?acc1 s2 =
          (?acc1 @ take (unat (lft - n)) (drop (unat (position ?f2)) (file_bytes s2 cs)), f', s') \<and>
          buf_only s2 s' \<and> f'\<lparr>current_cluster := c\<rparr> = ?f2\<lparr>position := position ?f2 + (lft - n), current_cluster := c\<rparr>"
        using less.prems nle left pos dv True cl(4) dr(3) v2 fat_chain_cong [of s2 s]
        by (intro less.hyps) simp_all
      then show ?thesis using unf True s2 fin pos v2 buf_only_trans [OF b2] by auto
    next
      case f: False
      have b1: "buf_only s ?s1" by simp
      note v1 = buf_only_views [OF b1] file_bytes_buf [OF b1]
      have "\<exists>f' s'. read_loop (lft - n) ?f1 ?acc1 ?s1 =
          (?acc1 @ take (unat (lft - n)) (drop (unat (position ?f1)) (file_bytes ?s1 cs)), f', s') \<and>
          buf_only ?s1 s' \<and> f'\<lparr>current_cluster := c\<rparr> = ?f1\<lparr>position := position ?f1 + (lft - n), current_cluster := c\<rparr>"
        using less.prems nle left pos dv f dr v1 fat_chain_cong [of ?s1 s]
        by (intro less.hyps) simp_all
      then show ?thesis using unf f fin pos v1 buf_only_trans [OF b1] by auto
    qed
  qed
qed

text \<open>
  An open file: its handle, its drive selected, its cluster chain, readable sectors, and a
  size within the chain.
\<close>

definition open_file :: "fat_state \<Rightarrow> int \<Rightarrow> fat_file \<Rightarrow> u32 list \<Rightarrow> bool" where
  "open_file s h f cs \<longleftrightarrow>
     (let s0 = push_drive (f_drive f) s
      in get_handle h s = Some f \<and> fat_ok s0 \<and> 0 < spc s0 \<and> fat_chain s0 (first_cluster f) cs \<and>
         (\<forall>sec \<in> set (chain_sectors s0 cs). vread_ok s0 sec) \<and>
         position f \<le> f_size f \<and> unat (f_size f) \<le> length cs * CB s0)"

lemma pop_push_fields:
  "buf_only (push_drive d s) s' \<Longrightarrow> dsk (pop_drive s') = dsk s \<and> volumes (pop_drive s') = volumes s \<and>
     active_drive (pop_drive s') = active_drive s \<and> handles (pop_drive s') = handles s"
  using buf_only_fields [of "push_drive d s" s'] by (simp add: push_drive_def pop_drive_def)

lemma fat_read_result:
  assumes "open_file s h f cs" "unat (position f) + unat count < 2 ^ 32"
  defines "n \<equiv> min (unat count) (unat (f_size f) - unat (position f))"
  shows "\<exists>s' c. fat_read h count s =
      (ret32 (of_nat n), take n (drop (unat (position f)) (file_bytes (push_drive (f_drive f) s) cs)), s') \<and>
    dsk s' = dsk s \<and> volumes s' = volumes s \<and> active_drive s' = active_drive s \<and>
    handles s' = (handles s)[nat h := f\<lparr>position := position f + of_nat n, current_cluster := c\<rparr>]"
proof -
  let ?s0 = "push_drive (f_drive f) s" and ?p = "unat (position f)"
  define count1 where "count1 = (if position f + count > f_size f then f_size f - position f else count)"
  have f: "get_handle h s = Some f" "fat_ok ?s0" "0 < spc ?s0" "fat_chain ?s0 (first_cluster f) cs"
    "\<forall>sec \<in> set (chain_sectors ?s0 cs). vread_ok ?s0 sec" "?p \<le> unat (f_size f)" "unat (f_size f) \<le> length cs * CB ?s0"
    using assms(1) by (simp_all add: open_file_def Let_def word_le_nat_alt)
  have n: "unat count1 = n"
    using assms(2) f(6) unat_plus_small [of "position f" count]
    by (auto simp: count1_def n_def word_less_nat_alt word_le_nat_alt unat_sub min_def)
  then have n': "of_nat n = count1" by (metis word_unat_inverse)
  have h: "handles s ! nat h = f" "nat h < length (handles s) \<Longrightarrow> (handles s)[nat h := f] = handles s"
    using f(1) list_update_id [of "handles s" "nat h"] by (auto simp: get_handle_def Let_def split: if_splits)
  show ?thesis
  proof (cases "count1 = 0")
    case True
    then have "fat_read h count s = (0, [], pop_drive ?s0)"
      using f(1) by (simp add: fat_read_def Let_def flip: count1_def)
    then show ?thesis
      using True n n' h list_update_id [of "handles s" "nat h"] pop_push_fields [of "f_drive f" s ?s0]
      by (intro exI [of _ "pop_drive ?s0"] exI [of _ "current_cluster f"]) (simp add: ret32_def)
  next
    case False
    have le: "?p + unat count1 \<le> length cs * CB ?s0" using n f(6,7) by (simp add: n_def)
    then have "?p div CB ?s0 \<le> length cs" using f(3) by (metis CB_def add_leD1 div_le_mono mult_pos_pos nonzero_mult_div_cancel_right less_not_refl zero_less_numeral)
    then obtain c s1 where w: "read_walk (?p div CB ?s0) (first_cluster f) ?s0 = (c, s1)" "buf_only ?s0 s1"
      "fat_chain ?s0 c (drop (?p div CB ?s0) cs)"
      using read_walk_spec [OF f(4) _ f(2)] by blast
    note v = buf_only_views [OF w(2)] file_bytes_buf [OF w(2)]
    let ?f1 = "f\<lparr>current_cluster := c\<rparr>"
    obtain f2 s2 where l: "read_loop count1 ?f1 [] s1 = (take n (drop ?p (file_bytes ?s0 cs)), f2, s2)"
      "buf_only s1 s2" "f2\<lparr>current_cluster := 0\<rparr> = ?f1\<lparr>position := position f + count1, current_cluster := 0\<rparr>"
    proof -
      have "\<exists>f' s'. read_loop count1 ?f1 [] s1 = ([] @ take (unat count1) (drop (unat (position ?f1)) (file_bytes s1 cs)), f', s') \<and>
         buf_only s1 s' \<and> f'\<lparr>current_cluster := 0\<rparr> = ?f1\<lparr>position := position ?f1 + count1, current_cluster := 0\<rparr>"
      proof (rule read_loop_spec)
        show "fat_chain s1 (current_cluster ?f1) (drop (unat (position ?f1) div CB s1) cs)"
          using w(3) v fat_chain_cong [of s1 ?s0] by simp
        show "unat (position ?f1) + unat count1 < 2 ^ 32" using assms(2) n by (simp add: n_def)
      qed (use f v le in simp_all)
      then show ?thesis using that n v by auto
    qed
    have f2: "f2 = f\<lparr>position := position f + count1, current_cluster := current_cluster f2\<rparr>"
      using arg_cong [OF l(3), of "\<lambda>g. g\<lparr>current_cluster := current_cluster f2\<rparr>"] by simp
    have len: "length (take n (drop ?p (file_bytes ?s0 cs))) = n"
      using le n length_file_bytes [of ?s0 cs] f(2) by (simp add: fat_ok_def)
    have "fat_read h count s = (ret32 (of_nat n), take n (drop ?p (file_bytes ?s0 cs)), pop_drive (put_handle h f2 s2))"
      using f(1) False w(1) l(1) len
      by (simp add: fat_read_def Let_def unat_div_u32 unat_cluster_bytes flip: count1_def)
    moreover have "pop_drive (put_handle h f2 s2) = (pop_drive s2)\<lparr>handles := (handles s2)[nat h := f2]\<rparr>"
      by (simp add: pop_drive_def put_handle_def)
    ultimately show ?thesis
      using pop_push_fields [OF buf_only_trans [OF w(2) l(2)]] buf_only_fields(4) [OF buf_only_trans [OF w(2) l(2)]] f2 n'
      by (intro exI [of _ "pop_drive (put_handle h f2 s2)"] exI [of _ "current_cluster f2"]) (auto simp: push_drive_def)
  qed
qed


section \<open>Splicing\<close>

lemma splice_nil [simp]: "splice L p [] = L"
  by (simp add: splice_def)

lemma length_splice: "p + length b \<le> length L \<Longrightarrow> length (splice L p b) = length L"
  by (simp add: splice_def)

lemma splice_splice:
  "p + length b1 + length b2 \<le> length L \<Longrightarrow> splice (splice L p b1) (p + length b1) b2 = splice L p (b1 @ b2)"
  by (simp add: splice_def ac_simps)

lemma splice_append:
  "p + length b \<le> length L \<Longrightarrow> splice (L @ M) p b = splice L p b @ M"
  by (simp add: splice_def)

lemma splice_append_right: "length M \<le> p \<Longrightarrow> splice (M @ L) p b = M @ splice L (p - length M) b"
  by (simp add: splice_def)

lemma take_drop_splice: "p + length b \<le> length L \<Longrightarrow> take (length b) (drop p (splice L p b)) = b"
  by (simp add: splice_def)

lemma concat_update_block:
  assumes "\<forall>x \<in> set xss. length x = L" "q < length xss" "r + length b \<le> L"
  shows "concat (xss[q := splice (xss ! q) r b]) = splice (concat xss) (q * L + r) b"
proof -
  let ?A = "concat (take q xss)" and ?Z = "concat (drop (Suc q) xss)"
  have A: "length ?A = q * L"
    using assms(1,2) length_concat_blocks [of "take q xss" L] by (auto dest: in_set_takeD)
  have xs: "concat xss = ?A @ xss ! q @ ?Z"
    using id_take_nth_drop [OF assms(2)] by (metis concat.simps(2) concat_append)
  have "concat (xss[q := y]) = ?A @ y @ ?Z" for y
    using assms(2) by (simp add: upd_conv_take_nth_drop)
  moreover have "splice (?A @ xss ! q @ ?Z) (q * L + r) b = ?A @ splice (xss ! q) r b @ ?Z"
    using assms A by (simp add: splice_append_right splice_append)
  ultimately show ?thesis unfolding xs by simp
qed

section \<open>Chains\<close>

lemma fat_chain_det: "fat_chain s c xs \<Longrightarrow> fat_chain s c ys \<Longrightarrow> xs = ys"
proof (induction xs arbitrary: c ys)
  case Nil
  then show ?case by (cases ys) auto
next
  case (Cons x xs)
  then show ?case by (cases ys) auto
qed

lemma fat_chain_drop: "fat_chain s c cs \<Longrightarrow> i < length cs \<Longrightarrow> fat_chain s (cs ! i) (drop i cs)"
proof (induction cs arbitrary: c i)
  case (Cons x cs)
  show ?case
  proof (cases i)
    case (Suc j)
    then show ?thesis using Cons.IH [of "fat_view s c" j] Cons.prems by simp
  qed (use Cons.prems in simp)
qed simp

lemma fat_chain_distinct: "fat_chain s c cs \<Longrightarrow> distinct cs"
proof -
  assume ch: "fat_chain s c cs"
  have "cs ! i \<noteq> cs ! j" if "i < j" "j < length cs" for i j
  proof
    assume "cs ! i = cs ! j"
    then have "drop i cs = drop j cs"
      using fat_chain_drop [OF ch, of i] fat_chain_drop [OF ch, of j] that fat_chain_det by (metis order_less_trans)
    then have "length cs - i = length cs - j" by (metis length_drop)
    then show False using that by linarith
  qed
  then show ?thesis by (metis distinct_conv_nth linorder_neqE_nat)
qed

lemma fat_chain_step:
  assumes "fat_chain s c cs" "i < length cs"
  shows "Suc i < length cs \<Longrightarrow> fat_view s (cs ! i) = cs ! Suc i \<and> \<not> is_eoc s (cs ! Suc i)"
    "Suc i = length cs \<Longrightarrow> is_eoc s (fat_view s (cs ! i))"
proof -
  have ch: "fat_chain s (fat_view s (cs ! i)) (drop (Suc i) cs)"
    using fat_chain_drop [OF assms] assms(2) by (simp add: Cons_nth_drop_Suc [symmetric])
  show "Suc i = length cs \<Longrightarrow> is_eoc s (fat_view s (cs ! i))" using ch by simp
  assume "Suc i < length cs"
  then show "fat_view s (cs ! i) = cs ! Suc i \<and> \<not> is_eoc s (cs ! Suc i)"
    using ch by (simp add: Cons_nth_drop_Suc [symmetric])
qed

text \<open>Linking a fresh cluster to the end of a chain.\<close>

lemma fat_chain_extend:
  assumes "fat_chain s c cs" "cs \<noteq> []" "x \<notin> set cs"
    "is_eoc s' = is_eoc s" "fits s' = fits s" "\<not> is_eoc s x" "2 \<le> x" "fits s x"
    "\<forall>d \<in> set cs. fat_view s' d = (if d = last cs then x else fat_view s d)" "is_eoc s (fat_view s' x)"
  shows "fat_chain s' c (cs @ [x])"
  using assms(1-3,9) fat_chain_distinct [OF assms(1)]
proof (induction cs arbitrary: c)
  case (Cons d cs)
  show ?case
  proof (cases "cs = []")
    case True
    then show ?thesis using Cons.prems assms(4-10) by simp
  next
    case False
    then have "d \<noteq> last cs" using Cons.prems by auto
    moreover have "fat_chain s' (fat_view s c) (cs @ [x])"
      using Cons.prems False by (intro Cons.IH) auto
    ultimately show ?thesis using Cons.prems False assms(4,5) by simp
  qed
qed simp

section \<open>Writing\<close>

text \<open>States with the same control data: they may differ in sector contents and buffers.\<close>

definition ctl_eq :: "fat_state \<Rightarrow> fat_state \<Rightarrow> bool" where
  "ctl_eq s s' \<longleftrightarrow> volumes s' = volumes s \<and> active_drive s' = active_drive s \<and> saved_drive s' = saved_drive s \<and>
     handles s' = handles s \<and> handles_initialized s' = handles_initialized s \<and> stack_buf s' = stack_buf s \<and>
     rd_err (dsk s') = rd_err (dsk s) \<and> wr_err (dsk s') = wr_err (dsk s) \<and>
     (\<forall>d. d \<noteq> vol_dev (vol s) \<longrightarrow> sectors (dsk s') d = sectors (dsk s) d)"

lemma ctl_views:
  assumes "ctl_eq s s'"
  shows "vol s' = vol s" "vread_ok s' = vread_ok s" "vwrite_ok s' = vwrite_ok s" "fat_sec s' = fat_sec s"
    "fits s' = fits s" "is_eoc s' = is_eoc s" "cluster_to_sector c s' = cluster_to_sector c s"
    "cluster_sectors c s' = cluster_sectors c s" "chain_sectors s' = chain_sectors s" "data_clusters s' = data_clusters s"
    "fat_region s' = fat_region s" "spc s' = spc s" "CB s' = CB s" "cluster_bytes s' = cluster_bytes s"
proof -
  show v: "vol s' = vol s" using assms by (simp add: ctl_eq_def vol_def)
  show "vread_ok s' = vread_ok s" "vwrite_ok s' = vwrite_ok s"
    using assms v by (simp_all add: ctl_eq_def vread_ok_def vwrite_ok_def fun_eq_iff)
  show fs: "fat_sec s' = fat_sec s" by (simp add: fat_sec_def v fun_eq_iff)
  show "fits s' = fits s" "is_eoc s' = is_eoc s" "data_clusters s' = data_clusters s" "fat_region s' = fat_region s"
    "spc s' = spc s" "CB s' = CB s" "cluster_bytes s' = cluster_bytes s"
    by (simp_all add: fits_def is_eoc_def data_clusters_def fat_region_def spc_def CB_def cluster_bytes_def v fs fun_eq_iff)
  show c: "cluster_to_sector c s' = cluster_to_sector c s" for c by (simp add: cluster_to_sector_def v)
  show cs: "cluster_sectors c s' = cluster_sectors c s" for c by (simp add: cluster_sectors_def v c)
  show "chain_sectors s' = chain_sectors s" by (simp add: chain_sectors_def cs fun_eq_iff)
qed

lemma ctl_refl [simp]: "ctl_eq s s"
  by (simp add: ctl_eq_def)

lemma ctl_trans: "ctl_eq s s1 \<Longrightarrow> ctl_eq s1 s2 \<Longrightarrow> ctl_eq s s2"
  using ctl_views(1) [of s s1] by (simp add: ctl_eq_def)

lemma fat_only_ctl: "fat_only s s' \<Longrightarrow> ctl_eq s s'"
  by (simp add: fat_only_def ctl_eq_def)

lemma buf_only_ctl: "buf_only s s' \<Longrightarrow> ctl_eq s s'"
  using buf_only_fields [of s s'] by (simp add: ctl_eq_def)

lemma ctl_geom: "ctl_eq s s' \<Longrightarrow> \<forall>a. length (vsec s' a) = 512 \<Longrightarrow> vol_geom s \<Longrightarrow> vol_geom s'"
  using ctl_views [of s s'] by (simp add: vol_geom_def fat_sized_def fat_ok_def)

text \<open>A file open for writing, by its first cluster and its chain.\<close>

definition wfile :: "fat_state \<Rightarrow> u32 \<Rightarrow> u32 list \<Rightarrow> bool" where
  "wfile s c0 cs \<longleftrightarrow> vol_geom s \<and> length (sector_buf s) = 512 \<and> fat_chain s c0 cs \<and> cs \<noteq> [] \<and>
     set cs \<subseteq> set (data_clusters s)"

text \<open>
  From \<open>s\<close> to \<open>s'\<close> the bytes \<open>b\<close> were stored at offset \<open>p\<close> of the chain \<open>cs\<close>, which was extended by the
  formerly free clusters \<open>new\<close>; nothing else on the volume changed.
\<close>

definition written :: "fat_state \<Rightarrow> fat_state \<Rightarrow> u32 \<Rightarrow> u32 list \<Rightarrow> u32 list \<Rightarrow> nat \<Rightarrow> u8 list \<Rightarrow> bool" where
  "written s s' c0 cs new p b \<longleftrightarrow>
     ctl_eq s s' \<and> (\<forall>a. length (vsec s' a) = 512) \<and> length (sector_buf s') = 512 \<and>
     fat_chain s' c0 (cs @ new) \<and> set new \<subseteq> free_clusters s \<and> free_clusters s' = free_clusters s - set new \<and>
     file_bytes s' (cs @ new) = splice (file_bytes s (cs @ new)) p b \<and>
     (\<forall>a. a \<notin> fat_region s \<longrightarrow> a \<notin> set (chain_sectors s (cs @ new)) \<longrightarrow> vsec s' a = vsec s a) \<and>
     (\<forall>x \<in> set (data_clusters s). x \<notin> set (cs @ new) \<longrightarrow> fat_view s' x = fat_view s x)"

lemma written_refl: "wfile s c0 cs \<Longrightarrow> written s s c0 cs [] p []"
  using vol_geomD(6) by (auto simp: written_def wfile_def)

lemma written_wfile: "wfile s c0 cs \<Longrightarrow> written s s' c0 cs new p b \<Longrightarrow> wfile s' c0 (cs @ new)"
  using ctl_views(10) [of s s'] ctl_geom [of s s'] by (auto simp: wfile_def written_def free_clusters_def)

lemma free_not_in_chain:
  assumes "fat_chain s c0 cs" "x \<in> free_clusters s" "fat_ok s"
  shows "x \<notin> set cs"
proof
  assume "x \<in> set cs"
  then obtain i where i: "i < length cs" "cs ! i = x" by (auto simp: in_set_conv_nth)
  have z: "fat_view s x = 0" using assms(2) by (simp add: free_clusters_def)
  have ne: "\<not> is_eoc s 0" using assms(3) by (auto simp: is_eoc_def fat_ok_def)
  show False
  proof (cases "Suc i < length cs")
    case True
    then have "fat_chain s 0 (drop (Suc i) cs)"
      using fat_chain_drop [OF assms(1) True] fat_chain_step(1) [OF assms(1) i(1) True] z i(2) by simp
    then show False using True by (simp add: Cons_nth_drop_Suc [symmetric])
  next
    case False
    then show False using fat_chain_step(2) [OF assms(1) i(1)] i z ne by simp
  qed
qed

lemma vol_geom_inj:
  "\<lbrakk>vol_geom s; c \<in> set (data_clusters s); d \<in> set (data_clusters s); k < spc s; l < spc s;
    cluster_to_sector c s + of_nat k = cluster_to_sector d s + of_nat l\<rbrakk> \<Longrightarrow> c = d \<and> k = l"
  by (simp add: vol_geom_def)

lemma sectors_disjoint:
  assumes "vol_geom s" "set cs \<subseteq> set (data_clusters s)" "x \<in> set (data_clusters s)" "x \<notin> set cs"
  shows "set (chain_sectors s cs) \<inter> set (cluster_sectors x s) = {}"
proof -
  have "a \<notin> set (cluster_sectors x s)" if cx: "c \<in> set cs" "a \<in> set (cluster_sectors c s)" for a c
  proof
    assume "a \<in> set (cluster_sectors x s)"
    then obtain k l where "k < spc s" "l < spc s" "cluster_to_sector c s + of_nat k = cluster_to_sector x s + of_nat l"
      using cx(2) by (auto simp: cluster_sectors_def spc_def)
    then have "c = x" using vol_geom_inj [OF assms(1)] cx(1) assms(2,3) by blast
    then show False using cx(1) assms(4) by simp
  qed
  then show ?thesis by (auto simp: chain_sectors_def)
qed

lemma file_bytes_append: "file_bytes s (cs @ ds) = file_bytes s cs @ file_bytes s ds"
  by (simp add: file_bytes_def chain_sectors_def)

lemma written_trans:
  assumes w: "wfile s c0 cs" and w1: "written s s1 c0 cs new1 p b1"
    and w2: "written s1 s2 c0 (cs @ new1) new2 (p + length b1) b2"
    and len: "p + length b1 \<le> length (cs @ new1) * CB s" "p + length b1 + length b2 \<le> length (cs @ new1 @ new2) * CB s"
  shows "written s s2 c0 cs (new1 @ new2) p (b1 @ b2)"
proof -
  have c1: "ctl_eq s s1" "ctl_eq s1 s2" using w1 w2 by (simp_all add: written_def)
  note v1 = ctl_views [OF c1(1)]
  have g: "vol_geom s" "set cs \<subseteq> set (data_clusters s)" using w by (simp_all add: wfile_def)
  have new: "set new1 \<subseteq> free_clusters s" "set new2 \<subseteq> free_clusters s - set new1"
    using w1 w2 by (auto simp: written_def)
  have dat: "set (cs @ new1) \<subseteq> set (data_clusters s)" "set new2 \<subseteq> set (data_clusters s)"
    using g new by (auto simp: free_clusters_def)
  have nin: "x \<notin> set (cs @ new1)" if "x \<in> set new2" for x
    using that new free_not_in_chain [of s c0 cs x] w vol_geomD(2) [OF g(1)] by (auto simp: wfile_def)
  have same: "vsec s1 a = vsec s a" if "x \<in> set new2" "a \<in> set (cluster_sectors x s)" for x a
    using sectors_disjoint [OF g(1) dat(1), of x] nin [OF that(1)] that dat(2) vol_geomD(5) [OF g(1), of x a] w1
    unfolding written_def by blast
  then have "map (vsec s1) (chain_sectors s new2) = map (vsec s) (chain_sectors s new2)"
    by (auto simp: chain_sectors_def)
  then have fb2: "file_bytes s1 new2 = file_bytes s new2" unfolding file_bytes_def v1(9) by (rule arg_cong)
  have fb: "file_bytes s1 (cs @ new1 @ new2) = splice (file_bytes s (cs @ new1 @ new2)) p b1"
    using w1 fb2 len(1) length_file_bytes [OF vol_geomD(6) [OF g(1)], of "cs @ new1"]
      file_bytes_append [of _ "cs @ new1" new2] splice_append [of p b1 "file_bytes s (cs @ new1)" "file_bytes s new2"]
    by (simp add: written_def)
  have "file_bytes s2 (cs @ new1 @ new2) = splice (splice (file_bytes s (cs @ new1 @ new2)) p b1) (p + length b1) b2"
    using w2 fb by (simp add: written_def)
  also have "\<dots> = splice (file_bytes s (cs @ new1 @ new2)) p (b1 @ b2)"
    using len(2) length_file_bytes [OF vol_geomD(6) [OF g(1)]] by (intro splice_splice) simp
  finally have "file_bytes s2 (cs @ new1 @ new2) = splice (file_bytes s (cs @ new1 @ new2)) p (b1 @ b2)" .
  moreover have "vsec s2 a = vsec s a" if "a \<notin> fat_region s" "a \<notin> set (chain_sectors s (cs @ new1 @ new2))" for a
    using that w1 w2 v1 by (simp add: written_def chain_sectors_def)
  moreover have "fat_view s2 x = fat_view s x" if "x \<in> set (data_clusters s)" "x \<notin> set (cs @ new1 @ new2)" for x
    using that w1 w2 v1 by (simp add: written_def)
  ultimately show ?thesis
    using w1 w2 new ctl_trans [OF c1] by (auto simp: written_def)
qed

lemma fat_view_outside:
  assumes "ctl_eq s s'" "fat_ok s" "fits s c" "\<forall>a \<in> fat_region s. vsec s' a = vsec s a"
  shows "fat_view s' c = fat_view s c"
  unfolding fat_view_def ctl_views(1) [OF assms(1)]
proof (rule entry_get_cong)
  fix k assume "k < entry_end (fat_type (vol s)) (unat c)"
  then have "fat_sec s 0 (k div 512) \<in> fat_region s"
    using fits_range [OF assms(3)] fat_ok_copy [OF assms(2)] by (auto simp: fat_region_def)
  then show "fimg s' 0 k = fimg s 0 k" using assms(4) by (simp add: fimg_def ctl_views [OF assms(1)])
qed

lemma fat_chain_view:
  "\<forall>x. fits s x \<longrightarrow> fat_view s' x = fat_view s x \<Longrightarrow> fits s' = fits s \<Longrightarrow> is_eoc s' = is_eoc s \<Longrightarrow>
     fat_chain s' c cs = fat_chain s c cs"
  by (induction cs arbitrary: c) auto

text \<open>One sector of the file rewritten.\<close>

lemma written_sector:
  assumes w: "wfile s c0 cs" and p: "p < length cs * CB s" and b: "p mod 512 + length b \<le> 512"
  defines "sec \<equiv> chain_sectors s cs ! (p div 512)"
  defines "buf \<equiv> splice (vsec s sec) (p mod 512) b"
  defines "s' \<equiv> snd (write_sector sec buf (s\<lparr>sector_buf := buf\<rparr>))"
  shows "written s s' c0 cs [] p b"
proof -
  have g: "vol_geom s" "fat_chain s c0 cs" "set cs \<subseteq> set (data_clusters s)" using w by (simp_all add: wfile_def)
  note len = vol_geomD(6) [OF g(1)]
  note cb = chain_sector_of_byte [OF vol_geomD(3) [OF g(1)] p]
  have sec: "sec \<in> set (chain_sectors s cs)" using cb(1) by (simp add: sec_def)
  then have io: "sec \<notin> fat_region s" "vwrite_ok s sec"
    using vol_geomD(5) [OF g(1)] g(3) by (auto simp: chain_sectors_def)
  have vs: "vsec s' = (vsec s)(sec := buf)" using io by (simp add: s'_def vsec_write_sector)
  have ctl: "ctl_eq s s'"
    by (simp add: s'_def ctl_eq_def) (simp add: write_sector_def Let_def)
  note v = ctl_views [OF ctl]
  have view: "fat_view s' x = fat_view s x" if "fits s x" for x
    using fat_view_outside [OF ctl vol_geomD(2) [OF g(1)] that] io vs by auto
  have ch: "fat_chain s' c0 cs" using fat_chain_view [of s s' c0 cs] view v g(2) by simp
  have lb: "length buf = 512" using len b by (simp add: buf_def length_splice)
  have "map (vsec s') (chain_sectors s cs) = (map (vsec s) (chain_sectors s cs))[p div 512 := buf]"
    using distinct_chain_sectors [OF g(1) fat_chain_distinct [OF g(2)] g(3)] cb(1)
    by (auto simp: vs sec_def list_eq_iff_nth_eq nth_list_update nth_eq_iff_index_eq)
  then have "file_bytes s' cs = splice (file_bytes s cs) (p div 512 * 512 + p mod 512) b"
    using concat_update_block [of "map (vsec s) (chain_sectors s cs)" 512 "p div 512" "p mod 512" b] cb(1) len b
    by (simp add: file_bytes_def v buf_def sec_def)
  then have "file_bytes s' cs = splice (file_bytes s cs) p b" by simp
  moreover have "free_clusters s' = free_clusters s"
    using view sized_fits [OF vol_geomD(1) [OF g(1)]] by (auto simp: free_clusters_def v)
  ultimately show ?thesis
    using ctl ch len lb vs sec view sized_fits [OF vol_geomD(1) [OF g(1)]]
    by (auto simp: written_def) (simp add: s'_def lb)
qed

text \<open>Table updates that extend the chain by free clusters.\<close>

lemma written_fat_only:
  assumes w: "wfile s c0 cs" and o: "fat_only s s'" and ch: "fat_chain s' c0 (cs @ new)"
    and new: "set new \<subseteq> free_clusters s" "free_clusters s' = free_clusters s - set new"
    and view: "\<forall>x \<in> set (data_clusters s). x \<notin> set (cs @ new) \<longrightarrow> fat_view s' x = fat_view s x"
  shows "written s s' c0 cs new p []"
proof -
  have g: "vol_geom s" "set cs \<subseteq> set (data_clusters s)" "length (sector_buf s) = 512" using w by (simp_all add: wfile_def)
  have same: "vsec s' a = vsec s a" if "a \<notin> fat_region s" for a using o that by (simp add: fat_only_def)
  have "set (cs @ new) \<subseteq> set (data_clusters s)" using g(2) new(1) by (auto simp: free_clusters_def)
  then have "\<forall>a \<in> set (chain_sectors s (cs @ new)). a \<notin> fat_region s"
    using vol_geomD(5) [OF g(1)] by (fastforce simp: chain_sectors_def)
  then have "map (vsec s') (chain_sectors s (cs @ new)) = map (vsec s) (chain_sectors s (cs @ new))"
    using same by simp
  then have "file_bytes s' (cs @ new) = file_bytes s (cs @ new)"
    unfolding file_bytes_def ctl_views(9) [OF fat_only_ctl [OF o]] by (rule arg_cong)
  then show ?thesis
    using fat_only_ctl [OF o] ch new view same g(3) o vol_geomD(6) [OF g(1)]
    by (simp add: written_def fat_only_def)
qed

lemma written_nil: "written s s' c0 cs new p [] \<Longrightarrow> written s s' c0 cs new q []"
  by (simp add: written_def)

lemma first_free_None: "first_free s = None \<longleftrightarrow> free_clusters s = {}"
  by (auto simp: first_free_def free_clusters_def find_None_iff)

text \<open>Stepping to the next cluster, extending the chain at its end.\<close>

lemma alloc_link:
  assumes w: "wfile s c0 cs" and nw: "first_free s = Some nw"
    and s1: "fat_alloc_cluster s = (nw, s1)" "fat_only s s1" "fat_sized s1"
    and v1: "\<And>c. fits s c \<Longrightarrow> fat_view s1 c =
       (if first_free s = Some c then eoc_mark s AND entry_mask (fat_type (vol s)) else fat_view s c)"
  shows "written s (fat_write_entry (last cs) nw s1) c0 cs [nw] p []"
proof -
  have g: "vol_geom s" "fat_ok s" "fat_chain s c0 cs" "cs \<noteq> []" "set cs \<subseteq> set (data_clusters s)"
    using w vol_geomD(2) by (auto simp: wfile_def)
  note fits = sized_fits [OF vol_geomD(1) [OF g(1)]]
  have nf: "nw \<in> free_clusters s" using first_free_SomeD [OF vol_geomD(1) [OF g(1)] nw] by (simp add: free_clusters_def)
  then have nd: "nw \<in> set (data_clusters s)" "nw \<notin> set cs"
    using free_not_in_chain [OF g(3) nf g(2)] by (simp_all add: free_clusters_def)
  have lst: "last cs \<in> set (data_clusters s)" "last cs \<noteq> nw" using g(4,5) nd(2) by auto
  note gn = vol_geomD(4) [OF g(1) nd(1)]
  let ?s2 = "fat_write_entry (last cs) nw s1"
  have fits1: "fits s1 c = fits s c" for c using fat_only_views(5) [OF s1(2)] by simp
  have o: "fat_only s ?s2"
    using fat_only_trans [OF s1(2) fat_write_entry_spec(1)] s1(3) fits [OF lst(1)] fits1 by (simp add: fat_sized_def)
  have view: "fat_view ?s2 x = (if x = last cs then nw else if x = nw
      then eoc_mark s AND entry_mask (fat_type (vol s)) else fat_view s x)" if "fits s x" for x
    using fat_view_write [of s1 "last cs" x nw] s1(3) fits [OF lst(1)] that v1 [OF that] nw gn
    by (auto simp: fat_sized_def fits1 fat_only_vol [OF s1(2)])
  note ov = fat_only_views [OF o]
  have "fat_chain ?s2 c0 (cs @ [nw])"
    using g(3-5) nd(2) ov gn view fits eoc_mark_is_eoc [OF g(2)] lst
    by (intro fat_chain_extend [of s]) auto
  moreover have "fat_view s (last cs) \<noteq> 0"
    using free_not_in_chain [OF g(3) _ g(2), of "last cs"] lst(1) last_in_set [OF g(4)]
    by (auto simp: free_clusters_def)
  then have "free_clusters ?s2 = free_clusters s - {nw}"
    using view fits gn lst(1) eoc_mark_is_eoc [OF g(2)] by (auto simp: free_clusters_def ov split: if_splits)
  ultimately show ?thesis
    using nf view fits g(4) by (intro written_fat_only [OF w o]) auto
qed

lemma next_or_alloc_spec:
  assumes w: "wfile s c0 cs" and i: "i < length cs"
  shows "\<exists>r new s'. next_or_alloc (cs ! i) s = (r, s') \<and> written s s' c0 cs new p [] \<and>
    (case r of Some c \<Rightarrow> Suc i < length (cs @ new) \<and> c = (cs @ new) ! Suc i
     | None \<Rightarrow> new = [] \<and> free_clusters s' = {}) \<and> length (cs @ new) \<le> max (length cs) (i + 2)"
proof -
  have g: "vol_geom s" "fat_ok s" "fat_chain s c0 cs" "set cs \<subseteq> set (data_clusters s)"
    using w vol_geomD(2) by (auto simp: wfile_def)
  have fi: "fits s (cs ! i)" using sized_fits [OF vol_geomD(1) [OF g(1)]] g(4) i by (auto dest: nth_mem)
  let ?s1 = "s\<lparr>fat_buf := vsec s (entry_sec s 0 (cs ! i))\<rparr>"
  have rd: "fat_read_entry (cs ! i) s = (fat_view s (cs ! i), ?s1)" by (rule fat_read_entry_eq [OF g(2) fi])
  have b1: "buf_only s ?s1" by simp
  note v1 = buf_only_views [OF b1]
  have free1: "free_clusters ?s1 = free_clusters s" "first_free ?s1 = first_free s"
    by (simp_all add: free_clusters_def first_free_def)
  have ch1: "fat_chain ?s1 c xs = fat_chain s c xs" for c xs using fat_chain_cong [of ?s1 s] v1 by simp
  have w1: "written s ?s1 c0 cs [] p []"
    using w g free1 ch1 by (intro written_fat_only) auto
  have wf1: "wfile ?s1 c0 cs" using written_wfile [OF w w1] by simp
  show ?thesis
  proof (cases "Suc i < length cs")
    case True
    then have "next_or_alloc (cs ! i) s = (Some (cs ! Suc i), ?s1)"
      using fat_chain_step(1) [OF g(3) i True] by (simp add: next_or_alloc_def rd)
    then show ?thesis using w1 True by (intro exI [of _ "Some (cs ! Suc i)"] exI [of _ "[]"] exI [of _ ?s1]) simp
  next
    case False
    then have last: "Suc i = length cs" "cs ! i = last cs" using i by (cases cs rule: rev_cases; simp add: nth_append)+
    have eoc: "is_eoc s (fat_view s (cs ! i))" using fat_chain_step(2) [OF g(3) i] last by simp
    have sz1: "fat_sized ?s1" using v1 vol_geomD(1) [OF g(1)] by simp
    obtain s2 where s2: "fat_alloc_cluster ?s1 = (case first_free ?s1 of None \<Rightarrow> 0 | Some c \<Rightarrow> c, s2)"
      "fat_only ?s1 s2" "fat_sized s2"
      "\<And>c. fits ?s1 c \<Longrightarrow> fat_view s2 c =
         (if first_free ?s1 = Some c then eoc_mark ?s1 AND entry_mask (fat_type (vol ?s1)) else fat_view ?s1 c)"
      using fat_alloc_cluster_result [OF sz1] by blast
    show ?thesis
    proof (cases "first_free s")
      case None
      have o: "fat_only s s2" using fat_only_trans [OF _ s2(2), of s] by simp
      have view: "fat_view s2 c = fat_view s c" if "fits s c" for c using s2(4) [of c] that None by (simp add: free1)
      have fr: "free_clusters s2 = free_clusters s"
        using view sized_fits [OF vol_geomD(1) [OF g(1)]] by (auto simp: free_clusters_def fat_only_views [OF o])
      have "written s s2 c0 cs [] p []"
        using fat_chain_view [of s s2] view g(3) fat_only_views [OF o] fr sized_fits [OF vol_geomD(1) [OF g(1)]]
        by (intro written_fat_only [OF w o]) auto
      moreover have "next_or_alloc (cs ! i) s = (None, s2)"
        using eoc None s2(1) by (simp add: next_or_alloc_def rd free1)
      ultimately show ?thesis using fr None first_free_None [of s]
        by (intro exI [of _ None] exI [of _ "[]"] exI [of _ s2]) simp
    next
      case (Some nw)
      have nz: "nw \<noteq> 0"
        using first_free_SomeD [OF vol_geomD(1) [OF g(1)] Some] vol_geomD(4) [OF g(1), of nw] by auto
      have w2: "written ?s1 (fat_write_entry (last cs) nw s2) c0 (cs @ []) [nw] (0 + length []) []"
        using Some s2 free1 wf1 by (simp, intro alloc_link [OF wf1 _ _ s2(2,3)]) auto
      have "written s (fat_write_entry (last cs) nw s2) c0 cs ([] @ [nw]) 0 ([] @ [])"
        by (rule written_trans [OF w written_nil [OF w1] w2]) simp_all
      then have "written s (fat_write_entry (last cs) nw s2) c0 cs [nw] p []"
        using written_nil by fastforce
      moreover have "next_or_alloc (cs ! i) s = (Some nw, fat_write_entry (last cs) nw s2)"
        using eoc Some s2(1) nz by (simp add: next_or_alloc_def rd free1 flip: last(2))
      moreover have "(cs @ [nw]) ! Suc i = nw" using last(1) by (simp add: nth_append)
      ultimately show ?thesis using last
        by (intro exI [of _ "Some nw"] exI [of _ "[nw]"] exI [of _ "fat_write_entry (last cs) nw s2"]) simp
    qed
  qed
qed

text \<open>Walking to the cluster of a position at most one past the end of the chain.\<close>

lemma write_walk_spec:
  assumes "wfile s c0 cs" "i < length cs" "i + n \<le> length cs"
  shows "\<exists>r new s'. write_walk n (cs ! i) s = (r, s') \<and> written s s' c0 cs new p [] \<and>
    (case r of Some c \<Rightarrow> i + n < length (cs @ new) \<and> c = (cs @ new) ! (i + n)
     | None \<Rightarrow> new = [] \<and> free_clusters s' = {})"
  using assms
proof (induction n arbitrary: s i)
  case 0
  then show ?case using written_refl by (intro exI [of _ "Some (cs ! i)"] exI [of _ "[]"] exI [of _ s]) simp
next
  case (Suc n)
  obtain r new s1 where r: "next_or_alloc (cs ! i) s = (r, s1)" "written s s1 c0 cs new p []"
    "case r of Some c \<Rightarrow> Suc i < length (cs @ new) \<and> c = (cs @ new) ! Suc i | None \<Rightarrow> new = [] \<and> free_clusters s1 = {}"
    "length (cs @ new) \<le> max (length cs) (i + 2)"
    using next_or_alloc_spec [OF Suc.prems(1,2)] by blast
  show ?case
  proof (cases r)
    case None
    then show ?thesis using r by (intro exI [of _ None] exI [of _ "[]"] exI [of _ s1]) simp
  next
    case (Some c)
    note w1 = written_wfile [OF Suc.prems(1) r(2)]
    show ?thesis
    proof (cases "Suc i < length cs")
      case True
      then have new: "new = []" using r(4) by simp
      then obtain r2 new2 s2 where i: "write_walk n (cs ! Suc i) s1 = (r2, s2)" "written s1 s2 c0 cs new2 p []"
        "case r2 of Some c \<Rightarrow> Suc i + n < length (cs @ new2) \<and> c = (cs @ new2) ! (Suc i + n) | None \<Rightarrow> new2 = [] \<and> free_clusters s2 = {}"
        using Suc.IH [of s1 "Suc i"] w1 True Suc.prems(3) by auto
      have "written s s2 c0 cs ([] @ new2) 0 ([] @ [])"
        using written_nil [OF r(2)] written_nil [OF i(2)] new
        by (intro written_trans [OF Suc.prems(1)]) auto
      then have "written s s2 c0 cs new2 p []" using written_nil by fastforce
      then show ?thesis using Some r(1,3) i(1,3) new
        by (intro exI [of _ r2] exI [of _ new2] exI [of _ s2]) (simp split: option.splits)
    next
      case False
      then have "n = 0" using Suc.prems by simp
      then show ?thesis using Some r(1-3) by (intro exI [of _ "Some c"] exI [of _ new] exI [of _ s1]) simp
    qed
  qed
qed

lemma splice_full: "length buf = length L \<Longrightarrow> length b = length L \<Longrightarrow> splice buf 0 b = splice L 0 b"
  by (simp add: splice_def)

definition file_after :: "nat \<Rightarrow> fat_file \<Rightarrow> fat_file \<Rightarrow> bool" where
  "file_after n f f' \<longleftrightarrow>
     f' = f\<lparr>position := position f + of_nat n, f_size := max (f_size f) (position f + of_nat n),
            current_cluster := current_cluster f'\<rparr>"

text \<open>One round of the copy loop: the sector is rewritten and the file advanced.\<close>

lemma write_round:
  assumes w: "wfile s c0 cs" and lft: "lft \<noteq> 0" "length data = unat lft"
    and p: "unat (position f) < length cs * CB s"
    and cur: "current_cluster f = cs ! (unat (position f) div CB s)"
  defines "n \<equiv> chunk_len (position f mod cluster_bytes s mod 512) lft"
  obtains s1 where "written s s1 c0 cs [] (unat (position f)) (take (unat n) data)"
    "unat n = min (512 - unat (position f) mod 512) (unat lft)"
    "write_loop lft data wr f s =
       (if position (advance n f) mod cluster_bytes s1 = 0 \<and> lft - n \<noteq> 0 then
          (case next_or_alloc (current_cluster f) s1 of
             (None, s3) \<Rightarrow> (wr + n, advance n f, s3)
           | (Some c, s3) \<Rightarrow> write_loop (lft - n) (drop (unat n) data) (wr + n) ((advance n f)\<lparr>current_cluster := c\<rparr>) s3)
        else write_loop (lft - n) (drop (unat n) data) (wr + n) (advance n f) s1)"
proof -
  let ?p = "unat (position f)" and ?b = "position f mod cluster_bytes s mod 512"
  have g: "vol_geom s" "set cs \<subseteq> set (data_clusters s)" "length (sector_buf s) = 512" using w by (simp_all add: wfile_def)
  note cb = chain_sector_of_byte [OF vol_geomD(3) [OF g(1)] p] and bp = byte_position [of "position f" s]
  let ?sec = "chain_sectors s cs ! (?p div 512)"
  have sec: "cluster_to_sector (current_cluster f) s + position f mod cluster_bytes s div 512 = ?sec"
    unfolding cb(3) bp(2) cur ..
  have io: "vread_ok s ?sec" "vwrite_ok s ?sec"
    using vol_geomD(5) [OF g(1)] g(2) nth_mem [OF cb(1)] by (auto simp: chain_sectors_def)
  have un: "unat n = min (512 - ?p mod 512) (unat lft)" unfolding n_def by (subst unat_chunk_len) (simp_all add: bp(1))
  define buf where "buf = splice (vsec s ?sec) (?p mod 512) (take (unat n) data)"
  have buf: "splice (if ?b \<noteq> 0 \<or> lft < 512 then vsec s ?sec else sector_buf s) (unat ?b) (take (unat n) data) = buf"
  proof (cases "?b \<noteq> 0 \<or> lft < 512")
    case True
    then show ?thesis by (simp add: buf_def bp(1))
  next
    case False
    then have z: "?p mod 512 = 0" "512 \<le> unat lft" using bp(1) by (simp_all add: not_less word_le_nat_alt)
    then have "length (take (unat n) data) = 512" using un lft(2) by simp
    then show ?thesis
      using False z(1) splice_full [of "sector_buf s" "vsec s ?sec" "take (unat n) data"] g(3) vol_geomD(6) [OF g(1)]
      by (simp add: buf_def)
  qed
  define s1 where "s1 = snd (write_sector ?sec buf (s\<lparr>sector_buf := buf\<rparr>))"
  have wr: "write_sector ?sec buf (s\<lparr>sector_buf := buf\<rparr>) = (True, s1)"
    using io by (simp add: prod_eq_iff s1_def)
  have rd: "(if ?b \<noteq> 0 \<or> lft < 512 then read_sector ?sec (sector_buf s) s else (True, sector_buf s)) =
      (True, if ?b \<noteq> 0 \<or> lft < 512 then vsec s ?sec else sector_buf s)" using io by simp
  show ?thesis
  proof (rule that)
    show "written s s1 c0 cs [] ?p (take (unat n) data)"
    proof -
      have "?p mod 512 < 512" "length (take (unat n) data) \<le> 512 - ?p mod 512" using un by simp_all
      then have "?p mod 512 + length (take (unat n) data) \<le> 512" by linarith
      then show ?thesis unfolding s1_def buf_def by (rule written_sector [OF w p])
    qed
    show "write_loop lft data wr f s =
       (if position (advance n f) mod cluster_bytes s1 = 0 \<and> lft - n \<noteq> 0 then
          (case next_or_alloc (current_cluster f) s1 of
             (None, s3) \<Rightarrow> (wr + n, advance n f, s3)
           | (Some c, s3) \<Rightarrow> write_loop (lft - n) (drop (unat n) data) (wr + n) ((advance n f)\<lparr>current_cluster := c\<rparr>) s3)
        else write_loop (lft - n) (drop (unat n) data) (wr + n) (advance n f) s1)"
      unfolding write_loop.simps [of lft data wr f s] Let_def sec rd prod.case buf n_def [symmetric] wr
      using lft(1) by (simp add: advance_def Let_def)
  qed (rule un)
qed

lemma file_after_advance: "unat n = m \<Longrightarrow> file_after m f ((advance n f)\<lparr>current_cluster := c\<rparr>) \<and> file_after m f (advance n f)"
  by (auto simp: file_after_def advance_def Let_def max_def)

lemma file_after_trans:
  assumes "file_after m f f1" "file_after n f1 f2" "unat (position f) + m + n < 2 ^ 32"
  shows "file_after (m + n) f f2"
proof -
  have mn: "unat (of_nat m :: u32) = m" "unat (of_nat n :: u32) = n"
    "unat (of_nat m + of_nat n :: u32) = m + n"
    using assms(3) by (simp_all add: unat_of_nat_u32 flip: of_nat_add)
  then have "unat (position f + of_nat m) \<le> unat (position f + of_nat m + of_nat n)"
    using assms(3) unat_plus_small [of "position f" "of_nat m"] unat_plus_small [of "position f" "of_nat m + of_nat n"]
    by (simp add: add.assoc)
  then have "position f + of_nat m \<le> position f + of_nat m + of_nat n" by (simp add: word_le_nat_alt)
  then have m: "max (max sz (position f + of_nat m)) (position f + of_nat m + of_nat n) = max sz (position f + of_nat m + of_nat n)" for sz
    by (simp add: max.assoc max.absorb2)
  show ?thesis
    using assms(1,2) m by (cases f; cases f1; cases f2) (simp add: file_after_def add.assoc)
qed

lemma write_loop_spec:
  assumes "wfile s c0 cs" "length data = unat lft" "unat (position f) + unat lft < 2 ^ 32"
    "lft = 0 \<or> unat (position f) < length cs * CB s \<and> current_cluster f = cs ! (unat (position f) div CB s)"
    "unat (position f) \<le> length cs * CB s" "position f \<le> f_size f"
  shows "\<exists>new n f' s'. write_loop lft data wr f s = (wr + of_nat n, f', s') \<and> n \<le> unat lft \<and>
    written s s' c0 cs new (unat (position f)) (take n data) \<and> (n < unat lft \<longrightarrow> free_clusters s' = {}) \<and>
    file_after n f f' \<and> unat (position f) + n \<le> length (cs @ new) * CB s"
  using assms
proof (induction "unat lft" arbitrary: lft data wr f s cs rule: less_induct)
  case less
  let ?p = "unat (position f)"
  show ?case
  proof (cases "lft = 0")
    case True
    then show ?thesis using less.prems written_refl [OF less.prems(1)]
      by (intro exI [of _ "[]"] exI [of _ 0] exI [of _ f] exI [of _ s])
        (simp add: write_loop.simps [of 0] file_after_def max_def)
  next
    case False
    then have p: "?p < length cs * CB s" and cur: "current_cluster f = cs ! (?p div CB s)"
      using less.prems(4) by auto
    define n where "n = chunk_len (position f mod cluster_bytes s mod 512) lft"
    obtain s1 where s1: "written s s1 c0 cs [] ?p (take (unat n) data)"
      "unat n = min (512 - ?p mod 512) (unat lft)"
      "write_loop lft data wr f s =
       (if position (advance n f) mod cluster_bytes s1 = 0 \<and> lft - n \<noteq> 0 then
          (case next_or_alloc (current_cluster f) s1 of
             (None, s3) \<Rightarrow> (wr + n, advance n f, s3)
           | (Some c, s3) \<Rightarrow> write_loop (lft - n) (drop (unat n) data) (wr + n) ((advance n f)\<lparr>current_cluster := c\<rparr>) s3)
        else write_loop (lft - n) (drop (unat n) data) (wr + n) (advance n f) s1)"
      using write_round [OF less.prems(1) False less.prems(2) p cur] unfolding n_def by blast
    have nle: "unat n \<le> unat lft" "0 < unat n" "unat n \<le> 512 - ?p mod 512"
      using False s1(2) by (simp_all add: unat_gt_0)
    have left: "unat (lft - n) = unat lft - unat n" using nle by (simp add: unat_sub word_le_nat_alt)
    have pos: "unat (position f + n) = ?p + unat n" using nle less.prems(3) by (intro unat_plus_small) simp
    have apos: "position (advance n f) = position f + n" by (simp add: advance_def Let_def)
    note v1 = ctl_views [OF s1(1) [unfolded written_def, THEN conjunct1]]
    have w1: "wfile s1 c0 cs" using written_wfile [OF less.prems(1) s1(1)] by simp
    have len1: "length (take (unat n) data) = unat n" using nle less.prems(2) by simp
    have sp: "0 < spc s" using less.prems(1) vol_geomD(3) by (auto simp: wfile_def)
    note dv = chunk_in_cluster [OF sp nle(3,2)]
    have q: "?p div CB s < length cs" using p sp by (simp add: CB_def div_less_iff_less_mult)
    have le1: "?p + unat n \<le> length cs * CB s"
    proof (cases "(?p + unat n) mod CB s = 0")
      case True
      then have "?p + unat n = Suc (?p div CB s) * CB s" using dv div_mult_mod_eq [of "?p + unat n" "CB s"] by simp
      then show ?thesis using q by (metis Suc_leI mult_le_mono1)
    next
      case f: False
      then have "(?p + unat n) div CB s < length cs" using dv q by simp
      then show ?thesis using sp by (simp add: CB_def div_less_iff_less_mult)
    qed
    have asz: "position f + n \<le> f_size (advance n f)" by (simp add: advance_def Let_def not_less)
    have fin: ?thesis if step: "written s1 s2 c0 cs new0 (?p + unat n) []"
      and rest: "wfile s2 c0 (cs @ new0)"
        "lft - n = 0 \<or> ?p + unat n < length (cs @ new0) * CB s \<and> c = (cs @ new0) ! ((?p + unat n) div CB s)"
      and eq: "write_loop lft data wr f s = write_loop (lft - n) (drop (unat n) data) (wr + n) ((advance n f)\<lparr>current_cluster := c\<rparr>) s2"
      for s2 new0 c
    proof -
      let ?f1 = "(advance n f)\<lparr>current_cluster := c\<rparr>"
      have v2: "CB s2 = CB s" using step v1 ctl_views(13) [of s1 s2] by (simp add: written_def)
      have "\<exists>new m f' s'. write_loop (lft - n) (drop (unat n) data) (wr + n) ?f1 s2 = (wr + n + of_nat m, f', s') \<and>
          m \<le> unat (lft - n) \<and> written s2 s' c0 (cs @ new0) new (unat (position ?f1)) (take m (drop (unat n) data)) \<and>
          (m < unat (lft - n) \<longrightarrow> free_clusters s' = {}) \<and> file_after m ?f1 f' \<and>
          unat (position ?f1) + m \<le> length ((cs @ new0) @ new) * CB s2"
        using less.prems(2,3) nle left pos apos rest v2 le1 asz by (intro less.hyps) (auto simp: add_mult_distrib)
      then obtain new m f' s' where l: "write_loop (lft - n) (drop (unat n) data) (wr + n) ?f1 s2 = (wr + n + of_nat m, f', s')"
          "m \<le> unat (lft - n)" "written s2 s' c0 (cs @ new0) new (?p + unat n) (take m (drop (unat n) data))"
          "m < unat (lft - n) \<longrightarrow> free_clusters s' = {}" "file_after m ?f1 f'"
          "?p + unat n + m \<le> length (cs @ new0 @ new) * CB s"
        using pos apos v2 by auto
      have t2: "written s s2 c0 cs ([] @ new0) ?p (take (unat n) data @ [])"
        using s1(1) step len1 le1 by (intro written_trans [OF less.prems(1)]) (auto simp: add_mult_distrib)
      have t3: "written s s' c0 cs (new0 @ new) ?p (take (unat n) data @ take m (drop (unat n) data))"
        using t2 l(3,6) len1 le1 by (intro written_trans [OF less.prems(1)]) (auto simp: add_mult_distrib)
      have "take (unat n) data @ take m (drop (unat n) data) = take (unat n + m) data" by (simp add: take_add)
      moreover have "file_after (unat n + m) f f'"
        using file_after_trans [OF conjunct1 [OF file_after_advance [OF refl]] l(5)] less.prems(3) l(2) left nle by simp
      moreover have "of_nat (unat n + m) = n + of_nat m" by simp
      ultimately show ?thesis
        using eq l t3 left nle(1) by (intro exI [of _ "new0 @ new"] exI [of _ "unat n + m"] exI [of _ f'] exI [of _ s'])
          (simp add: add.assoc)
    qed
    show ?thesis
    proof (cases "(?p + unat n) mod CB s = 0 \<and> lft - n \<noteq> 0")
      case True
      then have c: "position (advance n f) mod cluster_bytes s1 = 0 \<and> lft - n \<noteq> 0"
        using byte_position(3) [of "position f + n" s] pos apos v1 by simp
      obtain r new0 s2 where r: "next_or_alloc (cs ! (?p div CB s)) s1 = (r, s2)" "written s1 s2 c0 cs new0 (?p + unat n) []"
        "case r of Some c \<Rightarrow> Suc (?p div CB s) < length (cs @ new0) \<and> c = (cs @ new0) ! Suc (?p div CB s)
         | None \<Rightarrow> new0 = [] \<and> free_clusters s2 = {}"
        using next_or_alloc_spec [OF w1 q] by blast
      show ?thesis
      proof (cases r)
        case None
        have "written s s2 c0 cs ([] @ []) ?p (take (unat n) data @ [])"
          using s1(1) r(2,3) None len1 le1 by (intro written_trans [OF less.prems(1)]) auto
        then show ?thesis
          using s1(3) c r(1,3) None cur le1 nle(1) conjunct2 [OF file_after_advance [OF refl]]
          by (intro exI [of _ "[]"] exI [of _ "unat n"] exI [of _ "advance n f"] exI [of _ s2]) simp
      next
        case (Some c)
        have "Suc (?p div CB s) * CB s < length (cs @ new0) * CB s"
          using r(3) Some sp by (simp add: CB_def del: mult_Suc)
        moreover have "?p + unat n = Suc (?p div CB s) * CB s"
          using True dv div_mult_mod_eq [of "?p + unat n" "CB s"] by simp
        ultimately show ?thesis
          using True r Some s1(3) c cur dv written_wfile [OF w1 r(2)] by (intro fin [OF r(2), of c]) auto
      qed
    next
      case f: False
      then have "write_loop lft data wr f s =
          write_loop (lft - n) (drop (unat n) data) (wr + n) ((advance n f)\<lparr>current_cluster := current_cluster f\<rparr>) s1"
        using s1(3) byte_position(3) [of "position f + n" s] pos apos v1 by (auto simp: advance_def Let_def)
      moreover have "lft - n = 0 \<or> ?p + unat n < length cs * CB s \<and> current_cluster f = cs ! ((?p + unat n) div CB s)"
        using f dv cur q sp by (auto simp: CB_def simp flip: div_less_iff_less_mult)
      ultimately show ?thesis using w1 written_refl [OF w1] by (intro fin [of s1 "[]"]) auto
    qed
  qed
qed

lemma get_handle_SomeD:
  "get_handle h s = Some f \<Longrightarrow> 0 \<le> h \<and> h < int FAT_MAX_HANDLES \<and> nat h < FAT_MAX_HANDLES \<and> handles s ! nat h = f \<and> active f"
  by (auto simp: get_handle_def Let_def split: if_splits)

lemma fat_write_result:
  assumes h: "get_handle h s = Some f" "f_mode f \<noteq> 0"
    and w: "wfile (push_drive (f_drive f) s) (first_cluster f) cs"
    and p: "unat (position f) \<le> length cs * CB (push_drive (f_drive f) s)" "position f \<le> f_size f"
      "unat (position f) + length data < 2 ^ 32"
  shows "\<exists>n new f' s'. fat_write h data s = (ret32 (of_nat n), pop_drive (put_handle h f' s')) \<and> n \<le> length data \<and>
    written (push_drive (f_drive f) s) s' (first_cluster f) cs new (unat (position f)) (take n data) \<and>
    (n < length data \<longrightarrow> free_clusters s' = {}) \<and> file_after n f f' \<and>
    unat (position f) + n \<le> length (cs @ new) * CB (push_drive (f_drive f) s)"
proof -
  let ?s0 = "push_drive (f_drive f) s" and ?p = "unat (position f)" and ?c0 = "first_cluster f"
  have c0: "?c0 = cs ! 0" "0 < length cs" using w by (cases cs; auto simp: wfile_def)+
  have sp: "0 < spc ?s0" using w vol_geomD(3) by (auto simp: wfile_def)
  have q: "?p div CB ?s0 \<le> length cs"
    using p(1) sp div_le_mono [of ?p "length cs * CB ?s0" "CB ?s0"] by (simp add: CB_def)
  obtain r new0 s1 where r: "write_walk (?p div CB ?s0) ?c0 ?s0 = (r, s1)" "written ?s0 s1 ?c0 cs new0 ?p []"
    "case r of Some c \<Rightarrow> ?p div CB ?s0 < length (cs @ new0) \<and> c = (cs @ new0) ! (?p div CB ?s0)
     | None \<Rightarrow> new0 = [] \<and> free_clusters s1 = {}"
    using write_walk_spec [OF w c0(2), of "?p div CB ?s0" ?p, unfolded add_0, OF q] c0(1) by auto
  have walk: "write_walk (unat (position f div cluster_bytes ?s0)) ?c0 ?s0 = (r, s1)"
    using r(1) by (simp add: unat_div_u32 unat_cluster_bytes)
  show ?thesis
  proof (cases r)
    case None
    have "handles s1 = handles s" using r(2) by (simp add: written_def ctl_eq_def push_drive_def)
    then have "put_handle h f s1 = s1"
      using get_handle_SomeD [OF h(1)] list_update_id [of "handles s" "nat h"] by (simp add: put_handle_def)
    then have "fat_write h data s = (ret32 (of_nat 0), pop_drive (put_handle h f s1))"
      using h walk None by (simp add: fat_write_def Let_def ret32_def)
    moreover have "file_after 0 f f" using p(2) by (simp add: file_after_def max_def)
    ultimately show ?thesis
      using r(2,3) None p(1) by (intro exI [of _ 0] exI [of _ "[]"] exI [of _ f] exI [of _ s1]) simp
  next
    case (Some c)
    let ?f1 = "f\<lparr>current_cluster := c\<rparr>"
    have w1: "wfile s1 ?c0 (cs @ new0)" by (rule written_wfile [OF w r(2)])
    have cb1: "CB s1 = CB ?s0" using r(2) ctl_views(13) [of ?s0 s1] by (simp add: written_def)
    have lt: "?p < length (cs @ new0) * CB ?s0"
      using r(3) Some sp by (simp add: CB_def div_less_iff_less_mult)
    have len: "unat (of_nat (length data) :: u32) = length data" using p(3) by (intro unat_of_nat_u32) simp
    have "\<exists>new n f' s'. write_loop (of_nat (length data)) data 0 ?f1 s1 = (0 + of_nat n, f', s') \<and>
        n \<le> unat (of_nat (length data) :: u32) \<and> written s1 s' ?c0 (cs @ new0) new (unat (position ?f1)) (take n data) \<and>
        (n < unat (of_nat (length data) :: u32) \<longrightarrow> free_clusters s' = {}) \<and> file_after n ?f1 f' \<and>
        unat (position ?f1) + n \<le> length ((cs @ new0) @ new) * CB s1"
      using r(3) Some lt p len cb1 by (intro write_loop_spec [OF w1]) simp_all
    then obtain new n f' s' where l: "write_loop (of_nat (length data)) data 0 ?f1 s1 = (of_nat n, f', s')"
        "n \<le> length data" "written s1 s' ?c0 (cs @ new0) new ?p (take n data)"
        "n < length data \<longrightarrow> free_clusters s' = {}" "file_after n ?f1 f'"
        "?p + n \<le> length (cs @ new0 @ new) * CB ?s0"
      using len cb1 by auto
    have "written ?s0 s' ?c0 cs (new0 @ new) ?p ([] @ take n data)"
      using r(2) l(2,3,6) lt by (intro written_trans [OF w]) auto
    moreover have "fat_write h data s = (ret32 (of_nat n), pop_drive (put_handle h f' s'))"
      using h walk Some l(1) by (simp add: fat_write_def Let_def)
    moreover have "file_after n f f'" using l(5) by (simp add: file_after_def)
    ultimately show ?thesis
      using l by (intro exI [of _ n] exI [of _ "new0 @ new"] exI [of _ f'] exI [of _ s']) simp
  qed
qed

text \<open>
  C2. Writing to a file whose chain lies in the data area, from a position inside
  the file: \<open>fat_write\<close> stores a prefix of the data at the current
  position and returns its length; it stores all of the data unless no free cluster is left. The chain is
  extended only by clusters that were free. On the volume only the table and
  the sectors of this file's chain change: every cluster outside the chain keeps its table entry, every
  other sector its contents. Position and size advance accordingly.
\<close>
theorem fat_write_correct:
  assumes "get_handle h s = Some f" "f_mode f \<noteq> 0" "wfile (push_drive (f_drive f) s) (first_cluster f) cs"
    "unat (position f) \<le> length cs * CB (push_drive (f_drive f) s)" "position f \<le> f_size f"
    "unat (position f) + length data < 2 ^ 32"
  shows "\<exists>n new f' s'. fat_write h data s = (ret32 (of_nat n), pop_drive (put_handle h f' s')) \<and> n \<le> length data \<and>
    written (push_drive (f_drive f) s) s' (first_cluster f) cs new (unat (position f)) (take n data) \<and>
    (n < length data \<longrightarrow> free_clusters s' = {}) \<and> file_after n f f'"
  using fat_write_result [OF assms] by blast

section \<open>Geometry from the volume's numbers\<close>

lemma unat_data_sector:
  assumes "unat (first_data_sector (vol s)) + unat (cluster_count (vol s)) * spc s \<le> 2 ^ 32"
    "2 \<le> c" "unat c < unat (cluster_count (vol s)) + 2" "k < spc s"
  shows "unat (cluster_to_sector c s + of_nat k) = unat (first_data_sector (vol s)) + (unat c - 2) * spc s + k"
    "(unat c - 2) * spc s + k < unat (cluster_count (vol s)) * spc s"
proof -
  have "unat c - 2 < unat (cluster_count (vol s))" using assms(2,3) by (simp add: word_le_nat_alt)
  then have "Suc (unat c - 2) * spc s \<le> unat (cluster_count (vol s)) * spc s" by (intro mult_le_mono1) simp
  then show lt: "(unat c - 2) * spc s + k < unat (cluster_count (vol s)) * spc s" using assms(4) by simp
  have c2: "unat (c - 2) = unat c - 2" using assms(2) by (simp add: unat_sub)
  have m: "unat ((c - 2) * ucast (sec_per_clus (vol s))) = (unat c - 2) * spc s"
    using lt assms(1) by (subst unat_mult_lem [THEN iffD1]) (simp_all add: c2 spc_def)
  have k: "unat (of_nat k :: u32) = k"
    using assms(4) unat_u8_bound [of "sec_per_clus (vol s)"] unfolding spc_def by (intro unat_of_nat_u32) linarith
  have s1: "unat ((c - 2) * ucast (sec_per_clus (vol s)) + first_data_sector (vol s)) =
      (unat c - 2) * spc s + unat (first_data_sector (vol s))"
    using lt assms(1) m by (subst unat_plus_small) simp_all
  show "unat (cluster_to_sector c s + of_nat k) = unat (first_data_sector (vol s)) + (unat c - 2) * spc s + k"
    unfolding cluster_to_sector_def using lt assms(1) s1 k by (subst unat_plus_small) simp_all
qed

definition max_clusters :: "u8 \<Rightarrow> nat" where
  "max_clusters ty = (if ty = 12 then 0xFF6 else if ty = 16 then 0xFFF6 else 0xFFFFFF6)"

lemma take_bit_small: "unat (c :: u32) < 2 ^ n \<Longrightarrow> take_bit n c = c"
  by (simp add: word_unat_eq_iff unsigned_take_bit_eq take_bit_nat_eq_self)

lemma vol_geomI:
  assumes sz: "fat_sized s" and sp: "0 < spc s"
    and cc: "unat (cluster_count (vol s)) \<le> max_clusters (fat_type (vol s))"
    and fit: "unat (first_data_sector (vol s)) + unat (cluster_count (vol s)) * spc s \<le> 2 ^ 32"
    and fat: "unat (first_fat_sector (vol s)) + unat (num_fats (vol s)) * unat (fat_size (vol s)) \<le> unat (first_data_sector (vol s))"
    and io: "\<forall>a. unat (first_data_sector (vol s)) \<le> unat a \<longrightarrow>
        unat a < unat (first_data_sector (vol s)) + unat (cluster_count (vol s)) * spc s \<longrightarrow> vread_ok s a \<and> vwrite_ok s a"
  shows "vol_geom s"
proof -
  have ty: "fat_type (vol s) \<in> {12, 16, 32}" using sz by (simp add: fat_sized_def fat_ok_def)
  have D: "2 \<le> c \<and> unat c < unat (cluster_count (vol s)) + 2" if "c \<in> set (data_clusters s)" for c
    using that set_data_clusters [OF sz] by auto
  note sec = unat_data_sector [OF fit]
  have "\<not> is_eoc s c \<and> c AND entry_mask (fat_type (vol s)) = c" if "c \<in> set (data_clusters s)" for c
  proof -
    have "unat c < max_clusters (fat_type (vol s)) + 2" using D [OF that] cc by linarith
    then have b: "unat c < (if fat_type (vol s) = 12 then 0xFF8 else if fat_type (vol s) = 16 then 0xFFF8 else 0xFFFFFF8)"
      by (simp add: max_clusters_def split: if_splits)
    then have "c AND entry_mask (fat_type (vol s)) = c"
      using ty by (auto simp: entry_mask_def and_mask_bits intro!: take_bit_small split: if_splits)
    then show ?thesis using b ty by (auto simp: is_eoc_def word_le_nat_alt)
  qed
  moreover have "c = d \<and> k = l" if "c \<in> set (data_clusters s)" "d \<in> set (data_clusters s)" "k < spc s" "l < spc s"
    "cluster_to_sector c s + of_nat k = cluster_to_sector d s + of_nat l" for c d k l
  proof -
    have e: "(unat c - 2) * spc s + k = (unat d - 2) * spc s + l"
      using sec(1) [of c k] sec(1) [of d l] D [OF that(1)] D [OF that(2)] that(3-5) by simp
    then have "unat c - 2 = unat d - 2" "k = l"
      using that(3,4) by (metis div_mult_self3 div_less add_cancel_left_right not_less_zero add.commute gr_implies_not0) (use e that(3,4) in \<open>metis mod_mult_self3 mod_less\<close>)
    then show ?thesis using D [OF that(1)] D [OF that(2)] by (auto simp: word_unat_eq_iff word_le_nat_alt)
  qed
  moreover have "a \<notin> fat_region s \<and> vread_ok s a \<and> vwrite_ok s a"
    if "c \<in> set (data_clusters s)" "k < spc s" "a = cluster_to_sector c s + of_nat k" for c k a
  proof -
    note u = sec [of c k] D [OF that(1)] that(2,3)
    have "a \<notin> fat_region s"
    proof
      assume "a \<in> fat_region s"
      then obtain f i where fi: "a = fat_sec s f i" "f < unat (num_fats (vol s))" "i < unat (fat_size (vol s))"
        by (auto simp: fat_region_def)
      have "f * unat (fat_size (vol s)) + i < Suc f * unat (fat_size (vol s))" using fi(3) by simp
      also have "\<dots> \<le> unat (num_fats (vol s)) * unat (fat_size (vol s))" using fi(2) by (intro mult_le_mono1) simp
      finally have lt: "f * unat (fat_size (vol s)) + i < unat (num_fats (vol s)) * unat (fat_size (vol s))" .
      then have "unat (of_nat (f * unat (fat_size (vol s)) + i) :: u32) = f * unat (fat_size (vol s)) + i"
        using fat unat_u32_bound [of "first_data_sector (vol s)"] by (intro unat_of_nat_u32) linarith
      then have "unat (fat_sec s f i) < unat (first_data_sector (vol s))"
        unfolding fat_sec_def using lt fat unat_u32_bound [of "first_data_sector (vol s)"]
        by (subst unat_plus_small) linarith+
      then show False using u fi(1) by simp
    qed
    then show ?thesis using u io by auto
  qed
  ultimately show ?thesis unfolding vol_geom_def Let_def using sz sp by blast
qed

section \<open>Reading back what was written\<close>

text \<open>The views of a volume depend on the volumes, the selected drive and the disks only.\<close>

lemma core_views:
  assumes "volumes s' = volumes s" "active_drive s' = active_drive s" "dsk s' = dsk s"
  shows "vol s' = vol s" "vsec s' = vsec s" "vread_ok s' = vread_ok s" "fat_ok s' = fat_ok s" "fat_view s' = fat_view s"
    "fits s' = fits s" "is_eoc s' = is_eoc s" "chain_sectors s' = chain_sectors s" "file_bytes s' = file_bytes s"
    "CB s' = CB s" "spc s' = spc s"
proof -
  have "buf_only (s\<lparr>saved_drive := saved_drive s', handles := handles s', handles_initialized := handles_initialized s',
      stack_buf := stack_buf s'\<rparr>) s'" (is "buf_only ?s s'")
    using assms by (simp add: buf_only_def)
  note b = buf_only_views [OF this] file_bytes_buf [OF this]
  have e: "vol ?s = vol s" by (simp add: vol_def)
  have vs: "vsec ?s = vsec s" "vread_ok ?s = vread_ok s" "vwrite_ok ?s = vwrite_ok s"
    by (simp_all add: vsec_def vread_ok_def vwrite_ok_def fun_eq_iff e)
  have fs: "fat_sec ?s = fat_sec s" by (simp add: fat_sec_def fun_eq_iff e)
  have ok: "fat_ok ?s = fat_ok s" by (simp add: fat_ok_def e vs fs)
  have fi: "fimg ?s = fimg s" by (simp add: fimg_def fun_eq_iff vs fs)
  have x: "fat_view ?s = fat_view s" "fits ?s = fits s" "is_eoc ?s = is_eoc s" "CB ?s = CB s" "spc ?s = spc s"
    by (simp_all add: fat_view_def fits_def is_eoc_def CB_def spc_def fun_eq_iff e fi)
  have cs: "cluster_sectors c ?s = cluster_sectors c s" for c by (simp add: cluster_sectors_def cluster_to_sector_def e)
  have ch: "chain_sectors ?s = chain_sectors s" by (simp add: chain_sectors_def fun_eq_iff cs)
  have "file_bytes ?s = file_bytes s" by (intro ext) (simp add: file_bytes_def ch vs)
  then show "vol s' = vol s" "vsec s' = vsec s" "vread_ok s' = vread_ok s" "fat_ok s' = fat_ok s" "fat_view s' = fat_view s"
    "fits s' = fits s" "is_eoc s' = is_eoc s" "chain_sectors s' = chain_sectors s" "file_bytes s' = file_bytes s"
    "CB s' = CB s" "spc s' = spc s"
    using b e vs ok x ch by simp_all
qed

lemma put_handle_get:
  assumes "get_handle h s = Some f" "handles s' = handles s" "active f'" "length (handles s) = FAT_MAX_HANDLES"
  shows "get_handle h (pop_drive (put_handle h f' s')) = Some f'"
  using get_handle_SomeD [OF assms(1)] assms
  by (simp add: get_handle_def put_handle_def pop_drive_def FAT_MAX_HANDLES_def)

text \<open>
  C6. What is written is what is read back: after \<open>fat_write\<close> has stored all of the
  data (it reports its length), seeking back to the old position and reading the
  same number of bytes returns exactly the data, also when the write extended the file by newly allocated
  clusters.
\<close>
theorem fat_write_read_roundtrip:
  assumes h: "get_handle h s = Some f" "f_mode f \<noteq> 0" "length (handles s) = FAT_MAX_HANDLES"
    and w: "wfile (push_drive (f_drive f) s) (first_cluster f) cs"
    and sz: "position f \<le> f_size f" "unat (f_size f) \<le> length cs * CB (push_drive (f_drive f) s)"
    and len: "unat (position f) + length data < 2 ^ 31"
    and wr: "fat_write h data s = (int (length data), s1)" and sk: "fat_seek h (position f) s1 = (r, s2)"
  shows "\<exists>s3. fat_read h (of_nat (length data)) s2 = (int (length data), data, s3)"
proof -
  let ?s0 = "push_drive (f_drive f) s" and ?p = "unat (position f)" and ?n = "length data"
  have p: "?p \<le> length cs * CB ?s0" using sz by (simp add: word_le_nat_alt)
  have ret: "ret32 (of_nat m) = int m" if "m \<le> ?n" for m
  proof -
    have "int m < 2 ^ 31" using that len by simp
    then show ?thesis by (simp add: ret32_def signed_of_nat signed_take_bit_int_eq_self)
  qed
  obtain n new f' s' where r: "fat_write h data s = (ret32 (of_nat n), pop_drive (put_handle h f' s'))" "n \<le> ?n"
    "written ?s0 s' (first_cluster f) cs new ?p (take n data)" "file_after n f f'"
    "?p + n \<le> length (cs @ new) * CB ?s0"
    using fat_write_result [OF h(1,2) w p sz(1)] len by force
  then have n: "n = ?n" and s1: "s1 = pop_drive (put_handle h f' s')" using wr ret by auto
  have ctl: "ctl_eq ?s0 s'" using r(3) by (simp add: written_def)
  have hs: "handles s' = handles s" using ctl by (simp add: ctl_eq_def push_drive_def)
  have f': "f_drive f' = f_drive f" "first_cluster f' = first_cluster f" "active f' = active f" "position f' = position f + of_nat ?n"
    "f_size f' = max (f_size f) (position f + of_nat ?n)"
    using r(4) n by (cases f'; cases f; simp add: file_after_def)+
  have g1: "get_handle h s1 = Some f'"
    unfolding s1 using f'(3) get_handle_SomeD [OF h(1)] by (intro put_handle_get [OF h(1) hs _ h(3)]) simp
  have un: "unat (of_nat ?n :: u32) = ?n" using len by (intro unat_of_nat_u32) simp
  have pn: "unat (position f + of_nat ?n) = ?p + ?n" using len un by (subst unat_plus_small) simp_all
  have le: "position f \<le> f_size f'" using sz(1) f'(5) by (simp add: le_max_iff_disj)
  let ?f2 = "f'\<lparr>position := position f\<rparr>"
  have s2: "s2 = put_handle h ?f2 s1" using sk g1 le by (auto simp: fat_seek_def)
  have g2: "get_handle h s2 = Some ?f2"
    using g1 get_handle_SomeD [OF g1] hs h(3) unfolding s2
    by (simp add: get_handle_def put_handle_def s1 pop_drive_def FAT_MAX_HANDLES_def)
  have core: "volumes (push_drive (f_drive f) s2) = volumes s'" "active_drive (push_drive (f_drive f) s2) = active_drive s'"
    "dsk (push_drive (f_drive f) s2) = dsk s'"
    using ctl by (simp_all add: s2 s1 push_drive_def pop_drive_def put_handle_def ctl_eq_def)
  note cv = core_views [OF core] and tv = ctl_views [OF ctl]
  have w': "wfile s' (first_cluster f) (cs @ new)" by (rule written_wfile [OF w r(3)])
  have g': "vol_geom s'" "fat_chain s' (first_cluster f) (cs @ new)" "set (cs @ new) \<subseteq> set (data_clusters s')"
    using w' by (simp_all add: wfile_def)
  have size2: "unat (f_size f') \<le> length (cs @ new) * CB s'"
    using f'(5) sz(2) r(5) n pn tv(13) by (simp add: max_def add_mult_distrib)
  have "open_file s2 h ?f2 (cs @ new)"
    unfolding open_file_def Let_def using g2 g' vol_geomD(2,3) [OF g'(1)] le size2 vol_geomD(5) [OF g'(1)]
      fat_chain_cong [of "push_drive (f_drive f) s2" s'] cv f'
    by (auto simp: chain_sectors_def)
  moreover have mn: "min (unat (of_nat ?n :: u32)) (unat (f_size ?f2) - unat (position ?f2)) = ?n"
    using un f'(5) pn by (simp add: max_def word_le_nat_alt)
  ultimately obtain s3 where "fat_read h (of_nat ?n) s2 = (ret32 (of_nat ?n),
      take ?n (drop ?p (file_bytes (push_drive (f_drive ?f2) s2) (cs @ new))), s3)"
    using fat_read_result [of s2 h ?f2 "cs @ new" "of_nat ?n"] len un by force
  moreover have "take ?n (drop ?p (file_bytes s' (cs @ new))) = data"
    using r(3,5) n take_drop_splice [of ?p data "file_bytes ?s0 (cs @ new)"]
      length_file_bytes [of ?s0 "cs @ new"] vol_geomD(6) [of ?s0] w
    by (simp add: written_def wfile_def)
  ultimately show ?thesis using cv f'(1) ret by auto
qed

section \<open>An example volume\<close>

text \<open>
  A FAT12 volume with one file open for writing: its only cluster is 2, it is 10 bytes
  long and positioned at byte 3.
\<close>

definition example_handle :: fat_file where
  "example_handle = \<lparr>active = True, f_mode = 2, f_drive = FAT_DRIVE_C, first_cluster = 2, current_cluster = 2,
     position = 3, f_size = 10, dir_sector = 5, dir_offset = 0\<rparr>"

definition example_file :: fat_state where
  "example_file = example_fat12\<lparr>handles := example_handle # replicate 31 zero_file,
     dsk := \<lparr>sectors = \<lambda>d a. if a = 64 then [0, 0, 0, 0xFF, 0x0F] @ replicate 507 0
         else if a = 69 then replicate 512 0x41 else replicate 512 0,
       rd_err = \<lambda>d a. False, wr_err = \<lambda>d a. False\<rparr>\<rparr>"

abbreviation "example_sel \<equiv> push_drive (f_drive example_handle) example_file"

lemma example_sel_vol [simp]: "vol example_sel = vol example_fat12"
  by (simp add: example_file_def push_drive_def example_handle_def vol_def example_fat12_def set_vol_def fat_init_def)

lemma example_sel_vsec [simp]: "vsec example_sel a = (if a = 1 then [0, 0, 0, 0xFF, 0x0F] @ replicate 507 0
    else if a = 6 then replicate 512 0x41 else replicate 512 0)"
  by (simp add: vsec_def) (simp add: push_drive_def example_file_def)

lemma example_sel_io [simp]: "vread_ok example_sel a" "vwrite_ok example_sel a"
  by (simp_all add: vread_ok_def vwrite_ok_def) (simp_all add: push_drive_def example_file_def)

lemma example_sel_sized: "fat_sized example_sel"
  by (simp add: fat_sized_def fat_ok_def entry_end_def)

lemma example_sel_geom: "vol_geom example_sel"
  by (rule vol_geomI [OF example_sel_sized]) (simp_all add: spc_def max_clusters_def)

lemma example_sel_view: "fat_view example_sel 2 = 0xFFF"
  by (simp add: fat_view_def entry_get_def b16_def fimg_def fat_sec_def)

lemma example_sel_chain: "fat_chain example_sel 2 [2]"
  using example_sel_view by (simp add: is_eoc_def fits_def entry_end_def)

lemma example_get: "get_handle 0 example_file = Some example_handle"
  by (simp add: get_handle_def example_file_def example_handle_def FAT_MAX_HANDLES_def)

lemma example_wfile: "wfile example_sel (first_cluster example_handle) [2]"
proof -
  have "length (sector_buf example_sel) = 512"
    by (simp add: push_drive_def example_file_def example_fat12_def set_vol_def fat_init_def)
  moreover have "2 \<in> set (data_clusters example_sel)" using example_sel_sized by (simp add: set_data_clusters)
  moreover have "first_cluster example_handle = 2" by (simp add: example_handle_def)
  ultimately show ?thesis using example_sel_chain example_sel_geom by (simp add: wfile_def del: fat_chain.simps)
qed

lemma example_numbers: "position example_handle = 3" "f_size example_handle = 10" "f_mode example_handle \<noteq> 0"
    "CB example_sel = 512" "length (handles example_file) = FAT_MAX_HANDLES"
proof -
  show "CB example_sel = 512" by (simp add: CB_def spc_def)
qed (simp_all add: example_handle_def example_file_def FAT_MAX_HANDLES_def)

lemma example_open: "open_file example_file 0 example_handle [2]"
proof -
  have "first_cluster example_handle = 2" by (simp add: example_handle_def)
  then show ?thesis
    unfolding open_file_def Let_def
    using example_get example_sel_chain example_numbers example_sel_geom vol_geomD(2,3) [OF example_sel_geom]
    by (simp del: fat_chain.simps)
qed


theorem fat_write_correct_witness:
  "\<exists>n new f' s'. fat_write 0 (replicate 600 7) example_file = (ret32 (of_nat n), pop_drive (put_handle 0 f' s')) \<and>
     written example_sel s' 2 [2] new 3 (take n (replicate 600 7)) \<and> (n < 600 \<longrightarrow> free_clusters s' = {})"
proof -
  have "first_cluster example_handle = 2" by (simp add: example_handle_def)
  then show ?thesis
    using fat_write_correct [OF example_get example_numbers(3) example_wfile, of "replicate 600 7"]
    by (auto simp: example_numbers)
qed

lemma example_write: "fst (fat_write 0 [1, 2, 3, 4] example_file) = 4"
  by code_simp

theorem fat_write_read_roundtrip_witness:
  "\<exists>s3. fat_read 0 4 (snd (fat_seek 0 3 (snd (fat_write 0 [1, 2, 3, 4] example_file)))) = (4, [1, 2, 3, 4], s3)"
proof -
  obtain s1 where s1: "fat_write 0 [1, 2, 3, 4] example_file = (4, s1)"
    using example_write by (metis prod.collapse)
  obtain r s2 where s2: "fat_seek 0 3 s1 = (r, s2)" by (metis surj_pair)
  show ?thesis
    using fat_write_read_roundtrip [OF example_get example_numbers(3,5) example_wfile, of "[1, 2, 3, 4]" s1 r s2] s1 s2
    by (simp add: example_numbers)
qed

end
