(* ===== verification/Fat_Ops.thy ===== *)
theory Fat_Ops
  imports Fat_Rw
begin

text \<open>
  Properties of the path operations of src/src/kernel/fat.c: the drive switch around every
  call, deletion, and the handle table as an instance of the slot-table contract.
\<close>

section \<open>What the internal routines leave alone\<close>

text \<open>
  A relation between states that the buffers, the sectors and the volume fields do not matter to holds across
  every routine below the handle table. The contract is met by the two drive variables and by the handle table.
\<close>

locale fat_frame =
  fixes R :: "fat_state \<Rightarrow> fat_state \<Rightarrow> bool"
  assumes frame_refl [simp, intro]: "R s s"
    and frame_trans: "R s s1 \<Longrightarrow> R s1 s2 \<Longrightarrow> R s s2"
    and frame_right [simp]: "R s (s1\<lparr>fat_buf := b\<rparr>) = R s s1" "R s (s1\<lparr>sector_buf := b\<rparr>) = R s s1"
      "R s (snd (write_sector a b s1)) = R s s1" "R s (set_vol g s1) = R s s1"
    and frame_left [simp]: "R (s1\<lparr>sector_buf := b\<rparr>) s = R s1 s" "R (snd (write_sector a b s1)) s = R s1 s"
begin

lemma frame_upd [simp]:
  "R s (load_fat_buf a s1) = R s s1" "R s (store_dirent sec off e s1) = R s s1" "R (store_dirent sec off e s1) s = R s1 s"
  by (simp_all add: load_fat_buf_def store_dirent_def Let_def)

lemma buf_only_frame: "buf_only s s' \<Longrightarrow> R s s'"
proof -
  assume "buf_only s s'"
  then have "s' = s\<lparr>sector_buf := sector_buf s', fat_buf := fat_buf s'\<rparr>" by (simp add: buf_only_def)
  then have "R s s' = R s (s\<lparr>sector_buf := sector_buf s', fat_buf := fat_buf s'\<rparr>)" by simp
  then show ?thesis by simp
qed

lemma fat_read_entry_frame: "fat_read_entry c s = (e, s') \<Longrightarrow> R s s'"
  using fat_read_entry_buf_only [of s c] buf_only_frame by simp

lemma write_entry_copy_frame: "R s (write_entry_copy c v f s)"
  by (auto simp: write_entry_copy_def write_entry_16_def write_entry_32_def write_entry_12_def Let_def split: prod.split)

lemma fold_frame: "(\<And>x s. R s (g x s)) \<Longrightarrow> R s (fold g xs s)"
  by (induction xs arbitrary: s) (auto intro: frame_trans)

lemma fat_write_entry_frame: "R s (fat_write_entry c v s)"
  unfolding fat_write_entry_def by (rule fold_frame) (rule write_entry_copy_frame)

lemma alloc_scan_frame: "R s (snd (alloc_scan cs s))"
proof (induction cs arbitrary: s)
  case (Cons c cs)
  obtain e s1 where rd: "fat_read_entry c s = (e, s1)" by fastforce
  show ?case
    using Cons [of s1] fat_read_entry_frame [OF rd] fat_write_entry_frame [of s1] frame_trans
    by (auto simp: rd)
qed simp

lemma fat_alloc_cluster_frame: "fat_alloc_cluster s = (c, s') \<Longrightarrow> R s s'"
  using alloc_scan_frame [of s "data_clusters s"] by (simp add: fat_alloc_cluster_def)

lemma free_scan_frame: "free_scan secs s = (r, s') \<Longrightarrow> R s s'"
proof (induction secs s rule: free_scan.induct)
  case (2 sec secs s)
  then show ?case
    by (cases "read_sector sec (sector_buf s) s") (auto simp: Let_def split: if_splits option.splits intro: frame_trans)
qed simp

lemma free_chain_frame: "free_chain c s = Some y \<Longrightarrow> R s (snd y)"
proof (erule free_chain.raw_induct [where P = "\<lambda>c s y. R s (snd y)", rotated], goal_cases)
  case (1 rec clus s y)
  obtain r s1 where f: "free_scan (cluster_sectors clus s) s = (r, s1)" by fastforce
  obtain e s2 where rd: "fat_read_entry clus s1 = (e, s2)" by fastforce
  have d: "R s s1" "R s s2" using free_scan_frame [OF f] fat_read_entry_frame [OF rd] frame_trans by blast+
  show ?case using 1 f rd d by (cases y) (auto split: free_slot.splits if_splits intro: frame_trans)
qed

text \<open>Using the slot a scan found.\<close>

lemma slot_use_frame:
  assumes "\<And>sec off t. R t (snd (g sec off t))"
  shows "R s (snd (case r of Slot sec off \<Rightarrow> g sec off s | Read_error \<Rightarrow> (- 1, s) | No_slot \<Rightarrow> (- 1, s)))"
  using assms by (simp split: free_slot.split)

lemma free_chain_use_frame:
  assumes "Option.bind (free_chain d s) (\<lambda>(r, s1). Some (case r of Slot sec off \<Rightarrow> g sec off s1
      | Read_error \<Rightarrow> (- 1, s1) | No_slot \<Rightarrow> (- 1, s1))) = Some y"
    and "\<And>sec off t. R t (snd (g sec off t))"
  shows "R s (snd y)"
proof -
  obtain r s1 where f: "free_chain d s = Some (r, s1)" using assms(1) by (cases "free_chain d s") auto
  then show ?thesis
    using assms(1) free_chain_frame [OF f] slot_use_frame [of g s1 r, OF assms(2)] by (auto intro: frame_trans)
qed

lemma add_dir_entry_frame: "add_dir_entry d n a c z s = Some y \<Longrightarrow> R s (snd y)"
proof -
  assume ad: "add_dir_entry d n a c z s = Some y"
  let ?g = "\<lambda>sec off t. (0 :: int, store_dirent sec off (make_dirent (name_to_83 n) a c z) t)"
  have g: "R t (snd (?g sec off t))" for sec off t by simp
  show ?thesis
  proof (cases "d = 0 \<and> fat_type (vol s) \<noteq> 32")
    case True
    obtain r s1 where f: "free_scan (root_sectors s) s = (r, s1)" by fastforce
    then show ?thesis
      using ad True free_scan_frame [OF f] slot_use_frame [of ?g s1 r, OF g] by (auto simp: add_dir_entry_def Let_def intro: frame_trans)
  next
    case False
    show ?thesis
      using ad unfolding add_dir_entry_def Let_def if_not_P [OF False] by (rule free_chain_use_frame [of d s ?g, OF _ g])
  qed
qed

lemma free_chain_entries_frame: "free_chain_entries c s = Some s' \<Longrightarrow> R s s'"
proof (erule free_chain_entries.raw_induct [where P = "\<lambda>c s y. R s y", rotated], goal_cases)
  case (1 rec c s y)
  obtain e s1 where rd: "fat_read_entry c s = (e, s1)" by fastforce
  then show ?case
    using 1 fat_read_entry_frame [OF rd] fat_write_entry_frame [of s1 c 0] frame_trans by (fastforce split: if_splits)
qed

lemma mark_deleted_frame: "R s (mark_deleted sec off s)"
  by (simp add: mark_deleted_def Let_def split: prod.split)

lemma empty_sectors_frame: "empty_sectors secs s = (r, s') \<Longrightarrow> R s s'"
proof (induction secs s rule: empty_sectors.induct)
  case (2 sec secs s)
  then show ?case
    by (cases "read_sector sec (sector_buf s) s") (auto simp: Let_def split: if_splits empty_scan.splits intro: frame_trans)
qed simp

lemma dir_is_empty_frame: "dir_is_empty c s = Some y \<Longrightarrow> R s (snd y)"
proof (erule dir_is_empty.raw_induct [where P = "\<lambda>c s y. R s (snd y)", rotated], goal_cases)
  case (1 rec clus s y)
  obtain r s1 where f: "empty_sectors (cluster_sectors clus s) s = (r, s1)" by fastforce
  obtain e s2 where rd: "fat_read_entry clus s1 = (e, s2)" by fastforce
  have d: "R s s1" "R s s2" using empty_sectors_frame [OF f] fat_read_entry_frame [OF rd] frame_trans by blast+
  show ?case using 1 f rd d by (cases y) (auto split: empty_scan.splits if_splits intro: frame_trans)
qed

lemma init_dir_cluster_frame: "R s (init_dir_cluster c d s)"
  unfolding init_dir_cluster_def by (rule fold_frame) (simp add: init_dir_sector_def Let_def)

lemma delete_frame:
  assumes "R s s1" "Option.bind (free_chain_entries c s1) (\<lambda>s2. Some (0, mark_deleted sec off s2)) = Some y"
  shows "R s (snd y)"
proof -
  obtain s2 where "free_chain_entries c s1 = Some s2" "y = (0, mark_deleted sec off s2)"
    using assms(2) by (auto simp: Option.bind_eq_Some_conv)
  then show ?thesis
    using assms(1) free_chain_entries_frame [of c s1 s2] mark_deleted_frame [of s2 sec off] frame_trans by (metis snd_conv)
qed

lemma read_walk_frame: "R s (snd (read_walk n c s))"
proof (induction n arbitrary: c s)
  case (Suc n)
  obtain e s1 where rd: "fat_read_entry c s = (e, s1)" by fastforce
  then show ?case using Suc [of s1] fat_read_entry_frame [OF rd] frame_trans by (auto simp: rd)
qed simp

lemma read_loop_frame: "R s (snd (snd (read_loop lft f acc s)))"
proof (induction lft f acc s rule: read_loop.induct)
  case (1 lft f acc s)
  let ?off = "position f mod cluster_bytes s"
  obtain ok buf where rd: "read_sector (cluster_to_sector (current_cluster f) s + ?off div 512) (sector_buf s) s = (ok, buf)"
    by fastforce
  show ?case
  proof (cases "lft = 0 \<or> is_eoc s (current_cluster f) \<or> \<not> ok")
    case True
    then show ?thesis by (subst read_loop.simps) (auto simp: rd Let_def)
  next
    case False
    let ?s1 = "s\<lparr>sector_buf := buf\<rparr>" and ?n = "chunk_len (?off mod 512) lft"
    let ?f1 = "f\<lparr>position := position f + ?n\<rparr>" and ?acc1 = "acc @ take (unat ?n) (drop (unat (?off mod 512)) buf)"
    obtain c s2 where e: "fat_read_entry (current_cluster f) ?s1 = (c, s2)" by fastforce
    have d2: "R s s2" using fat_read_entry_frame [OF e] by simp
    have unf: "read_loop lft f acc s = (if position ?f1 mod cluster_bytes s = 0
        then read_loop (lft - ?n) (?f1\<lparr>current_cluster := c\<rparr>) ?acc1 s2 else read_loop (lft - ?n) ?f1 ?acc1 ?s1)"
      using False e by (subst read_loop.simps) (simp add: rd Let_def)
    have "R s2 (snd (snd (read_loop (lft - ?n) (?f1\<lparr>current_cluster := c\<rparr>) ?acc1 s2)))"
      if "position ?f1 mod cluster_bytes s = 0"
      using False rd e that by (intro 1(1) [OF _ refl refl refl rd [symmetric] _ refl refl refl refl]) auto
    moreover have "R ?s1 (snd (snd (read_loop (lft - ?n) ?f1 ?acc1 ?s1)))"
      if "position ?f1 mod cluster_bytes s \<noteq> 0"
      using False rd that by (intro 1(2) [OF _ refl refl refl rd [symmetric] _ refl refl refl refl]) auto
    ultimately show ?thesis using unf d2 frame_trans by auto
  qed
qed

lemma next_or_alloc_frame: "R s (snd (next_or_alloc c s))"
proof -
  obtain e s1 where rd: "fat_read_entry c s = (e, s1)" by fastforce
  obtain nw s2 where al: "fat_alloc_cluster s1 = (nw, s2)" by fastforce
  have "R s s1" "R s s2" "R s (fat_write_entry c nw s2)"
    using fat_read_entry_frame [OF rd] fat_alloc_cluster_frame [OF al] fat_write_entry_frame [of s2 c nw] frame_trans by blast+
  then show ?thesis by (simp add: next_or_alloc_def rd al)
qed

lemma write_walk_frame: "R s (snd (write_walk n c s))"
proof (induction n arbitrary: c s)
  case (Suc n)
  obtain r s1 where r: "next_or_alloc c s = (r, s1)" by fastforce
  then have "R s s1" using next_or_alloc_frame [of s c] by simp
  then show ?case using Suc frame_trans by (cases r) (auto simp: r)
qed simp

lemma write_loop_frame: "R s (snd (snd (write_loop lft data w f s)))"
proof (induction "unat lft" arbitrary: lft data w f s rule: less_induct)
  case less
  let ?off = "position f mod cluster_bytes s" and ?n = "chunk_len (position f mod cluster_bytes s mod 512) lft"
  let ?sec = "cluster_to_sector (current_cluster f) s + ?off div 512"
  obtain ok buf where rd: "(if ?off mod 512 \<noteq> 0 \<or> lft < 512 then read_sector ?sec (sector_buf s) s else (True, sector_buf s)) = (ok, buf)"
    by fastforce
  let ?buf1 = "splice buf (unat (?off mod 512)) (take (unat ?n) data)"
  obtain wok s2 where wr: "write_sector ?sec ?buf1 (s\<lparr>sector_buf := ?buf1\<rparr>) = (wok, s2)" by fastforce
  have d2: "R s s2" using frame_right(3) [of s ?sec ?buf1 "s\<lparr>sector_buf := ?buf1\<rparr>"] wr by simp
  obtain r s3 where na: "next_or_alloc (current_cluster (advance ?n f)) s2 = (r, s3)" by fastforce
  have d3: "R s s3" using next_or_alloc_frame [of s2 "current_cluster (advance ?n f)"] na d2 frame_trans by fastforce
  note unf = write_loop.simps [of lft data w f s]
  show ?case
  proof (cases "lft = 0 \<or> \<not> ok \<or> \<not> wok")
    case True
    then show ?thesis unfolding unf Let_def rd prod.case wr using d2 by auto
  next
    case False
    then have lt: "unat (lft - ?n) < unat lft" by (simp add: chunk_len_decreases)
    have ih: "R t (snd (snd (write_loop (lft - ?n) d w' g t)))" for d w' g t by (rule less [OF lt])
    show ?thesis unfolding unf Let_def rd prod.case wr na using False d2 d3 ih frame_trans
      by (cases r) (auto simp: na)
  qed
qed

lemmas lookup_frame = find_in_dir_buf [THEN buf_only_frame] resolve_parent_buf [THEN buf_only_frame]

end

section \<open>The drive switch\<close>

text \<open>
  \<^verbatim>\<open>push_drive\<close> keeps the previous drive in a single global variable, so each operation has to
  switch back on every path and must not nest. Inside an operation nothing touches
  the two drive variables.
\<close>

definition drv_eq :: "fat_state \<Rightarrow> fat_state \<Rightarrow> bool" where
  "drv_eq s s' \<longleftrightarrow> active_drive s' = active_drive s \<and> saved_drive s' = saved_drive s \<and>
     length (handles s') = length (handles s) \<and> length (volumes s') = length (volumes s)"

lemma drv_refl [simp, intro]: "drv_eq s s"
  by (simp add: drv_eq_def)

lemma drv_trans [trans]: "drv_eq s s1 \<Longrightarrow> drv_eq s1 s2 \<Longrightarrow> drv_eq s s2"
  by (simp add: drv_eq_def)

lemma buf_only_drv: "buf_only s s' \<Longrightarrow> drv_eq s s'"
  using buf_only_fields [of s s'] by (simp add: drv_eq_def)

lemma drv_upd [simp]:
  "drv_eq s (s1\<lparr>fat_buf := b\<rparr>) = drv_eq s s1" "drv_eq s (s1\<lparr>sector_buf := b\<rparr>) = drv_eq s s1"
  "drv_eq s (snd (write_sector a b s1)) = drv_eq s s1" "drv_eq s (set_vol g s1) = drv_eq s s1"
  "drv_eq s (s1\<lparr>handles := (handles s1)[i := h]\<rparr>) = drv_eq s s1"
  "drv_eq s (load_fat_buf a s1) = drv_eq s s1" "drv_eq s (store_dirent sec off e s1) = drv_eq s s1"
  "drv_eq (s1\<lparr>sector_buf := b\<rparr>) s = drv_eq s1 s" "drv_eq (store_dirent sec off e s1) s = drv_eq s1 s"
  by (simp_all add: drv_eq_def set_vol_def load_fat_buf_def store_dirent_def Let_def)

interpretation drv: fat_frame drv_eq
  by unfold_locales (auto simp: drv_eq_def set_vol_def)

lemmas fat_read_entry_drv = drv.fat_read_entry_frame
lemmas write_entry_copy_drv = drv.write_entry_copy_frame
lemmas fold_drv = drv.fold_frame
lemmas fat_write_entry_drv = drv.fat_write_entry_frame
lemmas alloc_scan_drv = drv.alloc_scan_frame
lemmas fat_alloc_cluster_drv = drv.fat_alloc_cluster_frame
lemmas free_scan_drv = drv.free_scan_frame
lemmas free_chain_drv = drv.free_chain_frame
lemmas slot_use_drv = drv.slot_use_frame
lemmas free_chain_use_drv = drv.free_chain_use_frame
lemmas add_dir_entry_drv = drv.add_dir_entry_frame
lemmas free_chain_entries_drv = drv.free_chain_entries_frame
lemmas mark_deleted_drv = drv.mark_deleted_frame
lemmas empty_sectors_drv = drv.empty_sectors_frame
lemmas dir_is_empty_drv = drv.dir_is_empty_frame
lemmas init_dir_cluster_drv = drv.init_dir_cluster_frame
lemmas delete_drv = drv.delete_frame
lemmas read_walk_drv = drv.read_walk_frame
lemmas read_loop_drv = drv.read_loop_frame
lemmas next_or_alloc_drv = drv.next_or_alloc_frame
lemmas write_walk_drv = drv.write_walk_frame
lemmas write_loop_drv = drv.write_loop_frame

lemma alloc_handle_drv: "drv_eq s (snd (alloc_handle f s))"
  by (auto simp: alloc_handle_def split: option.splits)

lemma open_slot_drv: "drv_eq s (snd (open_slot n m c sec off s))"
  using alloc_handle_drv [of "store_dirent sec off (make_dirent (name_to_83 n) FAT_ATTR_ARCHIVE c 0) s"]
  by (simp add: open_slot_def Let_def)

lemma create_file_drv: "create_file d n m s = Some y \<Longrightarrow> drv_eq s (snd y)"
proof -
  assume c: "create_file d n m s = Some y"
  obtain nw s1 where al: "fat_alloc_cluster s = (nw, s1)" by fastforce
  obtain r s2 where fr: "free_scan (root_sectors s1) s1 = (r, s2)" by fastforce
  have d: "drv_eq s s1" "drv_eq s1 s2" using fat_alloc_cluster_drv [OF al] free_scan_drv [OF fr] by simp_all
  let ?g = "\<lambda>sec off t. open_slot n m nw sec off t"
  have use: "drv_eq t (snd y)"
    if "Option.bind (free_chain d t) (\<lambda>(r, s1). Some (case r of Slot sec off \<Rightarrow> ?g sec off s1
      | Read_error \<Rightarrow> (- 1, s1) | No_slot \<Rightarrow> (- 1, s1))) = Some y" for t
    using free_chain_use_drv [OF that open_slot_drv] .
  have "drv_eq s1 (snd y)"
  proof (cases "nw = 0")
    case True
    then show ?thesis using c al by (auto simp: create_file_def)
  next
    case nz: False
    show ?thesis
    proof (cases "d = 0 \<and> fat_type (vol s1) \<noteq> 32")
      case True
      then show ?thesis
        using c al fr nz d(2) use [of s2] open_slot_drv [of s2] drv_trans
        by (cases r) (fastforce simp: create_file_def Let_def)+
    next
      case False
      show ?thesis
        using c unfolding create_file_def al prod.case if_not_P [OF nz] Let_def if_not_P [OF False] by (rule use)
    qed
  qed
  then show ?thesis using d(1) drv_trans by blast
qed

lemmas lookup_drv = find_in_dir_buf [THEN buf_only_drv] resolve_parent_buf [THEN buf_only_drv]

definition sel_eq :: "fat_state \<Rightarrow> fat_state \<Rightarrow> bool" where
  "sel_eq s s' \<longleftrightarrow> active_drive s' = active_drive s \<and>
     length (handles s') = length (handles s) \<and> length (volumes s') = length (volumes s)"

lemma sel_refl [simp]: "sel_eq s s"
  by (simp add: sel_eq_def)

lemma pop_push_sel:
  "drv_eq (push_opt d s) s' \<Longrightarrow> sel_eq s (pop_opt d s')"
  "drv_eq (push_drive n s) s' \<Longrightarrow> sel_eq s (pop_drive s')"
  by (auto simp: drv_eq_def sel_eq_def push_opt_def pop_opt_def push_drive_def pop_drive_def split: option.splits)

lemma with_parent_sel:
  assumes "with_parent path body s = Some (r, s')" "\<And>d n t y. body d n t = Some y \<Longrightarrow> drv_eq t (snd y)"
  shows "sel_eq s s'"
  using assms(1)
  by (auto simp: with_parent_def Let_def Option.bind_eq_Some_conv split: prod.splits if_splits
      intro!: pop_push_sel dest!: assms(2) lookup_drv intro: drv_trans)

lemma fat_open_sel: "fat_open path mode s = Some (r, s') \<Longrightarrow> sel_eq s s'"
  unfolding fat_open_def
proof (erule with_parent_sel, goal_cases)
  case (1 d n t y)
  then obtain ctx t1 where f: "find_in_dir d n t = Some (ctx, t1)" by (auto simp: Option.bind_eq_Some_conv)
  have d: "drv_eq t t1" using lookup_drv(1) [OF f] .
  have "drv_eq t1 (snd y)"
    using 1 f create_file_drv [of d n mode t1 y] alloc_handle_drv [of t1] by (auto simp: Let_def split: if_splits)
  with d show ?case by (rule drv_trans)
qed

lemma fat_mkdir_sel: "fat_mkdir path s = Some (r, s') \<Longrightarrow> sel_eq s s'"
  unfolding fat_mkdir_def
proof (erule with_parent_sel, goal_cases)
  case (1 d n t y)
  then obtain ctx t1 where f: "find_in_dir d n t = Some (ctx, t1)" by (auto simp: Option.bind_eq_Some_conv)
  obtain c t2 where al: "fat_alloc_cluster t1 = (c, t2)" by fastforce
  have d: "drv_eq t t1" "drv_eq t t2" "drv_eq t (init_dir_cluster c d t2)"
    using lookup_drv(1) [OF f] fat_alloc_cluster_drv [OF al] init_dir_cluster_drv [of t2 c d] drv_trans by blast+
  show ?case
  proof (cases "found ctx \<or> c = 0")
    case True
    then show ?thesis using 1 f al d by (auto split: if_splits)
  next
    case False
    then obtain r t3 where ad: "add_dir_entry d n FAT_ATTR_DIRECTORY c 0 (init_dir_cluster c d t2) = Some (r, t3)"
      using 1 f al by (auto simp: Option.bind_eq_Some_conv)
    have "drv_eq t t3" "drv_eq t (fat_write_entry c 0 t3)"
      using drv_trans [OF d(3)] add_dir_entry_drv [OF ad] drv_trans [OF _ fat_write_entry_drv [of t3 c 0]] by simp_all
    moreover have "y = (if r < 0 then (-1, fat_write_entry c 0 t3) else (0, t3))"
      using 1 f al ad False by (simp split: if_splits)
    ultimately show ?thesis by simp
  qed
qed

lemma fat_delete_sel: "fat_delete path s = Some (r, s') \<Longrightarrow> sel_eq s s'"
  unfolding fat_delete_def
proof (erule with_parent_sel, goal_cases)
  case (1 d n t y)
  then obtain ctx t1 where f: "find_in_dir d n t = Some (ctx, t1)" by (auto simp: Option.bind_eq_Some_conv)
  show ?case
    using 1 f lookup_drv(1) [OF f] delete_drv [OF lookup_drv(1) [OF f]] by (cases y) (auto simp: Let_def split: if_splits)
qed

lemma fat_rmdir_sel: "fat_rmdir path s = Some (r, s') \<Longrightarrow> sel_eq s s'"
  unfolding fat_rmdir_def
proof (erule with_parent_sel, goal_cases)
  case (1 d n t y)
  then obtain ctx t1 where f: "find_in_dir d n t = Some (ctx, t1)" by (auto simp: Option.bind_eq_Some_conv)
  note d1 = lookup_drv(1) [OF f]
  let ?e = "ctx_result ctx t1"
  show ?case
  proof (cases "found ctx \<and> de_is_dir ?e")
    case False
    then show ?thesis using 1 f d1 by (auto simp: Let_def split: if_splits)
  next
    case True
    then obtain emp t2 where e: "dir_is_empty (de_cluster ?e) t1 = Some (emp, t2)"
      using 1 f by (auto simp: Let_def Option.bind_eq_Some_conv)
    have d2: "drv_eq t t2" using d1 dir_is_empty_drv [OF e] drv_trans by fastforce
    show ?thesis using 1 f True e d2 delete_drv [OF d2] by (cases y) (auto simp: Let_def split: if_splits)
  qed
qed

lemma fat_rename_sel: "fat_rename p q s = Some (r, s') \<Longrightarrow> sel_eq s s'"
  by (auto simp: fat_rename_def Let_def Option.bind_eq_Some_conv 
      split: prod.splits if_splits intro!: pop_push_sel dest!: lookup_drv intro: drv_trans)

lemma fat_chdir_sel: "fat_chdir p s = Some (r, s') \<Longrightarrow> sel_eq s s'"
  by (auto simp: fat_chdir_def set_cwd_def Let_def Option.bind_eq_Some_conv
      split: prod.splits if_splits intro!: pop_push_sel dest!: lookup_drv intro: drv_trans)

lemma fat_find_sel:
  "fat_find_first pat res s = Some (r, res', s') \<Longrightarrow> sel_eq s s'"
  "fat_find_next res s = Some (r, res', s') \<Longrightarrow> sel_eq s s'"
  by (auto simp: fat_find_first_def fat_find_next_def Let_def Option.bind_eq_Some_conv
      split: prod.splits if_splits intro!: pop_push_sel dest!: dir_iterate_buf [THEN buf_only_drv])

lemma put_handle_drv [simp]: "drv_eq s (put_handle h f s1) = drv_eq s s1"
  by (simp add: put_handle_def)

lemma fat_read_sel: "fat_read h n s = (r, bs, s') \<Longrightarrow> sel_eq s s'"
proof -
  assume rd: "fat_read h n s = (r, bs, s')"
  show ?thesis
  proof (cases "get_handle h s")
    case None
    then show ?thesis using rd by (simp add: fat_read_def)
  next
    case (Some f)
    let ?s0 = "push_drive (f_drive f) s"
    obtain c s1 where w: "read_walk (unat (position f div cluster_bytes ?s0)) (first_cluster f) ?s0 = (c, s1)" by fastforce
    define n1 where "n1 = (if position f + n > f_size f then f_size f - position f else n)"
    obtain bs2 f2 s2 where l: "read_loop n1 (f\<lparr>current_cluster := c\<rparr>) [] s1 = (bs2, f2, s2)" by (metis prod_cases3)
    have "drv_eq ?s0 s2" using read_walk_drv [of ?s0 _ _] w read_loop_drv [of s1 n1 "f\<lparr>current_cluster := c\<rparr>" "[]"] l
      by (metis drv_trans snd_conv)
    then show ?thesis
      using rd Some w l by (auto simp: fat_read_def Let_def simp flip: n1_def split: if_splits intro!: pop_push_sel)
  qed
qed

lemma fat_write_sel: "fat_write h bs s = (r, s') \<Longrightarrow> sel_eq s s'"
proof -
  assume wr: "fat_write h bs s = (r, s')"
  show ?thesis
  proof (cases "get_handle h s")
    case None
    then show ?thesis using wr by (simp add: fat_write_def)
  next
    case (Some f)
    let ?s0 = "push_drive (f_drive f) s"
    obtain c s1 where w: "write_walk (unat (position f div cluster_bytes ?s0)) (first_cluster f) ?s0 = (c, s1)" by fastforce
    have d1: "drv_eq ?s0 s1" using write_walk_drv [of ?s0] w by (metis snd_conv)
    have "drv_eq s1 s2" if "write_loop l d 0 g s1 = (n, f2, s2)" for l d g n f2 s2
      using write_loop_drv [of s1 l d 0 g] that by simp
    then show ?thesis
      using wr Some w d1 drv_trans [OF d1]
      by (auto simp: fat_write_def Let_def split: if_splits option.splits prod.splits
          intro!: pop_push_sel(2) [of "f_drive f"])
  qed
qed

lemma fat_close_sel: "sel_eq s (snd (fat_close h s))"
proof (cases "get_handle h s")
  case (Some f)
  obtain ok buf where rd: "read_sector (dir_sector f) (sector_buf (push_drive (f_drive f) s)) (push_drive (f_drive f) s) = (ok, buf)"
    by fastforce
  show ?thesis by (auto simp: fat_close_def Some Let_def rd intro!: pop_push_sel)
qed (simp add: fat_close_def)

lemma fat_datetime_sel: "sel_eq s (snd (fat_get_datetime h s))"
  by (auto simp: fat_get_datetime_def Let_def split: option.splits prod.splits intro!: pop_push_sel)

text \<open>The calls of the driver's interface, the drive selection apart.\<close>

inductive fat_step :: "fat_state \<Rightarrow> fat_state \<Rightarrow> bool" where
  Open: "fat_open path mode s = Some (r, s') \<Longrightarrow> fat_step s s'"
| Close: "fat_close h s = (r, s') \<Longrightarrow> fat_step s s'"
| Read: "fat_read h n s = (r, bs, s') \<Longrightarrow> fat_step s s'"
| Write: "fat_write h bs s = (r, s') \<Longrightarrow> fat_step s s'"
| Seek: "fat_seek h off s = (r, s') \<Longrightarrow> fat_step s s'"
| Datetime: "fat_get_datetime h s = (t, s') \<Longrightarrow> fat_step s s'"
| Find_first: "fat_find_first pat res s = Some (r, res', s') \<Longrightarrow> fat_step s s'"
| Find_next: "fat_find_next res s = Some (r, res', s') \<Longrightarrow> fat_step s s'"
| Chdir: "fat_chdir path s = Some (r, s') \<Longrightarrow> fat_step s s'"
| Mkdir: "fat_mkdir path s = Some (r, s') \<Longrightarrow> fat_step s s'"
| Delete: "fat_delete path s = Some (r, s') \<Longrightarrow> fat_step s s'"
| Rmdir: "fat_rmdir path s = Some (r, s') \<Longrightarrow> fat_step s s'"
| Rename: "fat_rename path path' s = Some (r, s') \<Longrightarrow> fat_step s s'"

lemma fat_step_sel: "fat_step s s' \<Longrightarrow> sel_eq s s'"
proof (induction rule: fat_step.induct)
  case (Close h s r s')
  then show ?case using fat_close_sel [of s h] by simp
next
  case (Datetime h s t s')
  then show ?case using fat_datetime_sel [of s h] by simp
next
  case (Seek h off s r s')
  then show ?case by (auto simp: fat_seek_def sel_eq_def put_handle_def split: option.splits)
qed (fact fat_open_sel fat_read_sel fat_write_sel fat_find_sel fat_chdir_sel fat_mkdir_sel fat_delete_sel fat_rmdir_sel fat_rename_sel)+

text \<open>
  C32. Every call of the file-system interface that returns, on every path including the error
  exits, leaves the selected drive as it found it, and any sequence of such calls does too: the single
  saved-drive variable is always restored. The volume and handle tables keep their lengths.
\<close>
theorem fat_calls_keep_drive:
  assumes "fat_step\<^sup>*\<^sup>* s s'"
  shows "active_drive s' = active_drive s \<and> length (handles s') = length (handles s) \<and>
    length (volumes s') = length (volumes s)"
  using assms
proof (induction rule: rtranclp_induct)
  case (step y z)
  then show ?case using fat_step_sel [of y z] by (simp add: sel_eq_def)
qed simp

theorem fat_calls_keep_drive_witness:
  "active_drive (snd (fat_write 0 [1, 2, 3, 4] example_file)) = 2"
proof -
  have "fat_step\<^sup>*\<^sup>* example_file (snd (fat_write 0 [1, 2, 3, 4] example_file))"
    by (rule r_into_rtranclp) (rule fat_step.Write [of 0 "[1, 2, 3, 4]" _ "fst (fat_write 0 [1, 2, 3, 4] example_file)"], simp)
  from fat_calls_keep_drive [OF this] show ?thesis
    by (simp add: example_file_def example_fat12_def set_vol_def fat_init_def FAT_DRIVE_C_def)
qed

section \<open>Deletion\<close>

lemma free_chain_entries_spec:
  "fat_chain s c cs \<Longrightarrow> fat_ok s \<Longrightarrow>
     \<exists>s'. free_chain_entries c s = Some s' \<and> fat_only s s' \<and>
       (\<forall>x. fits s x \<longrightarrow> fat_view s' x = (if x \<in> set cs then 0 else fat_view s x))"
proof (induction cs arbitrary: c s)
  case Nil
  then show ?case by (simp add: free_chain_entries.simps [of c])
next
  case (Cons x cs)
  then have x: "x = c" "\<not> is_eoc s c" "2 \<le> c" "fits s c" and ch: "fat_chain s (fat_view s c) cs" by auto
  let ?s1 = "s\<lparr>fat_buf := vsec s (entry_sec s 0 c)\<rparr>"
  let ?s2 = "fat_write_entry c 0 ?s1"
  have rd: "fat_read_entry c s = (fat_view s c, ?s1)" by (rule fat_read_entry_eq [OF Cons.prems(2) x(4)])
  have ok1: "fat_ok ?s1" "fits ?s1 c" using Cons.prems(2) x(4) by simp_all
  have o: "fat_only s ?s2" using fat_only_trans [OF _ fat_write_entry_spec(1) [OF ok1]] by simp
  note ov = fat_only_views [OF o]
  have view: "fat_view ?s2 y = (if y = c then 0 else fat_view s y)" if "fits s y" for y
    using fat_view_write [OF ok1, of y 0] that by simp
  have nin: "c \<notin> set cs" using fat_chain_distinct [OF Cons.prems(1)] x(1) by simp
  have "fat_chain ?s2 d ys = fat_chain s d ys" if "c \<notin> set ys" for d ys
    using that
  proof (induction ys arbitrary: d)
    case (Cons y ys)
    then show ?case using view ov by auto
  qed (simp add: ov)
  then have "fat_chain ?s2 (fat_view s c) cs" using ch nin by simp
  then obtain s' where s': "free_chain_entries (fat_view s c) ?s2 = Some s'" "fat_only ?s2 s'"
    "\<forall>y. fits ?s2 y \<longrightarrow> fat_view s' y = (if y \<in> set cs then 0 else fat_view ?s2 y)"
    using Cons.IH [of ?s2 "fat_view s c"] fat_only_ok [OF o Cons.prems(2)] by blast
  have "free_chain_entries c s = Some s'"
    using x s'(1) rd by (subst free_chain_entries.simps) (simp add: not_less [symmetric])
  then show ?case using s' fat_only_trans [OF o] view ov nin x(1) by (auto intro!: exI [of _ s'])
qed

lemma mark_deleted_spec:
  assumes "vread_ok s sec" "vwrite_ok s sec"
  shows "vsec (mark_deleted sec off s) = (vsec s)(sec := (vsec s sec)[off := 0xE5])"
  using assms by (simp add: mark_deleted_def vsec_write_sector Let_def)


text \<open>The file \<open>AB.T\<close> in the root directory, with cluster 2 as its only cluster.\<close>

definition example_entry2 :: "u8 list" where
  "example_entry2 = [0x41, 0x42, SPC, SPC, SPC, SPC, SPC, SPC, 0x54, SPC, SPC, 0x20] @ replicate 14 0 @ [2, 0, 10, 0, 0, 0]"

definition example_tree :: fat_state where
  "example_tree = example_fat12\<lparr>dsk := \<lparr>sectors = \<lambda>d a. if a = 64 then [0, 0, 0, 0xFF, 0x0F] @ replicate 507 0
         else if a = 68 then example_entry2 @ replicate 480 0 else replicate 512 0,
       rd_err = \<lambda>d a. False, wr_err = \<lambda>d a. False\<rparr>\<rparr>"

lemma example_tree_vol [simp]: "vol example_tree = vol example_fat12"
  by (simp add: example_tree_def vol_def)

lemma example_tree_vsec [simp]: "vsec example_tree a = (if a = 1 then [0, 0, 0, 0xFF, 0x0F] @ replicate 507 0
    else if a = 5 then example_entry2 @ replicate 480 0 else replicate 512 0)"
  by (simp add: vsec_def) (simp add: example_tree_def)

lemma example_tree_io [simp]: "vread_ok example_tree a" "vwrite_ok example_tree a"
  by (simp_all add: vread_ok_def vwrite_ok_def) (simp_all add: example_tree_def)

lemma example_tree_ok: "fat_ok example_tree"
  by (simp add: fat_ok_def example_entry2_def)

lemma example_tree_dir: "dir_at example_tree 0 [5]"
  by (simp add: dir_at_def example_tree_ok root_sectors_def)

lemma example_tree_lookup:
  "dir_lookup (name_to_83 [0x61, 0x62, DOT, 0x74]) (dir_slots example_tree [5]) = Some (5, 0, example_entry2)"
proof -
  have sl: "dir_slots example_tree [5] = (5, 0, example_entry2) # tl (dir_slots example_tree [5])"
    by (simp add: dir_slots_def sector_slots_def upt_conv_Cons entry_at_def example_entry2_def)
  have "name_to_83 [0x61, 0x62, DOT, 0x74] = take 11 example_entry2" by code_simp
  then show ?thesis
    by (subst sl, simp add: dir_lookup_def matches83_def) (simp add: example_entry2_def de_attr_def FAT_ATTR_LFN_def)
qed

lemma example_tree_chain: "fat_chain example_tree (de_cluster example_entry2) [2]"
proof -
  have "fat_view example_tree 2 = 0xFFF" by (simp add: fat_view_def entry_get_def b16_def fimg_def fat_sec_def)
  moreover have "de_cluster example_entry2 = 2" by code_simp
  ultimately show ?thesis by (simp add: is_eoc_def fits_def entry_end_def)
qed


section \<open>The handle table as a slot table\<close>

text \<open>What a client puts into a handle, and the allocation as a slot-table operation.\<close>

type_synonym handle_args = "u8 \<times> u32 \<times> u32 \<times> u32 \<times> nat"

definition handle_holds :: "fat_file \<Rightarrow> handle_args" where
  "handle_holds f = (f_mode f, first_cluster f, f_size f, dir_sector f, dir_offset f)"

definition claim_handle :: "handle_args \<Rightarrow> fat_state \<Rightarrow> nat option \<times> fat_state" where
  "claim_handle v s = (case v of (mode, clus, sz, sec, off) \<Rightarrow>
     case alloc_handle (new_handle mode clus sz sec off s) s of (r, s') \<Rightarrow> (if r < 0 then None else Some (nat r), s'))"

definition release_handle :: "nat \<Rightarrow> fat_state \<Rightarrow> fat_state" where
  "release_handle i s = s\<lparr>handles := (handles s)[i := (handles s ! i)\<lparr>active := False\<rparr>]\<rparr>"

interpretation fh: slot_table handles active handle_holds claim_handle release_handle
proof (unfold_locales, goal_cases)
  case (1 s v)
  then show ?case by (simp add: claim_handle_def alloc_handle_def split: prod.split)
next
  case (2 s i v)
  obtain mode clus sz sec off where v: "v = (mode, clus, sz, sec, off)" by (metis prod_cases5)
  show ?case
    using 2 by (simp add: claim_handle_def alloc_handle_def v)
      (auto simp: new_handle_def handle_holds_def intro!: exI [of _ "new_handle mode clus sz sec off s"])
next
  case (3 i s)
  then show ?case by (auto simp: release_handle_def)
qed

text \<open>
  Opening two files in a row: the handles are different, each records its own
  arguments, the second leaves the first one alone, and the allocation fails only when all slots of the table are
  in use.
\<close>
theorem fat_handles_distinct:
  assumes "claim_handle v s = (Some i, s1)" "claim_handle w s1 = (Some j, s2)"
  shows "i \<noteq> j \<and> i < length (handles s) \<and> \<not> active (handles s ! i) \<and>
    handle_holds (handles s2 ! i) = v \<and> handle_holds (handles s2 ! j) = w \<and>
    active (handles s2 ! i) \<and> active (handles s2 ! j) \<and>
    (\<forall>s3. claim_handle u s2 = (None, s3) \<longrightarrow> s3 = s2 \<and> (\<forall>h \<in> set (handles s2). active h))"
proof -
  have ne: "i \<noteq> j" by (rule fh.claims_distinct [OF assms])
  note a = fh.claim_result [OF assms(1)] and b = fh.claim_result [OF assms(2)]
  show ?thesis using ne a(1-4) b(3,4) b(5) [of i] fh.claim_None [of u s2] by auto
qed

theorem fat_handles_distinct_witness:
  "\<exists>i j s1 s2. claim_handle (0, 2, 10, 5, 0) example_tree = (Some i, s1) \<and>
     claim_handle (1, 3, 20, 5, 32) s1 = (Some j, s2) \<and> i \<noteq> j"
proof -
  have "fst (claim_handle (0, 2, 10, 5, 0) example_tree) = Some 0"
    "fst (claim_handle (1, 3, 20, 5, 32) (snd (claim_handle (0, 2, 10, 5, 0) example_tree))) = Some 1" by code_simp+
  then obtain s1 s2 where c: "claim_handle (0, 2, 10, 5, 0) example_tree = (Some 0, s1)"
    "claim_handle (1, 3, 20, 5, 32) s1 = (Some 1, s2)" by (metis prod.collapse)
  with fat_handles_distinct [OF c] show ?thesis by blast
qed

section \<open>Three defects\<close>

text \<open>
  C33. An empty file created by other systems has no cluster: its entry's cluster number is 0. Opening it for writing
  and writing to it stores the data in sector \<open>first_data_sector - 2 * sec_per_clus\<close>, in front of
  the data area (in the table or the root directory), and reports success.
\<close>
theorem fat_write_empty_file_misplaced:
  assumes h: "get_handle h s = Some f" "f_mode f \<noteq> 0" "first_cluster f = 0" "position f = 0"
    and len: "0 < length data" "length data < 512"
  defines "s0 \<equiv> push_drive (f_drive f) s"
  defines "a \<equiv> first_data_sector (vol s0) - 2 * ucast (sec_per_clus (vol s0))"
  assumes io: "vread_ok s0 a" "vwrite_ok s0 a" "0 < sec_per_clus (vol s0)"
  shows "\<exists>f' s'. fat_write h data s = (int (length data), pop_drive (put_handle h f' s')) \<and>
    vsec s' a = splice (vsec s0 a) 0 data"
proof -
  let ?n = "of_nat (length data) :: u32"
  have n: "unat ?n = length data" using len by (intro unat_of_nat_u32) simp
  have nz: "?n \<noteq> 0" "?n < 512" using n len by (auto simp: unat_eq_zero [symmetric] word_less_nat_alt)
  have sec: "cluster_to_sector 0 s0 = a" by (simp add: cluster_to_sector_def a_def algebra_simps)
  let ?f1 = "f\<lparr>current_cluster := 0\<rparr>"
  have ch: "chunk_len 0 ?n = ?n" using nz by (auto simp: chunk_len_def)
  define s1 where "s1 = snd (write_sector a (splice (vsec s0 a) 0 data) (s0\<lparr>sector_buf := splice (vsec s0 a) 0 data\<rparr>))"
  have wr: "write_sector a (splice (vsec s0 a) 0 data) (s0\<lparr>sector_buf := splice (vsec s0 a) 0 data\<rparr>) = (True, s1)"
    using io by (simp add: prod_eq_iff s1_def)
  have l: "write_loop ?n data 0 ?f1 s0 = (?n, advance ?n ?f1, s1)"
    using nz io h(4) n by (subst write_loop.simps) (simp add: sec Let_def ch wr write_loop.simps [of 0])
  have "fat_write h data s = (ret32 ?n, pop_drive (put_handle h (advance ?n ?f1) s1))"
    using h l by (simp add: fat_write_def Let_def flip: s0_def)
  moreover have "ret32 ?n = int (length data)"
    using len by (simp add: ret32_def signed_of_nat signed_take_bit_int_eq_self)
  moreover have "vsec s1 a = splice (vsec s0 a) 0 data" using io by (simp add: s1_def vsec_write_sector)
  ultimately show ?thesis by auto
qed

definition example_empty :: fat_state where
  "example_empty = example_file\<lparr>handles := example_handle\<lparr>first_cluster := 0, position := 0, f_size := 0\<rparr> # replicate 31 zero_file\<rparr>"

text \<open>On the example volume the sector is the last one of the second table copy.\<close>

theorem fat_write_empty_file_misplaced_witness:
  "\<exists>f' s'. fat_write 0 [1, 2, 3] example_empty = (3, pop_drive (put_handle 0 f' s')) \<and>
     take 3 (vsec s' 4) = [1, 2, 3] \<and> 4 \<in> fat_region example_fat12"
proof -
  let ?f = "example_handle\<lparr>first_cluster := 0, position := 0, f_size := 0\<rparr>"
  let ?s0 = "push_drive (f_drive ?f) example_empty"
  have g: "get_handle 0 example_empty = Some ?f"
    by (simp add: get_handle_def example_empty_def example_handle_def FAT_MAX_HANDLES_def)
  have core: "volumes ?s0 = volumes example_sel" "active_drive ?s0 = active_drive example_sel" "dsk ?s0 = dsk example_sel"
    by (simp_all add: example_empty_def push_drive_def example_handle_def)
  have v: "vol ?s0 = vol example_fat12" using core_views(1) [OF core] by simp
  have io: "vread_ok ?s0 a" "vwrite_ok ?s0 a" "vsec ?s0 4 = replicate 512 0" for a
  proof -
    show "vread_ok ?s0 a" "vsec ?s0 4 = replicate 512 0" using core_views(2,3) [OF core] by simp_all
    show "vwrite_ok ?s0 a"
      by (simp add: vwrite_ok_def) (simp add: push_drive_def example_empty_def example_file_def)
  qed
  have a: "first_data_sector (vol ?s0) - 2 * ucast (sec_per_clus (vol ?s0)) = 4" unfolding v by simp
  have "\<exists>f' s'. fat_write 0 [1, 2, 3] example_empty = (int (length [1 :: u8, 2, 3]), pop_drive (put_handle 0 f' s')) \<and>
      vsec s' (first_data_sector (vol ?s0) - 2 * ucast (sec_per_clus (vol ?s0))) =
        splice (vsec ?s0 (first_data_sector (vol ?s0) - 2 * ucast (sec_per_clus (vol ?s0)))) 0 [1, 2, 3]"
  proof (rule fat_write_empty_file_misplaced [OF g])
    show "0 < sec_per_clus (vol ?s0)" unfolding v by simp
  qed (simp_all only: io, simp_all add: example_handle_def)
  moreover have "4 \<in> fat_region example_fat12"
    by (auto simp: fat_region_def fat_sec_def intro!: exI [of _ 1])
  ultimately obtain f' s' where "fat_write 0 [1, 2, 3] example_empty = (3, pop_drive (put_handle 0 f' s'))"
    "take 3 (vsec s' 4) = [1, 2, 3]" "4 \<in> fat_region example_fat12"
    unfolding a io by (auto simp: splice_def)
  then show ?thesis by blast
qed

text \<open>
  The parent entry of a directory made by \<open>fat_mkdir\<close> cannot be looked up: in a directory that
  starts with the sector \<open>fat_mkdir\<close> writes, \<open>find_in_dir\<close> of \<open>..\<close> returns and reports
  that there is no such name, because the encoder puts both dots in the wrong places. So a path
  through \<open>..\<close> never resolves.
\<close>
theorem dotdot_not_found:
  assumes "dir_at s dir (sec # secs)" "vsec s sec = new_dir_sector clus parent 0"
  shows "\<exists>ctx s'. find_in_dir dir [DOT, DOT] s = Some (ctx, s') \<and> \<not> found ctx"
proof -
  have nm: "name_to_83 [DOT, DOT] = replicate 8 SPC @ [DOT, SPC, SPC]" by code_simp
  have p: "take 11 (pad 11 [DOT] @ xs) = pad 11 [DOT]" "take 11 (pad 11 [DOT, DOT] @ xs) = pad 11 [DOT, DOT]" for xs by simp_all
  let ?b = "new_dir_sector clus parent 0"
  have len: "length (dot_entry n c) = 32" for n c
    by (simp add: dot_entry_def make_dirent_def le_bytes16_def le_bytes32_def)
  have e: "entry_at ?b 0 = dot_entry [DOT] clus" "entry_at ?b 32 = dot_entry [DOT, DOT] parent" "entry_at ?b 64 ! 0 = 0"
    by (simp_all add: new_dir_sector_def splice_def entry_at_def len)
  have t: "take 11 (dot_entry n c) = pad 11 n" for n c by (simp add: dot_entry_def make_dirent_def)
  have ne: "pad 11 [DOT] \<noteq> replicate 8 SPC @ [DOT, SPC, SPC]" "pad 11 [DOT, DOT] \<noteq> replicate 8 SPC @ [DOT, SPC, SPC]" by code_simp+
  have sl: "dir_slots s (sec # secs) = (sec, 0, dot_entry [DOT] clus) # (sec, 32, dot_entry [DOT, DOT] parent) #
      (sec, 64, entry_at ?b 64) # drop 3 (sector_slots s sec) @ dir_slots s secs"
    by (simp add: dir_slots_def sector_slots_def assms(2) upt_conv_Cons e)
  have "dir_lookup (name_to_83 [DOT, DOT]) (dir_slots s (sec # secs)) = None"
    unfolding sl nm dir_lookup_def using e(3) ne t by (auto simp: matches83_def)
  then show ?thesis using find_in_dir_result [OF assms(1), of "[DOT, DOT]"] by auto
qed

text \<open>
  Changing into a subdirectory when the current path already has 259 characters: the call succeeds and
  clears the volume's floppy flag, because the terminator is stored one byte past the path buffer. From then on
  a floppy volume reads and writes the ATA disk.
\<close>
theorem fat_chdir_long_path_clears_fdc:
  assumes "parse_drive_letter path s = (None, path)" "\<not> is_sep (cch path 0)"
    "length (cwd_path (vol s)) = 259" "active_drive s < length (volumes s)" "fat_chdir path s = Some (0, s')"
  shows "\<not> use_fdc (vol s') \<and> vol_dev (vol s') = ATA (drive_id (vol s))"
proof -
  obtain dir name s1 where r: "resolve_parent path s = Some (dir, name, s1)"
    using assms by (auto simp: fat_chdir_def Let_def push_opt_def pop_opt_def Option.bind_eq_Some_conv split: if_splits)
  obtain ctx s2 where f: "find_in_dir dir name s1 = Some (ctx, s2)"
    and s': "s' = set_cwd (de_cluster (ctx_result ctx s2)) (cwd_after path (cwd_path (vol s2))) s2"
    using assms r by (auto simp: fat_chdir_def Let_def push_opt_def pop_opt_def Option.bind_eq_Some_conv split: if_splits)
  have b: "buf_only s s2" using buf_only_trans [OF resolve_parent_buf [OF r] find_in_dir_buf [OF f]] .
  note fl = buf_only_fields [OF b] buf_only_views(1) [OF b]
  have "length (cwd_after path (cwd_path (vol s2))) = FAT_MAX_PATH"
    using assms(2,3) fl by (simp add: cwd_after_def FAT_MAX_PATH_def)
  then show ?thesis
    using assms(4) fl by (simp add: s' set_cwd_def set_vol_def vol_def vol_dev_def)
qed

text \<open>A floppy with a directory \<open>AB.T\<close> and a current path of 259 characters.\<close>

definition example_floppy :: fat_state where
  "example_floppy = set_vol (\<lambda>v. v\<lparr>use_fdc := True, cwd_path := replicate 259 0x41\<rparr>)
     (example_tree\<lparr>dsk := \<lparr>sectors = \<lambda>d a. if a = 68 then example_entry2[11 := 0x10] @ replicate 480 0 else replicate 512 0,
       rd_err = \<lambda>d a. False, wr_err = \<lambda>d a. False\<rparr>\<rparr>)"

lemma example_floppy_chdir: "map_option fst (fat_chdir [0x61, 0x62, DOT, 0x74] example_floppy) = Some 0"
  by code_simp

theorem fat_chdir_long_path_clears_fdc_witness:
  "use_fdc (vol example_floppy) \<and>
   (\<exists>s'. fat_chdir [0x61, 0x62, DOT, 0x74] example_floppy = Some (0, s') \<and> \<not> use_fdc (vol s'))"
proof -
  obtain s' where s': "fat_chdir [0x61, 0x62, DOT, 0x74] example_floppy = Some (0, s')"
    using example_floppy_chdir by (cases "fat_chdir [0x61, 0x62, DOT, 0x74] example_floppy") auto
  have "parse_drive_letter [0x61, 0x62, DOT, 0x74] example_floppy = (None, [0x61, 0x62, DOT, 0x74])"
    by (simp add: parse_drive_letter_def cch_def)
  moreover have "use_fdc (vol example_floppy)" "length (cwd_path (vol example_floppy)) = 259"
    "active_drive example_floppy < length (volumes example_floppy)" by code_simp+
  ultimately show ?thesis
    using fat_chdir_long_path_clears_fdc [OF _ _ _ _ s'] s' by (simp add: cch_def is_sep_def)
qed

theorem dotdot_not_found_witness:
  "\<exists>ctx s'. find_in_dir 0 [DOT, DOT] (example_tree\<lparr>dsk := \<lparr>sectors = \<lambda>d a. new_dir_sector 2 0 0,
       rd_err = \<lambda>d a. False, wr_err = \<lambda>d a. False\<rparr>\<rparr>) = Some (ctx, s') \<and> \<not> found ctx"
proof -
  let ?s = "example_tree\<lparr>dsk := \<lparr>sectors = \<lambda>d a. new_dir_sector 2 0 0, rd_err = \<lambda>d a. False, wr_err = \<lambda>d a. False\<rparr>\<rparr>"
  have v: "vol ?s = vol example_fat12" by (simp add: vol_def) (simp add: example_tree_def)
  have len: "length (new_dir_sector 2 0 0) = 512"
    by (simp add: new_dir_sector_def splice_def dot_entry_def make_dirent_def le_bytes16_def le_bytes32_def)
  have s: "vsec ?s a = new_dir_sector 2 0 0" "vread_ok ?s a" "vwrite_ok ?s a" for a
    by (simp_all add: vsec_def vread_ok_def vwrite_ok_def)
  have "dir_at ?s 0 [5]"
    by (simp add: dir_at_def fat_ok_def root_sectors_def s len v del: example_tree_vol)
  then show ?thesis by (rule dotdot_not_found) (rule s(1))
qed

end
