(* ===== verification/Fat_Mount.thy ===== *)
theory Fat_Mount
  imports Fat_Rw
begin

text \<open>
  Mounting: the BPB parser \<^verbatim>\<open>fat_mount_internal\<close> and the volume accessors of
  src/src/kernel/fat.c, and the discovery of src/src/kernel/mount.c, which walks each
  ATA drive's partition table. The drive inventory (\<^verbatim>\<open>ata_get_drive\<close>,
  \<^verbatim>\<open>fdc_detect\<close>) is probed from hardware and is a parameter.

  \<^const>\<open>None\<close> stands for the divide fault the CPU raises when the boot sector gives 0 sectors
  per cluster.
\<close>

section \<open>The boot sector\<close>

definition looks_like_mbr :: "u8 list \<Rightarrow> bool" where
  "looks_like_mbr boot =
     (\<not> (boot ! 0 = 0xEB \<and> boot ! 2 = 0x90) \<and> boot ! 0 \<noteq> 0xE9 \<and> boot ! 510 = 0x55 \<and> boot ! 511 = 0xAA)"

text \<open>The layout computed from the BPB, before and after the sector-size check.\<close>

definition bpb_head :: "u8 list \<Rightarrow> fat_volume \<Rightarrow> fat_volume" where
  "bpb_head boot v = v\<lparr>bytes_per_sec := ucast (le16 boot 0x0B), sec_per_clus := boot ! 0x0D,
     reserved_secs := ucast (le16 boot 0x0E), num_fats := boot ! 0x10, root_entry_cnt := ucast (le16 boot 0x11)\<rparr>"

definition bpb_fat_size :: "u8 list \<Rightarrow> u32" where
  "bpb_fat_size boot = (if le16 boot 0x16 = 0 then le32 boot 0x24 else le16 boot 0x16)"

definition bpb_total_secs :: "u8 list \<Rightarrow> u32" where
  "bpb_total_secs boot = (if le16 boot 0x13 = 0 then le32 boot 0x20 else le16 boot 0x13)"

definition bpb_layout :: "u8 list \<Rightarrow> fat_volume \<Rightarrow> fat_volume" where
  "bpb_layout boot v =
     (let fat_sz = bpb_fat_size boot;
          total_secs = bpb_total_secs boot;
          bps = ucast (bytes_per_sec v);
          root_dir_secs = (ucast (root_entry_cnt v) * 32 + (bps - 1)) div bps;
          res = ucast (reserved_secs v);
          fats = ucast (num_fats v) * fat_sz;
          data_secs = total_secs - res - fats - root_dir_secs;
          cc = data_secs div ucast (sec_per_clus v);
          ty = (if cc < 4085 then 12 else if cc < 65525 then 16 else 32)
      in v\<lparr>fat_size := fat_sz, total_sectors := total_secs, root_dir_sectors := root_dir_secs,
           first_fat_sector := res, root_dir_sector := res + fats,
           first_data_sector := (if ty = 32 then res + fats else res + fats + root_dir_secs),
           cluster_count := cc, fat_type := ty,
           root_cluster := (if ty = 32 then le32 boot 0x2C else 0)\<rparr>)"

definition finish_mount :: "fat_state \<Rightarrow> fat_state" where
  "finish_mount s =
     (let s1 = (if handles_initialized s then s
                else s\<lparr>handles := map (\<lambda>h. h\<lparr>active := False\<rparr>) (handles s), handles_initialized := True\<rparr>)
      in set_vol (\<lambda>v. v\<lparr>cwd_cluster := root_cluster v, cwd_path := [SLASH], mounted := True\<rparr>) s1)"

definition parse_bpb :: "u8 list \<Rightarrow> fat_state \<Rightarrow> (int \<times> fat_state) option" where
  "parse_bpb boot s =
     (let s1 = set_vol (bpb_head boot) s
      in if bytes_per_sec (vol s1) \<noteq> 512 then Some (-1, s1)
         else if sec_per_clus (vol s1) = 0 then None
         else Some (0, finish_mount (set_vol (bpb_layout boot) s1)))"

definition fat_mount_internal :: "fat_state \<Rightarrow> (int \<times> fat_state) option" where
  "fat_mount_internal s =
     (case read_sector 0 (stack_buf s) s of (ok, boot) \<Rightarrow>
        if \<not> ok then Some (-1, s)
        else let p1_lba = le32 boot (0x1BE + 8); p1_type = boot ! (0x1BE + 4)
             in if looks_like_mbr boot \<and> p1_lba > 0 \<and> p1_type \<noteq> 0 then
                  (let s1 = set_vol (\<lambda>v. v\<lparr>partition_lba := p1_lba\<rparr>) s
                   in case read_sector 0 boot s1 of (ok2, boot2) \<Rightarrow>
                        if \<not> ok2 then Some (-1, s1) else parse_bpb boot2 s1)
                else parse_bpb boot s)"

section \<open>Mounting a drive\<close>

definition fat_mount_fdc :: "fat_state \<Rightarrow> (int \<times> fat_state) option" where
  "fat_mount_fdc s =
     (let prev = active_drive s;
          s1 = set_vol (\<lambda>v. v\<lparr>use_fdc := True, drive_id := 0, partition_lba := 0\<rparr>) (s\<lparr>active_drive := FAT_DRIVE_A\<rparr>)
      in map_option (\<lambda>(r, s2). (r, s2\<lparr>active_drive := prev\<rparr>)) (fat_mount_internal s1))"

definition fat_mount_ata :: "nat \<Rightarrow> u8 \<Rightarrow> u32 \<Rightarrow> fat_state \<Rightarrow> (int \<times> fat_state) option" where
  "fat_mount_ata drive ata_id lba s =
     (let prev = active_drive s;
          s1 = set_vol (\<lambda>v. v\<lparr>use_fdc := False, drive_id := ata_id, partition_lba := lba\<rparr>) (s\<lparr>active_drive := drive\<rparr>)
      in map_option (\<lambda>(r, s2). (r, s2\<lparr>active_drive := prev\<rparr>)) (fat_mount_internal s1))"

definition fat_mount :: "u8 \<Rightarrow> u32 \<Rightarrow> fat_state \<Rightarrow> (int \<times> fat_state) option" where
  "fat_mount drive lba s = fat_mount_ata FAT_DRIVE_C drive lba s"

section \<open>Discovery\<close>

definition MBR_PART_TABLE_OFF :: nat where "MBR_PART_TABLE_OFF = 0x1BE"
definition MBR_PART_ENTRY_SIZE :: nat where "MBR_PART_ENTRY_SIZE = 16"
definition MBR_PART_COUNT :: nat where "MBR_PART_COUNT = 4"
definition ATA_MAX_DRIVES :: nat where "ATA_MAX_DRIVES = 4"

definition is_fat_partition_type :: "u8 \<Rightarrow> bool" where
  "is_fat_partition_type t = (t = 0x01 \<or> t = 0x04 \<or> t = 0x06 \<or> t = 0x0B \<or> t = 0x0C \<or> t = 0x0E)"

text \<open>
  Letters are drive indices here (A is 0). The loop over the partition entries, with the
  next letter and the number of volumes mounted so far.
\<close>

fun walk_entries :: "u8 \<Rightarrow> u8 list \<Rightarrow> nat list \<Rightarrow> nat \<Rightarrow> int \<Rightarrow> fat_state \<Rightarrow> (int \<times> nat \<times> fat_state) option" where
  "walk_entries ata_id mbr [] letter n s = Some (n, letter, s)"
| "walk_entries ata_id mbr (i # is) letter n s =
     (let ent = drop (MBR_PART_TABLE_OFF + i * MBR_PART_ENTRY_SIZE) mbr; ty = ent ! 4
      in if ty = 0 then walk_entries ata_id mbr is letter n s
         else if \<not> is_fat_partition_type ty then walk_entries ata_id mbr is letter n s
         else if letter \<ge> FAT_MAX_DRIVES then Some (n, letter, s)
         else do {
           (r, s1) \<leftarrow> fat_mount_ata letter ata_id (le32 ent 8) s;
           if r = 0 then walk_entries ata_id mbr is (letter + 1) (n + 1) s1
           else walk_entries ata_id mbr is letter n s1
         })"

definition mount_walk_mbr :: "u8 \<Rightarrow> nat \<Rightarrow> fat_state \<Rightarrow> (int \<times> nat \<times> fat_state) option" where
  "mount_walk_mbr ata_id letter s =
     (if rd_err (dsk s) (ATA ata_id) 0 then Some (-1, letter, s)
      else let mbr = sectors (dsk s) (ATA ata_id) 0
           in if mbr ! 510 \<noteq> 0x55 \<or> mbr ! 511 \<noteq> 0xAA then Some (-1, letter, s)
              else walk_entries ata_id mbr [0..<MBR_PART_COUNT] letter 0 s)"

record ata_drive =
  present :: bool
  atapi :: bool

fun mount_drives :: "(nat \<Rightarrow> ata_drive option) \<Rightarrow> nat list \<Rightarrow> nat \<Rightarrow> fat_state \<Rightarrow> (nat \<times> fat_state) option" where
  "mount_drives drv [] letter s = Some (letter, s)"
| "mount_drives drv (i # is) letter s =
     (case drv i of
        None \<Rightarrow> mount_drives drv is letter s
      | Some d \<Rightarrow>
          if \<not> present d \<or> atapi d then mount_drives drv is letter s
          else do {
            (r, letter1, s1) \<leftarrow> mount_walk_mbr (of_nat i) letter s;
            if r \<le> 0 \<and> i = 0 \<and> letter1 < FAT_MAX_DRIVES then do {
              (r2, s2) \<leftarrow> fat_mount_ata letter1 0 0 s1;
              mount_drives drv is (if r2 = 0 then letter1 + 1 else letter1) s2
            }
            else mount_drives drv is letter1 s1
          })"

definition mount_init :: "bool \<Rightarrow> (nat \<Rightarrow> ata_drive option) \<Rightarrow> fat_state \<Rightarrow> fat_state option" where
  "mount_init fdc_detect drv s = do {
     s1 \<leftarrow> (if fdc_detect then map_option snd (fat_mount_fdc s) else Some s);
     (_, s2) \<leftarrow> mount_drives drv [0..<ATA_MAX_DRIVES] FAT_DRIVE_C s1;
     Some (if fat_is_mounted (int FAT_DRIVE_C) s2 then fat_set_drive (int FAT_DRIVE_C) s2
           else if fat_is_mounted (int FAT_DRIVE_A) s2 then fat_set_drive (int FAT_DRIVE_A) s2
           else s2)
   }"

section \<open>Correctness of the layout\<close>

lemma vol_set_vol [simp]: "active_drive s < length (volumes s) \<Longrightarrow> vol (set_vol g s) = g (vol s)"
  by (simp add: vol_def set_vol_def)

lemma set_vol_frame [simp]:
  "active_drive (set_vol g s) = active_drive s" "length (volumes (set_vol g s)) = length (volumes s)"
  "dsk (set_vol g s) = dsk s" "handles (set_vol g s) = handles s" "sector_buf (set_vol g s) = sector_buf s"
  "d \<noteq> active_drive s \<Longrightarrow> volumes (set_vol g s) ! d = volumes s ! d"
  by (simp_all add: set_vol_def)

lemma finish_mount_vol:
  "active_drive s < length (volumes s) \<Longrightarrow>
     vol (finish_mount s) = (vol s)\<lparr>cwd_cluster := root_cluster (vol s), cwd_path := [SLASH], mounted := True\<rparr>"
  by (auto simp: finish_mount_def Let_def vol_def set_vol_def)

lemma finish_mount_frame [simp]: "dsk (finish_mount s) = dsk s" "active_drive (finish_mount s) = active_drive s"
    "length (volumes (finish_mount s)) = length (volumes s)" "sector_buf (finish_mount s) = sector_buf s"
    "d \<noteq> active_drive s \<Longrightarrow> volumes (finish_mount s) ! d = volumes s ! d"
  by (simp_all add: finish_mount_def Let_def set_vol_def)

text \<open>The numbers of a BPB, as naturals, and the condition that its regions fit into the volume.\<close>

definition bpb_res :: "u8 list \<Rightarrow> nat" where "bpb_res boot = unat (le16 boot 0x0E)"
definition bpb_fats :: "u8 list \<Rightarrow> nat" where "bpb_fats boot = unat (boot ! 0x10) * unat (bpb_fat_size boot)"
definition bpb_root :: "u8 list \<Rightarrow> nat" where "bpb_root boot = (unat (le16 boot 0x11) * 32 + 511) div 512"

definition bpb_sane :: "u8 list \<Rightarrow> bool" where
  "bpb_sane boot \<longleftrightarrow> bpb_res boot + bpb_fats boot + bpb_root boot \<le> unat (bpb_total_secs boot)"

definition bpb_clusters :: "u8 list \<Rightarrow> nat" where
  "bpb_clusters boot = (unat (bpb_total_secs boot) - bpb_res boot - bpb_fats boot - bpb_root boot) div unat (boot ! 0x0D)"

lemma le16_small: "unat (le16 b i) < 65536"
proof -
  have "le16 b i = take_bit 16 (le16 b i)"
    unfolding le16_def by (rule bit_word_eqI) (auto simp: bit_simps dest: bit_imp_le_length)
  then have "unat (le16 b i) = take_bit 16 (unat (le16 b i))" by (metis unsigned_take_bit_eq)
  then show ?thesis using take_bit_nat_less_exp [of 16 "unat (le16 b i)"] by simp
qed

lemma unat_ucast16: "unat (w :: u32) < 65536 \<Longrightarrow> unat (ucast w :: u16) = unat w"
  by (simp add: unsigned_ucast_eq take_bit_nat_eq_self)

lemma bpb_numbers:
  assumes v: "v = bpb_layout boot (bpb_head boot w)" and bps: "le16 boot 0x0B = 512" and sane: "bpb_sane boot"
  shows "unat (first_fat_sector v) = bpb_res boot" "unat (root_dir_sector v) = bpb_res boot + bpb_fats boot"
    "unat (root_dir_sectors v) = bpb_root boot" "unat (cluster_count v) = bpb_clusters boot"
    "unat (first_data_sector v) = bpb_res boot + bpb_fats boot + (if fat_type v = 32 then 0 else bpb_root boot)"
proof -
  let ?res = "ucast (ucast (le16 boot 0x0E) :: u16) :: u32" and ?nf = "ucast (boot ! 0x10) :: u32"
  let ?root = "(ucast (ucast (le16 boot 0x11) :: u16) * 32 + (512 - 1)) div 512 :: u32"
  let ?T = "bpb_total_secs boot"
  have T: "bpb_res boot + bpb_fats boot + bpb_root boot < 4294967296"
    using sane unat_u32_bound [of ?T] unfolding bpb_sane_def by linarith
  have res: "unat ?res = bpb_res boot" by (simp add: bpb_res_def unat_ucast16 le16_small)
  have b: "ucast (ucast (le16 boot 0x0B) :: u16) = (512 :: u32)" by (simp add: bps)
  have r1: "unat (ucast (ucast (le16 boot 0x11) :: u16) :: u32) = unat (le16 boot 0x11)" by (simp add: unat_ucast16 le16_small)
  have "unat (ucast (ucast (le16 boot 0x11) :: u16) * 32 + (512 - 1) :: u32) = unat (le16 boot 0x11) * 32 + 511"
    using le16_small [of boot "0x11"] r1 by (simp add: unat_word_ariths)
  then have root: "unat ?root = bpb_root boot" by (simp add: bpb_root_def unat_div_u32)
  have fats: "unat (?nf * bpb_fat_size boot) = bpb_fats boot"
  proof -
    have "bpb_fats boot < 4294967296" using T by linarith
    then show ?thesis by (subst unat_mult_lem [THEN iffD1]) (simp_all add: bpb_fats_def)
  qed
  have rf: "unat (?res + ?nf * bpb_fat_size boot) = bpb_res boot + bpb_fats boot"
    using sane T res fats by (subst unat_plus_small) (simp_all add: bpb_sane_def)
  have rfr: "unat (?res + ?nf * bpb_fat_size boot + ?root) = bpb_res boot + bpb_fats boot + bpb_root boot"
    using sane T rf root by (subst unat_plus_small) (simp_all add: bpb_sane_def)
  have d1: "unat (?T - ?res) = unat ?T - bpb_res boot" using sane res by (subst unat_sub) (simp_all add: word_le_nat_alt bpb_sane_def)
  have d2: "unat (?T - ?res - ?nf * bpb_fat_size boot) = unat ?T - bpb_res boot - bpb_fats boot"
    using sane d1 fats by (subst unat_sub) (simp_all add: word_le_nat_alt bpb_sane_def)
  have d3: "unat (?T - ?res - ?nf * bpb_fat_size boot - ?root) = unat ?T - bpb_res boot - bpb_fats boot - bpb_root boot"
    using sane d2 root by (subst unat_sub) (simp_all add: word_le_nat_alt bpb_sane_def)
  show "unat (first_fat_sector v) = bpb_res boot" "unat (root_dir_sector v) = bpb_res boot + bpb_fats boot"
    "unat (root_dir_sectors v) = bpb_root boot" "unat (cluster_count v) = bpb_clusters boot"
    using res rf root d3 by (simp_all add: v bpb_layout_def bpb_head_def Let_def b bpb_clusters_def unat_div_u32)
  show "unat (first_data_sector v) = bpb_res boot + bpb_fats boot + (if fat_type v = 32 then 0 else bpb_root boot)"
    using rf rfr by (simp add: v bpb_layout_def bpb_head_def Let_def b)
qed


text \<open>A BPB for 600 sectors: 1 reserved, 2 tables of 2 sectors, 16 root entries, 1 sector per cluster.\<close>

definition example_bpb :: "u8 list" where
  "example_bpb = (replicate 512 0)[0x0C := 2, 0x0D := 1, 0x0E := 1, 0x10 := 2, 0x11 := 16, 0x13 := 0x58, 0x14 := 2, 0x16 := 2]"


text \<open>
  A boot sector that claims 0 sectors per cluster makes the mount divide by zero: no check stands
  between reading the field and the division, so booting with such a disk attached faults.
\<close>
theorem fat_mount_zero_spc_faults:
  assumes "vread_ok s 0" "\<not> looks_like_mbr (vsec s 0)" "le16 (vsec s 0) 0x0B = 512" "vsec s 0 ! 0x0D = 0"
    "active_drive s < length (volumes s)"
  shows "fat_mount_internal s = None"
  using assms by (simp add: fat_mount_internal_def parse_bpb_def Let_def bpb_head_def)

theorem fat_mount_zero_spc_faults_witness:
  "fat_mount_internal (example_fat12\<lparr>dsk := \<lparr>sectors = \<lambda>d a. example_bpb[0x0D := 0], rd_err = \<lambda>d a. False, wr_err = \<lambda>d a. False\<rparr>\<rparr>) = None"
proof (rule fat_mount_zero_spc_faults)
  let ?s = "example_fat12\<lparr>dsk := \<lparr>sectors = \<lambda>d a. example_bpb[0x0D := 0], rd_err = \<lambda>d a. False, wr_err = \<lambda>d a. False\<rparr>\<rparr>"
  show "vread_ok ?s 0" by (simp add: vread_ok_def)
  have vs: "vsec ?s 0 = example_bpb[0x0D := 0]" by (simp add: vsec_def)
  have "\<not> looks_like_mbr (example_bpb[0x0D := 0])" "le16 (example_bpb[0x0D := 0]) 0x0B = 512" "example_bpb[0x0D := 0] ! 0x0D = 0"
    by code_simp+
  then show "\<not> looks_like_mbr (vsec ?s 0)" "le16 (vsec ?s 0) 0x0B = 512" "vsec ?s 0 ! 0x0D = 0" by (simp_all only: vs not_False_eq_True)
  show "active_drive ?s < length (volumes ?s)" by code_simp
qed

section \<open>Letter assignment\<close>

text \<open>A mount touches the volume of its drive only.\<close>

definition only_vol :: "nat \<Rightarrow> fat_state \<Rightarrow> fat_state \<Rightarrow> bool" where
  "only_vol d s s' \<longleftrightarrow> active_drive s' = active_drive s \<and> dsk s' = dsk s \<and> length (volumes s') = length (volumes s) \<and>
     (\<forall>e. e \<noteq> d \<longrightarrow> volumes s' ! e = volumes s ! e)"

lemma parse_bpb_only:
  assumes "parse_bpb boot s = Some (r, s')" "active_drive s < length (volumes s)"
  shows "only_vol (active_drive s) s s' \<and> drive_id (vol s') = drive_id (vol s) \<and> use_fdc (vol s') = use_fdc (vol s) \<and>
    (r = 0 \<longrightarrow> mounted (vol s'))"
  using assms
  by (auto simp: parse_bpb_def Let_def only_vol_def finish_mount_vol bpb_head_def bpb_layout_def split: if_splits)

lemma fat_mount_internal_only:
  assumes "fat_mount_internal s = Some (r, s')" "active_drive s < length (volumes s)"
  shows "only_vol (active_drive s) s s' \<and> drive_id (vol s') = drive_id (vol s) \<and> use_fdc (vol s') = use_fdc (vol s) \<and>
    (r = 0 \<longrightarrow> mounted (vol s'))"
proof -
  let ?s1 = "set_vol (\<lambda>v. v\<lparr>partition_lba := le32 (vsec s 0) (0x1BE + 8)\<rparr>) s"
  have o1: "only_vol (active_drive s) s ?s1" by (simp add: only_vol_def)
  have "s' = s \<and> r = -1 \<or> (s' = ?s1 \<and> r = -1) \<or> (\<exists>b. parse_bpb b ?s1 = Some (r, s')) \<or> (\<exists>b. parse_bpb b s = Some (r, s'))"
    using assms(1) unfolding fat_mount_internal_def
    by (cases "vread_ok s 0"; cases "vread_ok ?s1 0") (auto simp: Let_def split: if_splits)
  then show ?thesis
    using parse_bpb_only [of _ ?s1 r s'] parse_bpb_only [of _ s r s'] assms(2) o1 by (auto simp: only_vol_def)
qed

lemma fat_mount_ata_only:
  assumes "fat_mount_ata d i lba s = Some (r, s')" "d < length (volumes s)"
  shows "only_vol d s s' \<and> drive_id (volumes s' ! d) = i \<and> \<not> use_fdc (volumes s' ! d) \<and> (r = 0 \<longrightarrow> mounted (volumes s' ! d))"
proof -
  let ?s1 = "set_vol (\<lambda>v. v\<lparr>use_fdc := False, drive_id := i, partition_lba := lba\<rparr>) (s\<lparr>active_drive := d\<rparr>)"
  obtain s2 where m: "fat_mount_internal ?s1 = Some (r, s2)" "s' = s2\<lparr>active_drive := active_drive s\<rparr>"
    using assms(1) by (auto simp: fat_mount_ata_def Let_def)
  have "vol ?s1 = (volumes s ! d)\<lparr>use_fdc := False, drive_id := i, partition_lba := lba\<rparr>"
    using assms(2) by (simp add: vol_def set_vol_def)
  moreover have "volumes ?s1 ! e = volumes s ! e" if "e \<noteq> d" for e
    using set_vol_frame(6) [of e "s\<lparr>active_drive := d\<rparr>"] that by simp
  ultimately show ?thesis
    using fat_mount_internal_only [OF m(1)] assms(2) m(2) by (auto simp: only_vol_def vol_def)
qed

definition letters_ok :: "u8 \<Rightarrow> nat \<Rightarrow> nat \<Rightarrow> fat_state \<Rightarrow> fat_state \<Rightarrow> bool" where
  "letters_ok i L L' s s' \<longleftrightarrow> L \<le> L' \<and> active_drive s' = active_drive s \<and> dsk s' = dsk s \<and>
     length (volumes s') = length (volumes s) \<and>
     (\<forall>d. d < L \<or> L' < d \<longrightarrow> volumes s' ! d = volumes s ! d) \<and>
     (\<forall>d. L \<le> d \<longrightarrow> d < L' \<longrightarrow> mounted (volumes s' ! d) \<and> drive_id (volumes s' ! d) = i \<and> \<not> use_fdc (volumes s' ! d))"

lemma walk_entries_Cons:
  "walk_entries i mbr (e # es) L n s =
     (let ent = drop (MBR_PART_TABLE_OFF + e * MBR_PART_ENTRY_SIZE) mbr
      in if ent ! 4 = 0 \<or> \<not> is_fat_partition_type (ent ! 4) then walk_entries i mbr es L n s
         else if L \<ge> FAT_MAX_DRIVES then Some (n, L, s)
         else (case fat_mount_ata L i (le32 ent 8) s of None \<Rightarrow> None
               | Some (r, s1) \<Rightarrow> if r = 0 then walk_entries i mbr es (L + 1) (n + 1) s1 else walk_entries i mbr es L n s1))"
  by (simp add: Let_def split: option.split)

lemma letters_ok_step:
  assumes "only_vol L s s1"
  shows "letters_ok i L L' s1 s' \<Longrightarrow> letters_ok i L L' s s'"
    and "\<lbrakk>letters_ok i (L + 1) L' s1 s'; mounted (volumes s1 ! L); drive_id (volumes s1 ! L) = i; \<not> use_fdc (volumes s1 ! L)\<rbrakk>
      \<Longrightarrow> letters_ok i L L' s s'"
proof -
  have e: "volumes s1 ! d = volumes s ! d" if "d \<noteq> L" for d using assms that by (simp add: only_vol_def)
  show "letters_ok i L L' s1 s' \<Longrightarrow> letters_ok i L L' s s'"
    using assms e by (auto simp: letters_ok_def only_vol_def)
  assume l: "letters_ok i (L + 1) L' s1 s'" "mounted (volumes s1 ! L)" "drive_id (volumes s1 ! L) = i" "\<not> use_fdc (volumes s1 ! L)"
  have "volumes s' ! L = volumes s1 ! L" using l(1) by (simp add: letters_ok_def)
  then have "mounted (volumes s' ! d) \<and> drive_id (volumes s' ! d) = i \<and> \<not> use_fdc (volumes s' ! d)" if "L \<le> d" "d < L'" for d
    using l that by (cases "d = L") (simp_all add: letters_ok_def)
  then show "letters_ok i L L' s s'"
    using l(1) assms e by (simp add: letters_ok_def only_vol_def)
qed

lemma walk_entries_letters:
  "walk_entries i mbr es L n s = Some (n', L', s') \<Longrightarrow> length (volumes s) = FAT_MAX_DRIVES \<Longrightarrow> L \<le> FAT_MAX_DRIVES \<Longrightarrow>
     letters_ok i L L' s s' \<and> L' \<le> FAT_MAX_DRIVES \<and> n' = n + int (L' - L)"
proof (induction es arbitrary: L n s)
  case Nil
  then show ?case by (auto simp: letters_ok_def)
next
  case (Cons e es)
  let ?ent = "drop (MBR_PART_TABLE_OFF + e * MBR_PART_ENTRY_SIZE) mbr"
  note eq = Cons.prems(1) [unfolded walk_entries_Cons Let_def]
  show ?case
  proof (cases "?ent ! 4 = 0 \<or> \<not> is_fat_partition_type (?ent ! 4)")
    case True
    then show ?thesis using Cons.IH [OF _ Cons.prems(2,3)] eq by presburger
  next
    case fat: False
    show ?thesis
    proof (cases "L \<ge> FAT_MAX_DRIVES")
      case True
      then show ?thesis using eq fat Cons.prems(3) by (auto simp: letters_ok_def)
    next
      case False
      note eq2 = eq [unfolded if_not_P [OF fat] if_not_P [OF False]]
      then obtain r s1 where m: "fat_mount_ata L i (le32 ?ent 8) s = Some (r, s1)" by (auto split: option.splits)
      have o: "only_vol L s s1" "drive_id (volumes s1 ! L) = i" "\<not> use_fdc (volumes s1 ! L)" "r = 0 \<Longrightarrow> mounted (volumes s1 ! L)"
        using fat_mount_ata_only [OF m] False Cons.prems(2) by auto
      have len: "length (volumes s1) = FAT_MAX_DRIVES" using o(1) Cons.prems(2) by (simp add: only_vol_def)
      show ?thesis
      proof (cases "r = 0")
        case True
        then have "walk_entries i mbr es (L + 1) (n + 1) s1 = Some (n', L', s')" using eq2 m by simp
        then have ih: "letters_ok i (L + 1) L' s1 s'" "L' \<le> FAT_MAX_DRIVES" "n' = n + 1 + int (L' - (L + 1))"
          using Cons.IH [OF _ len] False by auto
        moreover have "L < L'" using ih(1) by (simp add: letters_ok_def)
        ultimately show ?thesis using letters_ok_step(2) [OF o(1) ih(1)] o True by auto
      next
        case f: False
        then have "walk_entries i mbr es L n s1 = Some (n', L', s')" using eq2 m by simp
        then show ?thesis using Cons.IH [OF _ len Cons.prems(3)] letters_ok_step(1) [OF o(1)] by blast
      qed
    qed
  qed
qed


text \<open>A disk whose partition table holds one FAT12 partition, at sector 1.\<close>

definition example_mbr :: "u8 list" where
  "example_mbr = (replicate 512 0)[0x1BE + 4 := 1, 0x1BE + 8 := 1, 510 := 0x55, 511 := 0xAA]"

definition example_partitioned :: fat_state where
  "example_partitioned = fat_init \<lparr>sectors = \<lambda>d a. if a = 0 then example_mbr else example_bpb, rd_err = \<lambda>d a. False,
     wr_err = \<lambda>d a. False\<rparr> []"

end
