(* ===== verification/Dma.thy ===== *)
theory Dma
  imports Pmm
begin

text \<open>
  The bus-master DMA allocator, src/src/kernel/dma.c: a region of 256 KB at 2 MB, a bitmap with one
  bit per 16-byte unit and a table with the length of the run that starts at a unit. The bytes of the
  region are part of the state, since releasing a block clears them. The caller's interrupt flag is saved
  and restored around the walks and is not part of the state.
\<close>

section \<open>State and operations\<close>

definition DMA_REGION_BASE :: u32 where "DMA_REGION_BASE = 0x00200000"
definition DMA_REGION_SIZE :: u32 where "DMA_REGION_SIZE = 256 * 1024"
definition DMA_GRANULE :: u32 where "DMA_GRANULE = 16"
definition UNITS :: nat where "UNITS = 16384"

record dma_state =
  dma_bitmap :: bitmap8
  dma_run_units :: "nat \<Rightarrow> u16"
  dma_units_used :: u32
  dma_mem :: "u32 \<Rightarrow> u8"

definition range_free :: "nat \<Rightarrow> nat \<Rightarrow> bitmap8 \<Rightarrow> bool" where
  "range_free u n bm = (if u + n > UNITS then False else list_all (\<lambda>i. \<not> bmp_get bm (u + i)) [0..<n])"

definition range_mark_used :: "nat \<Rightarrow> nat \<Rightarrow> bitmap8 \<Rightarrow> bitmap8" where
  "range_mark_used u n bm = fold (\<lambda>i. bmp_set (u + i)) [0..<n] bm"

definition range_mark_free :: "nat \<Rightarrow> nat \<Rightarrow> bitmap8 \<Rightarrow> bitmap8" where
  "range_mark_free u n bm = fold (\<lambda>i. bmp_clr (u + i)) [0..<n] bm"

definition dma_init :: "(u32 \<Rightarrow> u8) \<Rightarrow> pmm_state \<Rightarrow> dma_state \<times> pmm_state" where
  "dma_init mem p =
     (\<lparr>dma_bitmap = (\<lambda>_. 0), dma_run_units = (\<lambda>_. 0), dma_units_used = 0, dma_mem = mem\<rparr>,
      pmm_mark_region_used DMA_REGION_BASE DMA_REGION_SIZE p)"

text \<open>The walk over the aligned units; the step of the loop is at least 1.\<close>

function dma_search :: "nat \<Rightarrow> nat \<Rightarrow> nat \<Rightarrow> bitmap8 \<Rightarrow> nat option" where
  "dma_search u units align_units bm =
     (if u > UNITS - units \<or> align_units = 0 then None
      else if range_free u units bm then Some u
      else dma_search (u + align_units) units align_units bm)"
  by pat_completeness auto
termination by (relation "measure (\<lambda>(u, units, _, _). Suc (UNITS - units) - u)") auto

declare dma_search.simps [simp del]

definition dma_units :: "u32 \<Rightarrow> nat" where
  "dma_units sz = unat ((sz + DMA_GRANULE - 1) div DMA_GRANULE)"

definition dma_align :: "u32 \<Rightarrow> u32" where
  "dma_align align = (if align = 0 then DMA_GRANULE else align)"

definition dma_args_ok :: "u32 \<Rightarrow> u32 \<Rightarrow> bool" where
  "dma_args_ok sz align \<longleftrightarrow> sz \<noteq> 0 \<and> \<not> (dma_align align < DMA_GRANULE \<or> dma_align align AND (dma_align align - 1) \<noteq> 0) \<and>
     \<not> (dma_units sz = 0 \<or> dma_units sz > UNITS) \<and> \<not> dma_units sz > 0xFFFF"

definition dma_alloc :: "u32 \<Rightarrow> u32 \<Rightarrow> dma_state \<Rightarrow> u32 \<times> dma_state" where
  "dma_alloc sz align st =
     (if \<not> dma_args_ok sz align then (0, st)
      else case dma_search 0 (dma_units sz) (unat (dma_align align div DMA_GRANULE)) (dma_bitmap st) of
        None \<Rightarrow> (0, st)
      | Some u \<Rightarrow>
          (DMA_REGION_BASE + of_nat u * DMA_GRANULE,
           st\<lparr>dma_bitmap := range_mark_used u (dma_units sz) (dma_bitmap st),
              dma_run_units := (dma_run_units st)(u := of_nat (dma_units sz)),
              dma_units_used := dma_units_used st + of_nat (dma_units sz)\<rparr>))"

definition in_region :: "u32 \<Rightarrow> bool" where
  "in_region addr \<longleftrightarrow> \<not> (addr < DMA_REGION_BASE \<or> addr \<ge> DMA_REGION_BASE + DMA_REGION_SIZE)"

definition clear_bytes :: "u32 \<Rightarrow> u32 \<Rightarrow> (u32 \<Rightarrow> u8) \<Rightarrow> u32 \<Rightarrow> u8" where
  "clear_bytes p cnt mem = (\<lambda>a. if a - p < cnt then 0 else mem a)"

definition dma_free :: "u32 \<Rightarrow> dma_state \<Rightarrow> dma_state" where
  "dma_free p st =
     (if p = 0 \<or> \<not> in_region p \<or> (p - DMA_REGION_BASE) mod DMA_GRANULE \<noteq> 0 then st
      else let u = unat ((p - DMA_REGION_BASE) div DMA_GRANULE); n = dma_run_units st u
           in if n = 0 then st
              else st\<lparr>dma_mem := clear_bytes p (ucast n * DMA_GRANULE) (dma_mem st),
                      dma_bitmap := range_mark_free u (unat n) (dma_bitmap st),
                      dma_run_units := (dma_run_units st)(u := 0),
                      dma_units_used := dma_units_used st - ucast n\<rparr>)"

definition dma_virt_to_phys :: "u32 \<Rightarrow> u32" where
  "dma_virt_to_phys p = (if in_region p then p else 0)"

definition dma_free_bytes :: "dma_state \<Rightarrow> u32" where
  "dma_free_bytes st = (of_nat UNITS - dma_units_used st) * DMA_GRANULE"

section \<open>Blocks and the invariant\<close>

text \<open>The specification the allocator implements: a set of disjoint unit intervals.\<close>

definition dma_blocks :: "dma_state \<Rightarrow> (nat \<times> nat) set" where
  "dma_blocks st = {(u, n). u < UNITS \<and> dma_run_units st u \<noteq> 0 \<and> n = unat (dma_run_units st u)}"

definition units_of :: "nat \<times> nat \<Rightarrow> nat set" where
  "units_of b = {fst b..<fst b + snd b}"

definition dma_inv :: "dma_state \<Rightarrow> bool" where
  "dma_inv st \<longleftrightarrow> (\<forall>b \<in> dma_blocks st. fst b + snd b \<le> UNITS) \<and>
     (\<forall>b \<in> dma_blocks st. \<forall>c \<in> dma_blocks st. b \<noteq> c \<longrightarrow> units_of b \<inter> units_of c = {}) \<and>
     (\<forall>v < UNITS. bmp_get (dma_bitmap st) v \<longleftrightarrow> v \<in> \<Union> (units_of ` dma_blocks st)) \<and>
     unat (dma_units_used st) = (\<Sum>b \<in> dma_blocks st. snd b)"

lemma dma_blocks_finite [simp]: "finite (dma_blocks st)"
proof (rule finite_subset)
  show "dma_blocks st \<subseteq> (\<lambda>u. (u, unat (dma_run_units st u))) ` {..<UNITS}" by (auto simp: dma_blocks_def)
qed simp

lemma range_mark_used_get [simp]: "bmp_get (range_mark_used u n bm) v \<longleftrightarrow> v \<in> {u..<u + n} \<or> bmp_get bm v"
  unfolding range_mark_used_def by (induction n) (auto simp: less_Suc_eq)

lemma range_mark_free_get [simp]: "bmp_get (range_mark_free u n bm) v \<longleftrightarrow> v \<notin> {u..<u + n} \<and> bmp_get bm v"
  unfolding range_mark_free_def by (induction n) (auto simp: less_Suc_eq)

lemma range_free_iff: "range_free u n bm \<longleftrightarrow> u + n \<le> UNITS \<and> (\<forall>v \<in> {u..<u + n}. \<not> bmp_get bm v)"
proof -
  have "(\<forall>i < n. \<not> bmp_get bm (u + i)) \<longleftrightarrow> (\<forall>v \<in> {u..<u + n}. \<not> bmp_get bm v)"
    by (metis add_less_cancel_left atLeastLessThan_iff le_Suc_ex le_add1)
  then show ?thesis by (auto simp: range_free_def list_all_iff)
qed

lemma dma_search_Some:
  "dma_search u n a bm = Some v \<Longrightarrow> range_free v n bm \<and> (\<exists>k. v = u + k * a) \<and>
     (\<forall>k. u + k * a < v \<longrightarrow> \<not> range_free (u + k * a) n bm)"
proof (induction u n a bm rule: dma_search.induct)
  case (1 u n a bm)
  show ?case
  proof (cases "range_free u n bm")
    case True
    then show ?thesis using "1.prems" by (subst (asm) dma_search.simps) (auto split: if_splits intro: exI [of _ 0])
  next
    case False
    then have s: "dma_search (u + a) n a bm = Some v" "\<not> (u > UNITS - n \<or> a = 0)"
      using "1.prems" by (subst (asm) dma_search.simps, simp split: if_splits)+
    note ih = "1.IH" [OF s(2) False s(1)]
    obtain k where "v = u + a + k * a" using ih by blast
    then have "v = u + Suc k * a" by simp
    moreover have "\<not> range_free (u + k * a) n bm" if "u + k * a < v" for k
      using that False ih by (cases k) (auto simp: add.assoc)
    ultimately show ?thesis using ih by blast
  qed
qed

lemma dma_search_None:
  "dma_search u n a bm = None \<Longrightarrow> 0 < a \<Longrightarrow> n \<le> UNITS \<Longrightarrow> \<not> range_free (u + k * a) n bm"
proof (induction u n a bm arbitrary: k rule: dma_search.induct)
  case (1 u n a bm)
  show ?case
  proof (cases "u > UNITS - n")
    case True
    then show ?thesis using "1.prems"(3) by (auto simp: range_free_iff)
  next
    case False
    then have f: "\<not> range_free u n bm" "dma_search (u + a) n a bm = None"
      using "1.prems" by (subst (asm) dma_search.simps, simp split: if_splits)+
    show ?thesis
    proof (cases k)
      case (Suc j)
      then show ?thesis using "1.IH" [OF _ f "1.prems"(2,3), of j] False "1.prems"(2) by (simp add: add.assoc)
    qed (use f in simp)
  qed
qed


lemma power2_word:
  fixes w :: u32
  assumes "w \<noteq> 0" "w AND (w - 1) = 0"
  shows "\<exists>k. unat w = 2 ^ k"
proof -
  obtain k where k: "2 ^ k \<le> unat w" "unat w < 2 ^ Suc k"
    using ex_power_ivl1 [of 2 "unat w"] assms(1) by (auto simp: unat_gt_0 Suc_leI word_neq_0_conv)
  have bitk: "bit v k" if "2 ^ k \<le> unat v" "unat v < 2 ^ Suc k" for v :: u32
  proof -
    have "unat v div 2 ^ k = 1" using that by (simp add: div_nat_eqI)
    then have "bit (unat v) k" by (simp add: bit_iff_odd)
    then show ?thesis by (simp add: bit_unsigned_iff)
  qed
  have "unat w = 2 ^ k"
  proof (rule ccontr)
    assume "unat w \<noteq> 2 ^ k"
    moreover have "unat (w - 1) = unat w - 1" using assms(1) by (simp add: unat_minus_one)
    ultimately have "bit (w - 1) k" using k by (intro bitk) auto
    then have "bit (w AND (w - 1)) k" using bitk [OF k] by (simp add: bit_and_iff)
    then show False using assms(2) by simp
  qed
  then show ?thesis by blast
qed

lemma dma_claim_inv:
  assumes inv: "dma_inv st" and fr: "range_free u n (dma_bitmap st)" and n: "0 < n" "n \<le> UNITS"
  defines "st' \<equiv> st\<lparr>dma_bitmap := range_mark_used u n (dma_bitmap st), dma_run_units := (dma_run_units st)(u := of_nat n),
      dma_units_used := dma_units_used st + of_nat n\<rparr>"
  shows "dma_blocks st' = insert (u, n) (dma_blocks st)" "dma_inv st'" "\<forall>b \<in> dma_blocks st. units_of (u, n) \<inter> units_of b = {}"
proof -
  have nw: "unat (of_nat n :: u16) = n" using n by (simp add: unat_of_nat_small UNITS_def)
  have f: "u + n \<le> UNITS" "\<And>v. v \<in> {u..<u + n} \<Longrightarrow> \<not> bmp_get (dma_bitmap st) v" using fr by (auto simp: range_free_iff)
  have out: "v \<notin> \<Union> (units_of ` dma_blocks st)" if "v \<in> {u..<u + n}" for v
    using inv f(1) f(2) [OF that] that by (auto simp: dma_inv_def)
  have fresh: "dma_run_units st u = 0"
  proof (rule ccontr)
    assume "dma_run_units st u \<noteq> 0"
    then have "(u, unat (dma_run_units st u)) \<in> dma_blocks st" "0 < unat (dma_run_units st u)"
      using f(1) n by (auto simp: dma_blocks_def unat_gt_0 word_neq_0_conv)
    then have "u \<in> \<Union> (units_of ` dma_blocks st)" by (fastforce simp: units_of_def)
    then show False using out [of u] n by simp
  qed
  have "(of_nat n :: u16) \<noteq> 0" using nw n by (metis unat_0 less_not_refl)
  then show b: "dma_blocks st' = insert (u, n) (dma_blocks st)"
    using fresh nw f(1) n by (auto simp: dma_blocks_def st'_def split: if_splits)
  show d: "\<forall>b \<in> dma_blocks st. units_of (u, n) \<inter> units_of b = {}"
  proof -
    have "units_of (u, n) = {u..<u + n}" by (simp add: units_of_def)
    then show ?thesis using out by blast
  qed
  have new: "(u, n) \<notin> dma_blocks st" using fresh by (simp add: dma_blocks_def)
  have sum: "(\<Sum>b \<in> dma_blocks st'. snd b) = n + (\<Sum>b \<in> dma_blocks st. snd b)"
    using new by (simp add: b)
  have dj: "\<forall>c \<in> dma_blocks st'. \<forall>e \<in> dma_blocks st'. c \<noteq> e \<longrightarrow> units_of c \<inter> units_of e = {}"
    using inv d unfolding b dma_inv_def by (metis Int_commute insertE)
  then have "card (\<Union> (units_of ` dma_blocks st')) = (\<Sum>c \<in> dma_blocks st'. card (units_of c))"
    by (intro card_UN_disjoint) (auto simp: units_of_def)
  moreover have "\<Union> (units_of ` dma_blocks st') \<subseteq> {..<UNITS}"
    using inv f(1) by (fastforce simp: b units_of_def dma_inv_def)
  ultimately have le: "(\<Sum>b \<in> dma_blocks st'. snd b) \<le> UNITS"
    using card_mono [of "{..<UNITS}" "\<Union> (units_of ` dma_blocks st')"] by (simp add: units_of_def)
  have used: "unat (dma_units_used st') = (\<Sum>b \<in> dma_blocks st'. snd b)"
  proof -
    have "dma_units_used st' = dma_units_used st + of_nat n" by (simp add: st'_def)
    moreover have "unat (dma_units_used st) = (\<Sum>b \<in> dma_blocks st. snd b)" using inv by (simp add: dma_inv_def)
    ultimately show ?thesis
      using le n unfolding sum by (simp add: unat_word_ariths unat_of_nat_u32 UNITS_def)
  qed
  have bm: "dma_bitmap st' = range_mark_used u n (dma_bitmap st)" by (simp add: st'_def)
  show "dma_inv st'"
    unfolding dma_inv_def
  proof (intro conjI dj used)
    show "\<forall>v < UNITS. bmp_get (dma_bitmap st') v \<longleftrightarrow> v \<in> \<Union> (units_of ` dma_blocks st')"
      using inv unfolding b bm by (simp add: dma_inv_def units_of_def)
  qed (use inv f(1) in \<open>auto simp: b dma_inv_def\<close>)
qed

lemma dma_release_inv:
  assumes inv: "dma_inv st" and b: "(u, n) \<in> dma_blocks st"
    and bm: "dma_bitmap st' = range_mark_free u n (dma_bitmap st)" and run: "dma_run_units st' = (dma_run_units st)(u := 0)"
    and us: "dma_units_used st' = dma_units_used st - of_nat n"
  shows "dma_blocks st' = dma_blocks st - {(u, n)}" "dma_inv st'"
proof -
  have n: "n = unat (dma_run_units st u)" "u < UNITS" using b by (auto simp: dma_blocks_def)
  show blk: "dma_blocks st' = dma_blocks st - {(u, n)}"
    using n by (auto simp: dma_blocks_def run split: if_splits)
  have sum: "(\<Sum>c \<in> dma_blocks st. snd c) = n + (\<Sum>c \<in> dma_blocks st'. snd c)"
    using sum.remove [OF dma_blocks_finite b, of snd] by (simp add: blk)
  have nb: "n < 65536" by (simp add: n)
  have "(of_nat n :: u32) \<le> dma_units_used st"
    using inv sum nb by (simp add: word_le_nat_alt dma_inv_def unat_of_nat_u32)
  then have used: "unat (dma_units_used st') = (\<Sum>c \<in> dma_blocks st'. snd c)"
    using inv sum nb by (simp add: us unat_sub dma_inv_def unat_of_nat_u32)
  have "units_of c \<inter> units_of (u, n) = {}" if "c \<in> dma_blocks st'" for c
    using that inv b unfolding blk dma_inv_def by blast
  then have "v \<notin> {u..<u + n} \<and> v \<in> \<Union> (units_of ` dma_blocks st) \<longleftrightarrow> v \<in> \<Union> (units_of ` dma_blocks st')" for v
    unfolding blk by (fastforce simp: units_of_def)
  then have "\<forall>v < UNITS. bmp_get (dma_bitmap st') v \<longleftrightarrow> v \<in> \<Union> (units_of ` dma_blocks st')"
    using inv by (simp add: bm dma_inv_def)
  moreover have "\<forall>c \<in> dma_blocks st'. fst c + snd c \<le> UNITS"
    "\<forall>c \<in> dma_blocks st'. \<forall>d \<in> dma_blocks st'. c \<noteq> d \<longrightarrow> units_of c \<inter> units_of d = {}"
    using inv unfolding blk dma_inv_def by simp_all
  ultimately show "dma_inv st'" using used unfolding dma_inv_def by blast
qed

definition unit_addr :: "nat \<Rightarrow> u32" where
  "unit_addr u = DMA_REGION_BASE + of_nat u * DMA_GRANULE"

lemma unat_unit_addr: "u < UNITS \<Longrightarrow> unat (unit_addr u) = 0x200000 + 16 * u"
  by (simp add: unit_addr_def DMA_REGION_BASE_def DMA_GRANULE_def UNITS_def unat_word_ariths unat_of_nat_u32)

lemma unit_addr_region: "u < UNITS \<Longrightarrow> in_region (unit_addr u) \<and> unit_addr u \<noteq> 0"
  using unat_unit_addr [of u]
  by (auto simp: in_region_def word_less_nat_alt word_le_nat_alt DMA_REGION_BASE_def DMA_REGION_SIZE_def UNITS_def)

lemma unit_addr_unit:
  assumes "u < UNITS"
  shows "unat ((unit_addr u - DMA_REGION_BASE) div DMA_GRANULE) = u" "(unit_addr u - DMA_REGION_BASE) mod DMA_GRANULE = 0"
proof -
  have "unat (of_nat u * DMA_GRANULE) = u * 16"
    using assms by (simp add: DMA_GRANULE_def UNITS_def unat_word_ariths unat_of_nat_u32)
  then show "unat ((unit_addr u - DMA_REGION_BASE) div DMA_GRANULE) = u" "(unit_addr u - DMA_REGION_BASE) mod DMA_GRANULE = 0"
    by (simp_all add: unit_addr_def unat_div_u32 DMA_GRANULE_def word_arith_nat_mod)
qed

lemma region_unit:
  assumes "in_region p" "(p - DMA_REGION_BASE) mod DMA_GRANULE = 0"
  shows "p = unit_addr (unat ((p - DMA_REGION_BASE) div DMA_GRANULE))" "unat ((p - DMA_REGION_BASE) div DMA_GRANULE) < UNITS"
proof -
  have p: "0x200000 \<le> unat p" "unat p < 0x240000"
    using assms(1) by (auto simp: in_region_def word_less_nat_alt word_le_nat_alt DMA_REGION_BASE_def DMA_REGION_SIZE_def)
  then have d: "unat (p - DMA_REGION_BASE) = unat p - 0x200000"
    by (simp add: DMA_REGION_BASE_def unat_sub word_le_nat_alt)
  then show u: "unat ((p - DMA_REGION_BASE) div DMA_GRANULE) < UNITS"
    using p by (simp add: unat_div_u32 DMA_GRANULE_def UNITS_def)
  have "unat ((p - DMA_REGION_BASE) mod DMA_GRANULE) = 0" using assms(2) by simp
  then have "(unat p - 0x200000) mod 16 = 0" unfolding unat_mod d by (simp add: DMA_GRANULE_def)
  then have "unat p = 0x200000 + 16 * ((unat p - 0x200000) div 16)" using p by presburger
  then have "unat p = unat (unit_addr (unat ((p - DMA_REGION_BASE) div DMA_GRANULE)))"
    unfolding unat_unit_addr [OF u] by (simp add: unat_div_u32 d DMA_GRANULE_def)
  then show "p = unit_addr (unat ((p - DMA_REGION_BASE) div DMA_GRANULE))" by (simp only: unsigned_word_eqI)
qed

text \<open>Releasing either ignores the pointer or removes the block that starts there.\<close>

lemma dma_free_cases:
  obtains "dma_free p st = st" "\<And>u n. (u, n) \<in> dma_blocks st \<Longrightarrow> p \<noteq> unit_addr u"
  | u n where "(u, n) \<in> dma_blocks st" "p = unit_addr u"
      "dma_bitmap (dma_free p st) = range_mark_free u n (dma_bitmap st)"
      "dma_run_units (dma_free p st) = (dma_run_units st)(u := 0)"
      "dma_units_used (dma_free p st) = dma_units_used st - of_nat n"
      "dma_mem (dma_free p st) = clear_bytes p (of_nat n * DMA_GRANULE) (dma_mem st)"
proof -
  let ?u = "unat ((p - DMA_REGION_BASE) div DMA_GRANULE)"
  let ?g = "p \<noteq> 0 \<and> in_region p \<and> (p - DMA_REGION_BASE) mod DMA_GRANULE = 0 \<and> dma_run_units st ?u \<noteq> 0"
  show ?thesis
  proof (cases ?g)
    case True
    have c: "(ucast (dma_run_units st ?u) :: u32) = of_nat (unat (dma_run_units st ?u))"
      by (rule unsigned_word_eqI) (simp add: unat_of_nat_u32)
    have "(?u, unat (dma_run_units st ?u)) \<in> dma_blocks st" using True region_unit(2) by (simp add: dma_blocks_def)
    then show ?thesis using True region_unit(1) c by (intro that(2)) (auto simp: dma_free_def Let_def)
  next
    case False
    then have "dma_free p st = st" by (auto simp: dma_free_def Let_def)
    moreover have "p \<noteq> unit_addr u" if "(u, n) \<in> dma_blocks st" for u n
    proof
      assume p: "p = unit_addr u"
      have "u < UNITS" "dma_run_units st u \<noteq> 0" using that by (auto simp: dma_blocks_def)
      then show False using False unit_addr_region unit_addr_unit by (simp add: p)
    qed
    ultimately show ?thesis by (rule that(1))
  qed
qed

lemma dma_free_inv: "dma_inv st \<Longrightarrow> dma_inv (dma_free p st)"
  by (rule dma_free_cases [of p st]) (auto intro: dma_release_inv(2))

section \<open>What the allocator promises\<close>

text \<open>A request has a place when some aligned run of units is free.\<close>

definition align_units :: "u32 \<Rightarrow> nat" where
  "align_units align = unat (dma_align align div DMA_GRANULE)"

definition dma_place :: "u32 \<Rightarrow> u32 \<Rightarrow> dma_state \<Rightarrow> nat \<Rightarrow> bool" where
  "dma_place sz align st u \<longleftrightarrow> align_units align dvd u \<and> u + dma_units sz \<le> UNITS \<and>
     (\<forall>b \<in> dma_blocks st. units_of (u, dma_units sz) \<inter> units_of b = {})"

lemma range_free_place:
  assumes "dma_inv st"
  shows "align_units align dvd u \<and> range_free u (dma_units sz) (dma_bitmap st) \<longleftrightarrow> dma_place sz align st u"
proof -
  have "(\<forall>v \<in> {u..<u + dma_units sz}. \<not> bmp_get (dma_bitmap st) v) \<longleftrightarrow>
      (\<forall>b \<in> dma_blocks st. units_of (u, dma_units sz) \<inter> units_of b = {})" if "u + dma_units sz \<le> UNITS"
  proof -
    have "(\<forall>v \<in> {u..<u + dma_units sz}. \<not> bmp_get (dma_bitmap st) v) \<longleftrightarrow>
        (\<forall>v \<in> {u..<u + dma_units sz}. v \<notin> \<Union> (units_of ` dma_blocks st))"
      using assms that by (intro ball_cong) (auto simp: dma_inv_def)
    also have "\<dots> \<longleftrightarrow> (\<forall>b \<in> dma_blocks st. units_of (u, dma_units sz) \<inter> units_of b = {})"
      unfolding units_of_def [of "(u, dma_units sz)"] by auto
    finally show ?thesis .
  qed
  then show ?thesis unfolding dma_place_def range_free_iff by blast
qed

lemma dma_align_ok:
  assumes "dma_args_ok sz align"
  shows "\<exists>k. unat (dma_align align) = 2 ^ k" "unat (dma_align align) = 16 * align_units align" "0 < align_units align"
    "0 < dma_units sz" "dma_units sz \<le> UNITS"
proof -
  have a: "16 \<le> unat (dma_align align)" "dma_align align AND (dma_align align - 1) = 0"
    using assms by (auto simp: dma_args_ok_def DMA_GRANULE_def word_less_nat_alt)
  show k: "\<exists>k. unat (dma_align align) = 2 ^ k"
    using power2_word [OF _ a(2)] a(1) by fastforce
  then obtain k where k: "unat (dma_align align) = 2 ^ k" by blast
  then have "\<not> k < 4" using a(1) power_strict_increasing [of k 4 "2 :: nat"] by auto
  then have "(2::nat) ^ 4 dvd 2 ^ k" by (intro le_imp_power_dvd) simp
  then show "unat (dma_align align) = 16 * align_units align"
    using k by (simp add: align_units_def unat_div_u32 DMA_GRANULE_def)
  then show "0 < align_units align" using a(1) by simp
  show "0 < dma_units sz" "dma_units sz \<le> UNITS" using assms by (auto simp: dma_args_ok_def)
qed

lemma dma_alloc_None:
  assumes "dma_inv st" "dma_args_ok sz align" "dma_search 0 (dma_units sz) (align_units align) (dma_bitmap st) = None"
  shows "\<not> dma_place sz align st u"
proof
  assume p: "dma_place sz align st u"
  then obtain k where "u = 0 + k * align_units align" by (auto simp: dma_place_def dvd_def mult.commute)
  then show False
    using dma_search_None [OF assms(3) dma_align_ok(3,5) [OF assms(2)], of k] p range_free_place [OF assms(1), of align u sz] by simp
qed

lemma dma_alloc_Some:
  assumes inv: "dma_inv st" and ok: "dma_args_ok sz align"
    and s: "dma_search 0 (dma_units sz) (align_units align) (dma_bitmap st) = Some u"
  shows "dma_place sz align st u" "\<And>v. v < u \<Longrightarrow> \<not> dma_place sz align st v" "u < UNITS"
proof -
  note r = dma_search_Some [OF s]
  show p: "dma_place sz align st u" using r range_free_place [OF inv, of align u sz] by auto
  show "u < UNITS" using p dma_align_ok(4) [OF ok] by (simp add: dma_place_def)
  show "\<not> dma_place sz align st v" if "v < u" for v
  proof
    assume q: "dma_place sz align st v"
    then obtain k where "v = 0 + k * align_units align" by (auto simp: dma_place_def dvd_def mult.commute)
    then show False using r q that range_free_place [OF inv, of align v sz] by auto
  qed
qed

lemma unit_addr_aligned:
  assumes "dma_args_ok sz align" "unat (dma_align align) \<le> 0x200000" "align_units align dvd u" "u < UNITS"
  shows "unat (dma_align align) dvd unat (unit_addr u)"
proof -
  obtain k where k: "unat (dma_align align) = 2 ^ k" using dma_align_ok(1) [OF assms(1)] by blast
  then have "(2::nat) ^ k \<le> 2 ^ 21" using assms(2) by simp
  then have "k \<le> 21" by (rule power_le_imp_le_exp [rotated]) simp
  then have "unat (dma_align align) dvd 2 ^ 21" unfolding k by (rule le_imp_power_dvd)
  moreover have "unat (dma_align align) dvd 16 * u" unfolding dma_align_ok(2) [OF assms(1)] using assms(3) by simp
  ultimately show ?thesis unfolding unat_unit_addr [OF assms(4)] by simp
qed

lemma mod_wrap_cases:
  fixes x :: nat
  assumes "x < m" "c \<le> m"
  shows "(x + c) mod m = x + c \<or> (x + c) mod m < c"
proof (cases "x + c < m")
  case False
  then have "(x + c) mod m = (x + c - m) mod m" by (simp add: le_mod_geq)
  also have "\<dots> < c" using assms False by (intro le_less_trans [OF mod_less_eq_dividend]) simp
  finally show ?thesis by simp
qed simp

lemma dma_units_cover: "dma_args_ok sz align \<Longrightarrow> unat sz \<le> 16 * dma_units sz"
proof -
  assume ok: "dma_args_ok sz align"
  have u: "dma_units sz = unat (sz + 15) div 16" 
  proof -
    have "sz + DMA_GRANULE - 1 = sz + 15" "unat DMA_GRANULE = 16" by (simp_all add: DMA_GRANULE_def)
    then show ?thesis unfolding dma_units_def unat_div_u32 by (simp only:)
  qed
  have "unat (sz + 15) = (unat sz + 15) mod 4294967296" by (simp add: unat_word_ariths)
  moreover have "unat sz < 4294967296" by (rule unat_u32_bound)
  ultimately have "unat (sz + 15) = unat sz + 15 \<or> unat (sz + 15) < 15"
    using mod_wrap_cases [of "unat sz" 4294967296 15] by simp
  then have "unat (sz + 15) = unat sz + 15" using u dma_align_ok(4) [OF ok] by auto
  then show ?thesis unfolding u by linarith
qed

lemma dma_alloc_result:
  assumes inv: "dma_inv st" and ok: "dma_args_ok sz align" and al: "dma_alloc sz align st = (p, st')" and p: "p \<noteq> 0"
  shows "\<exists>u. p = unit_addr u \<and> dma_place sz align st u \<and> (\<forall>v < u. \<not> dma_place sz align st v) \<and>
    dma_blocks st' = insert (u, dma_units sz) (dma_blocks st) \<and> (u, dma_units sz) \<notin> dma_blocks st \<and> dma_inv st' \<and>
    dma_mem st' = dma_mem st"
proof -
  obtain u where s: "dma_search 0 (dma_units sz) (align_units align) (dma_bitmap st) = Some u"
    using ok al p by (auto simp: dma_alloc_def align_units_def split: option.splits)
  note r = dma_alloc_Some [OF inv ok s]
  have "range_free u (dma_units sz) (dma_bitmap st)" using r(1) range_free_place [OF inv] by blast
  note c = dma_claim_inv [OF inv this dma_align_ok(4,5) [OF ok]]
  have "(u, dma_units sz) \<notin> dma_blocks st"
    using c(3) dma_align_ok(4) [OF ok] by (fastforce simp: units_of_def)
  then show ?thesis using c r s ok al by (auto simp: dma_alloc_def align_units_def unit_addr_def)
qed

lemma dma_alloc_inv: "dma_inv st \<Longrightarrow> dma_inv (snd (dma_alloc sz align st))"
proof (cases "dma_args_ok sz align \<and> fst (dma_alloc sz align st) \<noteq> 0")
  case True
  assume "dma_inv st"
  then show ?thesis using dma_alloc_result [of st sz align] True by (metis prod.collapse)
next
  case False
  assume inv: "dma_inv st"
  have "snd (dma_alloc sz align st) = st" if ok: "dma_args_ok sz align"
  proof (cases "dma_search 0 (dma_units sz) (align_units align) (dma_bitmap st)")
    case (Some u)
    then show ?thesis
      using False ok unit_addr_region [OF dma_alloc_Some(3) [OF inv ok Some]]
      by (simp add: dma_alloc_def align_units_def unit_addr_def)
  qed (simp add: dma_alloc_def align_units_def)
  then show ?thesis using inv by (cases "dma_args_ok sz align") (simp_all add: dma_alloc_def)
qed

text \<open>
  C11. The bitmap allocator implements first-fit allocation of disjoint blocks: when the arguments are valid and some aligned place is
  free, the block is put at the lowest such place, is large enough, lies in the region, overlaps no live block, is added to the
  live blocks and is aligned to the request up to the alignment of the region (2 MB); otherwise the result is 0 and the
  state is unchanged. The contents of the region are never touched.
\<close>
theorem dma_alloc_first_fit:
  assumes inv: "dma_inv st" and al: "dma_alloc sz align st = (p, st')"
  shows "dma_inv st' \<and> dma_mem st' = dma_mem st \<and>
    (if dma_args_ok sz align \<and> (\<exists>u. dma_place sz align st u)
     then let u = (LEAST u. dma_place sz align st u)
          in p = unit_addr u \<and> in_region p \<and> dma_blocks st' = insert (u, dma_units sz) (dma_blocks st) \<and>
             (\<forall>b \<in> dma_blocks st. units_of (u, dma_units sz) \<inter> units_of b = {}) \<and> u + dma_units sz \<le> UNITS \<and>
             unat sz \<le> 16 * dma_units sz \<and> (unat (dma_align align) \<le> 0x200000 \<longrightarrow> unat (dma_align align) dvd unat p)
     else p = 0 \<and> st' = st)"
proof (cases "dma_args_ok sz align \<and> (\<exists>u. dma_place sz align st u)")
  case True
  then have ok: "dma_args_ok sz align" by blast
  obtain u where s: "dma_search 0 (dma_units sz) (align_units align) (dma_bitmap st) = Some u"
    using True dma_alloc_None [OF inv ok] by (cases "dma_search 0 (dma_units sz) (align_units align) (dma_bitmap st)") auto
  note q = dma_alloc_Some [OF inv ok s]
  have "p = unit_addr u" using s ok al by (simp add: dma_alloc_def align_units_def unit_addr_def)
  then have p: "p \<noteq> 0" using unit_addr_region [OF q(3)] by simp
  obtain u' where r: "p = unit_addr u'" "dma_place sz align st u'" "\<forall>v < u'. \<not> dma_place sz align st v"
      "dma_blocks st' = insert (u', dma_units sz) (dma_blocks st)" "dma_inv st'" "dma_mem st' = dma_mem st"
    using dma_alloc_result [OF inv ok al p] by blast
  have l: "(LEAST u. dma_place sz align st u) = u'"
    using r(2,3) by (intro Least_equality) (auto simp: not_less [symmetric])
  have "u' < UNITS" using r(2) dma_align_ok(4) [OF ok] by (simp add: dma_place_def)
  then show ?thesis
    using r True dma_units_cover [OF ok] unit_addr_region unit_addr_aligned [OF ok] unfolding Let_def l
    by (simp add: dma_place_def)
next
  case False
  then have "p = 0 \<and> st' = st"
    using al dma_alloc_Some(1) [OF inv, of sz align] by (auto simp: dma_alloc_def align_units_def split: option.splits if_splits)
  then show ?thesis using inv unfolding if_not_P [OF False] by simp
qed

definition example_dma :: dma_state where
  "example_dma = snd (dma_alloc 40 0 (fst (dma_init (\<lambda>_. 7) (pmm_init 0))))"

lemma dma_init_inv: "dma_inv (fst (dma_init mem p))"
  by (simp add: dma_init_def dma_inv_def dma_blocks_def bmp_get_bit)

lemma example_dma_inv: "dma_inv example_dma"
  unfolding example_dma_def by (rule dma_alloc_inv [OF dma_init_inv])

lemmas dma_eval = dma_alloc_def dma_args_ok_def dma_units_def dma_align_def DMA_GRANULE_def UNITS_def dma_search.simps
  range_free_def DMA_REGION_BASE_def bmp_get_bit upt_rec

lemma example_dma_bits: "bmp_get (dma_bitmap example_dma) v \<longleftrightarrow> v < 3"
proof -
  have "dma_search 0 3 1 (\<lambda>_. 0) = Some 0" by (simp add: dma_eval)
  then have "dma_bitmap example_dma = range_mark_used 0 3 (\<lambda>_. 0)"
    by (simp add: example_dma_def dma_init_def dma_alloc_def dma_args_ok_def dma_units_def dma_align_def DMA_GRANULE_def UNITS_def)
  moreover have "\<not> bmp_get (\<lambda>_. 0) v" by (simp add: bmp_get_bit)
  ultimately show ?thesis by simp
qed

lemma example_dma_alloc: "fst (dma_alloc 32 64 example_dma) = 0x200040"
proof -
  have "dma_search 0 2 4 (dma_bitmap example_dma) = Some 4"
    using example_dma_bits by (simp add: dma_search.simps range_free_def UNITS_def upt_rec)
  then show ?thesis by (simp add: dma_alloc_def dma_args_ok_def dma_units_def dma_align_def DMA_GRANULE_def UNITS_def DMA_REGION_BASE_def)
qed

text \<open>A block of 32 bytes aligned to 64, behind a block of 40 bytes.\<close>

theorem dma_alloc_first_fit_witness:
  "\<exists>st'. dma_alloc 32 64 example_dma = (0x200040, st') \<and> dma_inv st' \<and> dma_mem st' = dma_mem example_dma"
proof -
  have "fst (dma_alloc 32 64 example_dma) = 0x200040" by (rule example_dma_alloc)
  then show ?thesis
    using dma_alloc_first_fit [OF example_dma_inv, of 32 64 "0x200040" "snd (dma_alloc 32 64 example_dma)"]
    by (metis prod.collapse)
qed

text \<open>
  Releasing what an allocation returned undoes it: the live blocks and the number of used units are those before the allocation,
  every byte of the block is zero and every other byte of memory is unchanged.
\<close>
theorem dma_alloc_free_roundtrip:
  assumes inv: "dma_inv st" and al: "dma_alloc sz align st = (p, st')" and p: "p \<noteq> 0"
  shows "dma_inv (dma_free p st') \<and> dma_blocks (dma_free p st') = dma_blocks st \<and>
    dma_units_used (dma_free p st') = dma_units_used st \<and>
    (\<forall>a. dma_mem (dma_free p st') a = (if a - p < of_nat (16 * dma_units sz) then 0 else dma_mem st a))"
proof -
  have ok: "dma_args_ok sz align" using al p by (auto simp: dma_alloc_def split: if_splits)
  obtain u where r: "p = unit_addr u" "dma_blocks st' = insert (u, dma_units sz) (dma_blocks st)"
      "(u, dma_units sz) \<notin> dma_blocks st" "dma_inv st'" "dma_mem st' = dma_mem st" "dma_place sz align st u"
    using dma_alloc_result [OF inv ok al p] by blast
  show ?thesis
  proof (rule dma_free_cases [of p st'])
    assume "\<And>u n. (u, n) \<in> dma_blocks st' \<Longrightarrow> p \<noteq> unit_addr u"
    then show ?thesis using r(1,2) by blast
  next
    fix v n assume f: "(v, n) \<in> dma_blocks st'" "p = unit_addr v"
      "dma_bitmap (dma_free p st') = range_mark_free v n (dma_bitmap st')"
      "dma_run_units (dma_free p st') = (dma_run_units st')(v := 0)"
      "dma_units_used (dma_free p st') = dma_units_used st' - of_nat n"
      "dma_mem (dma_free p st') = clear_bytes p (of_nat n * DMA_GRANULE) (dma_mem st')"
    have "v < UNITS" "u < UNITS" using f(1) r(6) dma_align_ok(4) [OF ok] by (auto simp: dma_blocks_def dma_place_def)
    then have "v = u" using f(2) r(1) unit_addr_unit(1) by metis
    moreover have "(u, dma_units sz) \<in> dma_blocks st'" using r(2) by simp
    ultimately have vn: "v = u" "n = dma_units sz" using f(1) by (auto simp: dma_blocks_def)
    note rel = dma_release_inv [OF r(4) f(1,3,4,5)]
    have blk: "dma_blocks (dma_free p st') = dma_blocks st" using rel(1) r(2,3) vn by auto
    have "unat (dma_units_used (dma_free p st')) = unat (dma_units_used st)"
      using rel(2) inv blk by (simp add: dma_inv_def)
    then show ?thesis
      using rel(2) blk f(6) r(5) vn by (simp add: clear_bytes_def DMA_GRANULE_def mult.commute unsigned_word_eqI)
  qed
qed

theorem dma_alloc_free_roundtrip_witness:
  "dma_blocks (dma_free 0x200040 (snd (dma_alloc 32 64 example_dma))) = dma_blocks example_dma \<and>
   dma_mem (dma_free 0x200040 (snd (dma_alloc 32 64 example_dma))) 0x20005F = 0"
proof -
  have "dma_alloc 32 64 example_dma = (0x200040, snd (dma_alloc 32 64 example_dma))"
    using example_dma_alloc by (metis prod.collapse)
  note r = dma_alloc_free_roundtrip [OF example_dma_inv this]
  have "(0x20005F :: u32) - 0x200040 < of_nat (16 * dma_units 32)" by (simp add: dma_units_def DMA_GRANULE_def)
  with r show ?thesis by simp
qed

text \<open>The calls drivers make, in any order.\<close>

inductive dma_step :: "dma_state \<Rightarrow> dma_state \<Rightarrow> bool" where
  step_alloc: "dma_step st (snd (dma_alloc sz align st))"
| step_free: "dma_step st (dma_free p st)"
| step_device: "dma_step st (st\<lparr>dma_mem := mem\<rparr>)"

lemma dma_mem_inv [simp]: "dma_inv (st\<lparr>dma_mem := m\<rparr>) \<longleftrightarrow> dma_inv st"
  by (simp add: dma_inv_def dma_blocks_def)

lemma dma_step_inv: "dma_step st st' \<Longrightarrow> dma_inv st \<Longrightarrow> dma_inv st'"
  by (induction rule: dma_step.induct) (simp_all add: dma_alloc_inv dma_free_inv)



text \<open>
  The region is itself only aligned to 2 MB and the walk aligns units relative to its start, so a valid request with a
  larger power-of-two alignment is not refused: on the fresh region it gets the first unit, whose address is not a multiple of the
  alignment.
\<close>
theorem dma_alloc_align_bound:
  assumes ok: "dma_args_ok sz align" and a: "0x200000 < unat (dma_align align)"
  shows "fst (dma_alloc sz align (fst (dma_init mem p))) = DMA_REGION_BASE \<and>
    \<not> unat (dma_align align) dvd unat DMA_REGION_BASE"
proof -
  have "range_free 0 (dma_units sz) (\<lambda>_. 0)" using dma_align_ok(5) [OF ok] by (simp add: range_free_iff bmp_get_bit)
  then have "dma_search 0 (dma_units sz) (align_units align) (\<lambda>_. 0) = Some 0"
    using dma_align_ok(3) [OF ok] by (simp add: dma_search.simps)
  moreover have "\<not> unat (dma_align align) dvd unat DMA_REGION_BASE"
    using a by (auto simp: DMA_REGION_BASE_def dest: dvd_imp_le)
  ultimately show ?thesis using ok by (simp add: dma_alloc_def dma_init_def align_units_def)
qed

theorem dma_alloc_align_bound_witness:
  "fst (dma_alloc 64 0x400000 (fst (dma_init (\<lambda>_. 0) (pmm_init 0)))) = DMA_REGION_BASE"
  using dma_alloc_align_bound [of 64 "0x400000"]
  by (simp add: dma_args_ok_def dma_align_def dma_units_def DMA_GRANULE_def UNITS_def)
end
