(* ===== verification/Paging.thy ===== *)
theory Paging
  imports Pmm Fat_File
begin

text \<open>
  The pager (src/src/kernel/vmm.c), the private address spaces of V86 tasks and their life cycle
  (src/src/kernel/v86.c) and the DOS task slots that go with them (src/src/kernel/dos.c).
  Page directories and page tables are 32-bit words of physical memory, which the kernel reads and writes
  through its identity map of the first 32 MB; the two static tables of vmm.c have link-time addresses
  \<open>kpd\<close> and \<open>kpt\<close>. Loading CR3, setting CR0 and invalidating TLB entries have no counterpart: a translation always reads
  the tables.
\<close>

section \<open>State\<close>

definition PTE_PRESENT :: u32 where "PTE_PRESENT = 1"
definition PTE_WRITABLE :: u32 where "PTE_WRITABLE = 2"
definition PTE_USER :: u32 where "PTE_USER = 4"
definition KERNEL_PT_COUNT :: nat where "KERNEL_PT_COUNT = 8"
definition V86_MAX_TASKS :: nat where "V86_MAX_TASKS = 8"
definition DOS_MAX_TASKS :: nat where "DOS_MAX_TASKS = 8"
definition DOS_MAX_HANDLES :: nat where "DOS_MAX_HANDLES = 20"

record v86_task =
  v_active :: bool
  v_dos_task_id :: int
  ring0_stack :: u32
  text_buf :: "u8 list"
  v_cursor_x :: u8
  v_cursor_y :: u8
  v86mt_client_id :: int
  v86mt_vt_handle :: int
  mcb_root :: u16
  pd_phys :: u32
  pt_low_phys :: u32
  mem_pages :: "u32 list"
  vga_text_phys :: u32

record dos_task =
  d_active :: bool
  handle_map :: "u8 list"
  dta_seg :: u32
  dta_off :: u32
  psp_seg :: u32
  d_cwd :: "u8 list"
  return_code :: u8
  next_alloc_seg :: u16

record v86mt_vt =
  has_char_buf :: bool
  screen_dirty :: u16
  task_running :: u16
  exited :: u16
  exit_code :: u16

record kernel =
  frames :: pmm_state
  pmem :: mem32
  kpd :: u32
  kpt :: u32
  v86_tasks :: "v86_task list"
  current_v86 :: int
  dos_tasks :: "dos_task list"
  fat :: fat_state
  v86mt_vts :: "int \<Rightarrow> u16 \<Rightarrow> v86mt_vt option"

text \<open>The word \<open>i\<close> of a table at \<open>base\<close>.\<close>

definition entry :: "u32 \<Rightarrow> nat \<Rightarrow> u32" where
  "entry base i = base + 4 * of_nat i"

definition pte_flags :: "u32 \<Rightarrow> u32" where
  "pte_flags a = a OR PTE_PRESENT OR PTE_WRITABLE OR PTE_USER"

definition table_of :: "u32 \<Rightarrow> u32" where
  "table_of e = e AND 0xFFFFF000"

definition is_present :: "u32 \<Rightarrow> bool" where
  "is_present e \<longleftrightarrow> e AND PTE_PRESENT \<noteq> 0"

definition dir_idx :: "u32 \<Rightarrow> nat" where
  "dir_idx virt = unat (drop_bit 22 virt)"

definition table_idx :: "u32 \<Rightarrow> nat" where
  "table_idx virt = unat (drop_bit 12 virt AND 0x3FF)"

definition zero_page :: "u32 \<Rightarrow> mem32 \<Rightarrow> mem32" where
  "zero_page p m = fold (\<lambda>j m. m(entry p j := 0)) [0..<1024] m"

section \<open>The pager\<close>

definition vmm_init_table :: "u32 \<Rightarrow> nat \<Rightarrow> u32 \<Rightarrow> mem32 \<Rightarrow> mem32" where
  "vmm_init_table tab t pd m =
     (let m1 = fold (\<lambda>i m. m(entry tab i := pte_flags (of_nat t * 4 * 1024 * 1024 + of_nat i * PAGE_SIZE))) [0..<1024] m
      in m1(entry pd t := pte_flags tab))"

definition vmm_init :: "kernel \<Rightarrow> kernel" where
  "vmm_init s =
     (let m1 = fold (\<lambda>i m. m(entry (kpd s) i := 0)) [0..<1024] (pmem s)
      in s\<lparr>pmem := fold (\<lambda>t. vmm_init_table (kpt s + of_nat t * PAGE_SIZE) t (kpd s)) [0..<KERNEL_PT_COUNT] m1\<rparr>)"

definition v86_propagate_pde :: "nat \<Rightarrow> u32 \<Rightarrow> kernel \<Rightarrow> kernel" where
  "v86_propagate_pde d pde s =
     (if d < 8 \<or> d \<ge> 1024 then s
      else s\<lparr>pmem := fold (\<lambda>t m. if \<not> v_active t then m else if pd_phys t = 0 then m else m(entry (pd_phys t) d := pde))
               (v86_tasks s) (pmem s)\<rparr>)"

text \<open>Makes sure that the page table of an address exists; the flag tells whether it does.\<close>

definition ensure_table :: "nat \<Rightarrow> kernel \<Rightarrow> bool \<times> kernel" where
  "ensure_table d s =
     (if is_present (pmem s (entry (kpd s) d)) then (True, s)
      else case pmm_alloc_page (frames s) of (pt_phys, f) \<Rightarrow>
        if pt_phys = 0 then (False, s\<lparr>frames := f\<rparr>)
        else let m1 = zero_page pt_phys (pmem s);
                 pde = pte_flags pt_phys;
                 m2 = m1(entry (kpd s) d := pde)
             in (True, v86_propagate_pde d pde (s\<lparr>frames := f, pmem := m2\<rparr>)))"

definition vmm_map_page :: "u32 \<Rightarrow> u32 \<Rightarrow> u32 \<Rightarrow> kernel \<Rightarrow> kernel" where
  "vmm_map_page virt phys flags s =
     (case ensure_table (dir_idx virt) s of (ok, s1) \<Rightarrow>
        if \<not> ok then s1
        else let page_table = table_of (pmem s1 (entry (kpd s1) (dir_idx virt)))
             in s1\<lparr>pmem := (pmem s1)(entry page_table (table_idx virt) := (phys AND 0xFFFFF000) OR (flags AND 0xFFF))\<rparr>)"

definition vmm_unmap_page :: "u32 \<Rightarrow> kernel \<Rightarrow> kernel" where
  "vmm_unmap_page virt s =
     (if \<not> is_present (pmem s (entry (kpd s) (dir_idx virt))) then s
      else let page_table = table_of (pmem s (entry (kpd s) (dir_idx virt)))
           in s\<lparr>pmem := (pmem s)(entry page_table (table_idx virt) := 0)\<rparr>)"

text \<open>The walk through a page directory; the processor does the same for the directory in CR3.\<close>

definition walk :: "mem32 \<Rightarrow> u32 \<Rightarrow> u32 \<Rightarrow> u32 option" where
  "walk m pd virt =
     (let pde = m (entry pd (dir_idx virt))
      in if \<not> is_present pde then None
         else let pte = m (entry (table_of pde) (table_idx virt))
              in if \<not> is_present pte then None else Some ((pte AND 0xFFFFF000) OR (virt AND 0xFFF)))"

definition vmm_get_physical :: "u32 \<Rightarrow> kernel \<Rightarrow> u32" where
  "vmm_get_physical virt s =
     (let pde = pmem s (entry (kpd s) (dir_idx virt))
      in if \<not> is_present pde then 0
         else let pte = pmem s (entry (table_of pde) (table_idx virt))
              in if \<not> is_present pte then 0 else (pte AND 0xFFFFF000) OR (virt AND 0xFFF))"

definition vmm_kernel_pd_phys :: "kernel \<Rightarrow> u32" where "vmm_kernel_pd_phys s = kpd s"
definition vmm_kernel_pt0 :: "kernel \<Rightarrow> u32" where "vmm_kernel_pt0 s = kpt s"

section \<open>Address spaces of V86 tasks\<close>

text \<open>The loop that gives a task its pages 1 to 159, zeroing each.\<close>

fun alloc_pages :: "nat list \<Rightarrow> u32 list \<Rightarrow> kernel \<Rightarrow> bool \<times> u32 list \<times> kernel" where
  "alloc_pages [] pages s = (True, pages, s)"
| "alloc_pages (i # is) pages s =
     (case pmm_alloc_page (frames s) of (p, f) \<Rightarrow>
        if p = 0 then (False, pages, s\<lparr>frames := f\<rparr>)
        else alloc_pages is (pages[i := p]) (s\<lparr>frames := f, pmem := zero_page p (pmem s)\<rparr>))"

definition release_frame :: "u32 \<Rightarrow> kernel \<Rightarrow> kernel" where
  "release_frame p s = (if p = 0 then s else s\<lparr>frames := pmm_free_page p (frames s)\<rparr>)"

definition low_entry :: "u32 list \<Rightarrow> nat \<Rightarrow> u32" where
  "low_entry pages i = pte_flags (if i \<ge> 160 then of_nat i * PAGE_SIZE else if i = 0 then 0 else pages ! i)"

definition build_space :: "u32 \<Rightarrow> u32 \<Rightarrow> u32 list \<Rightarrow> kernel \<Rightarrow> kernel" where
  "build_space pd pt pages s =
     (let m1 = fold (\<lambda>i m. m(entry pt i := low_entry pages i)) [0..<256] (pmem s);
          m2 = fold (\<lambda>i m. m(entry pt i := m (entry (vmm_kernel_pt0 s) i))) [256..<1024] m1;
          m3 = m2(entry pd 0 := pte_flags pt);
          m4 = fold (\<lambda>i m. m(entry pd i := m (entry (vmm_kernel_pd_phys s) i))) [1..<1024] m3
      in s\<lparr>pmem := m4\<rparr>)"

definition v86_alloc_paging :: "v86_task \<Rightarrow> kernel \<Rightarrow> int \<times> v86_task \<times> kernel" where
  "v86_alloc_paging vt s =
     (let vt0 = vt\<lparr>pd_phys := 0, pt_low_phys := 0, mem_pages := replicate 160 0\<rparr>
      in case pmm_alloc_page (frames s) of (pd, f1) \<Rightarrow>
        if pd = 0 then (-1, vt0, s\<lparr>frames := f1\<rparr>)
        else case pmm_alloc_page f1 of (pt, f2) \<Rightarrow>
          if pt = 0 then (-1, vt0, release_frame pd (s\<lparr>frames := f2\<rparr>))
          else case alloc_pages [1..<160] (replicate 160 0) (s\<lparr>frames := f2\<rparr>) of (ok, pages, s3) \<Rightarrow>
            if \<not> ok then (-1, vt0, release_frame pd (release_frame pt (fold release_frame pages s3)))
            else (0, vt0\<lparr>pd_phys := pd, pt_low_phys := pt, mem_pages := pages[0 := 0]\<rparr>,
                  build_space pd pt (pages[0 := 0]) s3))"

definition v86_free_paging :: "v86_task \<Rightarrow> kernel \<Rightarrow> v86_task \<times> kernel" where
  "v86_free_paging vt s =
     (vt\<lparr>mem_pages := take 1 (mem_pages vt) @ replicate 159 0, pt_low_phys := 0, pd_phys := 0\<rparr>,
      release_frame (pd_phys vt) (release_frame (pt_low_phys vt) (fold release_frame (drop 1 (mem_pages vt)) s)))"

definition upd_task :: "nat \<Rightarrow> (v86_task \<Rightarrow> v86_task) \<Rightarrow> kernel \<Rightarrow> kernel" where
  "upd_task t g s = s\<lparr>v86_tasks := (v86_tasks s)[t := g (v86_tasks s ! t)]\<rparr>"

definition valid_task :: "int \<Rightarrow> kernel \<Rightarrow> bool" where
  "valid_task t s \<longleftrightarrow> \<not> (t < 0 \<or> t \<ge> int V86_MAX_TASKS) \<and> v_active (v86_tasks s ! nat t)"

definition v86_task_cr3 :: "int \<Rightarrow> kernel \<Rightarrow> u32" where
  "v86_task_cr3 t s = (if \<not> valid_task t s then 0 else pd_phys (v86_tasks s ! nat t))"

definition v86_arm_v86mt_sandbox :: "int \<Rightarrow> kernel \<Rightarrow> int \<times> kernel" where
  "v86_arm_v86mt_sandbox t s =
     (if \<not> valid_task t s then (-1, s)
      else let vt = v86_tasks s ! nat t
           in if vga_text_phys vt \<noteq> 0 then (0, s)
              else if pt_low_phys vt = 0 then (-1, s)
              else case pmm_alloc_page (frames s) of (page, f) \<Rightarrow>
                if page = 0 then (-1, s\<lparr>frames := f\<rparr>)
                else let m1 = zero_page page (pmem s)
                     in (0, upd_task (nat t) (\<lambda>v. v\<lparr>vga_text_phys := page\<rparr>)
                              (s\<lparr>frames := f, pmem := m1(entry (pt_low_phys vt) 0xB8 := pte_flags page)\<rparr>)))"

definition v86_v86mt_sandbox_phys :: "int \<Rightarrow> kernel \<Rightarrow> u32" where
  "v86_v86mt_sandbox_phys t s = (if \<not> valid_task t s then 0 else vga_text_phys (v86_tasks s ! nat t))"

definition v86_task_for_v86mt :: "int \<Rightarrow> u16 \<Rightarrow> kernel \<Rightarrow> int" where
  "v86_task_for_v86mt client handle s =
     (case find_slot (\<lambda>v. v_active v \<and> v86mt_client_id v = client \<and> v86mt_vt_handle v = uint handle) (v86_tasks s) of
        None \<Rightarrow> -1 | Some i \<Rightarrow> int i)"

definition v86_set_current :: "int \<Rightarrow> kernel \<Rightarrow> kernel" where
  "v86_set_current t s = s\<lparr>current_v86 := t\<rparr>"

definition v86_set_v86mt_owner :: "int \<Rightarrow> int \<Rightarrow> int \<Rightarrow> kernel \<Rightarrow> kernel" where
  "v86_set_v86mt_owner t client handle s =
     (if t < 0 \<or> t \<ge> int V86_MAX_TASKS then s
      else upd_task (nat t) (\<lambda>v. v\<lparr>v86mt_client_id := client, v86mt_vt_handle := handle\<rparr>) s)"

definition v86_set_mcb_root :: "int \<Rightarrow> u16 \<Rightarrow> kernel \<Rightarrow> kernel" where
  "v86_set_mcb_root t root s =
     (if t < 0 \<or> t \<ge> int V86_MAX_TASKS then s else upd_task (nat t) (\<lambda>v. v\<lparr>mcb_root := root\<rparr>) s)"

definition v86_current_mcb_root :: "kernel \<Rightarrow> u16" where
  "v86_current_mcb_root s =
     (if \<not> valid_task (current_v86 s) s then 0x40
      else let root = mcb_root (v86_tasks s ! nat (current_v86 s)) in if root \<noteq> 0 then root else 0x40)"

section \<open>Life cycle\<close>

definition dos_create_task :: "kernel \<Rightarrow> int \<times> kernel" where
  "dos_create_task s =
     (case find_slot (\<lambda>d. \<not> d_active d) (dos_tasks s) of
        None \<Rightarrow> (-1, s)
      | Some i \<Rightarrow> (int i, s\<lparr>dos_tasks := (dos_tasks s)[i :=
           (dos_tasks s ! i)\<lparr>d_active := True, handle_map := replicate DOS_MAX_HANDLES 0xFF, dta_seg := 0, dta_off := 0x80,
              psp_seg := 0, d_cwd := [0x2F], return_code := 0, next_alloc_seg := 0x2000\<rparr>]\<rparr>))"

definition close_handles :: "u8 list \<Rightarrow> fat_state \<Rightarrow> fat_state" where
  "close_handles hs f = fold (\<lambda>h f. if h \<noteq> 0xFF then snd (fat_close (uint h) f) else f) hs f"

definition dos_destroy_task :: "int \<Rightarrow> kernel \<Rightarrow> kernel" where
  "dos_destroy_task t s =
     (if t < 0 \<or> t \<ge> int DOS_MAX_TASKS then s
      else let d = dos_tasks s ! nat t
           in s\<lparr>fat := close_handles (drop 5 (handle_map d)) (fat s),
                dos_tasks := (dos_tasks s)[nat t := d\<lparr>handle_map := take 5 (handle_map d) @ replicate (DOS_MAX_HANDLES - 5) 0xFF,
                   d_active := False\<rparr>]\<rparr>)"

definition v86_create_task :: "kernel \<Rightarrow> int \<times> kernel" where
  "v86_create_task s =
     (case find_slot (\<lambda>v. \<not> v_active v) (v86_tasks s) of
        None \<Rightarrow> (-1, s)
      | Some i \<Rightarrow>
          (case pmm_alloc_page (frames s) of (stack_page, f) \<Rightarrow>
             if stack_page = 0 then (-1, s\<lparr>frames := f\<rparr>)
             else let vt = (v86_tasks s ! i)\<lparr>v_active := True, ring0_stack := stack_page + PAGE_SIZE, v_cursor_x := 0,
                        v_cursor_y := 0, v86mt_client_id := -1, v86mt_vt_handle := 0, mcb_root := 0, vga_text_phys := 0\<rparr>
                  in case v86_alloc_paging vt (s\<lparr>frames := f\<rparr>) of (r, vt1, s1) \<Rightarrow>
                    if r < 0 then (-1, release_frame stack_page (upd_task i (\<lambda>_. vt1) s1))
                    else case dos_create_task s1 of (dos_tid, s2) \<Rightarrow>
                      (int i, upd_task i (\<lambda>_. vt1\<lparr>v_dos_task_id := dos_tid,
                                 text_buf := concat (replicate (80 * 25) [0x20, 0x07])\<rparr>) s2)))"

definition v86mt_exit :: "v86_task \<Rightarrow> kernel \<Rightarrow> kernel" where
  "v86mt_exit vt s =
     (if v86mt_client_id vt \<ge> 0 \<and> v86mt_vt_handle vt > 0 then
        (case v86mt_vts s (v86mt_client_id vt) (of_int (v86mt_vt_handle vt)) of
           None \<Rightarrow> s
         | Some v \<Rightarrow> if \<not> has_char_buf v then s
             else s\<lparr>v86mt_vts := (v86mt_vts s)(v86mt_client_id vt := (v86mt_vts s (v86mt_client_id vt))
                      (of_int (v86mt_vt_handle vt) \<mapsto>
                         v\<lparr>task_running := 0, exited := 1, exit_code := 0, screen_dirty := screen_dirty v + 1\<rparr>))\<rparr>)
      else s)"

definition v86_destroy_task :: "int \<Rightarrow> kernel \<Rightarrow> kernel" where
  "v86_destroy_task t s =
     (if \<not> valid_task t s then s
      else let vt = v86_tasks s ! nat t;
               s1 = dos_destroy_task (v_dos_task_id vt) (v86mt_exit vt s);
               s2 = (if ring0_stack vt \<noteq> 0 then s1\<lparr>frames := pmm_free_page (ring0_stack vt - PAGE_SIZE) (frames s1)\<rparr> else s1);
               s3 = release_frame (vga_text_phys vt) s2
           in case v86_free_paging (vt\<lparr>vga_text_phys := 0\<rparr>) s3 of (vt1, s4) \<Rightarrow>
                let s5 = upd_task (nat t) (\<lambda>_. vt1\<lparr>v_active := False\<rparr>) s4
                in if current_v86 s5 = t then s5\<lparr>current_v86 := -1\<rparr> else s5)"

definition v86_get_dos_task :: "int \<Rightarrow> kernel \<Rightarrow> int" where
  "v86_get_dos_task t s = (if \<not> valid_task t s then -1 else v_dos_task_id (v86_tasks s ! nat t))"

end
