(* ===== verification/Spaces.thy ===== *)
theory Spaces
  imports Paging
begin

text \<open>
  What the pager and the V86 address spaces guarantee together: an ownership invariant that says which
  physical frame belongs to which table, task or stack, its preservation by every operation, the round trip of
  the pager and the isolation of V86 tasks from each other.
\<close>

section \<open>Words, frames and tables\<close>

definition aligned :: "u32 \<Rightarrow> bool" where
  "aligned a \<longleftrightarrow> unat a mod 4096 = 0"

lemma aligned_room: "aligned a \<Longrightarrow> unat a + 4095 < 4294967296"
proof -
  assume a: "aligned a"
  then obtain k where k: "unat a = 4096 * k" by (auto simp: aligned_def mod_0_imp_dvd elim: dvdE)
  have "unat a < 4294967296" by (rule unat_u32_bound)
  then have "k < 1048576" unfolding k by linarith
  then show ?thesis unfolding k by linarith
qed

lemma entry_addr: "aligned b \<Longrightarrow> i < 1024 \<Longrightarrow> unat (entry b i) = unat b + 4 * i"
  using aligned_room [of b] by (simp add: entry_def unat_word_ariths unat_of_nat_u32)

lemma entry_page [simp]:
  assumes "aligned b" "i < 1024"
  shows "pmm_page (entry b i) = pmm_page b"
proof -
  obtain k where "unat b = 4096 * k" using assms(1) by (auto simp: aligned_def mod_0_imp_dvd elim: dvdE)
  then show ?thesis using assms by (simp add: pmm_page_def entry_addr)
qed

lemma aligned_eqI: "aligned a \<Longrightarrow> aligned b \<Longrightarrow> pmm_page a = pmm_page b \<Longrightarrow> a = b"
proof -
  assume "aligned a" "aligned b" "pmm_page a = pmm_page b"
  then have "unat a = unat b"
    using div_mult_mod_eq [of "unat a" 4096] div_mult_mod_eq [of "unat b" 4096] unfolding aligned_def pmm_page_def by argo
  then show "a = b" by (rule unsigned_word_eqI)
qed

lemma entry_inj [simp]: "aligned b \<Longrightarrow> i < 1024 \<Longrightarrow> j < 1024 \<Longrightarrow> entry b i = entry b j \<longleftrightarrow> i = j"
  by (metis add_left_cancel entry_addr mult_cancel1 zero_neq_numeral)

lemma mask12: "(0xFFFFF000 :: u32) = NOT (mask 12)"
  by (simp add: mask_eq_exp_minus_1)

lemma aligned_table_of [simp]: "aligned (table_of e)"
  unfolding aligned_def table_of_def mask12 unat_and_not_mask by simp

lemma aligned_and: "aligned a \<longleftrightarrow> a AND mask 12 = 0"
proof -
  have "a AND mask 12 = 0 \<longleftrightarrow> unat (a AND mask 12) = 0" by (simp add: unat_eq_0)
  also have "unat (a AND mask 12) = unat a mod 4096"
    by (simp flip: take_bit_eq_mask) (simp add: take_bit_eq_mod unat_mod)
  finally show ?thesis by (simp add: aligned_def)
qed

lemma aligned_bit: "aligned a \<Longrightarrow> n < 12 \<Longrightarrow> \<not> bit a n"
proof
  assume "aligned a" "n < 12" "bit a n"
  then have "bit (a AND mask 12) n" by (simp add: bit_and_iff bit_mask_iff)
  then show False using \<open>aligned a\<close> by (simp add: aligned_and)
qed

lemma pte_flags_7: "pte_flags a = a OR 7"
  unfolding pte_flags_def PTE_PRESENT_def PTE_WRITABLE_def PTE_USER_def by (simp flip: or.assoc add: or.assoc)

lemma table_of_flags [simp]: "aligned a \<Longrightarrow> table_of (pte_flags a) = a"
proof (rule bit_word_eqI)
  fix n assume a: "aligned a" and n: "n < LENGTH(32)"
  have "n \<ge> 12" if "bit a n" using aligned_bit [OF a] that not_le by blast
  moreover have "\<not> bit (7 :: u32) n" if "n \<ge> 12" 
  proof -
    have "(7 :: u32) = mask 3" by (simp add: mask_eq_exp_minus_1)
    then show ?thesis using that by (simp only: bit_mask_iff) simp
  qed
  ultimately show "bit (table_of (pte_flags a)) n \<longleftrightarrow> bit a n"
    using n unfolding table_of_def pte_flags_7 mask12 by (auto simp: bit_and_iff bit_or_iff bit_not_iff bit_mask_iff)
qed

lemma present_flags [simp]: "is_present (pte_flags a)"
proof -
  have "bit (pte_flags a AND PTE_PRESENT) 0" unfolding pte_flags_7 PTE_PRESENT_def by (simp add: bit_and_iff bit_or_iff)
  then show ?thesis unfolding is_present_def by auto
qed

lemma pmm_frame_aligned: "unat a = pmm_page a * 4096 \<Longrightarrow> aligned a"
  by (simp add: aligned_def)

text \<open>Writes to entries: memory changes only in the frame of the table.\<close>

definition same_outside :: "nat set \<Rightarrow> mem32 \<Rightarrow> mem32 \<Rightarrow> bool" where
  "same_outside P m m' \<longleftrightarrow> (\<forall>x. pmm_page x \<notin> P \<longrightarrow> m' x = m x)"

lemma same_outside_refl [simp]: "same_outside P m m"
  by (simp add: same_outside_def)

lemma same_outside_trans: "same_outside P m m1 \<Longrightarrow> same_outside Q m1 m2 \<Longrightarrow> same_outside (P \<union> Q) m m2"
  by (simp add: same_outside_def)

lemma same_outside_mono: "same_outside P m m' \<Longrightarrow> P \<subseteq> Q \<Longrightarrow> same_outside Q m m'"
  by (auto simp: same_outside_def)

lemma same_outside_upd: "pmm_page x \<in> P \<Longrightarrow> same_outside P m m1 \<Longrightarrow> same_outside P m (m1(x := v))"
  by (auto simp: same_outside_def)

lemma same_outside_fold:
  "(\<And>x m1. x \<in> set xs \<Longrightarrow> same_outside P m m1 \<Longrightarrow> same_outside P m (f x m1)) \<Longrightarrow> same_outside P m m0 \<Longrightarrow>
     same_outside P m (fold f xs m0)"
  by (induction xs arbitrary: m0) auto

lemma same_outside_entry: "same_outside P m m' \<Longrightarrow> aligned b \<Longrightarrow> i < 1024 \<Longrightarrow> pmm_page b \<notin> P \<Longrightarrow> m' (entry b i) = m (entry b i)"
  by (simp add: same_outside_def)

lemma fold_write_same:
  "aligned b \<Longrightarrow> \<forall>i \<in> set is. i < 1024 \<Longrightarrow> same_outside {pmm_page b} m (fold (\<lambda>i m. m(entry b i := g i m)) is m)"
  by (rule same_outside_fold) (auto intro: same_outside_upd)

lemma fold_write_out:
  "aligned b \<Longrightarrow> \<forall>i \<in> set is. i < 1024 \<Longrightarrow> j < 1024 \<Longrightarrow> j \<notin> set is \<Longrightarrow>
     fold (\<lambda>i m. m(entry b i := g i m)) is m (entry b j) = m (entry b j)"
  by (induction "is" arbitrary: m) auto

lemma fold_write_in:
  assumes "aligned b" "\<forall>i \<in> set is. i < 1024" "distinct is" "j \<in> set is"
    and g: "\<And>m'. same_outside {pmm_page b} m m' \<Longrightarrow> g j m' = g j m"
  shows "fold (\<lambda>i m. m(entry b i := g i m)) is m (entry b j) = g j m"
  using assms(2-5)
proof (induction "is" arbitrary: m)
  case (Cons i "is")
  let ?m1 = "m(entry b i := g i m)"
  have s: "same_outside {pmm_page b} m ?m1" using Cons.prems(1) assms(1) by (intro same_outside_upd) simp_all
  show ?case
  proof (cases "j = i")
    case True
    have "fold (\<lambda>i m. m(entry b i := g i m)) is ?m1 (entry b j) = ?m1 (entry b j)"
      using Cons.prems(1-3) True by (intro fold_write_out assms(1)) auto
    then show ?thesis unfolding True by (simp only: fold_simps(2) fun_upd_same)
  next
    case False
    have c: "\<forall>i \<in> set is. i < 1024" "distinct is" "j \<in> set is" using Cons.prems(1-3) False by auto
    have gj: "g j m' = g j ?m1" if "same_outside {pmm_page b} ?m1 m'" for m'
      using Cons.prems(4) [OF s] Cons.prems(4) [of m'] same_outside_trans [OF s that] by (simp only: Un_absorb)
    have "fold (\<lambda>i m. m(entry b i := g i m)) is ?m1 (entry b j) = g j ?m1"
      by (rule Cons.IH [OF c gj])
    then show ?thesis using Cons.prems(4) [OF s] by (simp only: fold_simps(2))
  qed
qed (simp only: list.set empty_iff)

lemma zero_page_same: "aligned p \<Longrightarrow> same_outside {pmm_page p} m (zero_page p m)"
  unfolding zero_page_def by (rule fold_write_same) simp_all

lemma zero_page_entry: "aligned p \<Longrightarrow> i < 1024 \<Longrightarrow> zero_page p m (entry p i) = 0"
  unfolding zero_page_def by (subst fold_write_in) simp_all


section \<open>Ownership of frames\<close>

datatype owner = KPd | KTab nat | VPd nat | VLow nat | VMem nat nat | VStack nat | VText nat

definition live :: "kernel \<Rightarrow> nat \<Rightarrow> bool" where
  "live s t \<longleftrightarrow> t < length (v86_tasks s) \<and> v_active (v86_tasks s ! t) \<and> pd_phys (v86_tasks s ! t) \<noteq> 0"

definition kpde :: "kernel \<Rightarrow> nat \<Rightarrow> u32" where
  "kpde s i = pmem s (entry (kpd s) i)"

fun owns :: "kernel \<Rightarrow> owner \<Rightarrow> u32 option" where
  "owns s KPd = Some (kpd s)"
| "owns s (KTab i) = (if i < 1024 \<and> is_present (kpde s i) then Some (table_of (kpde s i)) else None)"
| "owns s (VPd t) = (if live s t then Some (pd_phys (v86_tasks s ! t)) else None)"
| "owns s (VLow t) = (if live s t then Some (pt_low_phys (v86_tasks s ! t)) else None)"
| "owns s (VMem t i) = (if live s t \<and> 1 \<le> i \<and> i < 160 then Some (mem_pages (v86_tasks s ! t) ! i) else None)"
| "owns s (VStack t) = (if live s t then Some (ring0_stack (v86_tasks s ! t) - PAGE_SIZE) else None)"
| "owns s (VText t) = (if live s t \<and> vga_text_phys (v86_tasks s ! t) \<noteq> 0 then Some (vga_text_phys (v86_tasks s ! t)) else None)"

text \<open>
  Frames are page-aligned, taken, inside the 32 MB identity map and owned at most once; the free frames are
  inside the identity map too.
\<close>

definition own_ok :: "kernel \<Rightarrow> bool" where
  "own_ok s \<longleftrightarrow> pmm_free_set (frames s) \<subseteq> {..<8192} \<and>
     (\<forall>w a. owns s w = Some a \<longrightarrow> aligned a \<and> pmm_page a \<notin> pmm_free_set (frames s) \<and> pmm_page a \<noteq> 0 \<and> pmm_page a < 8192) \<and>
     (\<forall>w w' a a'. owns s w = Some a \<longrightarrow> owns s w' = Some a' \<longrightarrow> pmm_page a = pmm_page a' \<longrightarrow> w = w')"

definition space_ok :: "kernel \<Rightarrow> nat \<Rightarrow> bool" where
  "space_ok s t \<longleftrightarrow> (let v = v86_tasks s ! t in length (mem_pages v) = 160 \<and> ring0_stack v \<noteq> 0 \<and>
     pmem s (entry (pd_phys v) 0) = pte_flags (pt_low_phys v) \<and>
     (\<forall>i \<in> {1..<160}. pmem s (entry (pt_low_phys v) i) = pte_flags (mem_pages v ! i)) \<and>
     (\<forall>i \<in> {1..<1024}. pmem s (entry (pd_phys v) i) = kpde s i))"

definition spaces_ok :: "kernel \<Rightarrow> bool" where
  "spaces_ok s \<longleftrightarrow> length (v86_tasks s) = V86_MAX_TASKS \<and> pmm_ok (frames s) \<and> own_ok s \<and>
     (\<forall>i < KERNEL_PT_COUNT. is_present (kpde s i)) \<and> (\<forall>t. live s t \<longrightarrow> space_ok s t)"

lemma own_okD:
  assumes "own_ok s" "owns s w = Some a"
  shows "aligned a" "pmm_page a \<notin> pmm_free_set (frames s)" "pmm_page a \<noteq> 0" "a \<noteq> 0" "pmm_page a < 8192"
proof -
  show "aligned a" "pmm_page a \<notin> pmm_free_set (frames s)" "pmm_page a < 8192" and p: "pmm_page a \<noteq> 0" using assms unfolding own_ok_def by blast+
  show "a \<noteq> 0" using p by (auto simp: pmm_page_def)
qed

lemma own_inj: "own_ok s \<Longrightarrow> owns s w = Some a \<Longrightarrow> owns s w' = Some a' \<Longrightarrow> pmm_page a = pmm_page a' \<Longrightarrow> w = w'"
  unfolding own_ok_def by blast

lemma own_neq: "own_ok s \<Longrightarrow> owns s w = Some a \<Longrightarrow> owns s w' = Some a' \<Longrightarrow> w \<noteq> w' \<Longrightarrow> pmm_page a \<noteq> pmm_page a'"
  using own_inj by blast

lemma own_okI:
  assumes "\<And>w a. owns s w = Some a \<Longrightarrow> aligned a \<and> pmm_page a \<notin> pmm_free_set (frames s) \<and> pmm_page a \<noteq> 0 \<and> pmm_page a < 8192"
    and "\<And>w w' a a'. owns s w = Some a \<Longrightarrow> owns s w' = Some a' \<Longrightarrow> pmm_page a = pmm_page a' \<Longrightarrow> w = w'"
    and "pmm_free_set (frames s) \<subseteq> {..<8192}"
  shows "own_ok s"
  using assms unfolding own_ok_def by blast

text \<open>New owners may take frames from the free pool.\<close>

lemma own_ok_extend:
  assumes ok: "own_ok s" and sub: "\<And>w a. owns s' w = Some a \<Longrightarrow> owns s w = Some a \<or> nw w = Some a"
    and nw: "\<And>w a. nw w = Some a \<Longrightarrow> aligned a \<and> pmm_page a \<in> pmm_free_set (frames s) \<and> pmm_page a \<noteq> 0 \<and>
        pmm_page a \<notin> pmm_free_set (frames s')"
    and inj: "\<And>w w' a a'. nw w = Some a \<Longrightarrow> nw w' = Some a' \<Longrightarrow> pmm_page a = pmm_page a' \<Longrightarrow> w = w'"
    and free: "pmm_free_set (frames s') \<subseteq> pmm_free_set (frames s)"
  shows "own_ok s'"
proof (rule own_okI)
  have lim: "pmm_free_set (frames s) \<subseteq> {..<8192}" using ok by (simp add: own_ok_def)
  then show "pmm_free_set (frames s') \<subseteq> {..<8192}" using free by blast
  show "aligned a \<and> pmm_page a \<notin> pmm_free_set (frames s') \<and> pmm_page a \<noteq> 0 \<and> pmm_page a < 8192" if "owns s' w = Some a" for w a
    using sub [OF that] nw own_okD [OF ok] free lim by blast
  show "w = w'" if "owns s' w = Some a" "owns s' w' = Some a'" "pmm_page a = pmm_page a'" for w w' a a'
    using sub [OF that(1)] sub [OF that(2)] that(3) nw inj own_okD(2) [OF ok] own_inj [OF ok] by metis
qed

text \<open>Memory may change in frames that hold no directory of a live address space and no low page table.\<close>

definition root_frames :: "kernel \<Rightarrow> nat set" where
  "root_frames s = {pmm_page a | a w. owns s w = Some a \<and> (w = KPd \<or> (\<exists>t. w = VPd t \<or> w = VLow t))}"

lemma root_frames_mem:
  "pmm_page (kpd s) \<in> root_frames s"
  "live s t \<Longrightarrow> pmm_page (pd_phys (v86_tasks s ! t)) \<in> root_frames s"
  "live s t \<Longrightarrow> pmm_page (pt_low_phys (v86_tasks s ! t)) \<in> root_frames s"
  unfolding root_frames_def by (force intro: exI [of _ KPd] exI [of _ "VPd t"] exI [of _ "VLow t"])+

lemma live_upd [simp]: "live (s\<lparr>pmem := m\<rparr>) = live s" "live (s\<lparr>frames := f\<rparr>) = live s"
  by (simp_all add: live_def fun_eq_iff)

lemma live_aligned:
  assumes "own_ok s" "live s t"
  shows "aligned (pd_phys (v86_tasks s ! t))" "aligned (pt_low_phys (v86_tasks s ! t))"
  using own_okD(1) [OF assms(1), of "VPd t"] own_okD(1) [OF assms(1), of "VLow t"] assms(2) by simp_all

lemma kpd_aligned: "own_ok s \<Longrightarrow> aligned (kpd s)"
  using own_okD(1) [of s KPd] by simp

lemma mem_change:
  assumes ok: "spaces_ok s" and m: "same_outside P (pmem s) m" and P: "P \<inter> root_frames s = {}"
  shows "spaces_ok (s\<lparr>pmem := m\<rparr>)" "owns (s\<lparr>pmem := m\<rparr>) = owns s"
proof -
  let ?s' = "s\<lparr>pmem := m\<rparr>"
  have own: "own_ok s" using ok by (simp add: spaces_ok_def)
  have k: "kpde ?s' i = kpde s i" if "i < 1024" for i
    using same_outside_entry [OF m kpd_aligned [OF own] that] root_frames_mem(1) [of s] P by (auto simp: kpde_def)
  have "owns ?s' w = owns s w" for w by (cases w) (auto simp: k)
  then show o: "owns ?s' = owns s" by blast
  have "space_ok ?s' t" if l: "live s t" for t
  proof -
    note al = live_aligned [OF own l] and r = root_frames_mem(2,3) [OF l]
    have "m (entry (pd_phys (v86_tasks s ! t)) i) = pmem s (entry (pd_phys (v86_tasks s ! t)) i)"
         "m (entry (pt_low_phys (v86_tasks s ! t)) i) = pmem s (entry (pt_low_phys (v86_tasks s ! t)) i)" if "i < 1024" for i
      using same_outside_entry [OF m al(1) that] same_outside_entry [OF m al(2) that] r P by auto
    moreover have "space_ok s t" using ok l by (simp add: spaces_ok_def)
    ultimately show ?thesis by (simp add: space_ok_def Let_def k)
  qed
  then show "spaces_ok ?s'"
    using ok o k unfolding spaces_ok_def own_ok_def by (simp add: KERNEL_PT_COUNT_def)
qed

lemma entry_eq: "aligned b \<Longrightarrow> aligned c \<Longrightarrow> i < 1024 \<Longrightarrow> j < 1024 \<Longrightarrow> entry b i = entry c j \<longleftrightarrow> b = c \<and> i = j"
  using aligned_eqI [of b c] entry_page [of b i] entry_page [of c j] entry_inj [of b i j] by metis

lemma root_frames_disj: "own_ok s \<Longrightarrow> owns s w = Some a \<Longrightarrow> w \<noteq> KPd \<Longrightarrow> (\<And>t. w \<noteq> VPd t \<and> w \<noteq> VLow t) \<Longrightarrow> pmm_page a \<notin> root_frames s"
proof
  assume own: "own_ok s" "owns s w = Some a" "w \<noteq> KPd" "\<And>t. w \<noteq> VPd t \<and> w \<noteq> VLow t" and "pmm_page a \<in> root_frames s"
  then obtain b w' where "pmm_page a = pmm_page b" "owns s w' = Some b" "w' = KPd \<or> (\<exists>t. w' = VPd t \<or> w' = VLow t)"
    unfolding root_frames_def by blast
  then show False using own_inj [OF own(1,2)] own(3,4) by blast
qed

lemma free_root_frames: "own_ok s \<Longrightarrow> p \<in> pmm_free_set (frames s) \<Longrightarrow> p \<notin> root_frames s"
  unfolding root_frames_def using own_okD(2) by blast

section \<open>The pager keeps the invariant\<close>

lemma dir_idx_bound [simp]: "dir_idx v < 1024"
proof -
  have "dir_idx v = unat v div 4194304" by (simp add: dir_idx_def drop_bit_eq_div unat_div_u32)
  moreover have "unat v < 4294967296" by (rule unat_u32_bound)
  ultimately show ?thesis by linarith
qed

lemma table_idx_alt: "table_idx v = unat v div 4096 mod 1024"
proof -
  have "(0x3FF :: u32) = mask 10" by (simp add: mask_eq_exp_minus_1)
  then have "drop_bit 12 v AND 0x3FF = take_bit 10 (drop_bit 12 v)" by (simp only: take_bit_eq_mask)
  also have "\<dots> = (v div 4096) mod 1024" by (simp add: take_bit_eq_mod drop_bit_eq_div)
  finally have "drop_bit 12 v AND 0x3FF = (v div 4096) mod 1024" .
  then show ?thesis by (simp add: table_idx_def unat_mod unat_div_u32)
qed

lemma table_idx_bound [simp]: "table_idx v < 1024"
  by (simp add: table_idx_alt)

lemma page_idx: "pmm_page v = pmm_page u \<longleftrightarrow> dir_idx v = dir_idx u \<and> table_idx v = table_idx u"
proof -
  have d: "dir_idx w = pmm_page w div 1024" for w
    by (simp add: dir_idx_def drop_bit_eq_div unat_div_u32 pmm_page_def div_mult2_eq [of _ 4096 1024, simplified])
  have t: "table_idx w = pmm_page w mod 1024" for w by (simp add: table_idx_alt pmm_page_def)
  show ?thesis unfolding d t by (metis div_mult_mod_eq)
qed

lemma propagate_mem:
  "fold (\<lambda>t m. if \<not> v_active t then m else if pd_phys t = 0 then m else m(entry (pd_phys t) d := pde)) vs m x =
     (if \<exists>v \<in> set vs. v_active v \<and> pd_phys v \<noteq> 0 \<and> x = entry (pd_phys v) d then pde else m x)"
  by (induction vs arbitrary: m) auto

lemma live_set: "(\<exists>v \<in> set (v86_tasks s). v_active v \<and> pd_phys v \<noteq> 0 \<and> Q v) \<longleftrightarrow> (\<exists>t. live s t \<and> Q (v86_tasks s ! t))"
  unfolding live_def in_set_conv_nth Bex_def by blast

text \<open>A page table that is added: a zeroed frame, entered in the kernel's directory and in every live one.\<close>

lemma add_table:
  assumes ok: "spaces_ok s" and d: "8 \<le> d" "d < 1024" and np: "\<not> is_present (kpde s d)"
    and al: "pmm_alloc_page (frames s) = (p, f)" "p \<noteq> 0"
  defines "s' \<equiv> v86_propagate_pde d (pte_flags p) (s\<lparr>frames := f, pmem := (zero_page p (pmem s))(entry (kpd s) d := pte_flags p)\<rparr>)"
  shows "spaces_ok s'" "kpde s' d = pte_flags p" "\<And>i. i < 1024 \<Longrightarrow> i \<noteq> d \<Longrightarrow> kpde s' i = kpde s i"
    "\<And>i. i < 1024 \<Longrightarrow> pmem s' (entry p i) = 0" "aligned p" "kpd s' = kpd s"
    "\<And>i j. i < 1024 \<Longrightarrow> j < 1024 \<Longrightarrow> is_present (kpde s i) \<Longrightarrow> pmem s' (entry (table_of (kpde s i)) j) = pmem s (entry (table_of (kpde s i)) j)"
proof -
  have own: "own_ok s" and pok: "pmm_ok (frames s)" and len: "length (v86_tasks s) = V86_MAX_TASKS" using ok by (auto simp: spaces_ok_def)
  have pf: "pmm_page p \<in> pmm_free_set (frames s)" "aligned p" "pmm_free_set f = pmm_free_set (frames s) - {pmm_page p}" "pmm_ok f"
    using pmm.alloc_frame [OF pok al] pmm_frame_aligned by auto
  have p0: "pmm_page p \<noteq> 0" using pmm.frame_0 [OF pok] pf(1) by metis
  have fresh: "pmm_page a \<noteq> pmm_page p" if "owns s w = Some a" for w a using own_okD(2) [OF own that] pf(1) by metis
  note ka = kpd_aligned [OF own] and la = live_aligned [OF own]
  have m': "pmem s' x = (if \<exists>t. live s t \<and> x = entry (pd_phys (v86_tasks s ! t)) d then pte_flags p
       else if x = entry (kpd s) d then pte_flags p else zero_page p (pmem s) x)" for x
    using d by (auto simp: s'_def v86_propagate_pde_def propagate_mem live_set [where s = s])
  have fld: "v86_tasks s' = v86_tasks s" "frames s' = f" "kpd s' = kpd s"
    using d by (simp_all add: s'_def v86_propagate_pde_def)
  then have lv: "live s' = live s" by (simp add: live_def fun_eq_iff)
  have at: "pmem s' (entry a i) = pmem s (entry a i)"
    if "owns s w = Some a" "i < 1024" "i \<noteq> d \<or> (w \<noteq> KPd \<and> (\<forall>t. w \<noteq> VPd t))" for w a i
  proof -
    have a: "aligned a" using own_okD(1) [OF own that(1)] .
    have "zero_page p (pmem s) (entry a i) = pmem s (entry a i)"
      using same_outside_entry [OF zero_page_same [OF pf(2)] a that(2)] fresh [OF that(1)] by simp
    moreover have "entry a i \<noteq> entry (kpd s) d" using that(2,3) d own_inj [OF own that(1), of KPd] by (auto simp: entry_eq a ka)
    moreover have "entry a i \<noteq> entry (pd_phys (v86_tasks s ! t)) d" if l: "live s t" for t
      using \<open>i < 1024\<close> \<open>i \<noteq> d \<or> _\<close> d own_inj [OF own \<open>owns s w = Some a\<close>, of "VPd t"] l by (auto simp: entry_eq a la)
    ultimately show ?thesis unfolding m' by auto
  qed
  show k: "kpde s' d = pte_flags p" unfolding kpde_def fld m' by simp
  show k': "kpde s' i = kpde s i" if "i < 1024" "i \<noteq> d" for i
    using at [of KPd "kpd s" i] that unfolding kpde_def fld by simp
  show "pmem s' (entry p i) = 0" if i: "i < 1024" for i
  proof -
    have "entry p i \<noteq> entry (kpd s) d" using fresh [of KPd "kpd s"] i d by (auto simp: entry_eq ka pf(2))
    moreover have "entry p i \<noteq> entry (pd_phys (v86_tasks s ! t)) d" if "live s t" for t
      using fresh [of "VPd t" "pd_phys (v86_tasks s ! t)"] that i d by (auto simp: entry_eq la pf(2))
    ultimately show ?thesis unfolding m' using zero_page_entry [OF pf(2) i] by auto
  qed
  show "pmem s' (entry (table_of (kpde s i)) j) = pmem s (entry (table_of (kpde s i)) j)"
    if "i < 1024" "j < 1024" "is_present (kpde s i)" for i j
    using at [of "KTab i" _ j] that by simp
  show "aligned p" "kpd s' = kpd s" by (fact pf(2), fact fld(3))
  have ow: "owns s' w = (if w = KTab d then Some p else owns s w)" for w
  proof (cases w)
    case (KTab i)
    then show ?thesis using k k' [of i] d pf(2) by (cases "i = d") auto
  qed (simp_all add: fld lv)
  have "own_ok s'"
    by (rule own_ok_extend [OF own, where nw = "\<lambda>w. if w = KTab d then Some p else None"])
      (use pf p0 in \<open>auto simp: ow fld split: if_splits\<close>)
  moreover have "space_ok s' t" if l: "live s t" for t
  proof -
    have so: "space_ok s t" using ok l by (simp add: spaces_ok_def)
    have "pmem s' (entry (pd_phys (v86_tasks s ! t)) d) = pte_flags p" unfolding m' using l by auto
    then have "\<forall>i \<in> {1..<1024}. pmem s' (entry (pd_phys (v86_tasks s ! t)) i) = kpde s' i"
      using so at [of "VPd t"] l k k' by (metis atLeastLessThan_iff owns.simps(3) space_ok_def)
    moreover have "pmem s' (entry (pd_phys (v86_tasks s ! t)) 0) = pte_flags (pt_low_phys (v86_tasks s ! t))"
      using so at [of "VPd t" _ 0] l d by (simp add: space_ok_def Let_def)
    moreover have "\<forall>i \<in> {1..<160}. pmem s' (entry (pt_low_phys (v86_tasks s ! t)) i) = pte_flags (mem_pages (v86_tasks s ! t) ! i)"
      using so at [of "VLow t"] l by (simp add: space_ok_def Let_def)
    ultimately show ?thesis using so unfolding space_ok_def Let_def fld by blast
  qed
  moreover have "is_present (kpde s' i)" if "i < KERNEL_PT_COUNT" for i
    using k' [of i] that ok d unfolding spaces_ok_def KERNEL_PT_COUNT_def by auto
  ultimately show "spaces_ok s'" using len pf(4) unfolding spaces_ok_def fld lv by blast
qed

lemma ensure_table_result:
  assumes ok: "spaces_ok s" and e: "ensure_table d s = (b, s')" and d: "d < 1024"
  shows "spaces_ok s'" "b \<longleftrightarrow> is_present (kpde s d) \<or> fst (pmm_alloc_page (frames s)) \<noteq> 0" "\<not> b \<Longrightarrow> s' = s"
    "b \<Longrightarrow> is_present (kpde s' d)" "kpd s' = kpd s"
    "walk (pmem s') (kpd s) v = walk (pmem s) (kpd s) v"
proof -
  have P: "spaces_ok s' \<and> (b \<longleftrightarrow> is_present (kpde s d) \<or> fst (pmm_alloc_page (frames s)) \<noteq> 0) \<and> (\<not> b \<longrightarrow> s' = s) \<and>
     (b \<longrightarrow> is_present (kpde s' d)) \<and> kpd s' = kpd s \<and> walk (pmem s') (kpd s) v = walk (pmem s) (kpd s) v"
  proof (cases "is_present (kpde s d)")
    case True
    then show ?thesis using e ok by (auto simp: ensure_table_def kpde_def)
  next
    case False
    obtain p f where al: "pmm_alloc_page (frames s) = (p, f)" by fastforce
    have d8: "8 \<le> d" using False ok unfolding spaces_ok_def KERNEL_PT_COUNT_def by (meson not_le)
    show ?thesis
    proof (cases "p = 0")
      case True
      have "f = frames s" using pmm.alloc_fails al ok True by (auto simp: spaces_ok_def)
      then show ?thesis using e False al True ok by (auto simp: ensure_table_def kpde_def)
    next
      case p: False
      note a = add_table [OF ok d8 d False al p]
      have r: "b" "s' = v86_propagate_pde d (pte_flags p) (s\<lparr>frames := f, pmem := (zero_page p (pmem s))(entry (kpd s) d := pte_flags p)\<rparr>)"
        using e False al p by (auto simp: ensure_table_def kpde_def Let_def)
      have "walk (pmem s') (kpd s) v = walk (pmem s) (kpd s) v"
      proof (cases "dir_idx v = d")
        case True
        have "\<not> is_present 0" by (simp add: is_present_def)
        then show ?thesis using True False a(2,4,5,6) unfolding r(2) walk_def Let_def kpde_def by simp
      next
        case False
        then show ?thesis using a(3,7) [of "dir_idx v"] a(6) unfolding r(2) walk_def Let_def kpde_def by simp
      qed
      then show ?thesis using a(1,2,6) r al p by simp
    qed
  qed
  then show "spaces_ok s'" "b \<longleftrightarrow> is_present (kpde s d) \<or> fst (pmm_alloc_page (frames s)) \<noteq> 0" "\<not> b \<Longrightarrow> s' = s"
    "b \<Longrightarrow> is_present (kpde s' d)" "kpd s' = kpd s" "walk (pmem s') (kpd s) v = walk (pmem s) (kpd s) v" by blast+
qed

text \<open>Writing one entry of a page table of the kernel changes the translation of one page.\<close>

lemma write_pte:
  fixes e :: u32
  assumes ok: "spaces_ok s" and pr: "is_present (kpde s (dir_idx virt))"
  defines "s' \<equiv> s\<lparr>pmem := (pmem s)(entry (table_of (kpde s (dir_idx virt))) (table_idx virt) := e)\<rparr>"
  shows "spaces_ok s'"
    "walk (pmem s') (kpd s) v = (if pmm_page v = pmm_page virt
       then if is_present e then Some (e AND 0xFFFFF000 OR v AND 0xFFF) else None else walk (pmem s) (kpd s) v)"
proof -
  have own: "own_ok s" using ok by (simp add: spaces_ok_def)
  have o: "owns s (KTab (dir_idx virt)) = Some (table_of (kpde s (dir_idx virt)))" using pr by simp
  let ?T = "table_of (kpde s (dir_idx virt))"
  have so: "same_outside {pmm_page ?T} (pmem s) (pmem s')"
    unfolding s'_def by (simp add: same_outside_upd)
  have nr: "{pmm_page ?T} \<inter> root_frames s = {}" using root_frames_disj [OF own o] by simp
  note mc = mem_change [OF ok so nr]
  show "spaces_ok s'" using mc(1) by (simp add: s'_def)
  have pd: "pmem s' (entry (kpd s) (dir_idx v)) = kpde s (dir_idx v)"
    using same_outside_entry [OF so kpd_aligned [OF own], of "dir_idx v"] own_neq [OF own o, of KPd "kpd s"]
    by (simp add: kpde_def)
  have "pmem s' (entry (table_of (kpde s (dir_idx v))) (table_idx v)) =
      (if pmm_page v = pmm_page virt then e else pmem s (entry (table_of (kpde s (dir_idx v))) (table_idx v)))"
    if "is_present (kpde s (dir_idx v))"
  proof (cases "dir_idx v = dir_idx virt")
    case True
    then show ?thesis by (simp add: s'_def page_idx)
  next
    case False
    then have "pmm_page (table_of (kpde s (dir_idx v))) \<noteq> pmm_page ?T"
      using own_inj [OF own o, of "KTab (dir_idx v)"] that by auto
    then show ?thesis using False same_outside_entry [OF so, of "table_of (kpde s (dir_idx v))"] by (simp add: page_idx)
  qed
  then show "walk (pmem s') (kpd s) v = (if pmm_page v = pmm_page virt
       then if is_present e then Some (e AND 0xFFFFF000 OR v AND 0xFFF) else None else walk (pmem s) (kpd s) v)"
    using pr pd unfolding walk_def Let_def by (auto simp: page_idx kpde_def)
qed

lemma pte_parts:
  "is_present ((phys AND 0xFFFFF000) OR (flags AND 0xFFF)) \<longleftrightarrow> is_present flags"
  "((phys AND 0xFFFFF000) OR (flags AND 0xFFF)) AND 0xFFFFF000 = phys AND (0xFFFFF000 :: u32)"
proof -
  have m: "(0xFFF :: u32) = mask 12" by (simp add: mask_eq_exp_minus_1)
  have pr: "is_present x \<longleftrightarrow> bit x 0" for x :: u32
    unfolding is_present_def PTE_PRESENT_def using and_push_bit_1 [of x 0] by simp
  show "is_present ((phys AND 0xFFFFF000) OR (flags AND 0xFFF)) \<longleftrightarrow> is_present flags"
    unfolding pr m mask12 by (simp add: bit_and_iff bit_or_iff bit_mask_iff bit_not_iff)
  show "((phys AND 0xFFFFF000) OR (flags AND 0xFFF)) AND 0xFFFFF000 = phys AND (0xFFFFF000 :: u32)"
    unfolding m mask12 by (rule bit_word_eqI) (auto simp: bit_and_iff bit_or_iff bit_mask_iff bit_not_iff)
qed

lemma vmm_map_result:
  assumes ok: "spaces_ok s"
  shows "spaces_ok (vmm_map_page virt phys flags s)" "kpd (vmm_map_page virt phys flags s) = kpd s"
    "walk (pmem (vmm_map_page virt phys flags s)) (kpd s) v =
      (if pmm_page v = pmm_page virt \<and> (is_present (kpde s (dir_idx virt)) \<or> fst (pmm_alloc_page (frames s)) \<noteq> 0)
       then if is_present flags then Some (phys AND 0xFFFFF000 OR v AND 0xFFF) else None
       else walk (pmem s) (kpd s) v)"
proof -
  obtain b s1 where e: "ensure_table (dir_idx virt) s = (b, s1)" by fastforce
  note r = ensure_table_result [OF ok e dir_idx_bound]
  let ?e = "(phys AND 0xFFFFF000) OR (flags AND 0xFFF)"
  have m: "vmm_map_page virt phys flags s = (if \<not> b then s1 else
      s1\<lparr>pmem := (pmem s1)(entry (table_of (kpde s1 (dir_idx virt))) (table_idx virt) := ?e)\<rparr>)"
    by (simp add: vmm_map_page_def e Let_def kpde_def)
  show "spaces_ok (vmm_map_page virt phys flags s)" "kpd (vmm_map_page virt phys flags s) = kpd s"
    unfolding m using r(1,5) write_pte(1) [OF r(1) r(4)] by auto
  show "walk (pmem (vmm_map_page virt phys flags s)) (kpd s) v =
      (if pmm_page v = pmm_page virt \<and> (is_present (kpde s (dir_idx virt)) \<or> fst (pmm_alloc_page (frames s)) \<noteq> 0)
       then if is_present flags then Some (phys AND 0xFFFFF000 OR v AND 0xFFF) else None
       else walk (pmem s) (kpd s) v)"
  proof (cases b)
    case True
    then show ?thesis
      using write_pte(2) [OF r(1) r(4) [OF True], of ?e v] r(2,5) r(6) [of v] by (simp add: m pte_parts)
  next
    case False
    then show ?thesis using r(2,3) by (simp add: m)
  qed
qed

lemma get_physical_walk: "vmm_get_physical v s = (case walk (pmem s) (kpd s) v of None \<Rightarrow> 0 | Some a \<Rightarrow> a)"
  by (simp add: vmm_get_physical_def walk_def Let_def)

lemma vmm_unmap_result:
  assumes ok: "spaces_ok s"
  shows "spaces_ok (vmm_unmap_page virt s)" "kpd (vmm_unmap_page virt s) = kpd s"
    "walk (pmem (vmm_unmap_page virt s)) (kpd s) v = (if pmm_page v = pmm_page virt then None else walk (pmem s) (kpd s) v)"
proof -
  let ?s' = "s\<lparr>pmem := (pmem s)(entry (table_of (kpde s (dir_idx virt))) (table_idx virt) := 0)\<rparr>"
  have u: "vmm_unmap_page virt s = (if is_present (kpde s (dir_idx virt)) then ?s' else s)"
    by (simp add: vmm_unmap_page_def kpde_def)
  have z: "\<not> is_present 0" by (simp add: is_present_def)
  show "spaces_ok (vmm_unmap_page virt s)" "kpd (vmm_unmap_page virt s) = kpd s"
    unfolding u using ok write_pte(1) [OF ok] by auto
  show "walk (pmem (vmm_unmap_page virt s)) (kpd s) v = (if pmm_page v = pmm_page virt then None else walk (pmem s) (kpd s) v)"
  proof (cases "is_present (kpde s (dir_idx virt))")
    case True
    then show ?thesis unfolding u using write_pte(2) [OF ok True, of 0 v] z by simp
  next
    case False
    then show ?thesis unfolding u by (auto simp: walk_def kpde_def Let_def page_idx)
  qed
qed

section \<open>The state after boot\<close>

text \<open>What the linker and the boot code provide: two page-aligned arrays in frames that are marked used.\<close>

definition link_ok :: "kernel \<Rightarrow> bool" where
  "link_ok s \<longleftrightarrow> aligned (kpd s) \<and> aligned (kpt s) \<and>
     0 < pmm_page (kpd s) \<and> 0 < pmm_page (kpt s) \<and> pmm_page (kpd s) \<notin> {pmm_page (kpt s)..<pmm_page (kpt s) + 8} \<and>
     pmm_page (kpd s) < 8192 \<and> pmm_page (kpt s) < 8184 \<and> pmm_free_set (frames s) \<subseteq> {..<8192} \<and>
     pmm_ok (frames s) \<and> pmm_free_set (frames s) \<inter> insert (pmm_page (kpd s)) {pmm_page (kpt s)..<pmm_page (kpt s) + 8} = {} \<and>
     length (v86_tasks s) = V86_MAX_TASKS \<and> (\<forall>v \<in> set (v86_tasks s). \<not> v_active v)"

definition ktab :: "kernel \<Rightarrow> nat \<Rightarrow> u32" where
  "ktab s t = kpt s + of_nat t * PAGE_SIZE"

lemma ktab_props:
  assumes "link_ok s" "t < 8"
  shows "aligned (ktab s t)" "pmm_page (ktab s t) = pmm_page (kpt s) + t"
proof -
  have b: "unat (kpt s) div 4096 < 8184" "aligned (kpt s)" using assms(1) by (auto simp: link_ok_def pmm_page_def)
  have "unat (kpt s) < 8184 * 4096" using b(1) by (simp add: div_less_iff_less_mult)
  have t: "unat (of_nat t * PAGE_SIZE) = t * 4096" using assms(2) by (intro page_addr) simp
  have "unat (ktab s t) = unat (kpt s) + t * 4096"
    unfolding ktab_def using \<open>unat (kpt s) < 8184 * 4096\<close> assms(2) t by (subst unat_plus_small) auto
  then show "aligned (ktab s t)" "pmm_page (ktab s t) = pmm_page (kpt s) + t"
    using b(2) by (auto simp: aligned_def pmm_page_def)
qed

lemma ktab_kpd: "link_ok s \<Longrightarrow> t < 8 \<Longrightarrow> pmm_page (ktab s t) \<noteq> pmm_page (kpd s)"
  using ktab_props(2) [of s t] unfolding link_ok_def by auto

definition id_entry :: "nat \<Rightarrow> nat \<Rightarrow> u32" where
  "id_entry t i = pte_flags (of_nat t * 4 * 1024 * 1024 + of_nat i * PAGE_SIZE)"

lemma init_table_mem:
  assumes a: "aligned tab" "aligned pd" "pmm_page tab \<noteq> pmm_page pd" and t: "t < 1024"
  shows "\<And>i. i < 1024 \<Longrightarrow> vmm_init_table tab t pd m (entry tab i) = id_entry t i"
    "\<And>i. i < 1024 \<Longrightarrow> vmm_init_table tab t pd m (entry pd i) = (if i = t then pte_flags tab else m (entry pd i))"
    "\<And>b i. aligned b \<Longrightarrow> i < 1024 \<Longrightarrow> pmm_page b \<noteq> pmm_page tab \<Longrightarrow> pmm_page b \<noteq> pmm_page pd \<Longrightarrow>
       vmm_init_table tab t pd m (entry b i) = m (entry b i)"
proof -
  let ?g = "\<lambda>i (m :: mem32). id_entry t i"
  let ?m1 = "fold (\<lambda>i m. m(entry tab i := ?g i m)) [0..<1024] m"
  have v: "vmm_init_table tab t pd m = ?m1(entry pd t := pte_flags tab)" by (simp add: vmm_init_table_def id_entry_def)
  have s: "same_outside {pmm_page tab} m ?m1" by (rule fold_write_same) (use a in simp_all)
  show "vmm_init_table tab t pd m (entry tab i) = id_entry t i" if "i < 1024" for i
    unfolding v using fold_write_in [of tab "[0..<1024]" i m ?g] a that t by (auto simp: entry_eq)
  show "vmm_init_table tab t pd m (entry pd i) = (if i = t then pte_flags tab else m (entry pd i))" if "i < 1024" for i
    unfolding v using same_outside_entry [OF s a(2) that] a that t by simp
  show "vmm_init_table tab t pd m (entry b i) = m (entry b i)"
    if "aligned b" "i < 1024" "pmm_page b \<noteq> pmm_page tab" "pmm_page b \<noteq> pmm_page pd" for b i
    unfolding v using same_outside_entry [OF s that(1,2)] that a t by (auto simp: entry_eq)
qed

lemma init_tables_mem:
  assumes l: "link_ok s" and z: "\<And>i. i < 1024 \<Longrightarrow> m (entry (kpd s) i) = 0"
  shows "n \<le> 8 \<Longrightarrow> (let m' = fold (\<lambda>t. vmm_init_table (ktab s t) t (kpd s)) [0..<n] m in
    (\<forall>i < 1024. m' (entry (kpd s) i) = (if i < n then pte_flags (ktab s i) else 0)) \<and>
    (\<forall>t < n. \<forall>i < 1024. m' (entry (ktab s t) i) = id_entry t i))"
proof (induction n)
  case 0
  then show ?case by (simp add: z)
next
  case (Suc n)
  let ?m = "fold (\<lambda>t. vmm_init_table (ktab s t) t (kpd s)) [0..<n] m"
  have n: "n < 8" "n < 1024" using Suc.prems by auto
  have ih: "\<forall>i < 1024. ?m (entry (kpd s) i) = (if i < n then pte_flags (ktab s i) else 0)"
    "\<forall>t < n. \<forall>i < 1024. ?m (entry (ktab s t) i) = id_entry t i" using Suc by (simp_all add: Let_def)
  have "aligned (kpd s)" using l by (simp add: link_ok_def)
  note t = init_table_mem [OF ktab_props(1) [OF l n(1)] this ktab_kpd [OF l n(1)] n(2), where m = ?m]
  have 1: "\<forall>i < 1024. vmm_init_table (ktab s n) n (kpd s) ?m (entry (kpd s) i) = (if i < Suc n then pte_flags (ktab s i) else 0)"
    using ih(1) by (simp add: t(2) less_Suc_eq)
  have 2: "vmm_init_table (ktab s n) n (kpd s) ?m (entry (ktab s k) i) = id_entry k i" if "k < Suc n" "i < 1024" for k i
  proof (cases "k = n")
    case False
    then have k: "k < n" "k < 8" using that n by auto
    have "pmm_page (ktab s k) \<noteq> pmm_page (ktab s n)" using ktab_props(2) [OF l] k n by simp
    then show ?thesis using t(3) [OF ktab_props(1) [OF l k(2)] that(2)] ktab_kpd [OF l k(2)] ih(2) k(1) that(2) by simp
  qed (use t(1) that in simp)
  show ?case unfolding Let_def using 1 2 by simp
qed

lemma vmm_init_mem:
  assumes l: "link_ok s"
  shows "i < 1024 \<Longrightarrow> kpde (vmm_init s) i = (if i < 8 then pte_flags (ktab s i) else 0)"
    "t < 8 \<Longrightarrow> i < 1024 \<Longrightarrow> pmem (vmm_init s) (entry (ktab s t) i) = id_entry t i"
proof -
  let ?m = "fold (\<lambda>i m. m(entry (kpd s) i := 0)) [0..<1024] (pmem s)"
  have z: "?m (entry (kpd s) i) = 0" if "i < 1024" for i
    using l that by (subst fold_write_in) (simp_all add: link_ok_def)
  have v: "pmem (vmm_init s) = fold (\<lambda>t. vmm_init_table (ktab s t) t (kpd s)) [0..<8] ?m" "kpd (vmm_init s) = kpd s"
    by (simp_all add: vmm_init_def KERNEL_PT_COUNT_def ktab_def)
  have r: "\<forall>i < 1024. pmem (vmm_init s) (entry (kpd s) i) = (if i < 8 then pte_flags (ktab s i) else 0)"
    "\<forall>t < 8. \<forall>i < 1024. pmem (vmm_init s) (entry (ktab s t) i) = id_entry t i"
    using init_tables_mem [OF l, of ?m 8] z unfolding v(1) Let_def by simp_all
  show "i < 1024 \<Longrightarrow> kpde (vmm_init s) i = (if i < 8 then pte_flags (ktab s i) else 0)"
    using r(1) by (simp add: kpde_def v(2))
  show "t < 8 \<Longrightarrow> i < 1024 \<Longrightarrow> pmem (vmm_init s) (entry (ktab s t) i) = id_entry t i" using r(2) by blast
qed

lemma vmm_init_ok:
  assumes l: "link_ok s"
  shows "spaces_ok (vmm_init s)"
proof -
  let ?s = "vmm_init s"
  have f: "v86_tasks ?s = v86_tasks s" "frames ?s = frames s" "kpd ?s = kpd s" by (simp_all add: vmm_init_def Let_def)
  have nl: "\<not> live ?s t" for t using l by (auto simp: live_def f link_ok_def)
  note k = vmm_init_mem(1) [OF l]
  have z: "\<not> is_present 0" by (simp add: is_present_def)
  have ow: "owns ?s w = (case w of KPd \<Rightarrow> Some (kpd s) | KTab i \<Rightarrow> if i < 8 then Some (ktab s i) else None | _ \<Rightarrow> None)" for w
    by (cases w) (auto simp: nl f k ktab_props(1) [OF l] z split: if_splits)
  have cs: "w = KPd \<and> a = kpd s \<or> (\<exists>i < 8. w = KTab i \<and> a = ktab s i)" if "owns ?s w = Some a" for w a
    using that unfolding ow by (auto split: owner.splits if_splits)
  have "own_ok ?s"
  proof (rule own_okI)
    show "pmm_free_set (frames ?s) \<subseteq> {..<8192}" using l by (simp add: f link_ok_def)
    show "aligned a \<and> pmm_page a \<notin> pmm_free_set (frames ?s) \<and> pmm_page a \<noteq> 0 \<and> pmm_page a < 8192" if "owns ?s w = Some a" for w a
      using cs [OF that] l ktab_props [OF l] by (auto simp: f link_ok_def disjoint_iff)
    show "w = w'" if "owns ?s w = Some a" "owns ?s w' = Some a'" "pmm_page a = pmm_page a'" for w w' a a'
      using cs [OF that(1)] cs [OF that(2)] that(3) ktab_kpd [OF l] by (auto simp: ktab_props(2) [OF l]) blast
  qed
  then show ?thesis using l nl k by (simp add: spaces_ok_def f link_ok_def KERNEL_PT_COUNT_def)
qed

section \<open>Building an address space\<close>

lemma build_space_mem:
  fixes pages :: "u32 list"
  assumes a: "aligned pd" "aligned pt" "aligned (kpd s)" and n: "pmm_page pd \<noteq> pmm_page pt" "pmm_page (kpd s) \<noteq> pmm_page pd"
    "pmm_page (kpd s) \<noteq> pmm_page pt"
  defines "m \<equiv> pmem (build_space pd pt pages s)"
  shows "same_outside {pmm_page pd, pmm_page pt} (pmem s) m" "m (entry pd 0) = pte_flags pt"
    "\<And>i. i < 256 \<Longrightarrow> m (entry pt i) = low_entry pages i" "\<And>i. 1 \<le> i \<Longrightarrow> i < 1024 \<Longrightarrow> m (entry pd i) = kpde s i"
proof -
  let ?g1 = "\<lambda>i (m :: mem32). low_entry pages i" and ?g2 = "\<lambda>i m :: mem32. m (entry (kpt s) i)"
    and ?g4 = "\<lambda>i m :: mem32. m (entry (kpd s) i)"
  define m1 where "m1 = fold (\<lambda>i m. m(entry pt i := ?g1 i m)) [0..<256] (pmem s)"
  define m2 where "m2 = fold (\<lambda>i m. m(entry pt i := ?g2 i m)) [256..<1024] m1"
  define m3 where "m3 = m2(entry pd 0 := pte_flags pt)"
  define m4 where "m4 = fold (\<lambda>i m. m(entry pd i := ?g4 i m)) [1..<1024] m3"
  have m: "m = m4" unfolding m_def m4_def m3_def m2_def m1_def build_space_def Let_def vmm_kernel_pt0_def vmm_kernel_pd_phys_def
    by (cases s) (simp only: kernel.select_convs kernel.update_convs)
  have up: "\<forall>i \<in> set [0..<256]. i < (1024 :: nat)" "\<forall>i \<in> set [256..<1024]. i < (1024 :: nat)" "\<forall>i \<in> set [1..<1024]. i < (1024 :: nat)"
    unfolding set_upt by simp_all
  have s1: "same_outside {pmm_page pt} (pmem s) m1" unfolding m1_def by (rule fold_write_same [OF a(2) up(1), where g = ?g1])
  have s2: "same_outside {pmm_page pt} m1 m2" unfolding m2_def by (rule fold_write_same [OF a(2) up(2), where g = ?g2])
  have s12: "same_outside {pmm_page pt} (pmem s) m2" using same_outside_trans [OF s1 s2] by (simp only: Un_absorb)
  have s3: "same_outside {pmm_page pd} m2 m3" unfolding m3_def by (rule same_outside_upd) (simp_all add: a)
  have s4: "same_outside {pmm_page pd} m3 m4" unfolding m4_def by (rule fold_write_same [OF a(1) up(3), where g = ?g4])
  have s34: "same_outside {pmm_page pd} m2 m4" using same_outside_trans [OF s3 s4] by (simp only: Un_absorb)
  show "same_outside {pmm_page pd, pmm_page pt} (pmem s) m"
    unfolding m using same_outside_trans [OF s12 s34] by (rule same_outside_mono) simp
  have "m4 (entry pd 0) = m3 (entry pd 0)" 
    unfolding m4_def by (rule fold_write_out [OF a(1) up(3), where g = ?g4]) (simp_all only: set_upt, simp_all)
  then show "m (entry pd 0) = pte_flags pt" unfolding m m3_def by (simp only: fun_upd_same)
  show "m (entry pt i) = low_entry pages i" if "i < 256" for i
  proof -
    have "m4 (entry pt i) = m2 (entry pt i)" using same_outside_entry [OF s34 a(2), of i] that n(1) by simp
    also have "\<dots> = m1 (entry pt i)" 
      unfolding m2_def by (rule fold_write_out [OF a(2) up(2), where g = ?g2]) (use that in \<open>simp_all only: set_upt\<close>, use that in simp_all)
    also have "\<dots> = low_entry pages i" 
      unfolding m1_def by (rule fold_write_in [OF a(2) up(1), where g = ?g1]) (use that in \<open>simp_all only: set_upt distinct_upt\<close>, use that in simp_all)
    finally show ?thesis unfolding m .
  qed
  show "m (entry pd i) = kpde s i" if "1 \<le> i" "i < 1024" for i
  proof -
    have k: "m' (entry (kpd s) i) = m3 (entry (kpd s) i)" if "same_outside {pmm_page pd} m3 m'" for m'
      using same_outside_entry [OF that a(3) \<open>i < 1024\<close>] n(2) by simp
    have i: "i \<in> set [1..<1024]" unfolding set_upt using that by simp
    have "m4 (entry pd i) = m3 (entry (kpd s) i)"
      unfolding m4_def by (rule fold_write_in [OF a(1) up(3) distinct_upt i, where g = ?g4 and m = m3]) (rule k)
    also have "\<dots> = m2 (entry (kpd s) i)" using same_outside_entry [OF s3 a(3) that(2)] n(2) by simp
    also have "\<dots> = kpde s i" using same_outside_entry [OF s12 a(3) that(2)] n(3) by (simp add: kpde_def)
    finally show ?thesis unfolding m .
  qed
qed

text \<open>The allocation loop takes frames from the pool.\<close>

lemma alloc_pages_frames:
  "take_frames pmm_alloc_page (length is) (frames s) = (ps, b, f) \<Longrightarrow>
     alloc_pages is pages s = (b, fold (\<lambda>(i, p) pg. pg[i := p]) (zip is ps) pages, s\<lparr>frames := f, pmem := fold zero_page ps (pmem s)\<rparr>)"
proof (induction "is" arbitrary: s ps b f pages)
  case (Cons i "is")
  obtain p f1 where p: "pmm_alloc_page (frames s) = (p, f1)" by fastforce
  obtain qs c f2 where q: "take_frames pmm_alloc_page (length is) f1 = (qs, c, f2)" by (metis prod_cases3)
  then have q': "take_frames pmm_alloc_page (length is) (frames (s\<lparr>frames := f1, pmem := zero_page p (pmem s)\<rparr>)) = (qs, c, f2)"
    by simp
  show ?case using Cons.prems Cons.IH [OF q'] p q by (auto split: if_splits)
qed simp

lemma write_pages:
  "length xs = k \<Longrightarrow> length ps \<le> length ys \<Longrightarrow> length ps \<le> n \<Longrightarrow>
     fold (\<lambda>(i, p) pg. pg[i := p]) (zip [k..<k + n] ps) (xs @ ys) = xs @ ps @ drop (length ps) ys"
proof (induction ps arbitrary: xs ys k n)
  case (Cons p ps)
  then obtain y ys' where y: "ys = y # ys'" by (cases ys) auto
  obtain n' where n: "n = Suc n'" using Cons.prems(3) by (cases n) auto
  have "fold (\<lambda>(i, p) pg. pg[i := p]) (zip [Suc k..<Suc k + n'] ps) ((xs @ [p]) @ ys') = (xs @ [p]) @ ps @ drop (length ps) ys'"
    by (rule Cons.IH) (use Cons.prems y n in simp_all)
  moreover have "[k..<k + n] = k # [Suc k..<Suc k + n']" unfolding n by (simp add: upt_conv_Cons del: upt_Suc)
  moreover have "(xs @ y # ys')[k := p] = xs @ p # ys'" using Cons.prems(1) list_update_length by metis
  ultimately show ?case unfolding y by (simp del: upt_Suc)
qed simp

lemma fold_release_frame:
  "fold release_frame xs s = s\<lparr>frames := fold pmm_free_page (filter (\<lambda>p. p \<noteq> 0) xs) (frames s)\<rparr>"
  by (induction xs arbitrary: s) (simp_all add: release_frame_def)

lemma zero_pages_same:
  "\<forall>p \<in> set ps. aligned p \<Longrightarrow> same_outside (pmm_page ` set ps) m (fold zero_page ps m)"
proof (rule same_outside_fold)
  fix x m1 assume "\<forall>p \<in> set ps. aligned p" "x \<in> set ps" "same_outside (pmm_page ` set ps) m m1"
  then show "same_outside (pmm_page ` set ps) m (zero_page x m1)"
    using zero_page_same [of x m1] by (auto simp: same_outside_def)
qed simp

text \<open>All frames a new task needs, in the order they are taken.\<close>

lemma alloc_pages_result:
  assumes "take_frames pmm_alloc_page 159 (frames s) = (ps, b, f)" "length ps \<le> 159"
  shows "alloc_pages [1..<160] (replicate 160 0) s =
    (b, 0 # ps @ replicate (159 - length ps) 0, s\<lparr>frames := f, pmem := fold zero_page ps (pmem s)\<rparr>)"
proof -
  have r: "replicate 160 (0 :: u32) = [0] @ replicate 159 0" by (simp add: numeral_eq_Suc)
  have "fold (\<lambda>(i, p) pg. pg[i := p]) (zip [1..<1 + 159] ps) ([0] @ replicate 159 0) = [0] @ ps @ drop (length ps) (replicate 159 (0 :: u32))"
    by (rule write_pages) (use assms(2) in simp_all)
  then show ?thesis using alloc_pages_frames [of "[1..<160]" s ps b f] assms(1) unfolding r by simp
qed

lemma take_frames_length: "take_frames al n s = (ps, b, s') \<Longrightarrow> length ps \<le> n \<and> (b \<longrightarrow> length ps = n)"
  by (induction n arbitrary: s ps) (auto split: prod.splits if_splits)

section \<open>Creating a task\<close>

lemma spaces_cong:
  assumes "pmem s' = pmem s" "frames s' = frames s" "kpd s' = kpd s" "v86_tasks s' = v86_tasks s"
  shows "live s' = live s" "owns s' = owns s" "space_ok s' = space_ok s" "spaces_ok s' = spaces_ok s" "kpde s' = kpde s"
proof -
  show l: "live s' = live s" and k: "kpde s' = kpde s" using assms by (simp_all add: live_def kpde_def fun_eq_iff)
  have "owns s' w = owns s w" for w by (cases w) (simp_all add: l k assms)
  then show o: "owns s' = owns s" by blast
  show sp: "space_ok s' = space_ok s" by (simp add: space_ok_def k assms fun_eq_iff)
  show "spaces_ok s' = spaces_ok s" by (simp add: spaces_ok_def own_ok_def l o k sp assms)
qed

lemma frames_change:
  assumes "spaces_ok s" "pmm_ok f" "pmm_free_set f = pmm_free_set (frames s)"
  shows "spaces_ok (s\<lparr>frames := f\<rparr>)" "owns (s\<lparr>frames := f\<rparr>) = owns s"
proof -
  let ?s = "s\<lparr>frames := f\<rparr>"
  have k: "kpde ?s = kpde s" by (simp add: kpde_def fun_eq_iff)
  have "owns ?s w = owns s w" for w by (cases w) (simp_all add: k)
  then show o: "owns ?s = owns s" by blast
  have "space_ok ?s = space_ok s" by (simp add: space_ok_def k fun_eq_iff)
  then show "spaces_ok ?s" using assms by (simp add: spaces_ok_def own_ok_def o k)
qed

text \<open>Changing a slot that has no address space before and after.\<close>

lemma dead_slot_change:
  assumes ok: "spaces_ok s" and d: "\<not> live s i" "\<not> v_active v \<or> pd_phys v = 0"
  shows "spaces_ok (upd_task i (\<lambda>_. v) s)" "owns (upd_task i (\<lambda>_. v) s) = owns s" "live (upd_task i (\<lambda>_. v) s) = live s"
proof -
  let ?s = "upd_task i (\<lambda>_. v) s"
  have f: "pmem ?s = pmem s" "frames ?s = frames s" "kpd ?s = kpd s" "length (v86_tasks ?s) = length (v86_tasks s)"
    by (simp_all add: upd_task_def)
  have nth: "t \<noteq> i \<Longrightarrow> v86_tasks ?s ! t = v86_tasks s ! t" for t by (simp add: upd_task_def)
  have "live ?s t = live s t" for t
    using d nth by (cases "t = i") (auto simp: live_def f upd_task_def)
  then show l: "live ?s = live s" by blast
  have same: "v86_tasks ?s ! t = v86_tasks s ! t" if "live s t" for t using nth [of t] that d(1) by metis
  have k: "kpde ?s = kpde s" by (simp add: kpde_def f fun_eq_iff)
  have "owns ?s w = owns s w" for w by (cases w) (auto simp: l k f same)
  then show o: "owns ?s = owns s" by blast
  have "space_ok ?s t = space_ok s t" if "live s t" for t using same [OF that] by (simp add: space_ok_def k f)
  then show "spaces_ok ?s" using ok by (simp add: spaces_ok_def own_ok_def f l o k)
qed

text \<open>An allocation that is undone: the frames return to the pool, their contents may have changed.\<close>

lemma undone_allocation:
  assumes ok: "spaces_ok s" and tk: "take_frames pmm_alloc_page n (frames s) = (fs, b, f)" and rs: "set rs = set fs"
    and m: "same_outside (pmm_page ` set fs) (pmem s) m" and d: "\<not> live s i" "\<not> v_active v \<or> pd_phys v = 0"
  defines "s' \<equiv> upd_task i (\<lambda>_. v) (s\<lparr>frames := fold pmm_free_page rs f, pmem := m\<rparr>)"
  shows "spaces_ok s'" "owns s' = owns s" "pmm_free_set (frames s') = pmm_free_set (frames s)" "live s' = live s"
proof -
  have own: "own_ok s" and pok: "pmm_ok (frames s)" using ok by (auto simp: spaces_ok_def)
  note sp = pmm.take_frames_spec [OF pok tk]
  have sub: "pmm_page ` set fs \<subseteq> pmm_free_set (frames s)" and fr: "pmm_free_set f = pmm_free_set (frames s) - pmm_page ` set fs"
    using sp by auto
  have z: "\<forall>p \<in> set rs. pmm_page p \<noteq> 0" using sub pmm.frame_0 [OF pok] rs by (metis image_eqI subsetD)
  have "pmm_ok f" using sp by simp
  have f': "pmm_ok (fold pmm_free_page rs f)" "pmm_free_set (fold pmm_free_page rs f) = pmm_free_set (frames s)"
    using pmm.release_all [OF \<open>pmm_ok f\<close> z] sub unfolding fr rs by auto
  let ?s1 = "s\<lparr>pmem := m\<rparr>"
  have "pmm_page ` set fs \<inter> root_frames s = {}" using free_root_frames [OF own] sub by blast
  note mc = mem_change [OF ok m this]
  have fs1: "pmm_free_set (fold pmm_free_page rs f) = pmm_free_set (frames ?s1)" using f'(2) by simp
  note fc = frames_change [OF mc(1) f'(1) fs1]
  have "\<not> live (?s1\<lparr>frames := fold pmm_free_page rs f\<rparr>) i" using d(1) by simp
  note dc = dead_slot_change [OF fc(1) this d(2)]
  have e: "s' = upd_task i (\<lambda>_. v) (?s1\<lparr>frames := fold pmm_free_page rs f\<rparr>)"
    by (cases s) (simp add: s'_def)
  show "spaces_ok s'" "owns s' = owns s" "live s' = live s" unfolding e using dc fc(2) mc(2) by simp_all
  show "pmm_free_set (frames s') = pmm_free_set (frames s)" using f'(2) by (simp add: s'_def upd_task_def)
qed

text \<open>A new address space, entered in a free slot.\<close>

definition new_owner :: "nat \<Rightarrow> u32 list \<Rightarrow> owner \<Rightarrow> u32 option" where
  "new_owner i fs w = (case w of VStack t \<Rightarrow> if t = i then Some (fs ! 0) else None
     | VPd t \<Rightarrow> if t = i then Some (fs ! 1) else None
     | VLow t \<Rightarrow> if t = i then Some (fs ! 2) else None
     | VMem t j \<Rightarrow> if t = i \<and> 1 \<le> j \<and> j < 160 then Some (fs ! (j + 2)) else None
     | _ \<Rightarrow> None)"

lemma new_owner_nth: "new_owner i fs w = Some a \<Longrightarrow> length fs = 162 \<Longrightarrow> \<exists>k < 162. a = fs ! k \<and>
    (k = 0 \<and> w = VStack i \<or> k = 1 \<and> w = VPd i \<or> k = 2 \<and> w = VLow i \<or> 3 \<le> k \<and> w = VMem i (k - 2))"
  by (cases w) (auto simp: new_owner_def split: if_splits intro: exI [of _ "_ + 2"])

lemma new_owner_inj:
  assumes "distinct (map pmm_page fs)" "length fs = 162" "new_owner i fs w = Some a" "new_owner i fs w' = Some a'" "pmm_page a = pmm_page a'"
  shows "w = w'"
proof -
  obtain k where k: "k < 162" "a = fs ! k" "k = 0 \<and> w = VStack i \<or> k = 1 \<and> w = VPd i \<or> k = 2 \<and> w = VLow i \<or> 3 \<le> k \<and> w = VMem i (k - 2)"
    using new_owner_nth [OF assms(3,2)] by blast
  obtain k' where k': "k' < 162" "a' = fs ! k'" "k' = 0 \<and> w' = VStack i \<or> k' = 1 \<and> w' = VPd i \<or> k' = 2 \<and> w' = VLow i \<or> 3 \<le> k' \<and> w' = VMem i (k' - 2)"
    using new_owner_nth [OF assms(4,2)] by blast
  have "k = k'" using assms(1,2,5) k(1,2) k'(1,2) by (metis distinct_conv_nth length_map nth_map)
  then show ?thesis using k(3) k'(3) by auto
qed

lemma build_space_frame [simp]:
  "frames (build_space pd pt pages s) = frames s" "kpd (build_space pd pt pages s) = kpd s"
  "v86_tasks (build_space pd pt pages s) = v86_tasks s" "dos_tasks (build_space pd pt pages s) = dos_tasks s"
  unfolding build_space_def Let_def by (cases s, simp only: kernel.select_convs kernel.update_convs)+

lemma new_space:
  assumes ok: "spaces_ok s" and i: "i < V86_MAX_TASKS" "\<not> live s i"
    and tk: "take_frames pmm_alloc_page 162 (frames s) = (st # pd # pt # ps, True, f)"
    and v: "v_active v" "pd_phys v = pd" "pt_low_phys v = pt" "mem_pages v = 0 # ps" "ring0_stack v = st + PAGE_SIZE" "vga_text_phys v = 0"
  defines "s' \<equiv> upd_task i (\<lambda>_. v) (build_space pd pt (0 # ps) (s\<lparr>frames := f, pmem := fold zero_page ps (pmem s)\<rparr>))"
  shows "spaces_ok s'" "live s' = (\<lambda>t. t = i \<or> live s t)" "\<And>t. t \<noteq> i \<Longrightarrow> v86_tasks s' ! t = v86_tasks s ! t"
    "pmm_free_set (frames s') = pmm_free_set (frames s) - pmm_page ` set (st # pd # pt # ps)"
    "same_outside (pmm_page ` set (st # pd # pt # ps)) (pmem s) (pmem s')"
proof -
  let ?fs = "st # pd # pt # ps" and ?s1 = "s\<lparr>frames := f, pmem := fold zero_page ps (pmem s)\<rparr>"
  have own: "own_ok s" and pok: "pmm_ok (frames s)" and len: "length (v86_tasks s) = V86_MAX_TASKS" using ok by (auto simp: spaces_ok_def)
  note sp = pmm.take_frames_spec [OF pok tk]
  have lf: "length ?fs = 162" "length ps = 159" using sp by auto
  have dist: "distinct (map pmm_page ?fs)" and sub: "pmm_page ` set ?fs \<subseteq> pmm_free_set (frames s)" and fok: "pmm_ok f"
    and fr: "pmm_free_set f = pmm_free_set (frames s) - pmm_page ` set ?fs" using sp by blast+
  have al: "aligned p" if "p \<in> set ?fs" for p using sp that pmm_frame_aligned by blast
  have z: "pmm_page p \<noteq> 0" if "p \<in> set ?fs" for p using sub pmm.frame_0 [OF pok] that by (metis image_eqI subsetD)
  have fresh: "pmm_page a \<notin> pmm_page ` set ?fs" if "owns s w = Some a" for w a using own_okD(2) [OF own that] sub by blast
  note ka = kpd_aligned [OF own] and kf = fresh [of KPd "kpd s"]
  have kn: "pmm_page pd \<noteq> pmm_page pt" "pmm_page (kpd ?s1) \<noteq> pmm_page pd" "pmm_page (kpd ?s1) \<noteq> pmm_page pt" using dist kf by auto
  have "aligned pd" "aligned pt" "aligned (kpd ?s1)" using al ka by auto
  note b = build_space_mem [OF this kn, where pages = "0 # ps"]
  have f': "frames s' = f" "kpd s' = kpd s" "pmem s' = pmem (build_space pd pt (0 # ps) ?s1)" "v86_tasks s' = (v86_tasks s)[i := v]"
    by (simp_all add: s'_def upd_task_def)
  have z0: "same_outside (pmm_page ` set ps) (pmem s) (pmem ?s1)" using zero_pages_same [of ps "pmem s"] al by simp
  have "same_outside (pmm_page ` set ps \<union> {pmm_page pd, pmm_page pt}) (pmem s) (pmem s')"
    unfolding f' by (rule same_outside_trans [OF z0 b(1)])
  then show so: "same_outside (pmm_page ` set ?fs) (pmem s) (pmem s')" by (rule same_outside_mono) auto
  have at: "pmem s' (entry a j) = pmem s (entry a j)" if "owns s w = Some a" "j < 1024" for w a j
    using same_outside_entry [OF so own_okD(1) [OF own that(1)] that(2) fresh [OF that(1)]] .
  have k: "kpde s' j = kpde s j" if "j < 1024" for j using at [of KPd "kpd s" j] that by (simp add: kpde_def f')
  have pd0: "pd \<noteq> 0" using z [of pd] by (auto simp: pmm_page_def)
  show nth: "v86_tasks s' ! t = v86_tasks s ! t" if "t \<noteq> i" for t using that by (simp add: f')
  have ti: "v86_tasks s' ! i = v" using i(1) len by (simp add: f')
  have "live s' t = (t = i \<or> live s t)" for t
    using i len v(1,2) pd0 by (cases "t = i") (simp_all add: live_def f' nth)
  then show lv: "live s' = (\<lambda>t. t = i \<or> live s t)" by blast
  show "pmm_free_set (frames s') = pmm_free_set (frames s) - pmm_page ` set ?fs" by (simp only: f' fr)
  have ow: "owns s w = Some a \<or> new_owner i ?fs w = Some a" if "owns s' w = Some a" for w a
  proof -
    have same: "v86_tasks s' ! t = v86_tasks s ! t" if "live s t" for t using nth [of t] that i(2) by metis
    show ?thesis
    proof (cases w)
      case (VMem t j)
      then show ?thesis using that i v(4) same
        by (cases "t = i") (auto simp: new_owner_def lv ti nth_Cons' split: if_splits)
    qed (use that i v same in \<open>auto simp: new_owner_def lv ti f'(2) k split: if_splits\<close>)
  qed
  have "own_ok s'"
  proof (rule own_ok_extend [OF own ow])
    show "aligned a \<and> pmm_page a \<in> pmm_free_set (frames s) \<and> pmm_page a \<noteq> 0 \<and> pmm_page a \<notin> pmm_free_set (frames s')"
      if "new_owner i ?fs w = Some a" for w a
    proof -
      have "a \<in> set ?fs" using new_owner_nth [OF that lf(1)] lf(1) by (metis nth_mem)
      then show ?thesis using al z sub unfolding f'(1) fr by blast
    qed
    show "w = w'" if "new_owner i ?fs w = Some a" "new_owner i ?fs w' = Some a'" "pmm_page a = pmm_page a'" for w w' a a'
      using new_owner_inj [OF dist lf(1) that] .
    show "pmm_free_set (frames s') \<subseteq> pmm_free_set (frames s)" unfolding f'(1) fr by blast
  qed
  moreover have "space_ok s' t" if l: "live s' t" for t
  proof (cases "t = i")
    case True
    have "st + PAGE_SIZE \<noteq> 0"
    proof
      assume "st + PAGE_SIZE = 0"
      then have "st = - PAGE_SIZE" by (simp add: eq_neg_iff_add_eq_0)
      then have "pmm_page st = 1048575" by (simp add: pmm_page_def PAGE_SIZE_def)
      moreover have "pmm_page st < 8192" using sub own by (auto simp: own_ok_def)
      ultimately show False by simp
    qed
    moreover have "low_entry (0 # ps) j = pte_flags ((0 # ps) ! j)" if "1 \<le> j" "j < 160" for j using that by (simp add: low_entry_def)
    moreover have "kpde s' j = kpde ?s1 j" if "j < 1024" for j
      using k [OF that] same_outside_entry [OF z0 ka that] kf by (auto simp: kpde_def)
    ultimately show ?thesis unfolding True space_ok_def Let_def ti v using b(2-4) lf(2) by (simp add: f'(3))
  next
    case False
    then have l': "live s t" using l lv by simp
    then have "space_ok s t" using ok by (simp add: spaces_ok_def)
    then show ?thesis
      using at [of "VPd t"] at [of "VLow t"] l' nth [OF False] k unfolding space_ok_def Let_def by simp
  qed
  ultimately show "spaces_ok s'" using ok fok k len by (simp add: spaces_ok_def f' KERNEL_PT_COUNT_def)
qed

lemma take_161: "take_frames al 161 x = (case al x of (pd, f1) \<Rightarrow> if pd = 0 then ([], False, f1)
    else case al f1 of (pt, f2) \<Rightarrow> if pt = 0 then ([pd], False, f2)
    else case take_frames al 159 f2 of (ps, b, f3) \<Rightarrow> (pd # pt # ps, b, f3))"
proof -
  have "(161 :: nat) = Suc (Suc 159)" by simp
  then show ?thesis by (simp only: take_frames.simps) (simp split: prod.split)
qed

lemma take_162: "take_frames al 162 x = (case al x of (p, f1) \<Rightarrow> if p = 0 then ([], False, f1)
    else case take_frames al 161 f1 of (ps, b, f3) \<Rightarrow> (p # ps, b, f3))"
proof -
  have "(162 :: nat) = Suc 161" by simp
  then show ?thesis by (simp only: take_frames.simps)
qed

lemma take_frames_nonzero: "take_frames al n x = (ps, b, f) \<Longrightarrow> 0 \<notin> set ps"
  by (induction n arbitrary: x ps) (auto split: prod.splits if_splits)

lemma take_frames_total: "take_frames pmm_alloc_page n f = (ps, b, f') \<Longrightarrow> total_pages f' = total_pages f"
proof (induction n arbitrary: f ps)
  case (Suc n)
  obtain p f1 where p: "pmm_alloc_page f = (p, f1)" by fastforce
  then have "total_pages f1 = total_pages f" using pmm_alloc_frame [of f] by simp
  then show ?case using Suc p by (auto split: if_splits prod.splits)
qed simp

definition blank_paging :: "v86_task \<Rightarrow> v86_task" where
  "blank_paging vt = vt\<lparr>pd_phys := 0, pt_low_phys := 0, mem_pages := replicate 160 0\<rparr>"

lemma alloc_paging_ok:
  assumes "take_frames pmm_alloc_page 161 (frames s) = (pd # pt # ps, True, f)"
  shows "v86_alloc_paging vt s = (0, (blank_paging vt)\<lparr>pd_phys := pd, pt_low_phys := pt, mem_pages := 0 # ps\<rparr>,
    build_space pd pt (0 # ps) (s\<lparr>frames := f, pmem := fold zero_page ps (pmem s)\<rparr>))"
proof -
  obtain f1 f2 where a: "pmm_alloc_page (frames s) = (pd, f1)" "pmm_alloc_page f1 = (pt, f2)" "pd \<noteq> 0" "pt \<noteq> 0"
      "take_frames pmm_alloc_page 159 f2 = (ps, True, f)"
    using assms unfolding take_161 by (auto split: prod.splits if_splits)
  have l: "length ps = 159" using take_frames_length [OF a(5)] by simp
  have "alloc_pages [1..<160] (replicate 160 0) (s\<lparr>frames := f2\<rparr>) = (True, 0 # ps, s\<lparr>frames := f, pmem := fold zero_page ps (pmem s)\<rparr>)"
    using alloc_pages_result [of "s\<lparr>frames := f2\<rparr>" ps True f] a(5) l by simp
  then show ?thesis unfolding v86_alloc_paging_def Let_def blank_paging_def a(1) prod.case if_not_P [OF a(3)] a(2) if_not_P [OF a(4)]
    by simp
qed

lemma alloc_paging_fail:
  assumes "take_frames pmm_alloc_page 161 (frames s) = (fs, False, f)"
  shows "\<exists>rs ps. v86_alloc_paging vt s = (-1, blank_paging vt, s\<lparr>frames := fold pmm_free_page rs f, pmem := fold zero_page ps (pmem s)\<rparr>) \<and>
    set rs = set fs \<and> set ps \<subseteq> set fs"
proof -
  obtain pd f1 pt f2 where a: "pmm_alloc_page (frames s) = (pd, f1)" "pmm_alloc_page f1 = (pt, f2)" by fastforce
  show ?thesis
  proof (cases "pd = 0")
    case True
    then have fs: "fs = []" "f = f1" using assms unfolding take_161 a(1) by auto
    have "v86_alloc_paging vt s = (-1, blank_paging vt, s\<lparr>frames := fold pmm_free_page [] f, pmem := fold zero_page [] (pmem s)\<rparr>)"
      unfolding v86_alloc_paging_def Let_def blank_paging_def a(1) prod.case if_P [OF True] fs by simp
    then show ?thesis unfolding fs by (intro exI [of _ "[]"]) simp
  next
    case pd: False
    show ?thesis
    proof (cases "pt = 0")
      case True
      then have fs: "fs = [pd]" "f = f2" using assms pd unfolding take_161 a(1) prod.case if_not_P [OF pd] a(2) by auto
      have "v86_alloc_paging vt s = (-1, blank_paging vt, s\<lparr>frames := fold pmm_free_page [pd] f, pmem := fold zero_page [] (pmem s)\<rparr>)"
        unfolding v86_alloc_paging_def Let_def blank_paging_def a(1) prod.case if_not_P [OF pd] a(2) if_P [OF True] fs
        using pd by (simp add: release_frame_def)
      then show ?thesis unfolding fs by (intro exI [of _ "[pd]"] exI [of _ "[]"]) simp
    next
      case pt: False
      obtain ps b f3 where t: "take_frames pmm_alloc_page 159 f2 = (ps, b, f3)" by (metis prod_cases3)
      then have fs: "fs = pd # pt # ps" "\<not> b" "f = f3"
        using assms unfolding take_161 a(1) prod.case if_not_P [OF pd] a(2) if_not_P [OF pt] t by auto
      have l: "length ps \<le> 159" using take_frames_length [OF t] by simp
      have n0: "filter (\<lambda>p. p \<noteq> 0) ps = ps" unfolding filter_id_conv using take_frames_nonzero [OF t] by auto
      have ap: "alloc_pages [1..<160] (replicate 160 0) (s\<lparr>frames := f2\<rparr>) =
          (b, 0 # ps @ replicate (159 - length ps) 0, s\<lparr>frames := f, pmem := fold zero_page ps (pmem s)\<rparr>)"
        using alloc_pages_result [of "s\<lparr>frames := f2\<rparr>" ps b f] t l fs(3) by simp
      have "v86_alloc_paging vt s = (-1, blank_paging vt,
          s\<lparr>frames := fold pmm_free_page (ps @ [pt, pd]) f, pmem := fold zero_page ps (pmem s)\<rparr>)"
        unfolding v86_alloc_paging_def Let_def blank_paging_def a(1) prod.case if_not_P [OF pd] a(2) if_not_P [OF pt] ap if_P [OF fs(2)]
          fold_release_frame
        using pd pt n0 by (simp add: release_frame_def)
      then show ?thesis unfolding fs(1) by (intro exI [of _ "ps @ [pt, pd]"] exI [of _ ps]) auto
    qed
  qed
qed

lemma dos_create_frame: "\<exists>d. snd (dos_create_task s) = s\<lparr>dos_tasks := d\<rparr>"
proof (cases "find_slot (\<lambda>d. \<not> d_active d) (dos_tasks s)")
  case None
  then show ?thesis by (intro exI [of _ "dos_tasks s"]) (simp add: dos_create_task_def)
qed (simp add: dos_create_task_def, blast)

text \<open>The frames a task holds, in the order in which it gives them back.\<close>

definition task_frames :: "v86_task \<Rightarrow> u32 list" where
  "task_frames v = (ring0_stack v - PAGE_SIZE) # (if vga_text_phys v = 0 then [] else [vga_text_phys v]) @
     filter (\<lambda>p. p \<noteq> 0) (drop 1 (mem_pages v)) @ [pt_low_phys v, pd_phys v]"

text \<open>
  The outcome of creating a task: on failure the pool and all address spaces are as before; on
  success a free slot holds a new address space and the other slots are unchanged.
\<close>

lemma v86_create_result:
  assumes ok: "spaces_ok s" and c: "v86_create_task s = (r, s')"
  shows "spaces_ok s' \<and> (if r = -1 then owns s' = owns s \<and> live s' = live s \<and> pmm_free_set (frames s') = pmm_free_set (frames s)
     else \<exists>i fs. r = int i \<and> i < V86_MAX_TASKS \<and> \<not> v_active (v86_tasks s ! i) \<and> live s' = (\<lambda>t. t = i \<or> live s t) \<and>
        (\<forall>t. t \<noteq> i \<longrightarrow> v86_tasks s' ! t = v86_tasks s ! t) \<and> length fs = 162 \<and> pmm_page ` set fs \<subseteq> pmm_free_set (frames s) \<and>
        pmm_free_set (frames s') = pmm_free_set (frames s) - pmm_page ` set fs \<and>
        same_outside (pmm_page ` set fs) (pmem s) (pmem s') \<and> set (task_frames (v86_tasks s' ! i)) = set fs \<and>
        card (pmm_page ` set fs) = 162 \<and> total_pages (frames s') = total_pages (frames s))"
proof (cases "find_slot (\<lambda>v. \<not> v_active v) (v86_tasks s)")
  case None
  then show ?thesis using c ok by (auto simp: v86_create_task_def)
next
  case (Some i)
  have len: "length (v86_tasks s) = V86_MAX_TASKS" and pok: "pmm_ok (frames s)" and own: "own_ok s" using ok by (auto simp: spaces_ok_def)
  have i: "i < V86_MAX_TASKS" "\<not> v_active (v86_tasks s ! i)" using find_slot_SomeD [OF Some] len by auto
  then have nl: "\<not> live s i" by (simp add: live_def)
  obtain st f0 where st: "pmm_alloc_page (frames s) = (st, f0)" by fastforce
  let ?vt = "(v86_tasks s ! i)\<lparr>v_active := True, ring0_stack := st + PAGE_SIZE, v_cursor_x := 0,
      v_cursor_y := 0, v86mt_client_id := -1, v86mt_vt_handle := 0, mcb_root := 0, vga_text_phys := 0\<rparr>"
  note def = c [unfolded v86_create_task_def Some option.case st prod.case Let_def]
  show ?thesis
  proof (cases "st = 0")
    case True
    then have "f0 = frames s" using pmm.alloc_fails [OF pok] st by blast
    then show ?thesis using def True ok by auto
  next
    case st0: False
    obtain fs b f where tk: "take_frames pmm_alloc_page 161 f0 = (fs, b, f)" by (metis prod_cases3)
    then have tk': "take_frames pmm_alloc_page 161 (frames (s\<lparr>frames := f0\<rparr>)) = (fs, b, f)" by simp
    have tk2: "take_frames pmm_alloc_page 162 (frames s) = (st # fs, b, f)" unfolding take_162 st using st0 tk by simp
    have al: "\<forall>p \<in> set (st # fs). aligned p" using pmm.take_frames_spec [OF pok tk2] pmm_frame_aligned by blast
    show ?thesis
    proof (cases b)
      case False
      then obtain rs ps where a: "v86_alloc_paging ?vt (s\<lparr>frames := f0\<rparr>) = (-1, blank_paging ?vt,
          s\<lparr>frames := fold pmm_free_page rs f, pmem := fold zero_page ps (pmem s)\<rparr>)" and rs: "set rs = set fs" "set ps \<subseteq> set fs"
        using alloc_paging_fail [of "s\<lparr>frames := f0\<rparr>" fs f ?vt] tk' by auto
      have r: "r = -1" "s' = upd_task i (\<lambda>_. blank_paging ?vt) (s\<lparr>frames := fold pmm_free_page (rs @ [st]) f, pmem := fold zero_page ps (pmem s)\<rparr>)"
        using def st0 unfolding if_not_P [OF st0] a by (auto simp: release_frame_def upd_task_def)
      have "same_outside (pmm_page ` set ps) (pmem s) (fold zero_page ps (pmem s))"
        using al rs(2) by (intro zero_pages_same) auto
      then have so: "same_outside (pmm_page ` set (st # fs)) (pmem s) (fold zero_page ps (pmem s))"
        by (rule same_outside_mono) (use rs(2) in auto)
      have rs': "set (rs @ [st]) = set (st # fs)" using rs(1) by auto
      show ?thesis unfolding r
        using undone_allocation [OF ok tk2 rs' so nl, of "blank_paging ?vt"] by (simp add: blank_paging_def)
    next
      case True
      have "length fs = 161" using take_frames_length [OF tk] True by simp
      then obtain pd pt ps where fs: "fs = pd # pt # ps" by (cases fs; cases "tl fs") auto
      let ?s1 = "build_space pd pt (0 # ps) (s\<lparr>frames := f, pmem := fold zero_page ps (pmem s)\<rparr>)"
      have a: "v86_alloc_paging ?vt (s\<lparr>frames := f0\<rparr>) = (0, (blank_paging ?vt)\<lparr>pd_phys := pd, pt_low_phys := pt, mem_pages := 0 # ps\<rparr>, ?s1)"
        using alloc_paging_ok [of "s\<lparr>frames := f0\<rparr>" pd pt ps f ?vt] tk' True fs by simp
      obtain d tid where d: "dos_create_task ?s1 = (tid, ?s1\<lparr>dos_tasks := d\<rparr>)" using dos_create_frame [of ?s1] by (metis prod.collapse)
      obtain v where v: "r = int i" "s' = upd_task i (\<lambda>_. v) (?s1\<lparr>dos_tasks := d\<rparr>)" "v_active v" "pd_phys v = pd" "pt_low_phys v = pt"
          "mem_pages v = 0 # ps" "ring0_stack v = st + PAGE_SIZE" "vga_text_phys v = 0"
        using def unfolding if_not_P [OF st0] a prod.case d by (auto simp: blank_paging_def)
      note n = new_space [OF ok i(1) nl tk2 [unfolded fs True [THEN eqTrueI]] v(3-8)]
      let ?s2 = "upd_task i (\<lambda>_. v) ?s1"
      have e: "pmem s' = pmem ?s2" "frames s' = frames ?s2" "kpd s' = kpd ?s2" "v86_tasks s' = v86_tasks ?s2"
        by (simp_all add: v(2) upd_task_def)
      have "filter (\<lambda>p. p \<noteq> 0) ps = ps" unfolding filter_id_conv using take_frames_nonzero [OF tk] fs by auto
      then have tf: "set (task_frames (v86_tasks s' ! i)) = set (st # pd # pt # ps)"
        using i(1) len by (auto simp: v(2,4-8) upd_task_def task_frames_def)
      have "pmm_page ` set (st # fs) \<subseteq> pmm_free_set (frames s)" using pmm.take_frames_spec [OF pok tk2] by blast
      moreover have "length (st # fs) = 162" using \<open>length fs = 161\<close> by simp
      moreover have cd: "card (pmm_page ` set (st # fs)) = 162"
        using pmm.take_frames_spec [OF pok tk2] \<open>length fs = 161\<close> distinct_card [of "map pmm_page (st # fs)"] by simp
      ultimately have "\<exists>fs. length fs = 162 \<and> pmm_page ` set fs \<subseteq> pmm_free_set (frames s) \<and>
          pmm_free_set (frames s') = pmm_free_set (frames s) - pmm_page ` set fs \<and> same_outside (pmm_page ` set fs) (pmem s) (pmem s') \<and>
          set (task_frames (v86_tasks s' ! i)) = set fs \<and> card (pmm_page ` set fs) = 162"
        using n(4,5) e tf cd unfolding fs by metis
      moreover have "total_pages (frames s') = total_pages (frames s)"
        using take_frames_total [OF tk2] by (simp add: v(2) upd_task_def)
      ultimately show ?thesis using n(1-3) i spaces_cong [OF e] v(1) e(4) by auto
    qed
  qed
qed

section \<open>Destroying a task\<close>

lemma v86mt_exit_frame: "\<exists>x. v86mt_exit v s = s\<lparr>v86mt_vts := x\<rparr>"
proof -
  have "\<exists>x. s = s\<lparr>v86mt_vts := x\<rparr>" by (rule exI [of _ "v86mt_vts s"]) simp
  then show ?thesis unfolding v86mt_exit_def by (auto split: option.split)
qed

lemma dos_destroy_frame: "\<exists>x d. dos_destroy_task t s = s\<lparr>fat := x, dos_tasks := d\<rparr>"
proof -
  have "\<exists>x d. s = s\<lparr>fat := x, dos_tasks := d\<rparr>" by (rule exI [of _ "fat s"], rule exI [of _ "dos_tasks s"]) simp
  then show ?thesis unfolding dos_destroy_task_def Let_def by (auto split: if_split)
qed

lemma own_task_frames:
  assumes ok: "spaces_ok s" and l: "live s t"
  shows "set (task_frames (v86_tasks s ! t)) = {a. \<exists>w. owns s w = Some a \<and> (w = VStack t \<or> w = VText t \<or> w = VLow t \<or> w = VPd t \<or> (\<exists>i. w = VMem t i))}"
proof -
  let ?v = "v86_tasks s ! t"
  have own: "own_ok s" and len: "length (mem_pages ?v) = 160" using ok l by (auto simp: spaces_ok_def space_ok_def Let_def)
  have nz: "mem_pages ?v ! i \<noteq> 0" if "1 \<le> i" "i < 160" for i
    using own_okD(4) [OF own, of "VMem t i"] that l by simp
  have "set (drop 1 (mem_pages ?v)) = (\<lambda>i. mem_pages ?v ! i) ` {1..<160}"
  proof -
    have "set (drop 1 (mem_pages ?v)) = {drop 1 (mem_pages ?v) ! i | i. i < 159}" using len by (simp add: set_conv_nth)
    also have "\<dots> = (\<lambda>i. mem_pages ?v ! Suc i) ` {0..<159}" using len by (auto simp: image_def)
    also have "\<dots> = (\<lambda>i. mem_pages ?v ! i) ` (Suc ` {0..<159})" by (simp only: image_image)
    also have "Suc ` {0..<159} = {1..<160}" by (simp only: image_Suc_atLeastLessThan) simp
    finally show ?thesis .
  qed
  then have "set (filter (\<lambda>p. p \<noteq> 0) (drop 1 (mem_pages ?v))) = {a. \<exists>i. owns s (VMem t i) = Some a}"
    using nz l unfolding set_filter by (auto split: if_splits)
  moreover have "set (task_frames ?v) = {ring0_stack ?v - PAGE_SIZE, pt_low_phys ?v, pd_phys ?v} \<union> {a. owns s (VText t) = Some a} \<union>
      set (filter (\<lambda>p. p \<noteq> 0) (drop 1 (mem_pages ?v)))"
    using l by (auto simp: task_frames_def)
  ultimately have "set (task_frames ?v) = {ring0_stack ?v - PAGE_SIZE, pt_low_phys ?v, pd_phys ?v} \<union> {a. owns s (VText t) = Some a} \<union>
      {a. \<exists>i. owns s (VMem t i) = Some a}" by blast
  moreover have "owns s (VStack t) = Some (ring0_stack ?v - PAGE_SIZE)" "owns s (VLow t) = Some (pt_low_phys ?v)" "owns s (VPd t) = Some (pd_phys ?v)"
    using l by simp_all
  moreover have "{a. \<exists>w. owns s w = Some a \<and> (w = VStack t \<or> w = VText t \<or> w = VLow t \<or> w = VPd t \<or> (\<exists>i. w = VMem t i))} =
      {a. owns s (VStack t) = Some a} \<union> {a. owns s (VLow t) = Some a} \<union> {a. owns s (VPd t) = Some a} \<union> {a. owns s (VText t) = Some a} \<union>
      {a. \<exists>i. owns s (VMem t i) = Some a}" by blast
  ultimately show ?thesis by (simp only: option.inject) blast
qed

lemma v86_destroy_shape:
  assumes ok: "spaces_ok s" and l: "live s t"
  shows "\<exists>v. \<not> v_active v \<and> v86_tasks (v86_destroy_task (int t) s) = (v86_tasks s)[t := v] \<and>
    frames (v86_destroy_task (int t) s) = fold pmm_free_page (task_frames (v86_tasks s ! t)) (frames s) \<and>
    pmem (v86_destroy_task (int t) s) = pmem s \<and> kpd (v86_destroy_task (int t) s) = kpd s"
proof -
  let ?v = "v86_tasks s ! t"
  have v: "valid_task (int t) s" using ok l by (auto simp: valid_task_def live_def spaces_ok_def)
  have r0: "ring0_stack ?v \<noteq> 0" and own: "own_ok s" using ok l by (auto simp: spaces_ok_def space_ok_def Let_def)
  have "owns s (VLow t) = Some (pt_low_phys ?v)" using l by simp
  then have pt: "pt_low_phys ?v \<noteq> 0" by (rule own_okD(4) [OF own])
  have pd: "pd_phys ?v \<noteq> 0" using l by (simp add: live_def)
  obtain x where x: "v86mt_exit ?v s = s\<lparr>v86mt_vts := x\<rparr>" using v86mt_exit_frame by blast
  obtain y d where y: "dos_destroy_task (v_dos_task_id ?v) (s\<lparr>v86mt_vts := x\<rparr>) = s\<lparr>v86mt_vts := x\<rparr>\<lparr>fat := y, dos_tasks := d\<rparr>"
    using dos_destroy_frame by blast
  let ?s1 = "s\<lparr>v86mt_vts := x\<rparr>\<lparr>fat := y, dos_tasks := d\<rparr>"
  let ?s2 = "?s1\<lparr>frames := pmm_free_page (ring0_stack ?v - PAGE_SIZE) (frames s)\<rparr>"
  let ?v' = "?v\<lparr>vga_text_phys := 0, mem_pages := take 1 (mem_pages ?v) @ replicate 159 0, pt_low_phys := 0, pd_phys := 0, v_active := False\<rparr>"
  have "release_frame (pd_phys ?v) (release_frame (pt_low_phys ?v) (fold release_frame (drop 1 (mem_pages ?v)) (release_frame (vga_text_phys ?v) ?s2))) =
      fold release_frame (vga_text_phys ?v # drop 1 (mem_pages ?v) @ [pt_low_phys ?v, pd_phys ?v]) ?s2"
    by simp
  also have "\<dots> = ?s2\<lparr>frames := fold pmm_free_page (task_frames ?v) (frames s)\<rparr>"
    unfolding fold_release_frame task_frames_def using pt pd by simp
  finally have rel: "release_frame (pd_phys ?v) (release_frame (pt_low_phys ?v) (fold release_frame (drop 1 (mem_pages ?v)) (release_frame (vga_text_phys ?v) ?s2))) =
      ?s2\<lparr>frames := fold pmm_free_page (task_frames ?v) (frames s)\<rparr>" .
  let ?s5 = "upd_task t (\<lambda>_. ?v') (?s2\<lparr>frames := fold pmm_free_page (task_frames ?v) (frames s)\<rparr>)"
  have "v86_destroy_task (int t) s = (if current_v86 ?s5 = int t then ?s5\<lparr>current_v86 := -1\<rparr> else ?s5)"
    using v r0 rel unfolding v86_destroy_task_def Let_def x y nat_int v86_free_paging_def by simp
  then show ?thesis by (intro exI [of _ ?v']) (simp add: upd_task_def)
qed

lemma v86_destroy_result:
  assumes ok: "spaces_ok s" and l: "live s t"
  defines "s' \<equiv> v86_destroy_task (int t) s"
  shows "spaces_ok s'" "live s' = (\<lambda>u. u \<noteq> t \<and> live s u)" "\<And>u. u \<noteq> t \<Longrightarrow> v86_tasks s' ! u = v86_tasks s ! u" "pmem s' = pmem s"
    "pmm_free_set (frames s') = pmm_free_set (frames s) \<union> pmm_page ` set (task_frames (v86_tasks s ! t))"
proof -
  have own: "own_ok s" and pok: "pmm_ok (frames s)" and len: "length (v86_tasks s) = V86_MAX_TASKS" using ok by (auto simp: spaces_ok_def)
  obtain v where v: "\<not> v_active v" "v86_tasks s' = (v86_tasks s)[t := v]" "pmem s' = pmem s" "kpd s' = kpd s"
      "frames s' = fold pmm_free_page (task_frames (v86_tasks s ! t)) (frames s)"
    using v86_destroy_shape [OF ok l] unfolding s'_def by blast
  let ?fs = "set (task_frames (v86_tasks s ! t))"
  note tf = own_task_frames [OF ok l]
  have mine: "\<exists>w. owns s w = Some a \<and> (w = VStack t \<or> w = VText t \<or> w = VLow t \<or> w = VPd t \<or> (\<exists>i. w = VMem t i))" if "a \<in> ?fs" for a
    using that unfolding tf by blast
  have "\<forall>p \<in> ?fs. pmm_page p \<noteq> 0" using mine own_okD(3) [OF own] by blast
  note rel = pmm.release_all [OF pok this]
  show fr: "pmm_free_set (frames s') = pmm_free_set (frames s) \<union> pmm_page ` ?fs" using rel by (simp add: v(5))
  show nth: "v86_tasks s' ! u = v86_tasks s ! u" if "u \<noteq> t" for u using that by (simp add: v(2))
  have "live s' u = (u \<noteq> t \<and> live s u)" for u
    using v(1) len l by (cases "u = t") (simp_all add: live_def v(2))
  then show lv: "live s' = (\<lambda>u. u \<noteq> t \<and> live s u)" by blast
  show "pmem s' = pmem s" by (fact v(3))
  have k: "kpde s' = kpde s" by (simp add: kpde_def v fun_eq_iff)
  have ow: "owns s w = Some a \<and> w \<noteq> VStack t \<and> w \<noteq> VText t \<and> w \<noteq> VLow t \<and> w \<noteq> VPd t \<and> (\<forall>i. w \<noteq> VMem t i)"
    if "owns s' w = Some a" for w a
    using that by (cases w) (auto simp: lv nth v(4) k split: if_splits)
  have "own_ok s'"
  proof (rule own_okI)
    have "pmm_free_set (frames s) \<subseteq> {..<8192}" using own by (simp add: own_ok_def)
    moreover have "pmm_page a < 8192" if "a \<in> ?fs" for a using mine [OF that] own_okD(5) [OF own] by blast
    ultimately show "pmm_free_set (frames s') \<subseteq> {..<8192}" unfolding fr by blast
    show "aligned a \<and> pmm_page a \<notin> pmm_free_set (frames s') \<and> pmm_page a \<noteq> 0 \<and> pmm_page a < 8192" if "owns s' w = Some a" for w a
    proof -
      have o: "owns s w = Some a" using ow [OF that] by blast
      have "pmm_page a \<noteq> pmm_page b" if b: "b \<in> ?fs" for b
        using mine [OF b] own_inj [OF own o] ow [OF \<open>owns s' w = Some a\<close>] by metis
      then show ?thesis using own_okD [OF own o] unfolding fr by blast
    qed
    show "w = w'" if "owns s' w = Some a" "owns s' w' = Some a'" "pmm_page a = pmm_page a'" for w w' a a'
      using own_inj [OF own] ow [OF that(1)] ow [OF that(2)] that(3) by blast
  qed
  moreover have "space_ok s' u" if "live s' u" for u
    using ok that unfolding spaces_ok_def lv space_ok_def Let_def k v(3) by (auto simp: nth)
  ultimately show "spaces_ok s'" using ok rel by (simp add: spaces_ok_def v k)
qed

section \<open>Sandboxed screens and stores of tasks\<close>

lemma v86_arm_result:
  assumes ok: "spaces_ok s" and l: "live s t" and c: "v86_arm_v86mt_sandbox (int t) s = (r, s')"
  shows "spaces_ok s' \<and> live s' = live s \<and> (\<forall>u. mem_pages (v86_tasks s' ! u) = mem_pages (v86_tasks s ! u) \<and>
      pd_phys (v86_tasks s' ! u) = pd_phys (v86_tasks s ! u))"
proof -
  let ?v = "v86_tasks s ! t"
  have own: "own_ok s" and pok: "pmm_ok (frames s)" and len: "length (v86_tasks s) = V86_MAX_TASKS" using ok by (auto simp: spaces_ok_def)
  have t: "t < V86_MAX_TASKS" and val: "valid_task (int t) s" using l len by (auto simp: live_def valid_task_def)
  have "owns s (VLow t) = Some (pt_low_phys ?v)" using l by simp
  note lo = own_okD [OF own this] and loN = own_neq [OF own this]
  obtain p f where al: "pmm_alloc_page (frames s) = (p, f)" by fastforce
  show ?thesis
  proof (cases "vga_text_phys ?v \<noteq> 0 \<or> p = 0")
    case True
    have "s' = s"
    proof (cases "vga_text_phys ?v = 0")
      case False
      then show ?thesis using c val by (simp add: v86_arm_v86mt_sandbox_def Let_def)
    next
      case z: True
      then have "p = 0" "f = frames s" using True pmm.alloc_fails [OF pok] al by auto
      then show ?thesis using c val z lo(4) al by (simp add: v86_arm_v86mt_sandbox_def Let_def)
    qed
    then show ?thesis using ok by simp
  next
    case False
    let ?m = "(zero_page p (pmem s))(entry (pt_low_phys ?v) 0xB8 := pte_flags p)"
    have s': "s' = upd_task t (\<lambda>v. v\<lparr>vga_text_phys := p\<rparr>) (s\<lparr>frames := f, pmem := ?m\<rparr>)"
      using c val lo(4) al False by (simp add: v86_arm_v86mt_sandbox_def Let_def)
    have p: "p \<noteq> 0" "vga_text_phys ?v = 0" using False by auto
    have pf: "pmm_page p \<in> pmm_free_set (frames s)" "aligned p" "pmm_free_set f = pmm_free_set (frames s) - {pmm_page p}" "pmm_ok f"
      using pmm.alloc_frame [OF pok al p(1)] pmm_frame_aligned by auto
    have p0: "pmm_page p \<noteq> 0" using pmm.frame_0 [OF pok] pf(1) by metis
    have fresh: "pmm_page a \<noteq> pmm_page p" if "owns s w = Some a" for w a using own_okD(2) [OF own that] pf(1) by metis
    have f': "frames s' = f" "kpd s' = kpd s" "pmem s' = ?m" "v86_tasks s' = (v86_tasks s)[t := ?v\<lparr>vga_text_phys := p\<rparr>]"
      by (simp_all add: s' upd_task_def)
    have nth: "v86_tasks s' ! u = (if u = t then ?v\<lparr>vga_text_phys := p\<rparr> else v86_tasks s ! u)" for u
      using t len by (simp add: f')
    have "length (v86_tasks s') = length (v86_tasks s)" by (simp add: f')
    then have lv: "live s' = live s" unfolding live_def nth by (auto simp: fun_eq_iff)
    have at: "pmem s' (entry a i) = pmem s (entry a i)" if "owns s w = Some a" "i < 1024" "w \<noteq> VLow t \<or> i \<noteq> 0xB8" for w a i
    proof -
      have a: "aligned a" using own_okD(1) [OF own that(1)] .
      have "zero_page p (pmem s) (entry a i) = pmem s (entry a i)"
        using same_outside_entry [OF zero_page_same [OF pf(2)] a that(2)] fresh [OF that(1)] by simp
      moreover have "entry a i \<noteq> entry (pt_low_phys ?v) 0xB8"
        using that loN [of w a] by (auto simp: entry_eq a lo(1))
      ultimately show ?thesis by (simp add: f')
    qed
    have k: "kpde s' i = kpde s i" if "i < 1024" for i using at [of KPd "kpd s" i] that by (simp add: kpde_def f')
    have ow: "owns s' w = (if w = VText t then Some p else owns s w)" for w
      using l p by (cases w) (auto simp: lv nth k f'(2))
    have "own_ok s'"
      by (rule own_ok_extend [OF own, where nw = "\<lambda>w. if w = VText t then Some p else None"])
        (use pf p0 in \<open>auto simp: ow f' split: if_splits\<close>)
    moreover have "space_ok s' u" if u: "live s u" for u
    proof -
      have "space_ok s u" using ok u by (simp add: spaces_ok_def)
      moreover have "pmem s' (entry (pd_phys (v86_tasks s ! u)) i) = pmem s (entry (pd_phys (v86_tasks s ! u)) i)" if "i < 1024" for i
        using at [of "VPd u" _ i] u that by simp
      moreover have "pmem s' (entry (pt_low_phys (v86_tasks s ! u)) i) = pmem s (entry (pt_low_phys (v86_tasks s ! u)) i)" if "i < 160" for i
        using at [of "VLow u" _ i] u that by simp
      ultimately show ?thesis unfolding space_ok_def Let_def by (cases "u = t") (simp_all add: nth k)
    qed
    moreover have "\<forall>i < KERNEL_PT_COUNT. is_present (kpde s' i)" using ok k by (simp add: spaces_ok_def KERNEL_PT_COUNT_def)
    ultimately have "spaces_ok s'" using len pf(4) unfolding spaces_ok_def lv f' by simp
    then show ?thesis using lv by (simp add: nth)
  qed
qed

text \<open>
  A store by the program of a V86 task, through the page directory the scheduler loads for it, into
  conventional memory.
\<close>

definition conventional :: "u32 \<Rightarrow> bool" where
  "conventional v \<longleftrightarrow> 0x1000 \<le> v \<and> v < 0xA0000"

definition v86_store :: "nat \<Rightarrow> u32 \<Rightarrow> u32 \<Rightarrow> kernel \<Rightarrow> kernel" where
  "v86_store t v x s = (case walk (pmem s) (v86_task_cr3 (int t) s) v of None \<Rightarrow> s | Some a \<Rightarrow> s\<lparr>pmem := (pmem s)(a := x)\<rparr>)"

definition v86_load :: "nat \<Rightarrow> u32 \<Rightarrow> kernel \<Rightarrow> u32 option" where
  "v86_load t v s = map_option (pmem s) (walk (pmem s) (v86_task_cr3 (int t) s) v)"

lemma conventional_idx: "conventional v \<Longrightarrow> dir_idx v = 0 \<and> table_idx v = pmm_page v \<and> 1 \<le> pmm_page v \<and> pmm_page v < 160"
proof -
  assume "conventional v"
  then have u: "4096 \<le> unat v" "unat v < 0xA0000" by (auto simp: conventional_def word_le_nat_alt word_less_nat_alt)
  have "dir_idx v = unat v div 4194304" by (simp add: dir_idx_def drop_bit_eq_div unat_div_u32)
  moreover have "pmm_page v < 160" "1 \<le> pmm_page v" using u unfolding pmm_page_def by linarith+
  ultimately show ?thesis using u by (simp add: table_idx_alt pmm_page_def)
qed

lemma page_or: "aligned a \<Longrightarrow> pmm_page (a OR (v AND 0xFFF)) = pmm_page a"
proof -
  have m: "(0xFFF :: u32) = mask 12" by (simp add: mask_eq_exp_minus_1)
  have p: "pmm_page x = unat (drop_bit 12 x)" for x by (simp add: pmm_page_def drop_bit_eq_div unat_div_u32)
  have "drop_bit 12 (a OR (v AND 0xFFF)) = drop_bit 12 a"
    unfolding m by (rule bit_word_eqI) (auto simp: bit_drop_bit_eq bit_or_iff bit_and_iff bit_mask_iff)
  then show ?thesis by (simp add: p)
qed

lemma live_cr3: "spaces_ok s \<Longrightarrow> live s t \<Longrightarrow> v86_task_cr3 (int t) s = pd_phys (v86_tasks s ! t)"
  by (simp add: v86_task_cr3_def valid_task_def live_def spaces_ok_def)

lemma task_walk:
  assumes ok: "spaces_ok s" and l: "live s t" and v: "conventional v"
  shows "walk (pmem s) (v86_task_cr3 (int t) s) v = Some (mem_pages (v86_tasks s ! t) ! pmm_page v OR (v AND 0xFFF))"
    "owns s (VMem t (pmm_page v)) = Some (mem_pages (v86_tasks s ! t) ! pmm_page v)"
proof -
  note i = conventional_idx [OF v] and c = live_cr3 [OF ok l]
  have own: "own_ok s" and so: "space_ok s t" using ok l by (auto simp: spaces_ok_def)
  show o: "owns s (VMem t (pmm_page v)) = Some (mem_pages (v86_tasks s ! t) ! pmm_page v)" using l i by simp
  let ?p = "mem_pages (v86_tasks s ! t) ! pmm_page v"
  have "pmem s (entry (pt_low_phys (v86_tasks s ! t)) (pmm_page v)) = pte_flags ?p" using so i by (simp add: space_ok_def Let_def)
  moreover have "pmem s (entry (pd_phys (v86_tasks s ! t)) 0) = pte_flags (pt_low_phys (v86_tasks s ! t))" using so by (simp add: space_ok_def Let_def)
  moreover have "pte_flags ?p AND 0xFFFFF000 = ?p" using table_of_flags [OF own_okD(1) [OF own o]] by (simp add: table_of_def)
  ultimately show "walk (pmem s) (v86_task_cr3 (int t) s) v = Some (?p OR (v AND 0xFFF))"
    unfolding walk_def Let_def c using i live_aligned(2) [OF own l] by simp
qed

lemma task_frame:
  assumes "spaces_ok s" "live s t" "conventional v" "walk (pmem s) (v86_task_cr3 (int t) s) v = Some a"
  shows "\<exists>b. owns s (VMem t (pmm_page v)) = Some b \<and> pmm_page a = pmm_page b"
  using task_walk [OF assms(1-3)] assms(4) page_or own_okD(1) [of s] assms(1) by (auto simp: spaces_ok_def simp del: owns.simps)

lemma v86_store_result:
  assumes ok: "spaces_ok s" and l: "live s t" and v: "conventional v"
  shows "spaces_ok (v86_store t v x s)" "owns (v86_store t v x s) = owns s" "v86_tasks (v86_store t v x s) = v86_tasks s"
    "kpd (v86_store t v x s) = kpd s"
proof -
  obtain a where a: "walk (pmem s) (v86_task_cr3 (int t) s) v = Some a" using task_walk(1) [OF ok l v] by blast
  obtain b where b: "owns s (VMem t (pmm_page v)) = Some b" "pmm_page a = pmm_page b" using task_frame [OF ok l v a] by blast
  have "same_outside {pmm_page a} (pmem s) ((pmem s)(a := x))" by (rule same_outside_upd) simp_all
  moreover have "{pmm_page a} \<inter> root_frames s = {}" 
    using root_frames_disj [OF _ b(1)] b(2) ok unfolding spaces_ok_def by auto
  ultimately show "spaces_ok (v86_store t v x s)" "owns (v86_store t v x s) = owns s" "v86_tasks (v86_store t v x s) = v86_tasks s"
      "kpd (v86_store t v x s) = kpd s"
    using mem_change [OF ok] by (simp_all add: v86_store_def a)
qed

section \<open>Every history of the kernel\<close>

text \<open>
  The calls that change address spaces, in any order, interleaved with stores of the tasks. Pages are mapped above
  the identity map, as all callers do.
\<close>

inductive kstep :: "kernel \<Rightarrow> kernel \<Rightarrow> bool" where
  k_create: "kstep s (snd (v86_create_task s))"
| k_destroy: "live s t \<Longrightarrow> kstep s (v86_destroy_task (int t) s)"
| k_map: "8 \<le> dir_idx virt \<Longrightarrow> kstep s (vmm_map_page virt phys flags s)"
| k_unmap: "8 \<le> dir_idx virt \<Longrightarrow> kstep s (vmm_unmap_page virt s)"
| k_arm: "live s t \<Longrightarrow> kstep s (snd (v86_arm_v86mt_sandbox (int t) s))"
| k_store: "live s t \<Longrightarrow> conventional v \<Longrightarrow> kstep s (v86_store t v x s)"

lemma kstep_ok: "kstep s s' \<Longrightarrow> spaces_ok s \<Longrightarrow> spaces_ok s'"
proof (induction rule: kstep.induct)
  case (k_create s)
  then show ?case using v86_create_result [of s] by (metis prod.collapse)
next
  case (k_arm s t)
  then show ?case using v86_arm_result [of s t] by (metis prod.collapse)
qed (simp_all add: v86_destroy_result(1) vmm_map_result(1) vmm_unmap_result(1) v86_store_result(1))

lemma reachable_ok: "kstep\<^sup>*\<^sup>* (vmm_init s0) s \<Longrightarrow> link_ok s0 \<Longrightarrow> spaces_ok s"
  by (induction rule: rtranclp_induct) (use vmm_init_ok kstep_ok in blast)+

lemma shared_walk:
  assumes ok: "spaces_ok s" and l: "live s t" and d: "1 \<le> dir_idx v"
  shows "walk (pmem s) (v86_task_cr3 (int t) s) v = walk (pmem s) (kpd s) v"
proof -
  have "space_ok s t" using ok l by (simp add: spaces_ok_def)
  then have "pmem s (entry (pd_phys (v86_tasks s ! t)) (dir_idx v)) = pmem s (entry (kpd s) (dir_idx v))"
    using d by (simp add: space_ok_def Let_def kpde_def)
  then show ?thesis by (simp add: walk_def live_cr3 [OF ok l])
qed



text \<open>The allocation loop succeeds exactly when enough frames can be handed out.\<close>

lemma pmm_alloc_allocatable:
  assumes "pmm_ok f" "pmm_alloc_page f = (p, f')"
  shows "if pmm_allocatable f = {} then p = 0 else p \<noteq> 0 \<and> card (pmm_allocatable f) = Suc (card (pmm_allocatable f'))"
proof -
  have sz: "pmm_sized f" and z: "0 \<notin> pmm_free_set f" using assms(1) by (auto simp: pmm_ok_def)
  show ?thesis
    using sz
  proof (cases rule: pmm_alloc_cases)
    case (page q)
    have q: "q \<in> pmm_free_set f" "q < 1048576" using page(1) allocatable_bound by (auto simp: pmm_allocatable_def)
    have "unat p = q * 4096" using page(3) assms(2) page_addr [OF q(2)] by simp
    then have "p \<noteq> 0" using q(1) z by (metis gr0I mult_is_0 unat_0 zero_neq_numeral)
    moreover have "pmm_allocatable f' = pmm_allocatable f - {q}"
      using page(3) assms(2) by (auto simp: pmm_allocatable_def frame_simps)
    moreover have "finite (pmm_allocatable f)" by (simp add: pmm_allocatable_def)
    ultimately show ?thesis using page(1) card_Suc_Diff1 [of "pmm_allocatable f" q] by auto
  next
    case none
    then show ?thesis using assms(2) by simp
  qed
qed

lemma take_frames_iff: "pmm_ok f \<Longrightarrow> take_frames pmm_alloc_page n f = (ps, b, f') \<Longrightarrow> b \<longleftrightarrow> n \<le> card (pmm_allocatable f)"
proof (induction n arbitrary: f ps b f')
  case (Suc n)
  obtain p f1 where p: "pmm_alloc_page f = (p, f1)" by fastforce
  obtain qs c f2 where q: "take_frames pmm_alloc_page n f1 = (qs, c, f2)" by (metis prod_cases3)
  note a = pmm_alloc_allocatable [OF Suc.prems(1) p]
  show ?case
  proof (cases "p = 0")
    case True
    then show ?thesis using a Suc.prems(2) p by (auto split: if_splits)
  next
    case False
    then have "card (pmm_allocatable f) = Suc (card (pmm_allocatable f1))" using a by (auto split: if_splits)
    moreover have "pmm_ok f1" using pmm.alloc_frame [OF Suc.prems(1) p False] by simp
    ultimately show ?thesis using Suc.IH [OF _ q] Suc.prems(2) p q False by simp
  qed
qed simp

lemma v86_create_iff:
  assumes "spaces_ok s" "v86_create_task s = (r, s')"
  shows "r = -1 \<longleftrightarrow> (\<forall>v \<in> set (v86_tasks s). v_active v) \<or> card (pmm_allocatable (frames s)) < 162"
proof (cases "find_slot (\<lambda>v. \<not> v_active v) (v86_tasks s)")
  case None
  then show ?thesis using assms(2) find_slot_None [of "\<lambda>v. \<not> v_active v" "v86_tasks s"] by (simp add: v86_create_task_def)
next
  case (Some i)
  have pok: "pmm_ok (frames s)" using assms(1) by (simp add: spaces_ok_def)
  have sl: "\<not> (\<forall>v \<in> set (v86_tasks s). v_active v)" using find_slot_SomeD [OF Some] by auto
  obtain st f0 where st: "pmm_alloc_page (frames s) = (st, f0)" by fastforce
  obtain fs b f where tk: "take_frames pmm_alloc_page 161 f0 = (fs, b, f)" by (metis prod_cases3)
  have tk2: "take_frames pmm_alloc_page 162 (frames s) = (if st = 0 then ([], False, f0) else (st # fs, b, f))"
    unfolding take_162 st using tk by simp
  note def = assms(2) [unfolded v86_create_task_def Some option.case st prod.case Let_def]
  have "r = -1 \<longleftrightarrow> \<not> (st \<noteq> 0 \<and> b)"
  proof (cases "st = 0")
    case st0: False
    let ?s = "s\<lparr>frames := f0\<rparr>"
    have tk': "take_frames pmm_alloc_page 161 (frames ?s) = (fs, b, f)" using tk by simp
    show ?thesis
    proof (cases b)
      case True
      then have "length fs = 161" using take_frames_length [OF tk] by simp
      then obtain pd pt ps where fs: "fs = pd # pt # ps" by (cases fs; cases "tl fs") auto
      show ?thesis
        using def st0 True alloc_paging_ok [OF tk' [unfolded fs True [THEN eqTrueI]]] by (auto split: prod.splits)
    next
      case False
      then have tkf: "take_frames pmm_alloc_page 161 (frames ?s) = (fs, False, f)" using tk' by simp
      have "fst (v86_alloc_paging vt ?s) = -1" for vt using alloc_paging_fail [OF tkf, of vt] by auto
      then show ?thesis using def st0 False by (auto split: prod.splits) (metis fst_conv neg_less_0_iff_less zero_less_one)
    qed
  qed (use def in simp)
  also have "\<dots> \<longleftrightarrow> card (pmm_allocatable (frames s)) < 162"
    using take_frames_iff [OF pok, of 162] tk2 by (metis not_le)
  finally show ?thesis using sl by blast
qed

text \<open>
  C16. Creating a V86 task fails exactly when no slot is free or fewer than 162 frames can be handed out, and then every frame it had taken is back in the pool and all address spaces are as before; otherwise
  it takes exactly 162 frames of the pool; destroying the new task gives exactly these frames back.
\<close>
theorem v86_create_destroy:
  assumes "spaces_ok s" "v86_create_task s = (r, s')"
  shows "(r = -1 \<longleftrightarrow> (\<forall>v \<in> set (v86_tasks s). v_active v) \<or> card (pmm_allocatable (frames s)) < 162) \<and>
    (if r = -1 then pmm_free_set (frames s') = pmm_free_set (frames s) \<and> owns s' = owns s
    else live s' (nat r) \<and> \<not> live s (nat r) \<and> card (pmm_free_set (frames s)) = card (pmm_free_set (frames s')) + 162 \<and>
      pmm_free_set (frames (v86_destroy_task r s')) = pmm_free_set (frames s))"
proof (cases "r = -1")
  case True
  then show ?thesis using v86_create_result [OF assms] v86_create_iff [OF assms] by simp
next
  case False
  then obtain i fs where i: "r = int i" "\<not> v_active (v86_tasks s ! i)" "live s' = (\<lambda>t. t = i \<or> live s t)" "spaces_ok s'" "length fs = 162"
      "pmm_page ` set fs \<subseteq> pmm_free_set (frames s)" "pmm_free_set (frames s') = pmm_free_set (frames s) - pmm_page ` set fs"
      "set (task_frames (v86_tasks s' ! i)) = set fs" "card (pmm_page ` set fs) = 162"
    using v86_create_result [OF assms] by auto
  have l: "live s' i" using i(3) by simp
  have "pmm_free_set (frames (v86_destroy_task (int i) s')) = pmm_free_set (frames s)"
    unfolding v86_destroy_result(5) [OF i(4) l] i(7,8) using i(6) by blast
  moreover have "card (pmm_free_set (frames s)) = card (pmm_free_set (frames s')) + 162"
  proof -
    have "card (pmm_page ` set fs) \<le> card (pmm_free_set (frames s))" using i(6) by (intro card_mono) simp_all
    then show ?thesis unfolding i(7) using i(6,9) by (simp add: card_Diff_subset)
  qed
  moreover have "\<not> live s i" using i(2) by (simp add: live_def)
  ultimately show ?thesis using False i(1) l v86_create_iff [OF assms] by simp
qed

text \<open>A kernel after boot with 4 MB of free frames, and one with two tasks.\<close>

definition empty_v86 :: v86_task where
  "empty_v86 = \<lparr>v_active = False, v_dos_task_id = 0, ring0_stack = 0, text_buf = [], v_cursor_x = 0, v_cursor_y = 0, v86mt_client_id = 0,
     v86mt_vt_handle = 0, mcb_root = 0, pd_phys = 0, pt_low_phys = 0, mem_pages = [], vga_text_phys = 0\<rparr>"

definition example_kernel :: kernel where
  "example_kernel = \<lparr>frames = pmm_mark_region_free 0x400000 0x400000 (pmm_init 32768), pmem = (\<lambda>_. 0), kpd = 0x100000, kpt = 0x101000,
     v86_tasks = replicate 8 empty_v86, current_v86 = -1, dos_tasks = [], fat = fat_init \<lparr>sectors = \<lambda>_ _. [], rd_err = \<lambda>_ _. True, wr_err = \<lambda>_ _. True\<rparr> [],
     v86mt_vts = (\<lambda>_ _. None)\<rparr>"

lemma example_free: "pmm_free_set (frames example_kernel) = {1024..<2048}" "pmm_ok (frames example_kernel)" "total_pages (frames example_kernel) = 8192"
proof -
  have pg: "pmm_page 0x400000 = 1024" "pmm_page (0x400000 + 0x400000) = 2048" by (simp_all add: pmm_page_def)
  have f: "frames example_kernel = fold mark_page_free [pmm_page 0x400000..<pmm_page (0x400000 + 0x400000)] (pmm_init 32768)"
    unfolding example_kernel_def pmm_mark_region_free_def Let_def unat_page by (simp only: kernel.select_convs)
  note r = region_free [of "0x400000" "0x400000 + 0x400000" "pmm_init 32768", folded f]
  show fr: "pmm_free_set (frames example_kernel) = {1024..<2048}" using r unfolding pg pmm_init_free_set set_upt by simp
  show tp: "total_pages (frames example_kernel) = 8192" using r by (simp add: pmm_init_def)
  have "pmm_inv (frames example_kernel)" using r pmm_init_inv by simp
  then show "pmm_ok (frames example_kernel)" unfolding pmm_ok_def pmm_sized_def tp fr by simp
qed

lemma example_link: "link_ok example_kernel"
  using example_free
  by (auto simp: link_ok_def aligned_def pmm_page_def V86_MAX_TASKS_def) (simp_all add: example_kernel_def empty_v86_def)

lemma example_allocatable: "pmm_free_set f = {1024..<2048} - P \<Longrightarrow> total_pages f = 8192 \<Longrightarrow> finite P \<Longrightarrow> 1024 - card P \<le> card (pmm_allocatable f)"
proof -
  assume f: "pmm_free_set f = {1024..<2048} - P" "total_pages f = 8192" and P: "finite P"
  have "pmm_allocatable f = {1024..<2048} - P" using f by (auto simp: pmm_allocatable_def)
  then show ?thesis using diff_card_le_card_Diff [OF P, of "{1024..<2048}"] by simp
qed

text \<open>A step that creates a task succeeds while slots and frames are left.\<close>

lemma create_step:
  assumes "spaces_ok s" "162 \<le> card (pmm_allocatable (frames s))" "v \<in> set (v86_tasks s)" "\<not> v_active v"
  shows "\<exists>i s' P. v86_create_task s = (int i, s') \<and> spaces_ok s' \<and> \<not> live s i \<and> live s' = (\<lambda>t. t = i \<or> live s t) \<and>
    (\<forall>t. t \<noteq> i \<longrightarrow> v86_tasks s' ! t = v86_tasks s ! t) \<and> length (v86_tasks s') = V86_MAX_TASKS \<and> finite P \<and> card P = 162 \<and>
    pmm_free_set (frames s') = pmm_free_set (frames s) - P \<and> total_pages (frames s') = total_pages (frames s)"
proof -
  obtain r s' where c: "v86_create_task s = (r, s')" by fastforce
  have "r \<noteq> -1" using v86_create_iff [OF assms(1) c] assms(2-4) by (auto simp: not_less)
  with v86_create_result [OF assms(1) c] obtain i fs where i: "r = int i" "\<not> v_active (v86_tasks s ! i)" "live s' = (\<lambda>t. t = i \<or> live s t)"
      "\<forall>t. t \<noteq> i \<longrightarrow> v86_tasks s' ! t = v86_tasks s ! t" "card (pmm_page ` set fs) = 162" "spaces_ok s'"
      "pmm_free_set (frames s') = pmm_free_set (frames s) - pmm_page ` set fs" "total_pages (frames s') = total_pages (frames s)"
    by auto
  moreover have "\<not> live s i" "length (v86_tasks s') = V86_MAX_TASKS" using i(2,6) by (simp_all add: live_def spaces_ok_def)
  ultimately show ?thesis using c by (intro exI [of _ i] exI [of _ s'] exI [of _ "pmm_page ` set fs"]) simp
qed

lemma example_two_tasks: "\<exists>s i j. kstep\<^sup>*\<^sup>* (vmm_init example_kernel) s \<and> live s i \<and> live s j \<and> i \<noteq> j"
proof -
  let ?s0 = "vmm_init example_kernel"
  have ok0: "spaces_ok ?s0" by (rule vmm_init_ok [OF example_link])
  have f0: "frames ?s0 = frames example_kernel" "v86_tasks ?s0 = replicate 8 empty_v86"
    by (simp_all add: vmm_init_def Let_def) (simp add: example_kernel_def)
  have a0: "162 \<le> card (pmm_allocatable (frames ?s0))" using example_allocatable [of "frames ?s0" "{}"] example_free f0(1) by simp
  obtain i s1 P where s1: "v86_create_task ?s0 = (int i, s1)" "spaces_ok s1" "live s1 = (\<lambda>t. t = i \<or> live ?s0 t)"
      "\<forall>t. t \<noteq> i \<longrightarrow> v86_tasks s1 ! t = v86_tasks ?s0 ! t" "length (v86_tasks s1) = V86_MAX_TASKS" "finite P" "card P = 162"
      "pmm_free_set (frames s1) = {1024..<2048} - P" "total_pages (frames s1) = 8192"
    using create_step [OF ok0 a0, of empty_v86] f0 example_free by (auto simp: empty_v86_def)
  have a1: "162 \<le> card (pmm_allocatable (frames s1))" using example_allocatable [OF s1(8,9,6)] s1(7) by simp
  define k where "k = (if i = 0 then 1 else 0 :: nat)"
  have "v86_tasks s1 ! k = empty_v86" using s1(4) f0(2) by (simp add: k_def)
  moreover have "k < length (v86_tasks s1)" by (simp add: k_def s1(5) V86_MAX_TASKS_def)
  ultimately have "empty_v86 \<in> set (v86_tasks s1)" by (metis nth_mem)
  then obtain j s2 where s2: "v86_create_task s1 = (int j, s2)" "\<not> live s1 j" "live s2 = (\<lambda>t. t = j \<or> live s1 t)"
    using create_step [OF s1(2) a1, of empty_v86] by (auto simp: empty_v86_def)
  have "kstep ?s0 s1" "kstep s1 s2" using k_create [of ?s0] k_create [of s1] s1(1) s2(1) by auto
  then have "kstep\<^sup>*\<^sup>* ?s0 s2" by (meson rtranclp.rtrancl_into_rtrancl rtranclp.rtrancl_refl)
  moreover have "live s2 i" "live s2 j" "i \<noteq> j" using s1(3) s2(2,3) by auto
  ultimately show ?thesis by blast
qed



theorem v86_create_destroy_witness:
  "\<exists>s'. v86_create_task (vmm_init example_kernel) = (0, s') \<and> pmm_free_set (frames (v86_destroy_task 0 s')) = {1024..<2048}"
proof -
  let ?s = "vmm_init example_kernel"
  obtain r s' where c: "v86_create_task ?s = (r, s')" by fastforce
  have f: "frames ?s = frames example_kernel" "v86_tasks ?s = replicate 8 empty_v86"
    by (simp_all add: vmm_init_def Let_def) (simp add: example_kernel_def)
  have "\<not> (\<forall>v \<in> set (v86_tasks ?s). v_active v)" "\<not> card (pmm_allocatable (frames ?s)) < 162"
    using example_allocatable [of "frames ?s" "{}"] example_free by (simp_all add: f empty_v86_def)
  note t = v86_create_destroy [OF vmm_init_ok [OF example_link] c]
  have "find_slot (\<lambda>v. \<not> v_active v) (v86_tasks ?s) = Some 0" unfolding f by (simp add: numeral_eq_Suc empty_v86_def)
  then have "r = -1 \<or> r = 0" using c by (auto simp: v86_create_task_def Let_def split: prod.splits if_splits)
  then show ?thesis using t c \<open>\<not> (\<forall>v \<in> _. _)\<close> \<open>\<not> card _ < _\<close> example_free(1) f(1) by auto
qed
end
