(* ===== verification/Sched.thy ===== *)
theory Sched
  imports Paging
begin

text \<open>
  The preemptive scheduler, src/src/kernel/sched.c, and the part of the interrupt dispatcher that drives it
  (src/src/kernel/idt.c). A context switch is the value the dispatcher returns as the new stack pointer: the
  saved registers live on the stacks and are not part of the state. Stack frames of new tasks are words of
  physical memory; the task entry functions are addresses.
\<close>

section \<open>State\<close>

definition SCHED_MAX_TASKS :: nat where "SCHED_MAX_TASKS = 16"
definition SCHED_STACK_SIZE :: u32 where "SCHED_STACK_SIZE = 4096"

datatype task_state = TASK_UNUSED | TASK_READY | TASK_RUNNING | TASK_BLOCKED | TASK_DEAD

datatype task_type = TASK_KERNEL | TASK_V86

datatype block_reason = BLOCK_NONE | BLOCK_KEYBOARD | BLOCK_SLEEP | BLOCK_VT_REQUEST | BLOCK_FDC | BLOCK_VT_HIDDEN | BLOCK_V86MT_KBD

record task =
  t_esp :: u32
  t_esp0 :: u32
  t_state :: task_state
  t_type :: task_type
  t_vt :: int
  t_name :: "u8 list"
  t_block_reason :: block_reason
  t_block_data :: int
  t_v86_task_id :: int
  t_dos_task_id :: int
  t_exec_binary :: "u8 list"
  t_exec_args :: "u8 list"
  t_fat_drive :: int
  t_stack_page :: u32

record sched =
  kern :: kernel
  tasks :: "task list"
  current :: int
  task_count :: int
  scheduler_active :: bool
  tss_esp0 :: u32
  cr3 :: u32
  dpmi_busy :: bool
  dpmi_busy_skips :: nat

definition upd_sched_task :: "nat \<Rightarrow> (task \<Rightarrow> task) \<Rightarrow> sched \<Rightarrow> sched" where
  "upd_sched_task i g s = s\<lparr>tasks := (tasks s)[i := g (tasks s ! i)]\<rparr>"

definition cur :: "sched \<Rightarrow> nat" where
  "cur s = nat (current s)"

definition state_of :: "nat \<Rightarrow> sched \<Rightarrow> task_state" where
  "state_of i s = t_state (tasks s ! i)"

section \<open>Creating tasks\<close>

definition sched_init :: "sched \<Rightarrow> sched" where
  "sched_init s = s\<lparr>tasks := map (\<lambda>t. t\<lparr>t_state := TASK_UNUSED, t_vt := -1\<rparr>) (tasks s), current := -1, task_count := 0,
     scheduler_active := False\<rparr>"

text \<open>The frame the interrupt return pops: four segment registers, eight general registers, two words of the stub, eip, cs and eflags.\<close>

definition init_stack_frame :: "u32 \<Rightarrow> u32 list" where
  "init_stack_frame eip = [0x10, 0x10, 0x10, 0x10] @ replicate 10 0 @ [eip, 0x08, 0x202]"

definition write_words :: "u32 \<Rightarrow> u32 list \<Rightarrow> mem32 \<Rightarrow> mem32" where
  "write_words a ws m = fold (\<lambda>(i, w) m. m(a + 4 * of_nat i := w)) (enumerate 0 ws) m"

definition sched_create_kernel_task :: "u8 list \<Rightarrow> u32 \<Rightarrow> int \<Rightarrow> sched \<Rightarrow> int \<times> sched" where
  "sched_create_kernel_task name start vt s =
     (case find_slot (\<lambda>t. t_state t = TASK_UNUSED) (tasks s) of
        None \<Rightarrow> (-1, s)
      | Some i \<Rightarrow>
          (case pmm_alloc_page (frames (kern s)) of (stack_page, f) \<Rightarrow>
             let k = (kern s)\<lparr>frames := f\<rparr>
             in if stack_page = 0 then (-1, s\<lparr>kern := k\<rparr>)
                else let stack_top = stack_page + SCHED_STACK_SIZE;
                         frame = stack_top - 68;
                         k1 = k\<lparr>pmem := write_words frame (init_stack_frame start) (pmem k)\<rparr>;
                         s1 = upd_sched_task i (\<lambda>t. t\<lparr>t_stack_page := stack_page, t_esp0 := stack_top, t_esp := frame,
                                t_state := TASK_READY, t_type := TASK_KERNEL, t_vt := vt, t_block_reason := BLOCK_NONE,
                                t_v86_task_id := -1, t_dos_task_id := -1, t_fat_drive := int (fat_get_drive (fat k)),
                                t_name := take 15 name\<rparr>) (s\<lparr>kern := k1\<rparr>)
                     in (int i, s1\<lparr>task_count := task_count s + 1\<rparr>)))"

definition set_state :: "nat \<Rightarrow> task_state \<Rightarrow> sched \<Rightarrow> sched" where
  "set_state i st = upd_sched_task i (\<lambda>t. t\<lparr>t_state := st\<rparr>)"

definition sched_create_v86_task_with_entry :: "u8 list \<Rightarrow> u32 \<Rightarrow> int \<Rightarrow> sched \<Rightarrow> int \<times> sched" where
  "sched_create_v86_task_with_entry name start vt s =
     (case sched_create_kernel_task name start vt s of (task_id, s1) \<Rightarrow>
        if task_id < 0 then (-1, s1)
        else let i = nat task_id;
                 s2 = upd_sched_task i (\<lambda>t. t\<lparr>t_state := TASK_BLOCKED, t_block_reason := BLOCK_NONE\<rparr>) s1
             in case v86_create_task (kern s2) of (v86_id, k) \<Rightarrow>
                  let s3 = s2\<lparr>kern := k\<rparr>
                  in if v86_id < 0 then (-1, (set_state i TASK_DEAD s3)\<lparr>task_count := task_count s3 - 1\<rparr>)
                     else (task_id, upd_sched_task i (\<lambda>t. t\<lparr>t_type := TASK_V86, t_v86_task_id := v86_id,
                             t_dos_task_id := v86_get_dos_task v86_id k, t_state := TASK_READY\<rparr>) s3))"

text \<open>The same with the entry function that loads a DOS program, whose address is a link-time constant.\<close>

definition sched_create_v86_task :: "u32 \<Rightarrow> u8 list \<Rightarrow> int \<Rightarrow> sched \<Rightarrow> int \<times> sched" where
  "sched_create_v86_task v86_task_entry name vt s = sched_create_v86_task_with_entry name v86_task_entry vt s"

definition sched_create_v86_exec :: "u32 \<Rightarrow> u8 list \<Rightarrow> int \<Rightarrow> u8 list option \<Rightarrow> u8 list option \<Rightarrow> sched \<Rightarrow> int \<times> sched" where
  "sched_create_v86_exec v86_task_entry name vt binary args s =
     (case sched_create_v86_task v86_task_entry name vt s of (i, s1) \<Rightarrow>
        if i < 0 then (i, s1)
        else (i, upd_sched_task (nat i) (\<lambda>t. t\<lparr>t_exec_binary := (case binary of None \<Rightarrow> [] | Some b \<Rightarrow> take 63 b),
                   t_exec_args := (case args of None \<Rightarrow> [] | Some a \<Rightarrow> take 63 a), t_state := TASK_READY\<rparr>) s1))"

section \<open>Switching tasks\<close>

definition is_idle :: "task \<Rightarrow> bool" where
  "is_idle t \<longleftrightarrow> take 4 (t_name t) = [0x69, 0x64, 0x6C, 0x65]"

text \<open>The cyclic search: at most \<open>n\<close> slots behind \<open>nx\<close>, with the last slot looked at.\<close>

fun rr_scan :: "nat \<Rightarrow> (task \<Rightarrow> bool) \<Rightarrow> task list \<Rightarrow> int \<Rightarrow> bool \<times> int" where
  "rr_scan 0 P ts nx = (False, nx)"
| "rr_scan (Suc n) P ts nx =
     (let nx' = (nx + 1) mod int SCHED_MAX_TASKS
      in if P (ts ! nat nx') then (True, nx') else rr_scan n P ts nx')"

definition save_current :: "u32 \<Rightarrow> sched \<Rightarrow> sched" where
  "save_current esp s =
     (if current s \<ge> 0 then
        upd_sched_task (cur s) (\<lambda>t. t\<lparr>t_esp := esp, t_fat_drive := int (fat_get_drive (fat (kern s))),
          t_state := (if t_state t = TASK_RUNNING then TASK_READY else if t_state t = TASK_DEAD then TASK_UNUSED else t_state t)\<rparr>) s
      else s)"

definition switch_to :: "int \<Rightarrow> sched \<Rightarrow> u32 \<times> sched" where
  "switch_to nx s =
     (let s1 = set_state (nat nx) TASK_RUNNING (s\<lparr>current := nx\<rparr>);
          t = tasks s1 ! nat nx;
          is_v86 = (t_type t = TASK_V86 \<and> t_v86_task_id t \<ge> 0);
          k1 = v86_set_current (if is_v86 then t_v86_task_id t else -1) (kern s1);
          c = (if is_v86 then v86_task_cr3 (t_v86_task_id t) k1 else 0);
          k2 = (if fat_is_mounted (t_fat_drive t) (fat k1) then k1\<lparr>fat := fat_set_drive (t_fat_drive t) (fat k1)\<rparr> else k1)
      in (t_esp t, s1\<lparr>kern := k2, tss_esp0 := t_esp0 t, cr3 := (if c = 0 then vmm_kernel_pd_phys k1 else c)\<rparr>))"

definition is_ready :: "task \<Rightarrow> bool" where
  "is_ready t \<longleftrightarrow> t_state t = TASK_READY"

definition sched_schedule :: "u32 \<Rightarrow> sched \<Rightarrow> u32 \<times> sched" where
  "sched_schedule esp s =
     (if \<not> scheduler_active s then (esp, s)
      else if task_count s < 2 then (esp, s)
      else let s1 = save_current esp s;
               stay = (current s1 \<ge> 0 \<and> is_ready (tasks s1 ! cur s1))
           in case rr_scan SCHED_MAX_TASKS (\<lambda>t. is_ready t \<and> \<not> is_idle t) (tasks s1) (current s1) of (found_non_idle, next1) \<Rightarrow>
             if \<not> found_non_idle \<and> stay then (esp, set_state (cur s1) TASK_RUNNING s1)
             else let next2 = (if found_non_idle then next1 else snd (rr_scan SCHED_MAX_TASKS is_ready (tasks s1) (current s1)))
                  in if \<not> is_ready (tasks s1 ! nat next2)
                     then (esp, if stay then set_state (cur s1) TASK_RUNNING s1 else s1)
                     else switch_to next2 s1)"

text \<open>The dispatcher's path for interrupt 40 (the periodic clock and the software yield), without the clock handler itself.\<close>

definition rtc_dispatch :: "u32 \<Rightarrow> sched \<Rightarrow> u32 \<times> sched" where
  "rtc_dispatch esp s =
     (if \<not> dpmi_busy s then sched_schedule esp (s\<lparr>dpmi_busy_skips := 0\<rparr>)
      else if dpmi_busy_skips s + 1 \<ge> 4 then sched_schedule esp (s\<lparr>dpmi_busy_skips := 0\<rparr>)
      else (esp, s\<lparr>dpmi_busy_skips := dpmi_busy_skips s + 1\<rparr>))"

definition sched_yield :: "u32 \<Rightarrow> sched \<Rightarrow> u32 \<times> sched" where
  "sched_yield esp s = rtc_dispatch esp s"

section \<open>Blocking and leaving\<close>

definition mark_blocked :: "block_reason \<Rightarrow> int \<Rightarrow> sched \<Rightarrow> sched" where
  "mark_blocked reason data = (\<lambda>s. upd_sched_task (cur s) (\<lambda>t. t\<lparr>t_block_reason := reason, t_block_data := data, t_state := TASK_BLOCKED\<rparr>) s)"

definition sched_block :: "block_reason \<Rightarrow> int \<Rightarrow> u32 \<Rightarrow> sched \<Rightarrow> u32 \<times> sched" where
  "sched_block reason data esp s = (if current s < 0 then (esp, s) else sched_yield esp (mark_blocked reason data s))"

definition sched_unblock :: "block_reason \<Rightarrow> int \<Rightarrow> sched \<Rightarrow> sched" where
  "sched_unblock reason data s = s\<lparr>tasks := map (\<lambda>t. if t_state t = TASK_BLOCKED \<and> t_block_reason t = reason \<and> t_block_data t = data
     then t\<lparr>t_state := TASK_READY, t_block_reason := BLOCK_NONE\<rparr> else t) (tasks s)\<rparr>"

definition sched_is_active :: "sched \<Rightarrow> bool" where "sched_is_active s = scheduler_active s"

text \<open>Starting: without a ready task the source indexes the task table with -1.\<close>

definition sched_start :: "sched \<Rightarrow> (u32 \<times> sched) option" where
  "sched_start s =
     (if task_count s = 0 then Some (0, s)
      else let s1 = s\<lparr>scheduler_active := True\<rparr>;
               s2 = (case find_slot is_ready (tasks s1) of None \<Rightarrow> s1 | Some i \<Rightarrow> set_state i TASK_RUNNING (s1\<lparr>current := int i\<rparr>))
           in if current s2 < 0 then None
              else let t = tasks s2 ! cur s2 in Some (t_esp t, s2\<lparr>tss_esp0 := t_esp0 t\<rparr>))"

definition mark_dead :: "sched \<Rightarrow> sched" where
  "mark_dead s = (if current s \<ge> 0 then (set_state (cur s) TASK_DEAD s)\<lparr>task_count := task_count s - 1\<rparr> else s)"

definition sched_exit :: "u32 \<Rightarrow> sched \<Rightarrow> u32 \<times> sched" where
  "sched_exit esp s = sched_yield esp (mark_dead s)"

definition sched_current :: "sched \<Rightarrow> int" where "sched_current s = current s"

definition sched_get_task :: "int \<Rightarrow> sched \<Rightarrow> task option" where
  "sched_get_task i s =
     (if i < 0 \<or> i \<ge> int SCHED_MAX_TASKS then None
      else if t_state (tasks s ! nat i) = TASK_UNUSED then None else Some (tasks s ! nat i))"

definition sched_vt_for_v86 :: "int \<Rightarrow> sched \<Rightarrow> int" where
  "sched_vt_for_v86 v s =
     (if v < 0 then -1
      else case find_slot (\<lambda>t. t_state t \<noteq> TASK_UNUSED \<and> t_v86_task_id t = v) (tasks s) of
        None \<Rightarrow> -1 | Some i \<Rightarrow> t_vt (tasks s ! i))"


section \<open>The invariant\<close>

text \<open>The states of the slots; the counter counts the slots whose task is neither gone nor dead.\<close>

definition states :: "sched \<Rightarrow> task_state list" where
  "states s = map t_state (tasks s)"

definition alive :: "task_state \<Rightarrow> bool" where
  "alive st \<longleftrightarrow> st = TASK_READY \<or> st = TASK_RUNNING \<or> st = TASK_BLOCKED"

definition sched_inv :: "sched \<Rightarrow> bool" where
  "sched_inv s \<longleftrightarrow> length (tasks s) = SCHED_MAX_TASKS \<and> -1 \<le> current s \<and> current s < int SCHED_MAX_TASKS \<and>
     (\<forall>i < SCHED_MAX_TASKS. state_of i s = TASK_RUNNING \<longrightarrow> int i = current s) \<and>
     task_count s = int (length (filter alive (states s)))"

lemma alive_simps [simp]: "alive TASK_READY" "alive TASK_RUNNING" "alive TASK_BLOCKED" "\<not> alive TASK_UNUSED" "\<not> alive TASK_DEAD"
  by (simp_all add: alive_def)

lemma filter_update_length:
  "i < length xs \<Longrightarrow> length (filter P (xs[i := y])) + (if P (xs ! i) then 1 else 0) = length (filter P xs) + (if P y then 1 else 0)"
proof (induction xs arbitrary: i)
  case (Cons x xs)
  then show ?case by (cases i) auto
qed simp

lemma upd_task_fields [frame_simps]:
  "current (upd_sched_task i g s) = current s" "task_count (upd_sched_task i g s) = task_count s" "kern (upd_sched_task i g s) = kern s"
  "scheduler_active (upd_sched_task i g s) = scheduler_active s" "length (tasks (upd_sched_task i g s)) = length (tasks s)"
  by (simp_all add: upd_sched_task_def)

lemma upd_task_nth:
  "tasks (upd_sched_task i g s) ! j = (if j = i \<and> i < length (tasks s) then g (tasks s ! i) else tasks s ! j)"
  by (auto simp: upd_sched_task_def nth_list_update list_update_beyond)

lemma upd_task_states: "states (upd_sched_task i g s) = (states s)[i := t_state (g (tasks s ! i))]"
  by (simp add: states_def upd_sched_task_def map_update)

lemma states_nth: "i < length (tasks s) \<Longrightarrow> states s ! i = state_of i s"
  by (simp add: states_def state_of_def)

text \<open>What a change of one slot means for the counter.\<close>

lemma count_change:
  assumes "i < length (tasks s)"
  shows "int (length (filter alive (states (upd_sched_task i g s)))) =
    int (length (filter alive (states s))) - (if alive (state_of i s) then 1 else 0) + (if alive (t_state (g (tasks s ! i))) then 1 else 0)"
  using filter_update_length [of i "states s" alive "t_state (g (tasks s ! i))"] assms
  by (simp add: upd_task_states states_nth) (simp add: states_def split: if_splits)

lemma inv_upd:
  assumes "sched_inv s" "i < SCHED_MAX_TASKS" "t_state (g (tasks s ! i)) \<noteq> TASK_RUNNING \<or> int i = current s"
  shows "sched_inv ((upd_sched_task i g s)\<lparr>task_count := task_count s - (if alive (state_of i s) then 1 else 0) +
    (if alive (t_state (g (tasks s ! i))) then 1 else 0)\<rparr>)"
proof -
  have "i < length (tasks s)" using assms by (simp add: sched_inv_def)
  note c = count_change [OF this, of g]
  have "states (s'\<lparr>task_count := c\<rparr>) = states s'" "state_of j (s'\<lparr>task_count := c\<rparr>) = state_of j s'" for s' c j by (simp_all add: states_def state_of_def)
  then show ?thesis
    using assms c unfolding sched_inv_def by (simp add: frame_simps state_of_def upd_task_nth)
qed

lemma inv_upd_same:
  assumes "sched_inv s" "i < SCHED_MAX_TASKS" "t_state (g (tasks s ! i)) \<noteq> TASK_RUNNING \<or> int i = current s"
    "alive (t_state (g (tasks s ! i))) \<longleftrightarrow> alive (state_of i s)"
  shows "sched_inv (upd_sched_task i g s)"
proof -
  have "(upd_sched_task i g s)\<lparr>task_count := task_count s\<rparr> = upd_sched_task i g s" by (simp add: upd_sched_task_def)
  then show ?thesis using inv_upd [of s i g] assms by auto
qed

lemma inv_kern [simp]: "sched_inv (s\<lparr>kern := k\<rparr>) = sched_inv s" "sched_inv (s\<lparr>tss_esp0 := e\<rparr>) = sched_inv s"
  "sched_inv (s\<lparr>cr3 := c\<rparr>) = sched_inv s" "sched_inv (s\<lparr>dpmi_busy_skips := n\<rparr>) = sched_inv s" "sched_inv (s\<lparr>dpmi_busy := b\<rparr>) = sched_inv s"
  by (simp_all add: sched_inv_def states_def state_of_def)

lemma sched_init_inv: "length (tasks s) = SCHED_MAX_TASKS \<Longrightarrow> sched_inv (sched_init s)"
  by (auto simp: sched_inv_def sched_init_def states_def state_of_def SCHED_MAX_TASKS_def filter_empty_conv)

lemma create_kernel_result:
  assumes inv: "sched_inv s" and c: "sched_create_kernel_task nm start vt s = (r, s')"
  shows "sched_inv s' \<and> current s' = current s \<and> scheduler_active s' = scheduler_active s \<and> dpmi_busy s' = dpmi_busy s \<and>
    (if r = -1 then tasks s' = tasks s
     else \<exists>i < SCHED_MAX_TASKS. r = int i \<and> state_of i s = TASK_UNUSED \<and> state_of i s' = TASK_READY \<and> (\<forall>j. j \<noteq> i \<longrightarrow> tasks s' ! j = tasks s ! j))"
proof (cases "find_slot (\<lambda>t. t_state t = TASK_UNUSED) (tasks s)")
  case None
  then show ?thesis using c inv by (auto simp: sched_create_kernel_task_def)
next
  case (Some i)
  have i: "i < SCHED_MAX_TASKS" "state_of i s = TASK_UNUSED" using find_slot_SomeD [OF Some] inv by (auto simp: sched_inv_def state_of_def)
  obtain p f where p: "pmm_alloc_page (frames (kern s)) = (p, f)" by fastforce
  show ?thesis
  proof (cases "p = 0")
    case True
    then show ?thesis using c inv Some p by (auto simp: sched_create_kernel_task_def Let_def)
  next
    case False
    then obtain k g where s': "r = int i" "s' = (upd_sched_task i g (s\<lparr>kern := k\<rparr>))\<lparr>task_count := task_count s + 1\<rparr>"
        "\<And>t. t_state (g t) = TASK_READY"
      using c Some p by (auto simp: sched_create_kernel_task_def Let_def)
    let ?s = "s\<lparr>kern := k\<rparr>"
    have "sched_inv ((upd_sched_task i g ?s)\<lparr>task_count := task_count ?s - (if alive (state_of i ?s) then 1 else 0) +
        (if alive (t_state (g (tasks ?s ! i))) then 1 else 0)\<rparr>)"
      using inv i(1) by (intro inv_upd) (simp_all add: s'(3))
    then have "sched_inv s'" using i(2) by (simp add: s' state_of_def)
    moreover have "i < length (tasks s)" using i(1) inv by (simp add: sched_inv_def)
    moreover have "dpmi_busy (upd_sched_task i g ?s) = dpmi_busy s" by (simp add: upd_sched_task_def)
    ultimately show ?thesis using i s' by (auto simp: frame_simps state_of_def upd_task_nth)
  qed
qed

lemma create_v86_inv:
  assumes inv: "sched_inv s" and c: "sched_create_v86_task_with_entry nm start vt s = (r, s')"
  shows "sched_inv s' \<and> current s' = current s \<and> scheduler_active s' = scheduler_active s \<and>
    (r \<noteq> -1 \<longrightarrow> (\<exists>i < SCHED_MAX_TASKS. r = int i \<and> state_of i s' = TASK_READY)) \<and>
    (\<forall>j < SCHED_MAX_TASKS. state_of j s \<noteq> TASK_UNUSED \<longrightarrow> tasks s' ! j = tasks s ! j)"
proof -
  obtain t s1 where k: "sched_create_kernel_task nm start vt s = (t, s1)" by fastforce
  note r = create_kernel_result [OF inv k]
  show ?thesis
  proof (cases "t = -1")
    case True
    then show ?thesis using c k r by (simp add: sched_create_v86_task_with_entry_def)
  next
    case False
    then obtain i where i: "i < SCHED_MAX_TASKS" "t = int i" "state_of i s = TASK_UNUSED" "state_of i s1 = TASK_READY"
        "\<And>j. j \<noteq> i \<Longrightarrow> tasks s1 ! j = tasks s ! j" "sched_inv s1" "current s1 = current s" "scheduler_active s1 = scheduler_active s"
      using r by auto
    let ?s2 = "upd_sched_task i (\<lambda>t. t\<lparr>t_state := TASK_BLOCKED, t_block_reason := BLOCK_NONE\<rparr>) s1"
    have inv2: "sched_inv ?s2" using i by (intro inv_upd_same) simp_all
    have len: "i < length (tasks s1)" using i(1,6) by (simp add: sched_inv_def)
    obtain v kn where v: "v86_create_task (kern ?s2) = (v, kn)" by fastforce
    let ?s3 = "?s2\<lparr>kern := kn\<rparr>"
    have inv3: "sched_inv ?s3" "state_of i ?s3 = TASK_BLOCKED" using inv2 len by (simp_all add: state_of_def upd_task_nth)
    have nth: "tasks ?s3 ! j = tasks s ! j" if "j \<noteq> i" for j using i(5) [OF that] that by (simp add: upd_task_nth)
    show ?thesis
    proof (cases "v < 0")
      case True
      then have e: "r = -1" "s' = (set_state i TASK_DEAD ?s3)\<lparr>task_count := task_count ?s3 - 1\<rparr>"
        using c k v i(2) by (auto simp: sched_create_v86_task_with_entry_def Let_def)
      have "sched_inv s'" using inv_upd [OF inv3(1) i(1), of "\<lambda>t. t\<lparr>t_state := TASK_DEAD\<rparr>"] inv3(2) by (simp add: e set_state_def)
      then show ?thesis using i(3,7,8) nth e len by (auto simp: set_state_def frame_simps upd_task_nth state_of_def)
    next
      case False
      then obtain g where e: "r = int i" "s' = upd_sched_task i g ?s3" "\<And>t. t_state (g t) = TASK_READY"
        using c k v i(2) by (auto simp: sched_create_v86_task_with_entry_def Let_def)
      have "sched_inv s'" unfolding e(2) using inv3 i(1) e(3) by (intro inv_upd_same) simp_all
      then show ?thesis using i(1,3,7,8) nth e len by (auto simp: frame_simps upd_task_nth state_of_def)
    qed
  qed
qed

lemma create_v86_exec_inv:
  assumes inv: "sched_inv s" and c: "sched_create_v86_exec ent nm vt b a s = (r, s')"
  shows "sched_inv s' \<and> current s' = current s"
proof -
  obtain i s1 where k: "sched_create_v86_task_with_entry nm ent vt s = (i, s1)" by fastforce
  note v = create_v86_inv [OF inv k]
  show ?thesis
  proof (cases "i < 0")
    case True
    then show ?thesis using c k v by (simp add: sched_create_v86_exec_def sched_create_v86_task_def)
  next
    case False
    then obtain j where j: "j < SCHED_MAX_TASKS" "i = int j" "state_of j s1 = TASK_READY" using v by auto
    obtain g where e: "s' = upd_sched_task j g s1" "\<And>t. t_state (g t) = TASK_READY"
      using c k False j(2) by (auto simp: sched_create_v86_exec_def sched_create_v86_task_def)
    have "sched_inv s'" unfolding e(1) using v j e(2) by (intro inv_upd_same) simp_all
    then show ?thesis using v by (simp add: e frame_simps)
  qed
qed

lemma cur_bound: "sched_inv s \<Longrightarrow> 0 \<le> current s \<Longrightarrow> cur s < SCHED_MAX_TASKS \<and> int (cur s) = current s"
  by (auto simp: sched_inv_def cur_def nat_less_iff)

lemma mark_blocked_inv:
  "sched_inv s \<Longrightarrow> 0 \<le> current s \<Longrightarrow> alive (state_of (cur s) s) \<Longrightarrow> sched_inv (mark_blocked reason d s)"
  unfolding mark_blocked_def using cur_bound by (intro inv_upd_same) simp_all

lemma mark_dead_inv:
  assumes "sched_inv s" "0 \<le> current s" "alive (state_of (cur s) s)"
  shows "sched_inv (mark_dead s)"
  using inv_upd [OF assms(1), of "cur s" "\<lambda>t. t\<lparr>t_state := TASK_DEAD\<rparr>"] cur_bound [OF assms(1,2)] assms
  by (simp add: mark_dead_def set_state_def)

lemma unblock_nth: "j < length (tasks s) \<Longrightarrow> state_of j (sched_unblock reason d s) =
    (if state_of j s = TASK_BLOCKED \<and> t_block_reason (tasks s ! j) = reason \<and> t_block_data (tasks s ! j) = d then TASK_READY else state_of j s)"
  by (simp add: sched_unblock_def state_of_def)

lemma unblock_inv: "sched_inv s \<Longrightarrow> sched_inv (sched_unblock reason d s)"
proof -
  assume inv: "sched_inv s"
  have "length (filter alive (map t_state (map (\<lambda>t. if t_state t = TASK_BLOCKED \<and> t_block_reason t = reason \<and> t_block_data t = d
      then t\<lparr>t_state := TASK_READY, t_block_reason := BLOCK_NONE\<rparr> else t) ts))) = length (filter alive (map t_state ts))" for ts
    by (induction ts) auto
  then have "length (filter alive (states (sched_unblock reason d s))) = length (filter alive (states s))"
    unfolding states_def sched_unblock_def by (cases s) (simp only: sched.select_convs sched.update_convs)
  moreover have "length (tasks (sched_unblock reason d s)) = length (tasks s)" "current (sched_unblock reason d s) = current s"
      "task_count (sched_unblock reason d s) = task_count s" by (simp_all add: sched_unblock_def)
  ultimately show ?thesis using inv unblock_nth [of _ s reason d] unfolding sched_inv_def by (auto split: if_splits)
qed

section \<open>Which task runs next\<close>

lemma rr_scan_result:
  "rr_scan n P ts nx = (b, r) \<Longrightarrow>
    (if b then \<exists>k. 1 \<le> k \<and> k \<le> n \<and> r = (nx + int k) mod 16 \<and> P (ts ! nat r) \<and> (\<forall>j. 1 \<le> j \<longrightarrow> j < k \<longrightarrow> \<not> P (ts ! nat ((nx + int j) mod 16)))
     else \<forall>j. 1 \<le> j \<longrightarrow> j \<le> n \<longrightarrow> \<not> P (ts ! nat ((nx + int j) mod 16)))"
proof (induction n arbitrary: nx)
  case (Suc n)
  let ?x = "(nx + 1) mod 16"
  have sh: "(?x + int j) mod 16 = (nx + int (Suc j)) mod 16" for j by (simp add: mod_add_left_eq add.assoc)
  show ?case
  proof (cases "P (ts ! nat ?x)")
    case True
    then show ?thesis using Suc.prems by (auto simp: Let_def SCHED_MAX_TASKS_def intro!: exI [of _ 1])
  next
    case False
    then have r: "rr_scan n P ts ?x = (b, r)" using Suc.prems by (simp add: Let_def SCHED_MAX_TASKS_def)
    have sh': "\<exists>i. j = Suc i \<and> 1 \<le> i \<and> P (ts ! nat ((?x + int i) mod 16))" if h: "1 \<le> j" "P (ts ! nat ((nx + int j) mod 16))" for j
    proof -
      obtain i where i: "j = Suc i" using h(1) not0_implies_Suc [of j] by auto
      have "1 \<le> i" using h(2) False i by (cases i) auto
      then show ?thesis using h(2) sh [of i] i by auto
    qed
    show ?thesis
    proof (cases b)
      case True
      then obtain k where k: "1 \<le> k" "k \<le> n" "r = (?x + int k) mod 16" "P (ts ! nat r)"
          "\<forall>j. 1 \<le> j \<longrightarrow> j < k \<longrightarrow> \<not> P (ts ! nat ((?x + int j) mod 16))" using Suc.IH [OF r] by auto
      have "\<not> P (ts ! nat ((nx + int j) mod 16))" if "1 \<le> j" "j < Suc k" for j
        using that k(5) sh' [OF that(1)] by auto
      then show ?thesis using True k(1-4) sh [of k] by (auto intro!: exI [of _ "Suc k"])
    next
      case bf: False
      then have "\<forall>j. 1 \<le> j \<longrightarrow> j \<le> n \<longrightarrow> \<not> P (ts ! nat ((?x + int j) mod 16))" using Suc.IH [OF r] by simp
      then have "\<not> P (ts ! nat ((nx + int j) mod 16))" if "1 \<le> j" "j \<le> Suc n" for j
        using that sh' [OF that(1)] by auto
      then show ?thesis using bf by simp
    qed
  qed
qed simp

text \<open>The distance from one slot to the next, going round; a full turn when they are the same.\<close>

definition dist :: "int \<Rightarrow> int \<Rightarrow> nat" where
  "dist a b = (if (b - a) mod 16 = 0 then 16 else nat ((b - a) mod 16))"

lemma dist_range: "1 \<le> dist a b \<and> dist a b \<le> 16"
proof -
  have "0 \<le> (b - a) mod 16" "(b - a) mod 16 < 16" by simp_all
  then show ?thesis unfolding dist_def by (cases "(b - a) mod 16 = 0") (simp_all, linarith)
qed

lemma dist_at: "0 \<le> b \<Longrightarrow> b < 16 \<Longrightarrow> (a + int (dist a b)) mod 16 = b"
proof -
  assume b: "0 \<le> b" "b < 16"
  have "(a + (b - a) mod 16) mod 16 = b" using b by (simp add: mod_add_right_eq)
  moreover have "(a + 16) mod 16 = a mod 16" by simp
  moreover have "a mod 16 = b" if "(b - a) mod 16 = 0" using that b by (metis mod_eq_dvd_iff mod_pos_pos_trivial dvd_eq_mod_eq_0)
  ultimately show ?thesis by (auto simp: dist_def)
qed

lemma dist_unique: "1 \<le> k \<Longrightarrow> k \<le> 16 \<Longrightarrow> dist a ((a + int k) mod 16) = k"
proof -
  assume k: "1 \<le> k" "k \<le> 16"
  have "((a + int k) mod 16 - a) mod 16 = int k mod 16" by (simp add: mod_diff_left_eq)
  then show ?thesis using k by (cases "k = 16") (simp_all add: dist_def)
qed

lemma dist_sub:
  assumes "dist a r < dist a t" "0 \<le> r" "r < 16" "0 \<le> t" "t < 16"
  shows "dist r t = dist a t - dist a r"
proof -
  let ?k = "dist a t - dist a r"
  have t: "t = (a + int (dist a t)) mod 16" using dist_at assms by auto
  have "(r + int ?k) mod 16 = ((a + int (dist a r)) mod 16 + int ?k) mod 16" using dist_at [of r a] assms(2,3) by simp
  also have "\<dots> = (a + int (dist a r) + int ?k) mod 16" by (rule mod_add_left_eq)
  also have "\<dots> = t" using assms(1) t by (simp add: of_nat_diff algebra_simps)
  finally have "t = (r + int ?k) mod 16" by simp
  then show ?thesis using dist_unique [of ?k r] dist_range [of a t] assms(1) by simp
qed

lemma save_current_inv:
  assumes inv: "sched_inv s"
  shows "sched_inv (save_current esp s)" "current (save_current esp s) = current s" "task_count (save_current esp s) = task_count s"
    "scheduler_active (save_current esp s) = scheduler_active s"
    "\<And>j. int j \<noteq> current s \<Longrightarrow> tasks (save_current esp s) ! j = tasks s ! j"
    "\<And>j. j < SCHED_MAX_TASKS \<Longrightarrow> state_of j (save_current esp s) \<noteq> TASK_RUNNING"
    "\<And>j. t_name (tasks (save_current esp s) ! j) = t_name (tasks s ! j)"
    "\<And>j. state_of j s = TASK_READY \<Longrightarrow> state_of j (save_current esp s) = TASK_READY"
proof -
  define g :: "task \<Rightarrow> task" where "g = (\<lambda>t. t\<lparr>t_esp := esp, t_fat_drive := int (fat_get_drive (fat (kern s))),
      t_state := (if t_state t = TASK_RUNNING then TASK_READY else if t_state t = TASK_DEAD then TASK_UNUSED else t_state t)\<rparr>)"
  have sc: "save_current esp s = (if current s \<ge> 0 then upd_sched_task (cur s) g s else s)" by (simp add: save_current_def g_def)
  have st: "t_state (g t) \<noteq> TASK_RUNNING" "alive (t_state (g t)) \<longleftrightarrow> alive (t_state t)" "t_name (g t) = t_name t"
      "t_state t = TASK_READY \<Longrightarrow> t_state (g t) = TASK_READY" for t by (auto simp: alive_def g_def)
  show "sched_inv (save_current esp s)"
    unfolding sc using inv cur_bound [OF inv] st(1,2) by (auto simp: state_of_def intro!: inv_upd_same)
  show "current (save_current esp s) = current s" "task_count (save_current esp s) = task_count s"
    "scheduler_active (save_current esp s) = scheduler_active s" by (simp_all add: sc frame_simps)
  show "tasks (save_current esp s) ! j = tasks s ! j" if "int j \<noteq> current s" for j
    using that cur_bound [OF inv] by (auto simp: sc upd_task_nth)
  show "t_name (tasks (save_current esp s) ! j) = t_name (tasks s ! j)" for j using st(3) by (simp add: sc upd_task_nth)
  show "state_of j s = TASK_READY \<Longrightarrow> state_of j (save_current esp s) = TASK_READY" for j
    using st(4) by (auto simp: sc upd_task_nth state_of_def)
  show "state_of j (save_current esp s) \<noteq> TASK_RUNNING" if j: "j < SCHED_MAX_TASKS" for j
  proof (cases "0 \<le> current s \<and> j = cur s")
    case True
    then show ?thesis using st(1) j inv unfolding sc state_of_def by (simp add: upd_task_nth sched_inv_def)
  next
    case False
    then have "int j \<noteq> current s" using cur_bound [OF inv] by (auto simp: cur_def)
    then show ?thesis using inv j by (auto simp: sc upd_task_nth state_of_def sched_inv_def cur_def)
  qed
qed

lemma switch_to_result:
  assumes inv: "sched_inv s" and nr: "\<And>j. j < SCHED_MAX_TASKS \<Longrightarrow> state_of j s \<noteq> TASK_RUNNING" and i: "i < SCHED_MAX_TASKS" "state_of i s = TASK_READY"
    and sw: "switch_to (int i) s = (e, s')"
  shows "sched_inv s'" "current s' = int i" "state_of i s' = TASK_RUNNING" "e = t_esp (tasks s ! i)" "tss_esp0 s' = t_esp0 (tasks s ! i)"
    "\<And>j. j \<noteq> i \<Longrightarrow> tasks s' ! j = tasks s ! j" "task_count s' = task_count s" "scheduler_active s' = scheduler_active s"
    "tasks s' ! i = (tasks s ! i)\<lparr>t_state := TASK_RUNNING\<rparr>"
    "cr3 s' = (let c = (if t_type (tasks s ! i) = TASK_V86 \<and> 0 \<le> t_v86_task_id (tasks s ! i) then v86_task_cr3 (t_v86_task_id (tasks s ! i)) (kern s) else 0)
       in if c = 0 then kpd (kern s) else c)"
proof -
  let ?s0 = "s\<lparr>current := int i\<rparr>" and ?g = "\<lambda>t. t\<lparr>t_state := TASK_RUNNING\<rparr>"
  let ?s1 = "upd_sched_task i ?g ?s0"
  have len: "i < length (tasks s)" using inv i by (simp add: sched_inv_def)
  have "sched_inv ?s0" using inv nr i(1) by (auto simp: sched_inv_def state_of_def states_def)
  then have inv1: "sched_inv ?s1" using i by (intro inv_upd_same) (simp_all add: state_of_def)
  obtain k c where s': "s' = ?s1\<lparr>kern := k, tss_esp0 := t_esp0 (tasks s ! i), cr3 := c\<rparr>" and e: "e = t_esp (tasks s ! i)"
    using sw len by (auto simp: switch_to_def Let_def set_state_def upd_task_nth)
  show "sched_inv s'" "current s' = int i" "state_of i s' = TASK_RUNNING" "e = t_esp (tasks s ! i)" "tss_esp0 s' = t_esp0 (tasks s ! i)"
    "task_count s' = task_count s" "scheduler_active s' = scheduler_active s" "tasks s' ! i = (tasks s ! i)\<lparr>t_state := TASK_RUNNING\<rparr>"
    using inv1 len by (simp_all add: s' e frame_simps state_of_def upd_task_nth)
  show "tasks s' ! j = tasks s ! j" if "j \<noteq> i" for j using that by (simp add: s' upd_task_nth)
  have "v86_task_cr3 t (v86_set_current x k) = v86_task_cr3 t k" for t x k by (simp add: v86_task_cr3_def valid_task_def v86_set_current_def)
  moreover have "vmm_kernel_pd_phys (v86_set_current x k) = kpd k" for x k by (simp add: vmm_kernel_pd_phys_def v86_set_current_def)
  ultimately show "cr3 s' = (let c = (if t_type (tasks s ! i) = TASK_V86 \<and> 0 \<le> t_v86_task_id (tasks s ! i) then v86_task_cr3 (t_v86_task_id (tasks s ! i)) (kern s) else 0)
       in if c = 0 then kpd (kern s) else c)"
    using sw len by (auto simp: switch_to_def Let_def set_state_def upd_task_nth frame_simps)
qed

lemma rr_scan_end: "0 < n \<Longrightarrow> rr_scan n P ts nx = (False, r) \<Longrightarrow> r = (nx + int n) mod 16"
proof (induction n arbitrary: nx)
  case (Suc n)
  have sh: "((nx + 1) mod 16 + int n) mod 16 = (nx + int (Suc n)) mod 16" by (simp add: mod_add_left_eq add.assoc)
  have r: "rr_scan n P ts ((nx + 1) mod 16) = (False, r)" using Suc.prems(2) by (auto simp: Let_def SCHED_MAX_TASKS_def split: if_splits)
  show ?case
  proof (cases "n = 0")
    case False
    then show ?thesis using Suc.IH [OF _ r] sh by simp
  qed (use r in simp)
qed simp

text \<open>The slot a cyclic search finds, by distance from the current one.\<close>

definition nearest :: "(nat \<Rightarrow> bool) \<Rightarrow> int \<Rightarrow> nat \<Rightarrow> bool" where
  "nearest P c i \<longleftrightarrow> i < SCHED_MAX_TASKS \<and> P i \<and> (\<forall>j < SCHED_MAX_TASKS. P j \<longrightarrow> dist c (int i) \<le> dist c (int j))"

lemma rr_scan_nearest:
  assumes "rr_scan SCHED_MAX_TASKS P ts c = (b, r)"
  shows "if b then 0 \<le> r \<and> nearest (\<lambda>i. P (ts ! i)) c (nat r) else \<forall>j < SCHED_MAX_TASKS. \<not> P (ts ! j)"
proof -
  have at: "nat ((c + int (dist c (int j))) mod 16) = j" "1 \<le> dist c (int j)" "dist c (int j) \<le> 16" if "j < SCHED_MAX_TASKS" for j
    using dist_at [of "int j" c] dist_range [of c "int j"] that by (simp_all add: SCHED_MAX_TASKS_def)
  note r = rr_scan_result [OF assms]
  show ?thesis
  proof (cases b)
    case True
    then obtain k where k: "1 \<le> k" "k \<le> 16" "r = (c + int k) mod 16" "P (ts ! nat r)"
        "\<forall>j. 1 \<le> j \<longrightarrow> j < k \<longrightarrow> \<not> P (ts ! nat ((c + int j) mod 16))" using r by (auto simp: SCHED_MAX_TASKS_def)
    have r16: "0 \<le> r" "r < 16" using k(3) by simp_all
    have "dist c r = k" using dist_unique [OF k(1,2)] k(3) by simp
    moreover have "k \<le> dist c (int j)" if "j < SCHED_MAX_TASKS" "P (ts ! j)" for j
      using at [OF that(1)] k(5) that(2) by (metis not_le)
    ultimately show ?thesis using True k(4) r16 by (simp add: nearest_def SCHED_MAX_TASKS_def nat_less_iff)
  next
    case False
    then have n: "\<forall>j. 1 \<le> j \<longrightarrow> j \<le> 16 \<longrightarrow> \<not> P (ts ! nat ((c + int j) mod 16))" using r by (simp add: SCHED_MAX_TASKS_def)
    have "\<not> P (ts ! j)" if "j < SCHED_MAX_TASKS" for j using n at [OF that] by metis
    then show ?thesis using False by simp
  qed
qed

lemma schedule_cases:
  assumes inv: "sched_inv s" and act: "scheduler_active s" "2 \<le> task_count s" and sch: "sched_schedule esp s = (e, s')"
  defines "s1 \<equiv> save_current esp s"
  obtains (switch) i where "nearest (\<lambda>j. is_ready (tasks s1 ! j) \<and> \<not> is_idle (tasks s1 ! j)) (current s) i" "switch_to (int i) s1 = (e, s')"
  | (stay) "\<forall>j < SCHED_MAX_TASKS. \<not> (is_ready (tasks s1 ! j) \<and> \<not> is_idle (tasks s1 ! j))" "0 \<le> current s" "is_ready (tasks s1 ! cur s1)"
      "e = esp" "s' = set_state (cur s1) TASK_RUNNING s1"
  | (idle) i where "\<forall>j < SCHED_MAX_TASKS. \<not> (is_ready (tasks s1 ! j) \<and> \<not> is_idle (tasks s1 ! j))"
      "\<not> (0 \<le> current s \<and> is_ready (tasks s1 ! cur s1))" "nearest (\<lambda>j. is_ready (tasks s1 ! j)) (current s) i" "switch_to (int i) s1 = (e, s')"
  | (none) "\<forall>j < SCHED_MAX_TASKS. \<not> is_ready (tasks s1 ! j)" "e = esp" "s' = s1"
proof -
  let ?P = "\<lambda>t. is_ready t \<and> \<not> is_idle t"
  have c: "current s1 = current s" using save_current_inv(2) [OF inv] by (simp add: s1_def)
  obtain b r where b: "rr_scan SCHED_MAX_TASKS ?P (tasks s1) (current s1) = (b, r)" by fastforce
  obtain b2 r2 where b2: "rr_scan SCHED_MAX_TASKS is_ready (tasks s1) (current s1) = (b2, r2)" by fastforce
  note n = rr_scan_nearest [OF b] and n2 = rr_scan_nearest [OF b2]
  let ?stay = "0 \<le> current s1 \<and> is_ready (tasks s1 ! cur s1)"
  have def: "(e, s') = (if \<not> b \<and> ?stay then (esp, set_state (cur s1) TASK_RUNNING s1)
      else let next2 = (if b then r else r2) in if \<not> is_ready (tasks s1 ! nat next2)
        then (esp, if ?stay then set_state (cur s1) TASK_RUNNING s1 else s1) else switch_to next2 s1)"
    using sch act unfolding sched_schedule_def Let_def s1_def [symmetric] b b2 prod.case snd_conv by simp
  show ?thesis
  proof (cases b)
    case True
    then have r: "0 \<le> r" "nearest (\<lambda>j. ?P (tasks s1 ! j)) (current s) (nat r)" using n c by auto
    then have "is_ready (tasks s1 ! nat r)" by (simp add: nearest_def)
    then show ?thesis using switch [OF r(2)] def True r(1) by simp
  next
    case nb: False
    then have no: "\<forall>j < SCHED_MAX_TASKS. \<not> ?P (tasks s1 ! j)" using n by simp
    show ?thesis
    proof (cases ?stay)
      case True
      then show ?thesis using stay [OF no] def nb c by simp
    next
      case ns: False
      show ?thesis
      proof (cases b2)
        case True
        then have r: "0 \<le> r2" "nearest (\<lambda>j. is_ready (tasks s1 ! j)) (current s) (nat r2)" using n2 c by auto
        then have "is_ready (tasks s1 ! nat r2)" by (simp add: nearest_def)
        then have "switch_to r2 s1 = (e, s')" using def nb ns by (auto simp: Let_def)
        then show ?thesis using idle [OF no _ r(2)] ns r(1) c by simp
      next
        case False
        then have no2: "\<forall>j < SCHED_MAX_TASKS. \<not> is_ready (tasks s1 ! j)" using n2 by simp
        have "r2 = (current s1 + 16) mod 16" using rr_scan_end [of SCHED_MAX_TASKS is_ready "tasks s1" "current s1" r2] b2 False by (simp add: SCHED_MAX_TASKS_def)
        then have "nat r2 < SCHED_MAX_TASKS" by (simp add: SCHED_MAX_TASKS_def nat_less_iff)
        then have "\<not> is_ready (tasks s1 ! nat r2)" using no2 by blast
        then show ?thesis using none [OF no2] def nb ns by (auto simp: Let_def)
      qed
    qed
  qed
qed

lemma schedule_inv:
  assumes inv: "sched_inv s" and sch: "sched_schedule esp s = (e, s')"
  shows "sched_inv s' \<and> task_count s' = task_count s \<and> scheduler_active s' = scheduler_active s"
proof (cases "scheduler_active s \<and> 2 \<le> task_count s")
  case False
  then have "sched_schedule esp s = (esp, s)" unfolding sched_schedule_def by (cases "scheduler_active s") simp_all
  then show ?thesis using sch inv by simp
next
  case True
  let ?s1 = "save_current esp s"
  note sv = save_current_inv [OF inv, where esp = esp]
  show ?thesis
    using inv conjunct1 [OF True] conjunct2 [OF True] sch
  proof (cases rule: schedule_cases)
    case (switch i)
    then have "i < SCHED_MAX_TASKS" "state_of i ?s1 = TASK_READY" by (simp_all add: nearest_def is_ready_def state_of_def)
    from switch_to_result [OF sv(1,6) this switch(2)] show ?thesis using sv by simp
  next
    case stay
    have "sched_inv (upd_sched_task (cur ?s1) (\<lambda>t. t\<lparr>t_state := TASK_RUNNING\<rparr>) ?s1)"
      using sv(1,2) stay(2,3) cur_bound [OF sv(1)] by (intro inv_upd_same) (simp_all add: is_ready_def state_of_def)
    then show ?thesis using stay(5) sv by (simp add: set_state_def frame_simps)
  next
    case (idle i)
    then have "i < SCHED_MAX_TASKS" "state_of i ?s1 = TASK_READY" by (simp_all add: nearest_def is_ready_def state_of_def)
    from switch_to_result [OF sv(1,6) this idle(4)] show ?thesis using sv by simp
  next
    case none
    then show ?thesis using sv by simp
  qed
qed

section \<open>Every history of the scheduler\<close>

text \<open>The calls of the running task and of interrupt handlers between two clock ticks.\<close>

inductive sched_call :: "sched \<Rightarrow> sched \<Rightarrow> bool" where
  c_kernel: "sched_call s (snd (sched_create_kernel_task nm start vt s))"
| c_v86: "sched_call s (snd (sched_create_v86_task_with_entry nm start vt s))"
| c_unblock: "sched_call s (sched_unblock reason d s)"
| c_block: "0 \<le> current s \<Longrightarrow> state_of (cur s) s = TASK_RUNNING \<Longrightarrow> sched_call s (mark_blocked reason d s)"
| c_exit: "0 \<le> current s \<Longrightarrow> state_of (cur s) s = TASK_RUNNING \<Longrightarrow> sched_call s (mark_dead s)"
| c_busy: "sched_call s (s\<lparr>dpmi_busy := b\<rparr>)"

inductive sched_step :: "sched \<Rightarrow> sched \<Rightarrow> bool" where
  s_call: "sched_call s s' \<Longrightarrow> sched_step s s'"
| s_exec: "sched_step s (snd (sched_create_v86_exec ent nm vt b a s))"
| s_tick: "sched_step s (snd (rtc_dispatch esp s))"
| s_start: "\<not> scheduler_active s \<Longrightarrow> sched_start s = Some (e, s') \<Longrightarrow> sched_step s s'"

definition sched_ok :: "sched \<Rightarrow> bool" where
  "sched_ok s \<longleftrightarrow> sched_inv s \<and> (\<not> scheduler_active s \<longrightarrow> current s = -1)"

lemma call_ok: "sched_call s s' \<Longrightarrow> sched_inv s \<Longrightarrow> sched_inv s' \<and> current s' = current s \<and> scheduler_active s' = scheduler_active s"
proof (induction rule: sched_call.induct)
  case (c_kernel s nm start vt)
  then show ?case using create_kernel_result [of s nm start vt] by (metis prod.collapse)
next
  case (c_v86 s nm start vt)
  then show ?case using create_v86_inv [of s nm start vt] by (metis prod.collapse)
next
  case (c_unblock s reason d)
  then show ?case by (simp add: unblock_inv) (simp add: sched_unblock_def)
next
  case (c_block s reason d)
  then show ?case using mark_blocked_inv [of s reason d] by (simp add: mark_blocked_def frame_simps)
next
  case (c_exit s)
  then show ?case using mark_dead_inv [of s] by (simp add: mark_dead_def set_state_def frame_simps)
qed simp

lemma exec_active: "scheduler_active (snd (sched_create_v86_exec ent nm vt b a s)) = scheduler_active s" if "sched_inv s"
proof -
  obtain i s1 where k: "sched_create_v86_task_with_entry nm ent vt s = (i, s1)" by fastforce
  then show ?thesis using create_v86_inv [OF that k] by (simp add: sched_create_v86_exec_def sched_create_v86_task_def frame_simps)
qed

lemma schedule_current: "sched_inv s \<Longrightarrow> current s = -1 \<Longrightarrow> \<not> scheduler_active s \<Longrightarrow> sched_schedule esp s = (esp, s)"
  by (simp add: sched_schedule_def)

lemma rtc_ok:
  assumes "sched_ok s"
  shows "sched_ok (snd (rtc_dispatch esp s))"
proof -
  have "sched_ok (snd (sched_schedule esp (s\<lparr>dpmi_busy_skips := 0\<rparr>)))"
  proof (cases "scheduler_active s")
    case True
    let ?s = "s\<lparr>dpmi_busy_skips := 0\<rparr>"
    obtain e s' where e: "sched_schedule esp ?s = (e, s')" by fastforce
    have "sched_inv ?s" using assms by (simp add: sched_ok_def)
    then show ?thesis using schedule_inv [OF _ e] True e by (simp add: sched_ok_def)
  next
    case False
    then show ?thesis using assms by (simp add: sched_schedule_def sched_ok_def)
  qed
  then show ?thesis using assms by (simp add: rtc_dispatch_def sched_ok_def)
qed

lemma start_ok:
  assumes "sched_ok s" "\<not> scheduler_active s" "sched_start s = Some (e, s')"
  shows "sched_ok s'"
proof (cases "task_count s = 0")
  case True
  then show ?thesis using assms by (simp add: sched_start_def)
next
  case False
  have inv: "sched_inv s" and c: "current s = -1" using assms by (auto simp: sched_ok_def)
  obtain i where i: "find_slot is_ready (tasks s) = Some i"
    using assms(3) False c by (cases "find_slot is_ready (tasks s)") (auto simp: sched_start_def Let_def)
  have ri: "i < SCHED_MAX_TASKS" "state_of i s = TASK_READY" using find_slot_SomeD [OF i] inv by (auto simp: is_ready_def state_of_def sched_inv_def)
  let ?s1 = "s\<lparr>scheduler_active := True, current := int i\<rparr>"
  have "sched_inv ?s1" using inv c ri by (auto simp: sched_inv_def state_of_def states_def)
  then have "sched_inv (upd_sched_task i (\<lambda>t. t\<lparr>t_state := TASK_RUNNING\<rparr>) ?s1)" using ri by (intro inv_upd_same) (simp_all add: state_of_def)
  moreover obtain e0 where "s' = (upd_sched_task i (\<lambda>t. t\<lparr>t_state := TASK_RUNNING\<rparr>) ?s1)\<lparr>tss_esp0 := e0\<rparr>"
    using assms(3) False i by (auto simp: sched_start_def Let_def set_state_def frame_simps)
  ultimately show ?thesis by (simp add: sched_ok_def frame_simps)
qed

lemma step_ok: "sched_step s s' \<Longrightarrow> sched_ok s \<Longrightarrow> sched_ok s'"
proof (induction rule: sched_step.induct)
  case (s_call s s')
  then show ?case using call_ok [of s s'] by (simp add: sched_ok_def)
next
  case (s_exec s ent nm vt b a)
  then show ?case using create_v86_exec_inv [of s ent nm vt b a] exec_active [of s ent nm vt b a] unfolding sched_ok_def by (metis prod.collapse)
next
  case (s_tick s esp)
  then show ?case by (rule rtc_ok)
next
  case (s_start s e s')
  then show ?case using start_ok by blast
qed


section \<open>Choice and waiting time\<close>

definition can_run :: "sched \<Rightarrow> nat \<Rightarrow> bool" where
  "can_run s j \<longleftrightarrow> state_of j s = TASK_READY \<and> \<not> is_idle (tasks s ! j)"

lemma can_run_alt: "can_run s = (\<lambda>j. is_ready (tasks s ! j) \<and> \<not> is_idle (tasks s ! j))"
  by (simp add: can_run_def is_ready_def state_of_def fun_eq_iff)

text \<open>
  C25. A tick switches to the nearest ready task behind the current one, going round the table, and to an idle task only when no other is
  ready and the current task cannot go on: the chosen task becomes the current one and runs on with its saved stack pointer, its own
  kernel stack in the TSS and its own page directory (the kernel's for kernel tasks). When nothing else is ready, a current task that can
  go on keeps the processor, and without any ready task nothing is switched.
\<close>
theorem sched_round_robin:
  assumes inv: "sched_inv s" and act: "scheduler_active s" "2 \<le> task_count s" and sch: "sched_schedule esp s = (e, s')"
  shows "let s1 = save_current esp s;
       runs = (\<lambda>i. current s' = int i \<and> state_of i s' = TASK_RUNNING \<and> e = t_esp (tasks s1 ! i) \<and> tss_esp0 s' = t_esp0 (tasks s1 ! i) \<and>
         cr3 s' = (let t = tasks s1 ! i; c = (if t_type t = TASK_V86 \<and> 0 \<le> t_v86_task_id t then v86_task_cr3 (t_v86_task_id t) (kern s1) else 0)
                   in if c = 0 then kpd (kern s1) else c))
     in if \<exists>j < SCHED_MAX_TASKS. can_run s1 j then \<exists>i. nearest (can_run s1) (current s) i \<and> runs i
        else if 0 \<le> current s \<and> state_of (cur s) s1 = TASK_READY then e = esp \<and> current s' = current s \<and> state_of (cur s) s' = TASK_RUNNING
        else if \<exists>j < SCHED_MAX_TASKS. state_of j s1 = TASK_READY then \<exists>i. nearest (\<lambda>j. state_of j s1 = TASK_READY) (current s) i \<and> runs i
        else e = esp \<and> s' = s1"
proof -
  let ?s1 = "save_current esp s"
  note sv = save_current_inv [OF inv, where esp = esp]
  have cu: "cur ?s1 = cur s" by (simp add: cur_def sv)
  have rd: "(\<lambda>j. is_ready (tasks ?s1 ! j)) = (\<lambda>j. state_of j ?s1 = TASK_READY)" by (simp add: is_ready_def state_of_def fun_eq_iff)
  have sw: "current s' = int i \<and> state_of i s' = TASK_RUNNING \<and> e = t_esp (tasks ?s1 ! i) \<and> tss_esp0 s' = t_esp0 (tasks ?s1 ! i) \<and>
      cr3 s' = (let t = tasks ?s1 ! i; c = (if t_type t = TASK_V86 \<and> 0 \<le> t_v86_task_id t then v86_task_cr3 (t_v86_task_id t) (kern ?s1) else 0)
                in if c = 0 then kpd (kern ?s1) else c)"
    if "i < SCHED_MAX_TASKS" "state_of i ?s1 = TASK_READY" "switch_to (int i) ?s1 = (e, s')" for i
    using switch_to_result [OF sv(1,6) that] by (simp add: Let_def)
  show ?thesis
    using inv act sch
  proof (cases rule: schedule_cases)
    case (switch i)
    then have i: "nearest (can_run ?s1) (current s) i" "i < SCHED_MAX_TASKS" "can_run ?s1 i" by (auto simp: can_run_alt nearest_def)
    then have "state_of i ?s1 = TASK_READY" by (simp add: can_run_def)
    from sw [OF i(2) this switch(2)] show ?thesis using i unfolding Let_def by auto
  next
    case stay
    then have "\<not> (\<exists>j < SCHED_MAX_TASKS. can_run ?s1 j)" by (auto simp: can_run_alt)
    moreover have "cur s < length (tasks ?s1)" "state_of (cur s) ?s1 = TASK_READY"
      using stay(2,3) cur_bound [OF inv] sv(1) by (simp_all add: sched_inv_def is_ready_def state_of_def cu)
    moreover have "current s' = current s" "state_of (cur s) s' = TASK_RUNNING"
      using stay(5) \<open>cur s < length (tasks ?s1)\<close> by (simp_all add: set_state_def frame_simps sv cu state_of_def upd_task_nth)
    ultimately show ?thesis using stay(2,4) unfolding Let_def by auto
  next
    case (idle i)
    then have n: "\<not> (\<exists>j < SCHED_MAX_TASKS. can_run ?s1 j)" by (auto simp: can_run_alt)
    have i: "nearest (\<lambda>j. state_of j ?s1 = TASK_READY) (current s) i" using idle(3) unfolding rd .
    then have j: "i < SCHED_MAX_TASKS" "state_of i ?s1 = TASK_READY" by (auto simp: nearest_def)
    have "\<not> (0 \<le> current s \<and> state_of (cur s) ?s1 = TASK_READY)" using idle(2) by (simp add: is_ready_def state_of_def cu)
    with sw [OF j idle(4)] n i j show ?thesis unfolding Let_def by auto
  next
    case none
    then have a: "\<not> (\<exists>j < SCHED_MAX_TASKS. can_run ?s1 j)" "\<not> (\<exists>j < SCHED_MAX_TASKS. state_of j ?s1 = TASK_READY)"
      by (auto simp: can_run_def is_ready_def state_of_def)
    moreover have "\<not> (0 \<le> current s \<and> state_of (cur s) ?s1 = TASK_READY)" using a(2) cur_bound [OF inv] by blast
    ultimately show ?thesis using none unfolding Let_def by auto
  qed
qed

text \<open>A task that waits is not touched by the calls of others.\<close>

definition waiting :: "nat \<Rightarrow> sched \<Rightarrow> bool" where
  "waiting t s \<longleftrightarrow> sched_inv s \<and> scheduler_active s \<and> t < SCHED_MAX_TASKS \<and> can_run s t"

lemma call_task:
  assumes "sched_call s s'" "waiting t s"
  shows "tasks s' ! t = tasks s ! t"
  using assms
proof (induction rule: sched_call.induct)
  case (c_kernel s nm start vt)
  obtain r s' where k: "sched_create_kernel_task nm start vt s = (r, s')" by fastforce
  have inv: "sched_inv s" and t: "state_of t s \<noteq> TASK_UNUSED" using c_kernel by (simp_all add: waiting_def can_run_def)
  have "tasks s' ! t = tasks s ! t"
  proof (cases "r = -1")
    case False
    then obtain i where "state_of i s = TASK_UNUSED" "\<forall>j. j \<noteq> i \<longrightarrow> tasks s' ! j = tasks s ! j"
      using create_kernel_result [OF inv k] by auto
    then show ?thesis using t by metis
  qed (use create_kernel_result [OF inv k] in simp)
  then show ?case using k by simp
next
  case (c_v86 s nm start vt)
  obtain r s' where k: "sched_create_v86_task_with_entry nm start vt s = (r, s')" by fastforce
  then show ?case using c_v86 create_v86_inv [OF _ k] by (simp add: waiting_def can_run_def)
next
  case (c_unblock s reason d)
  then have "t < length (tasks s)" "t_state (tasks s ! t) = TASK_READY" by (simp_all add: waiting_def can_run_def state_of_def sched_inv_def)
  then show ?case by (simp add: sched_unblock_def)
next
  case (c_block s reason d)
  then have "t \<noteq> cur s" by (auto simp: waiting_def can_run_def)
  then show ?case by (simp add: mark_blocked_def upd_task_nth)
next
  case (c_exit s)
  then have "t \<noteq> cur s" by (auto simp: waiting_def can_run_def)
  then show ?case by (simp add: mark_dead_def set_state_def upd_task_nth)
qed simp

lemma call_waiting: "sched_call s s' \<Longrightarrow> waiting t s \<Longrightarrow> waiting t s' \<and> current s' = current s"
  using call_ok [of s s'] call_task [of s s' t] by (simp add: waiting_def can_run_def state_of_def)

lemma calls_waiting: "sched_call\<^sup>*\<^sup>* s s' \<Longrightarrow> waiting t s \<Longrightarrow> waiting t s' \<and> current s' = current s"
  by (induction rule: rtranclp_induct) (use call_waiting in fastforce)+

lemma schedule_progress:
  assumes w: "waiting t s" and c: "2 \<le> task_count s" and sch: "sched_schedule esp s = (e, s')"
  shows "current s' = int t \<and> state_of t s' = TASK_RUNNING \<or>
    waiting t s' \<and> dist (current s') (int t) < dist (current s) (int t)"
proof -
  let ?s1 = "save_current esp s"
  have inv: "sched_inv s" and act: "scheduler_active s" and t: "t < SCHED_MAX_TASKS" "can_run s t" using w by (auto simp: waiting_def)
  note sv = save_current_inv [OF inv, where esp = esp]
  have t1: "can_run ?s1 t" using t sv(7,8) by (simp add: can_run_def is_idle_def)
  have ex: "is_ready (tasks ?s1 ! t) \<and> \<not> is_idle (tasks ?s1 ! t)" using t1 by (simp add: can_run_alt)
  show ?thesis
    using inv act c sch
  proof (cases rule: schedule_cases)
    case (switch i)
    then have i: "i < SCHED_MAX_TASKS" "state_of i ?s1 = TASK_READY" "dist (current s) (int i) \<le> dist (current s) (int t)"
      using t(1) ex by (auto simp: nearest_def is_ready_def state_of_def)
    note r = switch_to_result [OF sv(1,6) i(1,2) switch(2)]
    show ?thesis
    proof (cases "i = t")
      case True
      then show ?thesis using r(2,3) by simp
    next
      case False
      have "dist (current s) (int i) \<noteq> dist (current s) (int t)"
        using dist_at [of "int i" "current s"] dist_at [of "int t" "current s"] i(1) t(1) False by (auto simp: SCHED_MAX_TASKS_def)
      then have lt: "dist (current s) (int i) < dist (current s) (int t)" using i(3) by simp
      have "dist (int i) (int t) = dist (current s) (int t) - dist (current s) (int i)"
        by (rule dist_sub [OF lt]) (use i(1) t(1) in \<open>simp_all add: SCHED_MAX_TASKS_def\<close>)
      moreover have "1 \<le> dist (current s) (int i)" using dist_range by blast
      moreover have "waiting t s'" using r(1,8) r(6) [of t] False t1 t(1) act sv(4)
        by (simp add: waiting_def can_run_def state_of_def)
      ultimately show ?thesis using r(2) lt by simp
    qed
  next
    case stay
    then show ?thesis using ex t(1) by blast
  next
    case (idle i)
    then show ?thesis using ex t(1) by blast
  next
    case none
    then show ?thesis using ex t(1) by blast
  qed
qed

text \<open>
  C4. No ready task starves: a task other than an idle task that is ready runs after at most 16 scheduling ticks, whatever calls (task
  creation, blocking, exit of the running tasks, wake-ups) happen between the ticks, as long as at least two tasks exist at each tick.
\<close>
theorem sched_bounded_waiting:
  assumes "waiting t (s 0)"
    and "\<And>n. sched_call\<^sup>*\<^sup>* (s n) (u n) \<and> 2 \<le> task_count (u n) \<and> s (Suc n) = snd (sched_schedule (esp n) (u n))"
  shows "\<exists>n \<le> 16. current (s n) = int t \<and> state_of t (s n) = TASK_RUNNING"
proof -
  have P: "(\<exists>m \<le> n. current (s m) = int t \<and> state_of t (s m) = TASK_RUNNING) \<or>
      waiting t (s n) \<and> dist (current (s n)) (int t) + n \<le> 16" for n
  proof (induction n)
    case 0
    then show ?case using assms(1) dist_range [of "current (s 0)" "int t"] by simp
  next
    case (Suc n)
    show ?case
    proof (cases "\<exists>m \<le> n. current (s m) = int t \<and> state_of t (s m) = TASK_RUNNING")
      case True
      then show ?thesis using le_Suc_eq by blast
    next
      case False
      then have w: "waiting t (s n)" "dist (current (s n)) (int t) + n \<le> 16" using Suc by auto
      obtain e s' where e: "sched_schedule (esp n) (u n) = (e, s')" by fastforce
      have h: "sched_call\<^sup>*\<^sup>* (s n) (u n)" "2 \<le> task_count (u n)" "s (Suc n) = snd (sched_schedule (esp n) (u n))"
        using assms(2) [of n] by blast+
      note u = calls_waiting [OF h(1) w(1), THEN conjunct1] calls_waiting [OF h(1) w(1), THEN conjunct2]
      have "s (Suc n) = s'" using h(3) e by simp
      then consider "current (s (Suc n)) = int t" "state_of t (s (Suc n)) = TASK_RUNNING" |
          "waiting t (s (Suc n))" "dist (current (s (Suc n))) (int t) < dist (current (s n)) (int t)"
        using schedule_progress [OF u(1) h(2) e] u(2) by metis
      then show ?thesis
      proof cases
        case 1
        then show ?thesis by blast
      next
        case 2
        then show ?thesis using w(2) by simp
      qed
    qed
  qed
  show ?thesis
  proof (rule ccontr)
    assume "\<not> ?thesis"
    then have "dist (current (s 16)) (int t) + 16 \<le> 16" using P [of 16] by blast
    then show False using dist_range [of "current (s 16)" "int t"] by linarith
  qed
qed


section \<open>Examples\<close>

definition blank_task :: task where
  "blank_task = \<lparr>t_esp = 0, t_esp0 = 0, t_state = TASK_UNUSED, t_type = TASK_KERNEL, t_vt = -1, t_name = [], t_block_reason = BLOCK_NONE,
     t_block_data = 0, t_v86_task_id = -1, t_dos_task_id = -1, t_exec_binary = [], t_exec_args = [], t_fat_drive = 2, t_stack_page = 0\<rparr>"

definition bare_kernel :: kernel where
  "bare_kernel = \<lparr>frames = pmm_init 0, pmem = (\<lambda>_. 0), kpd = 0x100000, kpt = 0x101000, v86_tasks = [], current_v86 = -1, dos_tasks = [],
     fat = fat_init \<lparr>sectors = \<lambda>_ _. [], rd_err = \<lambda>_ _. True, wr_err = \<lambda>_ _. True\<rparr> [], v86mt_vts = (\<lambda>_ _. None)\<rparr>"

text \<open>An idle task, a running task and a ready one.\<close>

definition example_sched :: sched where
  "example_sched = \<lparr>kern = bare_kernel,
     tasks = [blank_task\<lparr>t_state := TASK_READY, t_name := [0x69, 0x64, 0x6C, 0x65]\<rparr>, blank_task\<lparr>t_state := TASK_RUNNING, t_name := [0x61]\<rparr>,
       blank_task\<lparr>t_state := TASK_READY, t_name := [0x62], t_esp := 0x5000\<rparr>] @ replicate 13 blank_task,
     current = 1, task_count = 3, scheduler_active = True, tss_esp0 = 0, cr3 = 0x100000, dpmi_busy = False, dpmi_busy_skips = 0\<rparr>"

lemma example_sched_inv: "sched_inv example_sched"
proof -
  have "\<forall>i \<in> set [0..<16]. state_of i example_sched = TASK_RUNNING \<longrightarrow> int i = 1" by code_simp
  then have "\<forall>i < SCHED_MAX_TASKS. state_of i example_sched = TASK_RUNNING \<longrightarrow> int i = 1" unfolding set_upt by (simp add: SCHED_MAX_TASKS_def)
  moreover have "int (length (filter alive (states example_sched))) = 3" by code_simp
  ultimately show ?thesis by (simp add: sched_inv_def) (simp add: example_sched_def SCHED_MAX_TASKS_def)
qed


theorem sched_round_robin_witness:
  "fst (sched_schedule 0x7000 example_sched) = 0x5000 \<and> current (snd (sched_schedule 0x7000 example_sched)) = 2 \<and>
   (\<exists>i. nearest (can_run (save_current 0x7000 example_sched)) 1 i)"
proof -
  have a: "scheduler_active example_sched" "2 \<le> task_count example_sched" "current example_sched = 1" by (simp_all add: example_sched_def)
  have "can_run (save_current 0x7000 example_sched) 2" by code_simp
  then have "\<exists>j < SCHED_MAX_TASKS. can_run (save_current 0x7000 example_sched) j" by (intro exI [of _ 2]) (simp add: SCHED_MAX_TASKS_def)
  moreover obtain e s' where e: "sched_schedule 0x7000 example_sched = (e, s')" by fastforce
  ultimately have "\<exists>i. nearest (can_run (save_current 0x7000 example_sched)) 1 i"
    using sched_round_robin [OF example_sched_inv a(1,2) e] a(3) unfolding Let_def by auto
  moreover have "fst (sched_schedule 0x7000 example_sched) = 0x5000" "current (snd (sched_schedule 0x7000 example_sched)) = 2" by code_simp+
  ultimately show ?thesis by blast
qed

theorem sched_bounded_waiting_witness:
  "\<exists>n \<le> 16. current (((\<lambda>x. snd (sched_schedule 0x7000 x)) ^^ n) example_sched) = 2"
proof -
  define s where "s n = ((\<lambda>x. snd (sched_schedule 0x7000 x)) ^^ n) example_sched" for n
  have i: "sched_inv (s n) \<and> task_count (s n) = 3" for n
  proof (induction n)
    case 0
    then show ?case using example_sched_inv by (simp add: s_def) (simp add: example_sched_def)
  next
    case (Suc n)
    obtain e x where e: "sched_schedule 0x7000 (s n) = (e, x)" by fastforce
    then have "s (Suc n) = x" by (simp add: s_def)
    then show ?case using schedule_inv [OF _ e] Suc by simp
  qed
  have "waiting 2 (s 0)"
  proof -
    have "can_run example_sched 2" "scheduler_active example_sched" by code_simp+
    then show ?thesis using example_sched_inv by (simp add: s_def waiting_def SCHED_MAX_TASKS_def)
  qed
  moreover have "sched_call\<^sup>*\<^sup>* (s n) (s n) \<and> 2 \<le> task_count (s n) \<and> s (Suc n) = snd (sched_schedule 0x7000 (s n))" for n
    using i [of n] by (simp add: s_def)
  ultimately have "\<exists>n \<le> 16. current (s n) = int 2 \<and> state_of 2 (s n) = TASK_RUNNING" by (rule sched_bounded_waiting)
  then show ?thesis by (auto simp: s_def)
qed

end
