(* ===== verification/Irq.thy ===== *)
theory Irq
  imports Prelude "HOL-Library.Multiset"
begin

text \<open>
  Interrupt lines: the interrupt controllers (src/src/kernel/pic.c), the handler chains modules register
  (src/src/kernel/irq.c) and the table of vectors they hook into (\<open>isr_register\<close> of src/src/kernel/idt.c), and the
  registry of module-supplied disks (src/src/kernel/int13.c). Handlers and contexts are addresses, 0 is the null pointer; what a handler
  does is a parameter.
\<close>

section \<open>The controllers\<close>

text \<open>
  The two mask registers, and the writes to the command and data ports, newest first (the delays of
  \<^verbatim>\<open>io_wait\<close> between the initialisation words are left out).
\<close>

record pic =
  pic1_mask :: u8
  pic2_mask :: u8
  outs :: "(u16 \<times> u8) list"

definition PIC1_CMD :: u16 where "PIC1_CMD = 0x20"
definition PIC1_DATA :: u16 where "PIC1_DATA = 0x21"
definition PIC2_CMD :: u16 where "PIC2_CMD = 0xA0"
definition PIC2_DATA :: u16 where "PIC2_DATA = 0xA1"

definition outb :: "u16 \<Rightarrow> u8 \<Rightarrow> pic \<Rightarrow> pic" where
  "outb port v p = p\<lparr>outs := (port, v) # outs p\<rparr>"

definition pic_init :: "pic \<Rightarrow> pic" where
  "pic_init p = fold (\<lambda>(port, v). outb port v)
     [(PIC1_CMD, 0x11), (PIC2_CMD, 0x11), (PIC1_DATA, 32), (PIC2_DATA, 40), (PIC1_DATA, 0x04), (PIC2_DATA, 0x02),
      (PIC1_DATA, 0x01), (PIC2_DATA, 0x01), (PIC1_DATA, pic1_mask p), (PIC2_DATA, pic2_mask p)] p"

definition pic_eoi :: "nat \<Rightarrow> pic \<Rightarrow> pic" where
  "pic_eoi irq p = outb PIC1_CMD 0x20 (if irq \<ge> 8 then outb PIC2_CMD 0x20 p else p)"

definition pic_mask :: "nat \<Rightarrow> pic \<Rightarrow> pic" where
  "pic_mask irq p =
     (if irq < 8 then let v = pic1_mask p OR push_bit irq 1 in outb PIC1_DATA v (p\<lparr>pic1_mask := v\<rparr>)
      else let v = pic2_mask p OR push_bit (irq - 8) 1 in outb PIC2_DATA v (p\<lparr>pic2_mask := v\<rparr>))"

definition pic_unmask :: "nat \<Rightarrow> pic \<Rightarrow> pic" where
  "pic_unmask irq p =
     (if irq < 8 then let v = pic1_mask p AND NOT (push_bit irq 1) in outb PIC1_DATA v (p\<lparr>pic1_mask := v\<rparr>)
      else let v = pic2_mask p AND NOT (push_bit (irq - 8) 1) in outb PIC2_DATA v (p\<lparr>pic2_mask := v\<rparr>))"

definition masked :: "nat \<Rightarrow> pic \<Rightarrow> bool" where
  "masked irq p = (if irq < 8 then bit (pic1_mask p) irq else bit (pic2_mask p) (irq - 8))"

section \<open>Handler chains\<close>

definition IRQ_LINES :: nat where "IRQ_LINES = 16"
definition HANDLERS_PER_IRQ :: nat where "HANDLERS_PER_IRQ = 8"

datatype isr = No_handler | Direct u32 | Shim nat

record irq_state =
  ctl :: pic
  irq_chain :: "(u32 \<times> u32) list list"
  irq_chain_installed :: "bool list"
  isr_table :: "nat \<Rightarrow> isr"

definition irq_to_vector :: "nat \<Rightarrow> nat" where "irq_to_vector irq = 0x20 + irq"

definition isr_register :: "nat \<Rightarrow> isr \<Rightarrow> irq_state \<Rightarrow> irq_state" where
  "isr_register num h s = s\<lparr>isr_table := (isr_table s)(num := h)\<rparr>"

definition irq_shim :: "(u32 \<Rightarrow> u32 \<Rightarrow> irq_state \<Rightarrow> irq_state) \<Rightarrow> nat \<Rightarrow> irq_state \<Rightarrow> irq_state" where
  "irq_shim run n s =
     (let s1 = fold (\<lambda>i s. case irq_chain s ! n ! i of (fn, ctx) \<Rightarrow> if fn \<noteq> 0 then run fn ctx s else s) [0..<HANDLERS_PER_IRQ] s
      in s1\<lparr>ctl := pic_eoi n (ctl s1)\<rparr>)"

definition set_slot :: "nat \<Rightarrow> nat \<Rightarrow> u32 \<times> u32 \<Rightarrow> irq_state \<Rightarrow> irq_state" where
  "set_slot irq i e s = s\<lparr>irq_chain := (irq_chain s)[irq := (irq_chain s ! irq)[i := e]]\<rparr>"

definition kernel_line :: "nat \<Rightarrow> bool" where
  "kernel_line irq \<longleftrightarrow> irq = 0 \<or> irq = 1 \<or> irq = 2 \<or> irq = 8 \<or> irq = 12"

definition irq_register :: "nat \<Rightarrow> u32 \<Rightarrow> u32 \<Rightarrow> irq_state \<Rightarrow> int \<times> irq_state" where
  "irq_register irq handler ctx s =
     (if irq \<ge> IRQ_LINES \<or> handler = 0 then (-1, s)
      else case find_slot (\<lambda>e. fst e = 0) (irq_chain s ! irq) of
        None \<Rightarrow> (-1, s)
      | Some i \<Rightarrow>
          let s1 = set_slot irq i (handler, ctx) s
          in if \<not> irq_chain_installed s ! irq then
               (if kernel_line irq then (-1, set_slot irq i (0, 0) s1)
                else let s2 = isr_register (irq_to_vector irq) (Shim irq) s1
                     in (0, s2\<lparr>irq_chain_installed := (irq_chain_installed s2)[irq := True], ctl := pic_unmask irq (ctl s2)\<rparr>))
             else (0, s1))"

definition irq_unregister :: "nat \<Rightarrow> u32 \<Rightarrow> irq_state \<Rightarrow> int \<times> irq_state" where
  "irq_unregister irq handler s =
     (if irq \<ge> IRQ_LINES \<or> handler = 0 then (-1, s)
      else let chain = irq_chain s ! irq;
               removed = length (filter (\<lambda>e. fst e = handler) chain);
               chain1 = map (\<lambda>e. if fst e = handler then (0, 0) else e) chain;
               remaining = length (filter (\<lambda>e. fst e \<noteq> 0) chain1);
               s1 = s\<lparr>irq_chain := (irq_chain s)[irq := chain1]\<rparr>;
               s2 = (if irq_chain_installed s1 ! irq \<and> remaining = 0 then s1\<lparr>ctl := pic_mask irq (ctl s1)\<rparr> else s1)
           in (if removed > 0 then 0 else -1, s2))"

definition irq_eoi :: "nat \<Rightarrow> irq_state \<Rightarrow> irq_state" where
  "irq_eoi irq s = (if irq < IRQ_LINES then s\<lparr>ctl := pic_eoi irq (ctl s)\<rparr> else s)"

definition irq_mask :: "nat \<Rightarrow> irq_state \<Rightarrow> irq_state" where
  "irq_mask irq s = (if irq < IRQ_LINES then s\<lparr>ctl := pic_mask irq (ctl s)\<rparr> else s)"

definition irq_unmask :: "nat \<Rightarrow> irq_state \<Rightarrow> irq_state" where
  "irq_unmask irq s = (if irq < IRQ_LINES then s\<lparr>ctl := pic_unmask irq (ctl s)\<rparr> else s)"


section \<open>The descriptor table\<close>

record idt_entry =
  offset_lo :: u16
  selector :: u16
  zero :: u8
  flags :: u8
  offset_hi :: u16

text \<open>The gates, and the table of C handlers (the \<open>isr_table\<close> above) that initialisation clears.\<close>

record idt_state =
  idt :: "idt_entry list"
  handlers :: "nat \<Rightarrow> isr"

definition idt_set_gate :: "u8 \<Rightarrow> u32 \<Rightarrow> u16 \<Rightarrow> u8 \<Rightarrow> idt_state \<Rightarrow> idt_state" where
  "idt_set_gate num h sel f s = s\<lparr>idt := (idt s)[unat num :=
     \<lparr>offset_lo = ucast (h AND 0xFFFF), selector = sel, zero = 0, flags = f, offset_hi = ucast (drop_bit 16 h AND 0xFFFF)\<rparr>]\<rparr>"

definition idt_set_gate_dpl3 :: "u8 \<Rightarrow> idt_state \<Rightarrow> idt_state" where
  "idt_set_gate_dpl3 num s =
     (let e = idt s ! unat num
      in if flags e \<noteq> 0 then s\<lparr>idt := (idt s)[unat num := e\<lparr>flags := flags e OR 0x60\<rparr>]\<rparr> else s)"

definition IDT_GATE_INT :: u8 where "IDT_GATE_INT = 0x8E"

text \<open>\<open>stubs\<close> are the addresses of the assembly entry points.\<close>

definition idt_init :: "u32 list \<Rightarrow> idt_state \<Rightarrow> idt_state" where
  "idt_init stubs s =
     fold (\<lambda>i. idt_set_gate (of_nat i) (stubs ! i) 0x08 IDT_GATE_INT) [0..<48]
       (s\<lparr>idt := replicate 256 \<lparr>offset_lo = 0, selector = 0, zero = 0, flags = 0, offset_hi = 0\<rparr>,
          handlers := (\<lambda>n. No_handler)\<rparr>)"

definition gate_offset :: "idt_entry \<Rightarrow> u32" where
  "gate_offset e = ucast (offset_lo e) OR push_bit 16 (ucast (offset_hi e))"

section \<open>The registry of module disks\<close>

definition INT13H_FIRST_DRIVE :: nat where "INT13H_FIRST_DRIVE = 0x80"
definition INT13H_MAX_DRIVES :: nat where "INT13H_MAX_DRIVES = 8"

record int13h_registration =
  ops :: u32
  ctx :: u32
  lun :: u8
  drive_no :: u8
  present :: bool

definition no_registration :: int13h_registration where
  "no_registration = \<lparr>ops = 0, ctx = 0, lun = 0, drive_no = 0, present = False\<rparr>"

definition int13h_register_disk :: "u32 \<Rightarrow> u32 \<Rightarrow> u8 \<Rightarrow> int13h_registration list \<Rightarrow> int \<times> int13h_registration list" where
  "int13h_register_disk o1 c l t =
     (if o1 = 0 then (-1, t)
      else case find_slot (\<lambda>e. \<not> present e) t of
        None \<Rightarrow> (-1, t)
      | Some i \<Rightarrow>
          let d = of_nat (INT13H_FIRST_DRIVE + i)
          in (uint d, t[i := \<lparr>ops = o1, ctx = c, lun = l, drive_no = d, present = True\<rparr>]))"

definition int13h_unregister_disk :: "u32 \<Rightarrow> int13h_registration list \<Rightarrow> int \<times> int13h_registration list" where
  "int13h_unregister_disk o1 t =
     (case find_slot (\<lambda>e. present e \<and> ops e = o1) t of
        None \<Rightarrow> (-1, t)
      | Some i \<Rightarrow> (0, t[i := no_registration]))"

definition int13h_lookup :: "u8 \<Rightarrow> int13h_registration list \<Rightarrow> int13h_registration option" where
  "int13h_lookup d t =
     (let idx = uint d - int INT13H_FIRST_DRIVE
      in if idx < 0 \<or> idx \<ge> int INT13H_MAX_DRIVES then None
         else if \<not> present (t ! nat idx) then None
         else Some (t ! nat idx))"

section \<open>Gates\<close>

lemma halves_u32: "ucast (ucast (h AND 0xFFFF) :: u16) OR push_bit 16 (ucast (ucast (drop_bit 16 h AND 0xFFFF) :: u16)) = (h :: u32)"
proof -
  have m: "(0xFFFF :: u32) = mask 16" by (simp add: mask_eq_exp_minus_1)
  show ?thesis unfolding m
  proof (rule bit_word_eqI)
    fix n assume "n < LENGTH(32)"
    then show "bit (ucast (ucast (h AND mask 16) :: u16) OR push_bit 16 (ucast (ucast (drop_bit 16 h AND mask 16) :: u16)) :: u32) n = bit h n"
      by (cases "n < 16") (auto simp: bit_simps simp del: mask_numeral)
  qed
qed

lemma idt_set_gate_at:
  "length (idt s) = 256 \<Longrightarrow> n < 256 \<Longrightarrow>
     idt (idt_set_gate num h sel f s) ! n =
       (if n = unat num then \<lparr>offset_lo = ucast (h AND 0xFFFF), selector = sel, zero = 0, flags = f,
          offset_hi = ucast (drop_bit 16 h AND 0xFFFF)\<rparr> else idt s ! n)"
  by (simp add: idt_set_gate_def nth_list_update)

lemma idt_init_prefix:
  "k \<le> 48 \<Longrightarrow> length (idt s) = 256 \<Longrightarrow> n < 256 \<Longrightarrow>
     length (idt (fold (\<lambda>i. idt_set_gate (of_nat i) (stubs ! i) 0x08 f) [0..<k] s)) = 256 \<and>
     idt (fold (\<lambda>i. idt_set_gate (of_nat i) (stubs ! i) 0x08 f) [0..<k] s) ! n =
       (if n < k then idt (idt_set_gate (of_nat n) (stubs ! n) 0x08 f s) ! n else idt s ! n)"
proof (induction k)
  case 0
  then show ?case by simp
next
  case (Suc k)
  have "unat (of_nat k :: u8) = k" using Suc.prems by (intro unat_of_nat_small) simp
  moreover have "unat (of_nat n :: u8) = n" using Suc.prems by (intro unat_of_nat_small) simp
  moreover have "length (idt (idt_set_gate num h sel g u)) = length (idt u)" for num h sel g u by (simp add: idt_set_gate_def)
  ultimately show ?case using Suc by (auto simp: idt_set_gate_at less_Suc_eq)
qed

text \<open>
  After initialisation the 48 vectors of the processor and the controllers enter their stubs through present kernel
  interrupt gates, and every other gate is absent.
\<close>

lemma idt_init_gates:
  assumes "n < 256"
  shows "n < 48 \<Longrightarrow> gate_offset (idt (idt_init stubs s) ! n) = stubs ! n \<and> selector (idt (idt_init stubs s) ! n) = 8 \<and>
      flags (idt (idt_init stubs s) ! n) = 0x8E"
    and "\<not> n < 48 \<Longrightarrow> flags (idt (idt_init stubs s) ! n) = 0"
proof -
  have n: "unat (of_nat n :: u8) = n" using assms by (intro unat_of_nat_small) simp
  define s0 where "s0 = s\<lparr>idt := replicate 256 \<lparr>offset_lo = 0, selector = 0, zero = 0, flags = 0, offset_hi = 0\<rparr>,
          handlers := (\<lambda>n. No_handler)\<rparr>"
  have s0: "length (idt s0) = 256" "flags (idt s0 ! n) = 0" using assms by (simp_all add: s0_def)
  have "idt_init stubs s = fold (\<lambda>i. idt_set_gate (of_nat i) (stubs ! i) 0x08 IDT_GATE_INT) [0..<48] s0"
    unfolding idt_init_def s0_def ..
  then have e: "idt (idt_init stubs s) ! n = (if n < 48 then idt (idt_set_gate (of_nat n) (stubs ! n) 0x08 IDT_GATE_INT s0) ! n else idt s0 ! n)"
    using conjunct2 [OF idt_init_prefix [OF order_refl s0(1) assms, of stubs IDT_GATE_INT]] by (simp only:)
  then show "n < 48 \<Longrightarrow> gate_offset (idt (idt_init stubs s) ! n) = stubs ! n \<and> selector (idt (idt_init stubs s) ! n) = 8 \<and>
      flags (idt (idt_init stubs s) ! n) = 0x8E" "\<not> n < 48 \<Longrightarrow> flags (idt (idt_init stubs s) ! n) = 0"
    using s0 assms n halves_u32 [of "stubs ! n"] by (auto simp: idt_set_gate_at gate_offset_def IDT_GATE_INT_def)
qed

section \<open>Lemmas on masks and chains\<close>

lemma bit_push_1_u8: "n < 8 \<Longrightarrow> bit (push_bit n 1 :: u8) m \<longleftrightarrow> m = n"
  by (auto simp: bit_push_bit_iff bit_1_iff simp del: push_bit_of_1)

lemma masked_mask [simp]: "irq < 16 \<Longrightarrow> j < 16 \<Longrightarrow> masked j (pic_mask irq p) \<longleftrightarrow> j = irq \<or> masked j p"
  by (auto simp: masked_def pic_mask_def outb_def Let_def bit_or_iff bit_push_1_u8 simp del: push_bit_of_1)

lemma masked_unmask [simp]: "irq < 16 \<Longrightarrow> j < 16 \<Longrightarrow> masked j (pic_unmask irq p) \<longleftrightarrow> j \<noteq> irq \<and> masked j p"
  by (auto simp: masked_def pic_unmask_def outb_def Let_def bit_and_iff bit_not_iff bit_push_1_u8 bit_imp_le_length
      dest: bit_imp_le_length simp del: push_bit_of_1)

lemma masked_eoi [simp]: "masked j (pic_eoi irq p) = masked j p"
  by (simp add: masked_def pic_eoi_def outb_def)

text \<open>The handlers of a line, in the order the shim calls them.\<close>

definition registered :: "nat \<Rightarrow> irq_state \<Rightarrow> (u32 \<times> u32) list" where
  "registered irq s = filter (\<lambda>e. fst e \<noteq> 0) (irq_chain s ! irq)"

definition irq_ok :: "irq_state \<Rightarrow> bool" where
  "irq_ok s \<longleftrightarrow> length (irq_chain s) = IRQ_LINES \<and> length (irq_chain_installed s) = IRQ_LINES \<and>
     (\<forall>irq < IRQ_LINES. length (irq_chain s ! irq) = HANDLERS_PER_IRQ \<and>
        (\<forall>e \<in> set (irq_chain s ! irq). fst e = 0 \<longrightarrow> e = (0, 0)) \<and>
        (irq_chain_installed s ! irq \<longrightarrow> isr_table s (irq_to_vector irq) = Shim irq \<and> \<not> kernel_line irq) \<and>
        (\<not> irq_chain_installed s ! irq \<longrightarrow> registered irq s = []))"

lemma filter_update_free:
  "i < length xs \<Longrightarrow> \<not> P (xs ! i) \<Longrightarrow> P e \<Longrightarrow>
     mset (filter P (xs[i := e])) = add_mset e (mset (filter P xs))"
  by (simp add: mset_update)

lemma filter_map_clear:
  "h \<noteq> 0 \<Longrightarrow> filter (\<lambda>e. fst e \<noteq> 0) (map (\<lambda>e. if fst e = h then (0, 0) else e) xs)
     = filter (\<lambda>e. fst e \<noteq> h) (filter (\<lambda>e. fst e \<noteq> (0 :: u32)) (xs :: (u32 \<times> u32) list))"
  by (induction xs) auto

lemma irq_register_cases:
  assumes ok: "irq_ok s"
  shows "irq_register irq h c s = (-1, s) \<and>
           (irq \<ge> IRQ_LINES \<or> h = 0 \<or> length (registered irq s) = HANDLERS_PER_IRQ \<or> kernel_line irq) \<or>
         (\<exists>s'. irq_register irq h c s = (0, s') \<and> irq < IRQ_LINES \<and> h \<noteq> 0 \<and> \<not> kernel_line irq \<and>
            length (registered irq s) < HANDLERS_PER_IRQ \<and>
            irq_ok s' \<and> irq_chain_installed s' ! irq \<and>
            mset (registered irq s') = add_mset (h, c) (mset (registered irq s)) \<and>
            (\<forall>j. j \<noteq> irq \<longrightarrow> registered j s' = registered j s) \<and>
            ctl s' = (if irq_chain_installed s ! irq then ctl s else pic_unmask irq (ctl s)) \<and>
            (\<forall>v. v \<noteq> irq_to_vector irq \<longrightarrow> isr_table s' v = isr_table s v))"
proof (cases "irq \<ge> IRQ_LINES \<or> h = 0")
  case True
  then show ?thesis by (auto simp: irq_register_def)
next
  case False
  then have irq: "irq < IRQ_LINES" "h \<noteq> 0" by auto
  then have len: "length (irq_chain s ! irq) = HANDLERS_PER_IRQ" "irq < length (irq_chain s)"
      "irq < length (irq_chain_installed s)" using ok by (auto simp: irq_ok_def)
  show ?thesis
  proof (cases "find_slot (\<lambda>e. fst e = 0) (irq_chain s ! irq)")
    case None
    then have "registered irq s = irq_chain s ! irq" by (auto simp: find_slot_None registered_def)
    then show ?thesis using None irq len by (simp add: irq_register_def)
  next
    case (Some i)
    then have i: "i < HANDLERS_PER_IRQ" "fst (irq_chain s ! irq ! i) = 0" using len by (auto dest!: find_slot_SomeD)
    have few: "length (registered irq s) < HANDLERS_PER_IRQ"
      unfolding registered_def len(1) [symmetric] using i len by (intro length_filter_less [of "irq_chain s ! irq ! i"]) auto
    have adds: "mset (filter (\<lambda>e. fst e \<noteq> 0) ((irq_chain s ! irq)[i := (h, c)])) = add_mset (h, c) (mset (registered irq s))"
      unfolding registered_def using i irq len by (intro filter_update_free) auto
    consider "kernel_line irq" | "\<not> kernel_line irq" "irq_chain_installed s ! irq"
      | "\<not> kernel_line irq" "\<not> irq_chain_installed s ! irq" by blast
    then show ?thesis
    proof cases
      case 1
      then have "\<not> irq_chain_installed s ! irq" using ok irq by (auto simp: irq_ok_def)
      moreover have "registered irq s = []" using ok irq calculation by (auto simp: irq_ok_def)
      moreover have "irq_register irq h c s = (-1, s\<lparr>irq_chain := (irq_chain s)[irq := (irq_chain s ! irq)[i := (0, 0)]]\<rparr>)"
        using irq Some 1 calculation len by (simp add: irq_register_def set_slot_def)
      moreover have "(irq_chain s ! irq)[i := (0, 0)] = irq_chain s ! irq"
        using ok irq i len by (metis irq_ok_def list_update_id nth_mem)
      ultimately show ?thesis using 1 by simp
    next
      case 2
      then show ?thesis using irq Some few adds len ok
        by (auto dest!: set_update_subset_insert [THEN subsetD] simp: irq_register_def set_slot_def registered_def irq_ok_def nth_list_update)
    next
      case 3
      then have "\<forall>e \<in> set (irq_chain s ! irq). fst e = 0" using ok irq by (auto simp: irq_ok_def registered_def filter_empty_conv)
      with 3 show ?thesis using irq Some few adds len ok
        by (auto dest!: set_update_subset_insert [THEN subsetD] simp: irq_register_def set_slot_def registered_def irq_ok_def nth_list_update isr_register_def irq_to_vector_def)
    qed
  qed
qed

lemma irq_unregister_cases:
  assumes ok: "irq_ok s"
  shows "irq_unregister irq h s = (-1, s) \<and> (irq \<ge> IRQ_LINES \<or> h = 0) \<or>
         (\<exists>s'. irq_unregister irq h s = (if \<exists>c. (h, c) \<in> set (registered irq s) then 0 else -1, s') \<and>
            irq < IRQ_LINES \<and> h \<noteq> 0 \<and> irq_ok s' \<and>
            registered irq s' = filter (\<lambda>e. fst e \<noteq> h) (registered irq s) \<and>
            (\<forall>j. j \<noteq> irq \<longrightarrow> registered j s' = registered j s) \<and>
            isr_table s' = isr_table s \<and> irq_chain_installed s' = irq_chain_installed s \<and>
            ctl s' = (if irq_chain_installed s ! irq \<and> registered irq s' = [] then pic_mask irq (ctl s) else ctl s))"
proof (cases "irq \<ge> IRQ_LINES \<or> h = 0")
  case True
  then show ?thesis by (auto simp: irq_unregister_def)
next
  case False
  then have irq: "irq < IRQ_LINES" "h \<noteq> 0" by auto
  define chain1 where "chain1 = map (\<lambda>e. if fst e = h then (0, 0) else e) (irq_chain s ! irq)"
  define s1 where "s1 = s\<lparr>irq_chain := (irq_chain s)[irq := chain1]\<rparr>"
  define s2 where "s2 = (if irq_chain_installed s ! irq \<and> filter (\<lambda>e. fst e \<noteq> 0) chain1 = []
    then s1\<lparr>ctl := pic_mask irq (ctl s1)\<rparr> else s1)"
  have len: "irq < length (irq_chain s)" using ok irq by (simp add: irq_ok_def)
  have reg: "registered irq s2 = filter (\<lambda>e. fst e \<noteq> h) (registered irq s)"
    using len irq by (simp add: registered_def s2_def s1_def chain1_def filter_map_clear)
  have r2: "registered irq s2 = filter (\<lambda>e. fst e \<noteq> 0) chain1" using len by (simp add: registered_def s2_def s1_def)
  have ex: "filter (\<lambda>e. fst e = h) (irq_chain s ! irq) \<noteq> [] \<longleftrightarrow> (\<exists>c. (h, c) \<in> set (registered irq s))"
    using irq by (force simp: filter_empty_conv registered_def)
  have "irq_unregister irq h s = (if \<exists>c. (h, c) \<in> set (registered irq s) then 0 else -1, s2)"
    using irq by (simp add: irq_unregister_def Let_def s2_def s1_def chain1_def ex [symmetric])
  moreover have other: "\<forall>j. j \<noteq> irq \<longrightarrow> registered j s2 = registered j s"
    by (simp add: registered_def s2_def s1_def)
  moreover have "irq_ok s2"
  proof -
    have c1: "length chain1 = HANDLERS_PER_IRQ" "\<forall>e \<in> set chain1. fst e = 0 \<longrightarrow> e = (0, 0)"
      using ok irq by (auto simp: irq_ok_def chain1_def)
    have "irq_chain s2 ! j = (if j = irq then chain1 else irq_chain s ! j)" for j
      using len by (simp add: s2_def s1_def)
    moreover have "length (irq_chain s2) = length (irq_chain s)" "irq_chain_installed s2 = irq_chain_installed s"
      "isr_table s2 = isr_table s" by (auto simp: s2_def s1_def)
    moreover have "registered j s2 = []" if "j < IRQ_LINES" "\<not> irq_chain_installed s ! j" for j
      using reg other that ok by (cases "j = irq") (auto simp: irq_ok_def)
    ultimately show ?thesis using ok c1 by (auto simp: irq_ok_def split: if_splits)
  qed
  ultimately show ?thesis using irq reg r2 by (auto simp: s2_def s1_def)
qed

section \<open>The dispatcher\<close>

text \<open>
  \<open>isr_dispatch_inner\<close> of src/src/kernel/idt.c for a hardware interrupt other than the clocks (vectors 33 to 47 but
  40) that arrives outside a protected-mode client: the handler of the vector runs if there is one, and the
  dispatcher signals the end of the interrupt. \<open>direct\<close> is what a handler that is not a shim does,
  \<open>run\<close> what a chained one does.
\<close>

definition dispatch_irq ::
  "(u32 \<Rightarrow> irq_state \<Rightarrow> irq_state) \<Rightarrow> (u32 \<Rightarrow> u32 \<Rightarrow> irq_state \<Rightarrow> irq_state) \<Rightarrow> nat \<Rightarrow> irq_state \<Rightarrow> irq_state" where
  "dispatch_irq direct run n s =
     (let s1 = (case isr_table s n of No_handler \<Rightarrow> s | Direct f \<Rightarrow> direct f s | Shim k \<Rightarrow> irq_shim run k s)
      in s1\<lparr>ctl := pic_eoi (n - 32) (ctl s1)\<rparr>)"

lemma fold_chain:
  assumes same: "\<And>fn c s. irq_chain (run fn c s) = irq_chain s"
  shows "fold (\<lambda>i s. case irq_chain s ! n ! i of (fn, c) \<Rightarrow> if fn \<noteq> 0 then run fn c s else s) is s =
    fold (\<lambda>(fn, c). run fn c) (filter (\<lambda>e. fst e \<noteq> 0) (map (\<lambda>i. irq_chain s ! n ! i) is)) s"
proof (induction "is" arbitrary: s)
  case Nil
  then show ?case by simp
next
  case (Cons i js)
  show ?case
  proof (cases "irq_chain s ! n ! i")
    case (Pair fn c)
    show ?thesis
      by (cases "fn = 0") (simp_all add: Pair Cons.IH same)
  qed
qed

lemma irq_shim_registered:
  assumes "\<And>fn c s. irq_chain (run fn c s) = irq_chain s" and "length (irq_chain s ! n) = HANDLERS_PER_IRQ"
  shows "irq_shim run n s = (let s1 = fold (\<lambda>(fn, c). run fn c) (registered n s) s in s1\<lparr>ctl := pic_eoi n (ctl s1)\<rparr>)"
  unfolding irq_shim_def fold_chain [of run, OF assms(1)] registered_def
  by (simp add: assms(2) [symmetric] map_nth)

section \<open>Calls in any order\<close>

datatype irq_call = Register nat u32 u32 | Unregister nat u32 | Eoi nat | Mask nat | Unmask nat

fun irq_do :: "irq_call \<Rightarrow> irq_state \<Rightarrow> int \<times> irq_state" where
  "irq_do (Register irq h c) s = irq_register irq h c s"
| "irq_do (Unregister irq h) s = irq_unregister irq h s"
| "irq_do (Eoi irq) s = (0, irq_eoi irq s)"
| "irq_do (Mask irq) s = (0, irq_mask irq s)"
| "irq_do (Unmask irq) s = (0, irq_unmask irq s)"

text \<open>Before any call: all chains empty, no shim, and the handlers \<open>t\<close> the kernel has installed itself.\<close>

definition irq_boot :: "pic \<Rightarrow> (nat \<Rightarrow> isr) \<Rightarrow> irq_state" where
  "irq_boot p t = \<lparr>ctl = p, irq_chain = replicate IRQ_LINES (replicate HANDLERS_PER_IRQ (0, 0)),
     irq_chain_installed = replicate IRQ_LINES False, isr_table = t\<rparr>"

fun run_calls :: "('c \<Rightarrow> 's \<Rightarrow> int \<times> 's) \<Rightarrow> 'c list \<Rightarrow> 's \<Rightarrow> int list \<times> 's" where
  "run_calls f [] s = ([], s)"
| "run_calls f (c # cs) s = (case f c s of (r, s1) \<Rightarrow> case run_calls f cs s1 of (rs, s2) \<Rightarrow> (r # rs, s2))"

text \<open>
  The specification: a line has a multiset of at most 8 handlers, registering adds one unless the line belongs to
  the kernel or is full, unregistering removes every registration of the handler.
\<close>

type_synonym chains = "nat \<Rightarrow> (u32 \<times> u32) multiset"

fun chain_do :: "irq_call \<Rightarrow> chains \<Rightarrow> int \<times> chains" where
  "chain_do (Register irq h c) m =
     (if irq < 16 \<and> h \<noteq> 0 \<and> \<not> kernel_line irq \<and> size (m irq) < 8 then (0, m(irq := add_mset (h, c) (m irq))) else (-1, m))"
| "chain_do (Unregister irq h) m =
     (if irq < 16 \<and> h \<noteq> 0 \<and> (\<exists>e \<in># m irq. fst e = h) then (0, m(irq := filter_mset (\<lambda>e. fst e \<noteq> h) (m irq))) else (-1, m))"
| "chain_do (Eoi irq) m = (0, m)"
| "chain_do (Mask irq) m = (0, m)"
| "chain_do (Unmask irq) m = (0, m)"

definition chains_of :: "irq_state \<Rightarrow> chains" where
  "chains_of s irq = (if irq < IRQ_LINES then mset (registered irq s) else {#})"

lemma irq_ok_ctl [simp]: "irq_ok (s\<lparr>ctl := p\<rparr>) = irq_ok s" "registered irq (s\<lparr>ctl := p\<rparr>) = registered irq s"
  by (simp_all add: irq_ok_def registered_def)

lemma irq_boot_ok: "irq_ok (irq_boot p t)"
  by (simp add: irq_ok_def irq_boot_def registered_def)

lemma kernel_line_registered: "irq_ok s \<Longrightarrow> kernel_line irq \<Longrightarrow> irq < IRQ_LINES \<Longrightarrow> registered irq s = []"
  by (auto simp: irq_ok_def)

lemma irq_do_refines:
  assumes ok: "irq_ok s" and d: "irq_do c s = (r, s')"
  shows "irq_ok s'" "chain_do c (chains_of s) = (r, chains_of s')"
proof -
  have lines: "IRQ_LINES = 16" "HANDLERS_PER_IRQ = 8" by (simp_all add: IRQ_LINES_def HANDLERS_PER_IRQ_def)
  have *: "irq_ok s' \<and> chain_do c (chains_of s) = (r, chains_of s')"
  proof (cases c)
    case (Register irq h x)
    show ?thesis using irq_register_cases [OF ok, of irq h x] d ok
      unfolding Register by (auto simp: chains_of_def lines fun_eq_iff)
  next
    case (Unregister irq h)
    have none: "filter_mset (\<lambda>e. fst e \<noteq> h) (mset (registered irq s)) = mset (registered irq s)"
      if "\<nexists>c. (h, c) \<in> set (registered irq s)"
      using that by (auto simp: filter_mset_eq_conv)
    consider "irq_unregister irq h s = (-1, s)" "irq \<ge> 16 \<or> h = 0"
      | s2 where "irq_unregister irq h s = (if \<exists>c. (h, c) \<in> set (registered irq s) then 0 else -1, s2)"
        "irq < 16" "h \<noteq> 0" "irq_ok s2" "registered irq s2 = filter (\<lambda>e. fst e \<noteq> h) (registered irq s)"
        "\<forall>j. j \<noteq> irq \<longrightarrow> registered j s2 = registered j s"
      using irq_unregister_cases [OF ok, of irq h] unfolding lines by blast
    then show ?thesis
    proof cases
      case 1
      then show ?thesis using d ok unfolding Unregister by auto
    next
      case 2
      have ex: "(\<exists>e \<in># mset (registered irq s). fst e = h) \<longleftrightarrow> (\<exists>c. (h, c) \<in> set (registered irq s))" by force
      have ch: "chains_of s2 = (chains_of s)(irq := filter_mset (\<lambda>e. fst e \<noteq> h) (chains_of s irq))"
        using 2 by (auto simp: chains_of_def lines fun_eq_iff)
      then have nch: "\<nexists>c. (h, c) \<in> set (registered irq s) \<Longrightarrow> chains_of s2 = chains_of s"
        using none 2(2) by (auto simp: chains_of_def lines fun_eq_iff)
      have "chains_of s irq = mset (registered irq s)" using 2 by (simp add: chains_of_def lines)
      then show ?thesis using 2 d ch nch ex unfolding Unregister by (auto split: if_splits)
    qed
  qed (use ok d in \<open>auto simp: irq_eoi_def irq_mask_def irq_unmask_def chains_of_def\<close>)
  then show "irq_ok s'" "chain_do c (chains_of s) = (r, chains_of s')" by auto
qed

lemma run_irq_refines:
  "irq_ok s \<Longrightarrow> run_calls irq_do cs s = (rs, s') \<Longrightarrow>
     irq_ok s' \<and> run_calls chain_do cs (chains_of s) = (rs, chains_of s')"
proof (induction cs arbitrary: s rs)
  case Nil
  then show ?case by simp
next
  case (Cons c cs)
  obtain r s1 where 1: "irq_do c s = (r, s1)" by (cases "irq_do c s")
  obtain rs1 where 2: "run_calls irq_do cs s1 = (rs1, s')" "rs = r # rs1" using Cons.prems(2) 1 by (auto split: prod.splits)
  from irq_do_refines [OF Cons.prems(1) 1] Cons.IH [OF _ 2(1)] 2(2) show ?case by simp
qed

section \<open>Properties\<close>


text \<open>
  C28. After any sequence of calls, an interrupt on a line that has a registered handler runs every registered handler of the line exactly
  once, in slot order, for handlers that do not change the chains; then the controllers get the
  end-of-interrupt sequence twice, from the shim and again from the dispatcher.
\<close>

theorem irq_dispatch_delivers:
  fixes run :: "u32 \<Rightarrow> u32 \<Rightarrow> irq_state \<Rightarrow> irq_state"
  assumes keep: "\<And>fn c s. irq_chain (run fn c s) = irq_chain s"
    and reach: "run_calls irq_do cs (irq_boot p t) = (rs, s)" and irq: "irq < IRQ_LINES" "registered irq s \<noteq> []"
  shows "dispatch_irq direct run (irq_to_vector irq) s =
    (let s1 = fold (\<lambda>(fn, c). run fn c) (registered irq s) s in s1\<lparr>ctl := pic_eoi irq (pic_eoi irq (ctl s1))\<rparr>)"
proof -
  have ok: "irq_ok s" using run_irq_refines [OF irq_boot_ok reach] by simp
  then have "isr_table s (irq_to_vector irq) = Shim irq" "length (irq_chain s ! irq) = HANDLERS_PER_IRQ"
    using irq by (auto simp: irq_ok_def)
  then show ?thesis
    by (simp add: dispatch_irq_def irq_shim_registered [of run, OF keep] Let_def irq_to_vector_def)
qed

text \<open>A handler that only notes that it ran, by writing its context to a port of its own.\<close>

definition log_handler :: "u32 \<Rightarrow> u32 \<Rightarrow> irq_state \<Rightarrow> irq_state" where
  "log_handler fn c s = s\<lparr>ctl := outb 0x300 (ucast c) (ctl s)\<rparr>"

definition demo_pic :: pic where "demo_pic = \<lparr>pic1_mask = 0xFF, pic2_mask = 0xFF, outs = []\<rparr>"

lemma demo_irq_run:
  "registered 11 (snd (run_calls irq_do [Register 11 100 1, Register 11 200 2, Unregister 11 100, Register 11 300 3]
     (irq_boot demo_pic (\<lambda>n. No_handler)))) = [(300, 3), (200, 2)]"
  "outs (ctl (snd (run_calls irq_do [Register 11 100 1, Register 11 200 2, Unregister 11 100, Register 11 300 3]
     (irq_boot demo_pic (\<lambda>n. No_handler))))) = [(0xA1, 0xF7)]"
  by code_simp+

theorem irq_dispatch_delivers_witness:
  "outs (ctl (dispatch_irq (\<lambda>f s. s) log_handler 43
     (snd (run_calls irq_do [Register 11 100 1, Register 11 200 2, Unregister 11 100, Register 11 300 3]
        (irq_boot demo_pic (\<lambda>n. No_handler)))))) =
   [(0x20, 0x20), (0xA0, 0x20), (0x20, 0x20), (0xA0, 0x20), (0x300, 2), (0x300, 3), (0xA1, 0xF7)]"
proof -
  let ?cs = "[Register 11 100 1, Register 11 200 2, Unregister 11 100, Register 11 300 3]"
  obtain rs s where r: "run_calls irq_do ?cs (irq_boot demo_pic (\<lambda>n. No_handler)) = (rs, s)" by fastforce
  then have s: "registered 11 s = [(300, 3), (200, 2)]" "outs (ctl s) = [(0xA1, 0xF7)]"
    using demo_irq_run by (metis snd_conv)+
  have keep: "irq_chain (log_handler fn c u) = irq_chain u" for fn c u by (simp add: log_handler_def)
  show ?thesis unfolding r snd_conv
    using irq_dispatch_delivers [of log_handler, OF keep r, of 11 "\<lambda>f s. s"] s
    by (simp add: IRQ_LINES_def irq_to_vector_def log_handler_def outb_def pic_eoi_def PIC1_CMD_def PIC2_CMD_def)
qed

text \<open>
  Unregistering the last handler of a line masks the line, and a later registration, which succeeds, does not
  unmask it: the shim is still marked as installed. The new handler never runs until somebody unmasks the line.
\<close>

lemma irq_reregister_masked:
  assumes reach: "run_calls irq_do cs (irq_boot p t) = (rs, s)" and irq: "registered irq s = [(h, c)]" "irq < IRQ_LINES"
    and u: "irq_unregister irq h s = (r1, s1)" and r: "irq_register irq h2 c2 s1 = (0, s2)"
  shows "r1 = 0 \<and> registered irq s2 = [(h2, c2)] \<and> masked irq (ctl s2)"
proof -
  have ok: "irq_ok s" using run_irq_refines [OF irq_boot_ok reach] by simp
  have h: "h \<noteq> 0" using irq(1) by (metis (mono_tags, lifting) filter_eq_ConsD fst_conv registered_def)
  have inst: "irq_chain_installed s ! irq" using ok irq by (auto simp: irq_ok_def)
  from irq_unregister_cases [OF ok, of irq h] u irq h inst
  have 1: "r1 = 0" "registered irq s1 = []" "ctl s1 = pic_mask irq (ctl s)" "irq_ok s1" "irq_chain_installed s1 ! irq" by auto
  from irq_register_cases [OF 1(4), of irq h2 c2] r 1
  have 2: "ctl s2 = ctl s1" "mset (registered irq s2) = {#(h2, c2)#}" by auto
  have "irq < 16" using irq(2) by (simp add: IRQ_LINES_def)
  then show ?thesis using 1 2 by simp
qed


section \<open>The disk registry\<close>

definition int13h_ok :: "int13h_registration list \<Rightarrow> bool" where
  "int13h_ok t \<longleftrightarrow> length t = INT13H_MAX_DRIVES \<and>
     (\<forall>i < length t. present (t ! i) \<longrightarrow> drive_no (t ! i) = of_nat (INT13H_FIRST_DRIVE + i) \<and> ops (t ! i) \<noteq> 0)"

lemma uint_drive: "i < 8 \<Longrightarrow> uint (of_nat (INT13H_FIRST_DRIVE + i) :: u8) = 128 + int i"
  by (simp add: INT13H_FIRST_DRIVE_def uint_word_ariths uint_word_of_int_eq unsigned_of_nat take_bit_eq_mod)

lemma int13h_lookup_at:
  "i < 8 \<Longrightarrow> int13h_lookup (of_nat (INT13H_FIRST_DRIVE + i)) t = (if present (t ! i) then Some (t ! i) else None)"
  unfolding int13h_lookup_def Let_def uint_drive by (simp add: INT13H_FIRST_DRIVE_def INT13H_MAX_DRIVES_def)

lemma int13h_register_keeps:
  "int13h_ok t \<Longrightarrow> int13h_register_disk o1 c l t = (r, t') \<Longrightarrow> int13h_ok t'"
  by (auto simp: int13h_register_disk_def int13h_ok_def Let_def nth_list_update dest!: find_slot_SomeD split: if_splits option.splits)

lemma int13h_unregister_keeps:
  "int13h_ok t \<Longrightarrow> int13h_unregister_disk o1 t = (r, t') \<Longrightarrow> int13h_ok t'"
  by (auto simp: int13h_unregister_disk_def int13h_ok_def no_registration_def nth_list_update dest!: find_slot_SomeD split: option.splits if_splits)

text \<open>
  A registered disk is found under the number its registration returned, with its operations, context and unit; no
  other number changes its meaning, and the registration fails only when the eight numbers are taken.
\<close>

lemma int13h_register_lookup:
  assumes ok: "int13h_ok t" and "o1 \<noteq> 0"
  shows "(\<forall>i < 8. present (t ! i)) \<and> int13h_register_disk o1 c l t = (-1, t) \<or>
    (\<exists>i t'. i < 8 \<and> \<not> present (t ! i) \<and> int13h_register_disk o1 c l t = (int (128 + i), t') \<and>
       (\<forall>d. int13h_lookup d t' = (if d = of_nat (128 + i)
          then Some \<lparr>ops = o1, ctx = c, lun = l, drive_no = of_nat (128 + i), present = True\<rparr> else int13h_lookup d t)))"
proof (cases "find_slot (\<lambda>e. \<not> present e) t")
  case None
  then have "int13h_register_disk o1 c l t = (-1, t)" using assms by (simp add: int13h_register_disk_def)
  then show ?thesis using None ok by (auto simp: find_slot_None int13h_ok_def INT13H_MAX_DRIVES_def)
next
  case (Some i)
  have len: "length t = 8" using ok by (simp add: int13h_ok_def INT13H_MAX_DRIVES_def)
  have i: "i < 8" "\<not> present (t ! i)" using find_slot_SomeD [OF Some] len by auto
  define e where "e = \<lparr>ops = o1, ctx = c, lun = l, drive_no = of_nat (128 + i), present = True\<rparr>"
  have eq: "int13h_register_disk o1 c l t = (int (128 + i), t[i := e])"
    using Some assms i uint_drive [OF i(1)] by (simp add: int13h_register_disk_def Let_def e_def INT13H_FIRST_DRIVE_def)
  have "int13h_lookup d (t[i := e]) = (if d = of_nat (128 + i) then Some e else int13h_lookup d t)" for d
  proof (cases "d = of_nat (128 + i)")
    case True
    then show ?thesis using int13h_lookup_at [OF i(1), of "t[i := e]"] i len
      by (simp add: INT13H_FIRST_DRIVE_def e_def)
  next
    case False
    have "nat (uint d - 128) \<noteq> i" if r: "128 \<le> uint d"
    proof
      assume "nat (uint d - 128) = i"
      then have "uint d = int (128 + i)" using r by simp
      then have "of_int (uint d) = (of_nat (128 + i) :: u8)" by simp
      then have "d = of_nat (128 + i)" by simp
      then show False using False by simp
    qed
    then have "128 \<le> uint d \<Longrightarrow> t[i := e] ! nat (uint d - 128) = t ! nat (uint d - 128)" by (metis nth_list_update_neq)
    then show ?thesis using False by (cases "uint d < 128") (simp_all add: int13h_lookup_def Let_def INT13H_FIRST_DRIVE_def)
  qed
  then show ?thesis using eq i unfolding e_def by blast
qed
end
