(* ===== verification/Timers.thy ===== *)
theory Timers
  imports Irq
begin

text \<open>
  Clocks: the interval timer with the callbacks modules register on it (src/src/kernel/pit.c), the CMOS clock that drives the
  scheduler (src/src/kernel/rtc.c), and the boot status row with its watchdog (src/src/kernel/klog.c), which the CMOS
  clock's interrupt checks.
\<close>

section \<open>The interval timer\<close>

record pit_periodic =
  cb :: u32
  cb_ctx :: u32
  period_ticks :: u32
  next_at :: u32

text \<open>
  \<open>bda_ticks\<close> is the word at 0x46C; \<open>pit_ctl\<close> the interrupt controllers with the port writes; \<open>world\<close> is all other state, which
  callbacks and the keyboard poll may change.
\<close>

record 'w pit_state =
  tick_count :: u32
  pit_periodics :: "pit_periodic list"
  bda_ticks :: u32
  pit_ctl :: pic
  world :: 'w

definition PIT_PERIODIC_MAX :: nat where "PIT_PERIODIC_MAX = 8"
definition PIT_FREQ :: u32 where "PIT_FREQ = 1193182"

definition no_periodic :: pit_periodic where
  "no_periodic = \<lparr>cb = 0, cb_ctx = 0, period_ticks = 0, next_at = 0\<rparr>"

definition fire_slot :: "(u32 \<Rightarrow> u32 \<Rightarrow> 'w pit_state \<Rightarrow> 'w pit_state) \<Rightarrow> nat \<Rightarrow> 'w pit_state \<Rightarrow> 'w pit_state" where
  "fire_slot run i s =
     (let p = pit_periodics s ! i
      in if cb p \<noteq> 0 \<and> tick_count s \<ge> next_at p
         then run (cb p) (cb_ctx p) (s\<lparr>pit_periodics := (pit_periodics s)[i := p\<lparr>next_at := tick_count s + period_ticks p\<rparr>]\<rparr>)
         else s)"

definition pit_tick ::
  "('w pit_state \<Rightarrow> 'w pit_state) \<Rightarrow> (u32 \<Rightarrow> u32 \<Rightarrow> 'w pit_state \<Rightarrow> 'w pit_state) \<Rightarrow> 'w pit_state \<Rightarrow> 'w pit_state" where
  "pit_tick v86_kbd_poll run s =
     (let s1 = s\<lparr>tick_count := tick_count s + 1\<rparr>;
          s2 = (if tick_count s1 mod 5 = 0 then s1\<lparr>bda_ticks := tick_count s1 div 5\<rparr> else s1)
      in fold (fire_slot run) [0..<PIT_PERIODIC_MAX] (v86_kbd_poll s2))"

definition pit_init :: "u32 \<Rightarrow> 'w pit_state \<Rightarrow> 'w pit_state" where
  "pit_init frequency s =
     (let f = (if frequency = 0 then 100 else frequency);
          divisor = ucast (PIT_FREQ div f) :: u16
      in s\<lparr>pit_ctl := pic_unmask 0 (outb 0x40 (ucast (drop_bit 8 divisor AND 0xFF))
             (outb 0x40 (ucast (divisor AND 0xFF)) (outb 0x43 0x34 (pit_ctl s))))\<rparr>)"

definition pit_get_ticks :: "'w pit_state \<Rightarrow> u32" where "pit_get_ticks s = tick_count s"
definition pit_ticks_get :: "'w pit_state \<Rightarrow> u64" where "pit_ticks_get s = ucast (tick_count s)"

text \<open>
  The delay loop halts until the next interrupt; \<open>hlt\<close> is what happens until then, at least one timer tick among it.
  Not returning is \<open>None\<close>.
\<close>

partial_function (option) delay_loop :: "('w pit_state \<Rightarrow> 'w pit_state) \<Rightarrow> u32 \<Rightarrow> u32 \<Rightarrow> 'w pit_state \<Rightarrow> 'w pit_state option" where
  "delay_loop hlt start ticks s =
     (if tick_count s - start < ticks then delay_loop hlt start ticks (hlt s) else Some s)"

definition pit_delay_ms :: "('w pit_state \<Rightarrow> 'w pit_state) \<Rightarrow> u32 \<Rightarrow> 'w pit_state \<Rightarrow> 'w pit_state option" where
  "pit_delay_ms hlt ms s = delay_loop hlt (tick_count s) ((ms + 9) div 10) s"

definition ticks_of_ms :: "u32 \<Rightarrow> u32" where
  "ticks_of_ms ms = (let t = (ms + 9) div 10 in if t = 0 then 1 else t)"

definition pit_register_periodic :: "u32 \<Rightarrow> u32 \<Rightarrow> u32 \<Rightarrow> 'w pit_state \<Rightarrow> int \<times> 'w pit_state" where
  "pit_register_periodic period_ms c x s =
     (if c = 0 \<or> period_ms = 0 then (-1, s)
      else let period = ticks_of_ms period_ms
           in case find_slot (\<lambda>p. cb p = 0) (pit_periodics s) of
                None \<Rightarrow> (-1, s)
              | Some i \<Rightarrow> (0, s\<lparr>pit_periodics := (pit_periodics s)[i :=
                    \<lparr>cb = c, cb_ctx = x, period_ticks = period, next_at = tick_count s + period\<rparr>]\<rparr>))"

definition pit_unregister_periodic :: "u32 \<Rightarrow> 'w pit_state \<Rightarrow> int \<times> 'w pit_state" where
  "pit_unregister_periodic c s =
     (let removed = length (filter (\<lambda>p. cb p = c) (pit_periodics s))
      in (if removed > 0 then 0 else -1,
          s\<lparr>pit_periodics := map (\<lambda>p. if cb p = c then no_periodic else p) (pit_periodics s)\<rparr>))"

section \<open>The status row and the watchdog\<close>

definition VGA_COLS :: nat where "VGA_COLS = 80"
definition STATUS_SPLIT :: nat where "STATUS_SPLIT = 40"
definition RTC_HZ :: u64 where "RTC_HZ = 8192"

text \<open>
  The cells of row 24, the watchdog variables, the tick counter of the CMOS clock, and the stages
  \<^verbatim>\<open>kernel_panic_watchdog\<close> was called with, newest first. A string is its bytes, a null pointer is \<open>None\<close>.
\<close>

record klog =
  row24 :: "u16 list"
  g_last_stage :: "u8 list"
  g_last_tick :: u64
  g_watchdog_budget :: u64
  g_watchdog_armed :: bool
  rtc_ticks :: u64
  panics :: "u8 list list"

definition cell_put :: "nat \<Rightarrow> u8 \<Rightarrow> klog \<Rightarrow> klog" where
  "cell_put col c s = s\<lparr>row24 := (row24 s)[col := push_bit 8 0x1E OR ucast c]\<rparr>"

function paint_range :: "nat \<Rightarrow> nat \<Rightarrow> u8 list \<Rightarrow> klog \<Rightarrow> klog" where
  "paint_range col col_end str s =
     (if col < col_end
      then (case str of [] \<Rightarrow> paint_range (col + 1) col_end [] (cell_put col 32 s)
                      | c # cs \<Rightarrow> paint_range (col + 1) col_end cs (cell_put col c s))
      else s)"
  by auto
termination by (relation "measure (\<lambda>(col, col_end, str, s). col_end - col)") auto

declare paint_range.simps [simp del]

definition str_of :: "u8 list option \<Rightarrow> u8 list" where "str_of t = (case t of None \<Rightarrow> [] | Some s \<Rightarrow> s)"

definition klog_stage :: "u8 list option \<Rightarrow> klog \<Rightarrow> klog" where
  "klog_stage t s = (paint_range 0 STATUS_SPLIT (str_of t) s)
     \<lparr>g_last_stage := (case t of Some x \<Rightarrow> x | None \<Rightarrow> [40, 110, 117, 108, 108, 41]), g_last_tick := rtc_ticks s\<rparr>"

definition klog_iter :: "u8 list option \<Rightarrow> klog \<Rightarrow> klog" where
  "klog_iter t s = (paint_range STATUS_SPLIT VGA_COLS (str_of t) s)\<lparr>g_last_tick := rtc_ticks s\<rparr>"

definition klog_clear :: "klog \<Rightarrow> klog" where
  "klog_clear s = paint_range 0 VGA_COLS [] s"

definition klog_watchdog_arm :: "u32 \<Rightarrow> klog \<Rightarrow> klog" where
  "klog_watchdog_arm seconds s =
     s\<lparr>g_watchdog_budget := ucast seconds * RTC_HZ, g_last_tick := rtc_ticks s, g_watchdog_armed := True\<rparr>"

definition klog_watchdog_disarm :: "klog \<Rightarrow> klog" where
  "klog_watchdog_disarm s = s\<lparr>g_watchdog_armed := False\<rparr>"

definition klog_watchdog_check :: "klog \<Rightarrow> klog" where
  "klog_watchdog_check s =
     (if \<not> g_watchdog_armed s then s
      else if rtc_ticks s - g_last_tick s > g_watchdog_budget s
      then s\<lparr>g_watchdog_armed := False, panics := g_last_stage s # panics s\<rparr>
      else s)"

section \<open>The CMOS clock\<close>

text \<open>
  The clock chip is a parameter: \<open>dev n reg\<close> is what the \<open>n\<close>-th read of the data port returns with register \<open>reg\<close>
  selected. The state is the number of reads so far, the last value written to the index port, and the register writes,
  newest first.
\<close>

type_synonym cmos_dev = "nat \<Rightarrow> u8 \<Rightarrow> u8"

record cmos =
  reads :: nat
  port70 :: u8
  writes :: "(u8 \<times> u8) list"

definition cmos_read :: "cmos_dev \<Rightarrow> u8 \<Rightarrow> cmos \<Rightarrow> u8 \<times> cmos" where
  "cmos_read dev reg c =
     (let p = (port70 c AND 0x80) OR reg
      in (dev (reads c) (p AND 0x7F), c\<lparr>port70 := p, reads := reads c + 1\<rparr>))"

definition cmos_write :: "u8 \<Rightarrow> u8 \<Rightarrow> cmos \<Rightarrow> cmos" where
  "cmos_write reg val c =
     (let p = (port70 c AND 0x80) OR reg in c\<lparr>port70 := p, writes := (p AND 0x7F, val) # writes c\<rparr>)"

definition rtc_irq_handler :: "cmos_dev \<Rightarrow> klog \<times> cmos \<Rightarrow> klog \<times> cmos" where
  "rtc_irq_handler dev s = (case s of (k, c) \<Rightarrow>
     (klog_watchdog_check (k\<lparr>rtc_ticks := rtc_ticks k + 1\<rparr>), snd (cmos_read dev 0x0C c)))"

definition hz_to_rate :: "u32 \<Rightarrow> u8" where
  "hz_to_rate hz =
     (if hz \<ge> 8192 then 3 else if hz \<ge> 4096 then 4 else if hz \<ge> 2048 then 5 else if hz \<ge> 1024 then 6
      else if hz \<ge> 512 then 7 else if hz \<ge> 256 then 8 else if hz \<ge> 128 then 9 else if hz \<ge> 64 then 10
      else if hz \<ge> 32 then 11 else if hz \<ge> 16 then 12 else if hz \<ge> 8 then 13 else if hz \<ge> 4 then 14 else 15)"

definition rtc_init :: "cmos_dev \<Rightarrow> u32 \<Rightarrow> u32 \<Rightarrow> irq_state \<times> cmos \<Rightarrow> irq_state \<times> cmos" where
  "rtc_init dev handler rate_hz sc = (case sc of (s, c) \<Rightarrow>
     let rate = hz_to_rate rate_hz;
         s1 = isr_register 40 (Direct handler) s;
         (prev, c1) = cmos_read dev 0x0A c;
         c2 = cmos_write 0x0A ((prev AND 0xF0) OR rate) c1;
         (prev, c3) = cmos_read dev 0x0B c2;
         c4 = cmos_write 0x0B (prev OR 0x40) c3;
         (_, c5) = cmos_read dev 0x0C c4
     in (s1\<lparr>ctl := pic_unmask 8 (ctl s1)\<rparr>, c5))"

definition rtc_get_ticks :: "klog \<Rightarrow> u64" where "rtc_get_ticks k = rtc_ticks k"

definition bcd_to_bin :: "u8 \<Rightarrow> u8" where
  "bcd_to_bin bcd = drop_bit 4 bcd * 10 + (bcd AND 0x0F)"

partial_function (option) rtc_wait_ready :: "cmos_dev \<Rightarrow> cmos \<Rightarrow> cmos option" where
  "rtc_wait_ready dev c =
     (case cmos_read dev 0x0A c of (a, c1) \<Rightarrow> if a AND 0x80 \<noteq> 0 then rtc_wait_ready dev c1 else Some c1)"

definition rtc_read_time :: "cmos_dev \<Rightarrow> cmos \<Rightarrow> ((u8 \<times> u8 \<times> u8) \<times> cmos) option" where
  "rtc_read_time dev c0 =
     (case rtc_wait_ready dev c0 of None \<Rightarrow> None | Some c1 \<Rightarrow>
        let (reg_b, c2) = cmos_read dev 0x0B c1;
            (sec, c3) = cmos_read dev 0x00 c2;
            (min, c4) = cmos_read dev 0x02 c3;
            (hour, c5) = cmos_read dev 0x04 c4
        in Some (if reg_b AND 0x04 = 0
             then let hour1 = bcd_to_bin (hour AND 0x7F);
                      hour2 = (if reg_b AND 0x02 = 0 \<and> hour1 AND 0x80 \<noteq> 0 then of_nat ((unat (bcd_to_bin (hour1 AND 0x7F)) + 12) mod 24) else hour1)
                  in (hour2, bcd_to_bin min, bcd_to_bin sec)
             else (hour, min, sec), c5))"

definition rtc_read_date :: "cmos_dev \<Rightarrow> cmos \<Rightarrow> ((u16 \<times> u8 \<times> u8) \<times> cmos) option" where
  "rtc_read_date dev c0 =
     (case rtc_wait_ready dev c0 of None \<Rightarrow> None | Some c1 \<Rightarrow>
        let (reg_b, c2) = cmos_read dev 0x0B c1;
            (d, c3) = cmos_read dev 0x07 c2;
            (mo, c4) = cmos_read dev 0x08 c3;
            (y, c5) = cmos_read dev 0x09 c4;
            (ce, c6) = cmos_read dev 0x32 c5;
            (day, month, yr, century) = (if reg_b AND 0x04 = 0 then (bcd_to_bin d, bcd_to_bin mo, bcd_to_bin y, bcd_to_bin ce) else (d, mo, y, ce));
            year = (if century \<ge> 19 \<and> century \<le> 21 then ucast yr + ucast century * 100 else ucast yr + 2000)
        in Some ((year, month, day), c6))"


section \<open>Rates and conversions\<close>

lemma hz_reference:
  "find (\<lambda>r. drop_bit (r - 1) 32768 \<le> unat hz \<or> r = 15) [3..<16] = Some (unat (hz_to_rate hz))"
proof -
  have u: "[3..<16] = [3, 4, 5, 6, 7, 8, 9, 10, 11, 12, 13, 14, 15 :: nat]" by (simp add: upt_rec)
  show ?thesis unfolding u hz_to_rate_def
    by (simp add: drop_bit_eq_div word_le_nat_alt)
qed

lemma bcd_digits:
  assumes "h < 10" "l < 10"
  shows "bcd_to_bin (of_nat (16 * h + l)) = of_nat (10 * h + l)"
proof -
  have n: "unat (of_nat (16 * h + l) :: u8) = 16 * h + l" using assms by (intro unat_of_nat_small) simp
  have d: "unat (drop_bit 4 (of_nat (16 * h + l) :: u8)) = h"
    unfolding unsigned_drop_bit_eq n using assms by (simp add: drop_bit_eq_div take_bit_nat_eq_self)
  have "(0x0F :: u8) = mask 4" by (simp add: mask_eq_exp_minus_1)
  then have "(of_nat (16 * h + l) :: u8) AND 0x0F = take_bit 4 (of_nat (16 * h + l))" by (simp add: take_bit_eq_mask)
  then have a: "unat ((of_nat (16 * h + l) :: u8) AND 0x0F) = l"
    using assms n by (simp only: unsigned_take_bit_eq n) (simp add: take_bit_eq_mod)
  show ?thesis unfolding bcd_to_bin_def
    by (metis (no_types, lifting) a d mult.commute of_nat_add of_nat_mult of_nat_numeral word_unat_inverse)
qed

lemma bcd_small: "unat (bcd_to_bin (h AND 0x7F)) < 128"
proof -
  let ?x = "h AND 0x7F"
  have "(0x7F :: u8) = mask 7" by (simp add: mask_eq_exp_minus_1)
  then have "?x = take_bit 7 h" by (simp add: take_bit_eq_mask)
  then have x: "unat ?x < 128" using take_bit_nat_less_exp [of 7 "unat h"] by (simp add: unsigned_take_bit_eq)
  have d: "unat (drop_bit 4 ?x) < 8" unfolding unsigned_drop_bit_eq using x by (simp add: drop_bit_eq_div take_bit_nat_eq_self)
  have m: "(0x0F :: u8) = mask 4" by (simp add: mask_eq_exp_minus_1)
  have "?x AND 0x0F = take_bit 4 ?x" unfolding m by (simp add: take_bit_eq_mask)
  then have a: "unat (?x AND 0x0F) < 16" using take_bit_nat_less_exp [of 4 "unat ?x"] by (simp only: unsigned_take_bit_eq) simp
  have "bcd_to_bin ?x = of_nat (unat (drop_bit 4 ?x) * 10 + unat (?x AND 0x0F))"
    unfolding bcd_to_bin_def by simp
  moreover have "unat (drop_bit 4 ?x) * 10 + unat (?x AND 0x0F) < 2 ^ LENGTH(8)" using d a by simp
  ultimately have "unat (bcd_to_bin ?x) = unat (drop_bit 4 ?x) * 10 + unat (?x AND 0x0F)" by (simp only: unat_of_nat_small)
  then show ?thesis using d a by simp
qed

lemma small_and_80: "unat (w :: u8) < 128 \<Longrightarrow> w AND 0x80 = 0"
proof -
  assume a: "unat w < 128"
  have "w AND push_bit 7 1 = 0 \<longleftrightarrow> \<not> bit w 7" using and_push_bit_1 [of w 7] by blast
  moreover have "\<not> bit (unat w) 7" using a by (simp add: bit_iff_odd)
  then have "\<not> bit w 7" by (simp add: bit_unsigned_iff)
  ultimately show ?thesis by simp
qed

text \<open>
  In BCD mode the afternoon flag of a 12-hour clock, bit 7 of the hour register, is masked off before it is tested: the hour is
  the BCD value of the register without the flag, in the morning and in the afternoon.
\<close>

lemma index_port: "((p AND 0x80) OR r) AND 0x7F = (r AND 0x7F :: u8)"
  "(p AND 0x80) AND 0x7F = (0 :: u8)"
  by (simp_all add: bit.conj_disj_distrib2 and.assoc)

lemma rtc_read_time_bcd:
  assumes r: "rtc_wait_ready dev c0 = Some c1" and b: "dev (reads c1) 0x0B AND 0x04 = 0"
  shows "map_option fst (rtc_read_time dev c0) =
    Some (bcd_to_bin (dev (reads c1 + 3) 4 AND 0x7F), bcd_to_bin (dev (reads c1 + 2) 2), bcd_to_bin (dev (reads c1 + 1) 0))"
proof -
  have "bcd_to_bin (h AND 0x7F) AND 0x80 = 0" for h by (rule small_and_80 [OF bcd_small])
  then show ?thesis using r b by (simp add: rtc_read_time_def cmos_read_def Let_def index_port numeral_3_eq_3)
qed

lemma rtc_wait_ready_returns:
  assumes "\<exists>n \<ge> reads c. \<forall>r. dev n r AND 0x80 = 0"
  shows "\<exists>c1. rtc_wait_ready dev c = Some c1"
proof -
  obtain n where n: "reads c \<le> n" "\<forall>r. dev n r AND 0x80 = 0" using assms by blast
  show ?thesis using n(1)
  proof (induction "n - reads c" arbitrary: c)
    case 0
    then have "n = reads c" by simp
    then have "fst (cmos_read dev 0x0A c) AND 0x80 = 0" using n(2) by (simp add: cmos_read_def Let_def)
    then show ?case by (subst rtc_wait_ready.simps) (auto split: prod.splits)
  next
    case (Suc k)
    obtain a c1 where r: "cmos_read dev 0x0A c = (a, c1)" by fastforce
    then have "reads c1 = reads c + 1" by (auto simp: cmos_read_def Let_def)
    then have "\<exists>c2. rtc_wait_ready dev c1 = Some c2" using Suc by (intro Suc.hyps(1)) auto
    then show ?case by (subst rtc_wait_ready.simps) (auto simp: r)
  qed
qed

section \<open>The callbacks' schedule\<close>

text \<open>Callbacks and a keyboard poll that change only the rest of the system's state.\<close>

definition outside :: "(u32 \<Rightarrow> u32 \<Rightarrow> u32 \<Rightarrow> 'w \<Rightarrow> 'w) \<Rightarrow> u32 \<Rightarrow> u32 \<Rightarrow> 'w pit_state \<Rightarrow> 'w pit_state" where
  "outside f c x s = s\<lparr>world := f c x (tick_count s) (world s)\<rparr>"

definition poll_outside :: "('w \<Rightarrow> 'w) \<Rightarrow> 'w pit_state \<Rightarrow> 'w pit_state" where
  "poll_outside g s = s\<lparr>world := g (world s)\<rparr>"

definition due :: "u32 \<Rightarrow> pit_periodic \<Rightarrow> bool" where
  "due t p \<longleftrightarrow> cb p \<noteq> 0 \<and> t \<ge> next_at p"

definition rearm :: "u32 \<Rightarrow> pit_periodic \<Rightarrow> pit_periodic" where
  "rearm t p = (if due t p then p\<lparr>next_at := t + period_ticks p\<rparr> else p)"

definition call_due :: "(u32 \<Rightarrow> u32 \<Rightarrow> u32 \<Rightarrow> 'w \<Rightarrow> 'w) \<Rightarrow> u32 \<Rightarrow> pit_periodic \<Rightarrow> 'w \<Rightarrow> 'w" where
  "call_due f t p w = (if due t p then f (cb p) (cb_ctx p) t w else w)"

lemma fire_slots:
  assumes "k \<le> length (pit_periodics s)"
  shows "fold (fire_slot (outside f)) [0..<k] s =
    s\<lparr>pit_periodics := map (rearm (tick_count s)) (take k (pit_periodics s)) @ drop k (pit_periodics s),
      world := fold (call_due f (tick_count s)) (take k (pit_periodics s)) (world s)\<rparr>"
  using assms
proof (induction k)
  case 0
  then show ?case by simp
next
  case (Suc k)
  let ?p = "pit_periodics s ! k"
  have k: "k < length (pit_periodics s)" using Suc.prems by simp
  have t: "take (Suc k) (pit_periodics s) = take k (pit_periodics s) @ [?p]" "drop k (pit_periodics s) = ?p # drop (Suc k) (pit_periodics s)"
    using k by (simp_all add: take_Suc_conv_app_nth Cons_nth_drop_Suc)
  show ?case using Suc k
    by (auto simp: fire_slot_def Let_def t rearm_def call_due_def due_def outside_def nth_append list_update_append min_def)
qed

lemma pit_tick_outside:
  assumes "length (pit_periodics s) = PIT_PERIODIC_MAX"
  shows "let t = tick_count s + 1; s' = pit_tick (poll_outside g) (outside f) s
    in tick_count s' = t \<and> pit_periodics s' = map (rearm t) (pit_periodics s) \<and>
       world s' = fold (call_due f t) (pit_periodics s) (g (world s))"
  using assms fire_slots [of PIT_PERIODIC_MAX "poll_outside g (let s1 = s\<lparr>tick_count := tick_count s + 1\<rparr>
     in if tick_count s1 mod 5 = 0 then s1\<lparr>bda_ticks := tick_count s1 div 5\<rparr> else s1)" f]
  by (simp add: pit_tick_def poll_outside_def Let_def split: if_splits)

text \<open>
  The schedule of a slot with period \<open>P\<close> whose first call is at \<open>N\<close>: at time \<open>t\<close> the next call is at
  \<open>next_call N P t\<close>, and a call happens at \<open>t\<close> iff \<open>t\<close> is one of \<open>N\<close>, \<open>N + P\<close>, \<open>N + 2 P\<close>, \<open>\<dots>\<close>
\<close>

definition next_call :: "nat \<Rightarrow> nat \<Rightarrow> nat \<Rightarrow> nat" where
  "next_call N P t = (if t < N then N else N + ((t - N) div P + 1) * P)"

definition on_schedule :: "nat \<Rightarrow> nat \<Rightarrow> nat \<Rightarrow> bool" where
  "on_schedule N P t \<longleftrightarrow> N \<le> t \<and> P dvd t - N"

lemma next_call_after: "0 < P \<Longrightarrow> t < next_call N P t"
  using dividend_less_div_times [of P "t - N"] by (auto simp: next_call_def)

lemma next_call_within: "0 < P \<Longrightarrow> next_call N P t \<le> max N (t + P)"
proof -
  have "(t - N) div P * P \<le> t - N" by (rule div_times_less_eq_dividend)
  then have "\<not> t < N \<Longrightarrow> N + (t - N) div P * P \<le> t" by linarith
  then show ?thesis by (cases "t < N") (simp_all add: next_call_def)
qed

lemma next_call_Suc:
  assumes P: "0 < P"
  shows "next_call N P t \<le> Suc t \<longleftrightarrow> on_schedule N P (Suc t)"
    and "next_call N P (Suc t) = (if on_schedule N P (Suc t) then Suc t + P else next_call N P t)"
proof -
  have *: "(next_call N P t \<le> Suc t \<longleftrightarrow> on_schedule N P (Suc t)) \<and>
     next_call N P (Suc t) = (if on_schedule N P (Suc t) then Suc t + P else next_call N P t)"
  proof (cases "t < N")
    case True
    then show ?thesis using P by (cases "Suc t = N") (auto simp: next_call_def on_schedule_def)
  next
    case False
    define d where "d = t - N"
    have t: "t = N + d" using False by (simp add: d_def)
    show ?thesis
    proof (cases "P dvd Suc d")
      case True
      then obtain q where q: "Suc d = P * q" by blast
      then have "d div P + 1 = q"
        using P by (metis Suc_eq_plus1 Suc_diff_1 True div_Suc dvd_imp_mod_0 mod_Suc nonzero_mult_div_cancel_left not_gr_zero q)
      then show ?thesis using q P by (auto simp: next_call_def on_schedule_def t algebra_simps)
    next
      case nd: False
      then have "Suc d div P = d div P" using P by (simp add: div_Suc dvd_eq_mod_eq_0)
      moreover have "d div P * P + P \<noteq> Suc d" using nd by (metis dvd_triv_right mult_Suc add.commute)
      moreover have "d < d div P * P + P" using dividend_less_div_times [OF P, of d] by simp
      ultimately show ?thesis using nd by (auto simp: next_call_def on_schedule_def t algebra_simps)
    qed
  qed
  show "next_call N P t \<le> Suc t \<longleftrightarrow> on_schedule N P (Suc t)"
    "next_call N P (Suc t) = (if on_schedule N P (Suc t) then Suc t + P else next_call N P t)" using * by auto
qed

text \<open>The slot \<open>p\<close> of time \<open>T\<close>, as it stands at a later time \<open>t\<close>.\<close>

definition slot_at :: "nat \<Rightarrow> pit_periodic \<Rightarrow> pit_periodic" where
  "slot_at t p = (if cb p = 0 then p else p\<lparr>next_at := of_nat (next_call (unat (next_at p)) (unat (period_ticks p)) t)\<rparr>)"

definition slot_calls :: "nat \<Rightarrow> pit_periodic \<Rightarrow> bool" where
  "slot_calls t p \<longleftrightarrow> cb p \<noteq> 0 \<and> on_schedule (unat (next_at p)) (unat (period_ticks p)) t"

lemma slot_step:
  assumes P: "period_ticks p \<noteq> 0" and fit: "Suc t + unat (period_ticks p) < 4294967296"
  shows "due (of_nat (Suc t)) (slot_at t p) \<longleftrightarrow> slot_calls (Suc t) p"
    and "rearm (of_nat (Suc t)) (slot_at t p) = slot_at (Suc t) p"
proof -
  let ?P = "unat (period_ticks p)" and ?N = "unat (next_at p)"
  have P0: "0 < ?P" using P by (simp add: unat_gt_0)
  have "next_call ?N ?P t \<le> max ?N (t + ?P)" by (rule next_call_within [OF P0])
  moreover have "t + ?P < 4294967296" using fit by simp
  ultimately have b: "next_call ?N ?P t < 4294967296" using unat_u32_bound [of "next_at p"] by linarith
  have le: "of_nat (next_call ?N ?P t) \<le> (of_nat (Suc t) :: u32) \<longleftrightarrow> on_schedule ?N ?P (Suc t)"
    unfolding word_le_nat_alt using b fit by (simp only: unat_of_nat_u32 next_call_Suc(1) [OF P0] add_lessD1)
  show d: "due (of_nat (Suc t)) (slot_at t p) \<longleftrightarrow> slot_calls (Suc t) p"
    using le by (auto simp: due_def slot_at_def slot_calls_def)
  have "of_nat (Suc t) + period_ticks p = (of_nat (Suc t + ?P) :: u32)" by simp
  then show "rearm (of_nat (Suc t)) (slot_at t p) = slot_at (Suc t) p"
    unfolding rearm_def d using next_call_Suc(2) [OF P0, of ?N t] by (auto simp: slot_at_def slot_calls_def simp del: of_nat_Suc)
qed

lemma ticks_outside:
  assumes len: "length (pit_periodics s) = PIT_PERIODIC_MAX"
    and later: "\<forall>p \<in> set (pit_periodics s). cb p \<noteq> 0 \<longrightarrow> period_ticks p \<noteq> 0 \<and> tick_count s < next_at p"
    and fit: "\<forall>p \<in> set (pit_periodics s). cb p \<noteq> 0 \<longrightarrow> unat (tick_count s) + n + unat (period_ticks p) < 4294967296"
    and fit0: "unat (tick_count s) + n < 4294967296"
  defines "T \<equiv> unat (tick_count s)"
  shows "let s' = (pit_tick (poll_outside g) (outside f) ^^ n) s
    in tick_count s' = of_nat (T + n) \<and> pit_periodics s' = map (slot_at (T + n)) (pit_periodics s) \<and>
       world s' = fold (\<lambda>t w. fold (\<lambda>p w. if slot_calls t p then f (cb p) (cb_ctx p) (of_nat t) w else w) (pit_periodics s) (g w))
         [Suc T..<Suc (T + n)] (world s)"
  using fit fit0
proof (induction n)
  case 0
  have "slot_at T p = p" if "p \<in> set (pit_periodics s)" for p
    using later that by (auto simp: slot_at_def next_call_def T_def word_less_nat_alt)
  then show ?case by (simp add: T_def map_idI)
next
  case (Suc n)
  define s1 where "s1 = (pit_tick (poll_outside g) (outside f) ^^ n) s"
  define s2 where "s2 = pit_tick (poll_outside g) (outside f) s1"
  have f1: "\<forall>p \<in> set (pit_periodics s). cb p \<noteq> 0 \<longrightarrow> unat (tick_count s) + n + unat (period_ticks p) < 4294967296"
    using Suc.prems(1) by fastforce
  have f2: "unat (tick_count s) + n < 4294967296" using Suc.prems(2) by simp
  have IH: "tick_count s1 = of_nat (T + n)" "pit_periodics s1 = map (slot_at (T + n)) (pit_periodics s)"
    "world s1 = fold (\<lambda>t w. fold (\<lambda>p w. if slot_calls t p then f (cb p) (cb_ctx p) (of_nat t) w else w) (pit_periodics s) (g w))
         [Suc T..<Suc (T + n)] (world s)"
    using Suc.IH [OF f1 f2, unfolded Let_def, folded s1_def] by blast+
  have t: "tick_count s1 + 1 = of_nat (Suc (T + n))" using IH(1) by simp
  have step: "due (of_nat (Suc (T + n))) (slot_at (T + n) p) \<longleftrightarrow> slot_calls (Suc (T + n)) p"
    "rearm (of_nat (Suc (T + n))) (slot_at (T + n) p) = slot_at (Suc (T + n)) p" if "p \<in> set (pit_periodics s)" for p
  proof -
    have "cb p = 0 \<or> period_ticks p \<noteq> 0 \<and> Suc (T + n) + unat (period_ticks p) < 4294967296"
      using that later Suc.prems(1) by (auto simp: T_def)
    then show "due (of_nat (Suc (T + n))) (slot_at (T + n) p) \<longleftrightarrow> slot_calls (Suc (T + n)) p"
      "rearm (of_nat (Suc (T + n))) (slot_at (T + n) p) = slot_at (Suc (T + n)) p"
      using slot_step [of p "T + n"] by (auto simp: due_def slot_at_def slot_calls_def rearm_def)
  qed
  have calls: "call_due f (of_nat (Suc (T + n))) (slot_at (T + n) p) w =
     (if slot_calls (Suc (T + n)) p then f (cb p) (cb_ctx p) (of_nat (Suc (T + n))) w else w)" if "p \<in> set (pit_periodics s)" for p w
    using step(1) [OF that] by (auto simp: call_due_def slot_at_def)
  from pit_tick_outside [of s1 g f] IH(2) len
  have 2: "tick_count s2 = of_nat (Suc (T + n))" "pit_periodics s2 = map (rearm (of_nat (Suc (T + n)))) (pit_periodics s1)"
    "world s2 = fold (call_due f (of_nat (Suc (T + n)))) (pit_periodics s1) (g (world s1))"
    by (simp_all add: Let_def s2_def t del: of_nat_Suc)
  have "pit_periodics s2 = map (slot_at (Suc (T + n))) (pit_periodics s)" using 2(2) IH(2) step(2) by simp
  moreover have "world s2 = fold (\<lambda>p w. if slot_calls (Suc (T + n)) p then f (cb p) (cb_ctx p) (of_nat (Suc (T + n))) w else w)
      (pit_periodics s) (g (world s1))"
    unfolding 2(3) IH(2) fold_map comp_def using calls by (intro fold_cong) auto
  ultimately show ?case using 2(1) IH(3) by (simp add: s2_def s1_def Let_def del: of_nat_Suc)
qed

section \<open>Delays and the watchdog\<close>

lemma delay_loop_returns:
  assumes tick: "\<And>s. tick_count (hlt s) = tick_count s + 1" and d: "tick_count s - start = d" "d \<le> ticks"
  shows "\<exists>s'. delay_loop hlt start ticks s = Some s' \<and> tick_count s' = start + ticks"
  using d
proof (induction "unat (ticks - d)" arbitrary: s d)
  case 0
  then have "ticks = d" by (metis eq_iff_diff_eq_0 unat_eq_zero)
  then show ?case using 0 by (subst delay_loop.simps) (auto simp: algebra_simps)
next
  case (Suc k)
  then have "d \<noteq> ticks" by auto
  then have lt: "d < ticks" using Suc.prems by simp
  have d1: "tick_count (hlt s) - start = d + 1" using Suc.prems tick [of s] by (simp add: algebra_simps)
  have le: "d + 1 \<le> ticks" using lt by (rule inc_le)
  have "unat (ticks - (d + 1)) = k"
  proof -
    have "ticks - (d + 1) = ticks - d - 1" by (simp add: algebra_simps)
    moreover have "ticks - d \<noteq> 0" using lt by auto
    ultimately show ?thesis using Suc.hyps(2) by (metis diff_Suc_1 unat_minus_one)
  qed
  then have "\<exists>s'. delay_loop hlt start ticks (hlt s) = Some s' \<and> tick_count s' = start + ticks"
    using Suc.hyps(1) [of "d + 1" "hlt s"] d1 le by simp
  then show ?case using lt Suc.prems by (subst delay_loop.simps) simp
qed

text \<open>
  When every halt lasts one tick, a delay returns after exactly the ticks of the interval rounded up, unless the
  rounding wraps: for the nine largest arguments the delay is none at all.
\<close>

lemma pit_delay_ms_exact:
  assumes "\<And>s. tick_count (hlt s) = tick_count s + 1"
  shows "\<exists>s'. pit_delay_ms hlt ms s = Some s' \<and> tick_count s' = tick_count s + (ms + 9) div 10"
  unfolding pit_delay_ms_def using assms by (intro delay_loop_returns [where d = 0]) simp_all

lemma ticks_of_ms_exact: "unat ms + 9 < 4294967296 \<Longrightarrow> ms \<noteq> 0 \<Longrightarrow> unat (ticks_of_ms ms) = (unat ms + 9) div 10"
proof -
  assume a: "unat ms + 9 < 4294967296" "ms \<noteq> 0"
  have "unat (ms + 9) = unat ms + 9" using a unat_plus_small [of ms 9] by simp
  then have "unat ((ms + 9) div 10) = (unat ms + 9) div 10" by (simp add: unat_div_u32)
  moreover have "unat ms > 0" using a(2) by (simp add: unat_gt_0)
  then have "(unat ms + 9) div 10 \<noteq> 0" by simp
  ultimately show ?thesis by (auto simp: ticks_of_ms_def Let_def)
qed

lemma ticks_of_ms_wraps: "ticks_of_ms 0xFFFFFFFF = 1" by (simp add: ticks_of_ms_def)

lemma paint_range_keeps:
  "g_last_stage (paint_range c e t s) = g_last_stage s \<and> g_last_tick (paint_range c e t s) = g_last_tick s \<and>
   g_watchdog_budget (paint_range c e t s) = g_watchdog_budget s \<and> g_watchdog_armed (paint_range c e t s) = g_watchdog_armed s \<and>
   rtc_ticks (paint_range c e t s) = rtc_ticks s \<and> panics (paint_range c e t s) = panics s \<and>
   length (row24 (paint_range c e t s)) = length (row24 s)"
  by (induction c e t s rule: paint_range.induct)
    (subst (1 2 3 4 5 6 7) paint_range.simps, auto simp: cell_put_def split: list.splits)

lemma paint_range_cells:
  "e \<le> length (row24 s) \<Longrightarrow> i < length (row24 s) \<Longrightarrow>
     row24 (paint_range c e t s) ! i =
       (if c \<le> i \<and> i < e then push_bit 8 0x1E OR ucast (if i - c < length t then t ! (i - c) else 32) else row24 s ! i)"
proof (induction c e t s rule: paint_range.induct)
  case (1 c e t s)
  show ?case
  proof (cases "c < e")
    case False
    then show ?thesis by (subst paint_range.simps) auto
  next
    case True
    show ?thesis
    proof (cases t)
      case Nil
      then show ?thesis using 1 True by (subst paint_range.simps) (auto simp: cell_put_def nth_list_update)
    next
      case (Cons a as)
      then show ?thesis using 1 True
        by (subst paint_range.simps) (auto simp: cell_put_def nth_list_update nth_Cons' Suc_diff_le)
    qed
  qed
qed

text \<open>
  The watchdog, over the interrupts of the clock: armed for \<open>S\<close> seconds and with no heartbeat, it panics exactly once, at
  interrupt \<open>8192 * S + 1\<close>, naming the last stage.
\<close>

definition rtc_tick :: "klog \<Rightarrow> klog" where
  "rtc_tick k = klog_watchdog_check (k\<lparr>rtc_ticks := rtc_ticks k + 1\<rparr>)"

lemma rtc_irq_handler_tick: "fst (rtc_irq_handler dev (k, c)) = rtc_tick k"
  by (simp add: rtc_irq_handler_def rtc_tick_def)

lemma watchdog_budget: "unat (ucast (S :: u32) * RTC_HZ) = unat S * 8192"
proof -
  have "unat S < 2 ^ 64" by (rule order_less_trans [OF unat_u32_bound]) simp
  then have "unat (ucast S :: u64) = unat S" by (simp add: unsigned_ucast_eq take_bit_nat_eq_self)
  moreover have "unat S < 2251799813685248" by (rule order_less_trans [OF unat_u32_bound]) simp
  then have "unat S * 8192 < 2 ^ 64" by simp
  ultimately show ?thesis by (simp add: RTC_HZ_def unat_word_ariths)
qed

lemma watchdog_fires:
  fixes S :: u32 and k :: klog
  assumes n: "n < 2 ^ 64"
  defines "k0 \<equiv> klog_watchdog_arm S k"
  shows "panics ((rtc_tick ^^ n) k0) = (if n > unat S * 8192 then [g_last_stage k] else []) @ panics k"
proof -
  have inv: "rtc_ticks ((rtc_tick ^^ m) k0) = rtc_ticks k + of_nat m \<and> g_last_tick ((rtc_tick ^^ m) k0) = rtc_ticks k \<and>
      g_last_stage ((rtc_tick ^^ m) k0) = g_last_stage k \<and> g_watchdog_budget ((rtc_tick ^^ m) k0) = ucast S * RTC_HZ \<and>
      g_watchdog_armed ((rtc_tick ^^ m) k0) = (m \<le> unat S * 8192) \<and>
      panics ((rtc_tick ^^ m) k0) = (if m > unat S * 8192 then [g_last_stage k] else []) @ panics k" if "m < 2 ^ 64" for m
    using that
  proof (induction m)
    case 0
    then show ?case by (simp add: k0_def klog_watchdog_arm_def)
  next
    case (Suc m)
    define k1 where "k1 = (rtc_tick ^^ m) k0"
    have IH: "rtc_ticks k1 = rtc_ticks k + of_nat m" "g_last_tick k1 = rtc_ticks k" "g_last_stage k1 = g_last_stage k"
      "g_watchdog_budget k1 = ucast S * RTC_HZ" "g_watchdog_armed k1 = (m \<le> unat S * 8192)"
      "panics k1 = (if m > unat S * 8192 then [g_last_stage k] else []) @ panics k"
      using Suc by (auto simp: k1_def)
    have u: "unat (of_nat (Suc m) :: u64) = Suc m" using Suc.prems by (intro unat_of_nat_small) simp
    have "(rtc_ticks k1 + 1 - g_last_tick k1 > g_watchdog_budget k1) \<longleftrightarrow> unat S * 8192 < Suc m"
      unfolding word_less_nat_alt IH(1,2,4) watchdog_budget using u by (simp add: algebra_simps)
    then have "(rtc_tick ^^ Suc m) k0 = (if g_watchdog_armed k1 \<and> unat S * 8192 < Suc m
       then k1\<lparr>rtc_ticks := rtc_ticks k1 + 1, g_watchdog_armed := False, panics := g_last_stage k1 # panics k1\<rparr>
       else k1\<lparr>rtc_ticks := rtc_ticks k1 + 1\<rparr>)"
      by (auto simp: rtc_tick_def klog_watchdog_check_def k1_def [symmetric])
    then show ?case using IH by auto
  qed
  from inv [OF n] show ?thesis by blast
qed

section \<open>Properties\<close>

text \<open>
  \<open>hz_to_rate\<close> agrees with its reference: for every requested frequency it is the first divider from 3 to 15, so the
  highest frequency \<open>32768 >> (rate - 1)\<close> of the chip, that does not exceed the request, and 15 when all do.
\<close>

theorem hz_to_rate_equiv:
  "unat (hz_to_rate hz) = the (find (\<lambda>r. drop_bit (r - 1) 32768 \<le> unat hz \<or> r = 15) [3..<16])"
  by (simp only: hz_reference option.sel)

text \<open>
  C38. Whatever is registered on the timer, over the next \<open>n\<close> ticks, while the tick counter does not wrap, the callbacks that run
  are exactly the registered ones at their times: a slot with period \<open>P\<close> and next call at \<open>N\<close> runs at \<open>N\<close>, \<open>N + P\<close>,
  \<open>N + 2 P\<close> and at no other tick, slots in table order within a tick and after the keyboard poll. Callbacks and poll may
  do anything to the rest of the system.
\<close>

theorem pit_callbacks_on_schedule:
  assumes "length (pit_periodics s) = PIT_PERIODIC_MAX"
    and "\<forall>p \<in> set (pit_periodics s). cb p \<noteq> 0 \<longrightarrow> period_ticks p \<noteq> 0 \<and> tick_count s < next_at p"
    and "\<forall>p \<in> set (pit_periodics s). cb p \<noteq> 0 \<longrightarrow> unat (tick_count s) + n + unat (period_ticks p) < 4294967296"
    and "unat (tick_count s) + n < 4294967296"
  shows "world ((pit_tick (poll_outside g) (outside f) ^^ n) s) =
    fold (\<lambda>t w. fold (\<lambda>p w. if cb p \<noteq> 0 \<and> unat (next_at p) \<le> t \<and> unat (period_ticks p) dvd t - unat (next_at p)
                           then f (cb p) (cb_ctx p) (of_nat t) w else w) (pit_periodics s) (g w))
      [Suc (unat (tick_count s))..<Suc (unat (tick_count s) + n)] (world s)"
  using ticks_outside [OF assms, of g f] by (simp only: Let_def slot_calls_def on_schedule_def)

definition pit_demo :: "(u32 \<times> u32) list pit_state" where
  "pit_demo = \<lparr>tick_count = 0, pit_periodics = replicate 8 no_periodic, bda_ticks = 0, pit_ctl = demo_pic, world = []\<rparr>"

theorem pit_callbacks_on_schedule_witness:
  "world ((pit_tick (poll_outside id) (outside (\<lambda>c x t w. w @ [(c, t)])) ^^ 6)
     (snd (pit_register_periodic 15 7 0 (snd (pit_register_periodic 30 9 0 pit_demo))))) =
   [(7, 2), (9, 3), (7, 4), (9, 6), (7, 6)]"
proof -
  let ?s = "snd (pit_register_periodic 15 7 0 (snd (pit_register_periodic 30 9 0 pit_demo)))"
  have s: "?s = \<lparr>tick_count = 0, pit_periodics = [\<lparr>cb = 9, cb_ctx = 0, period_ticks = 3, next_at = 3\<rparr>,
      \<lparr>cb = 7, cb_ctx = 0, period_ticks = 2, next_at = 2\<rparr>] @ replicate 6 no_periodic, bda_ticks = 0, pit_ctl = demo_pic, world = []\<rparr>"
    by code_simp
  have u: "[Suc 0..<7] = [1, 2, 3, 4, 5, 6]" by (simp add: upt_rec)
  have r: "replicate 6 no_periodic = [no_periodic, no_periodic, no_periodic, no_periodic, no_periodic, no_periodic]"
    by (simp add: numeral_eq_Suc)
  show ?thesis unfolding s r
    by (subst pit_callbacks_on_schedule) (simp_all add: PIT_PERIODIC_MAX_def r no_periodic_def u del: fold_replicate)
qed
end
