(* ===== verification/Net.thy ===== *)
theory Net
  imports Irq
begin

text \<open>
  Sockets: the kernel side of src/src/kernel/net.c (active provider, descriptor table, resolver, system-call dispatch)
  over an arbitrary provider, the record of operations of src/src/include/net.h. A cookie is a number, 0 is the null
  pointer. A pointer argument a provider only reads is the memory from there on (an option where the callee tests it for null),
  one it writes is the list of bytes it wrote; \<open>'w\<close> is the provider's state.
\<close>

section \<open>Errors and constants\<close>

definition PCNET_OK :: int where "PCNET_OK = 0"
definition PCNET_EBADF :: int where "PCNET_EBADF = -9"
definition PCNET_EAGAIN :: int where "PCNET_EAGAIN = -11"
definition PCNET_EINVAL :: int where "PCNET_EINVAL = -22"
definition PCNET_EMFILE :: int where "PCNET_EMFILE = -24"
definition PCNET_ENOSYS :: int where "PCNET_ENOSYS = -38"
definition PCNET_EOPNOTSUPP :: int where "PCNET_EOPNOTSUPP = -95"
definition PCNET_EADDRINUSE :: int where "PCNET_EADDRINUSE = -98"
definition PCNET_ENETDOWN :: int where "PCNET_ENETDOWN = -100"
definition PCNET_ECONNRESET :: int where "PCNET_ECONNRESET = -104"
definition PCNET_EISCONN :: int where "PCNET_EISCONN = -106"
definition PCNET_ENOTCONN :: int where "PCNET_ENOTCONN = -107"
definition PCNET_ETIMEDOUT :: int where "PCNET_ETIMEDOUT = -110"
definition PCNET_ECONNREFUSED :: int where "PCNET_ECONNREFUSED = -111"
definition PCNET_EHOSTUNREACH :: int where "PCNET_EHOSTUNREACH = -113"
definition PCNET_ENOPROVIDER :: int where "PCNET_ENOPROVIDER = -200"

lemmas pcnet_errors = PCNET_OK_def PCNET_EBADF_def PCNET_EAGAIN_def PCNET_EINVAL_def PCNET_EMFILE_def PCNET_ENOSYS_def
  PCNET_EOPNOTSUPP_def PCNET_EADDRINUSE_def PCNET_ENETDOWN_def PCNET_ECONNRESET_def PCNET_EISCONN_def PCNET_ENOTCONN_def
  PCNET_ETIMEDOUT_def PCNET_ECONNREFUSED_def PCNET_EHOSTUNREACH_def PCNET_ENOPROVIDER_def

definition PCNET_FD_SETSIZE :: nat where "PCNET_FD_SETSIZE = 1024"
definition AF_INET :: int where "AF_INET = 2"
definition SOCK_STREAM :: int where "SOCK_STREAM = 1"
definition SOCK_DGRAM :: int where "SOCK_DGRAM = 2"
definition PCNET_POLL_RD :: int where "PCNET_POLL_RD = 1"
definition PCNET_POLL_WR :: int where "PCNET_POLL_WR = 2"
definition PCNET_POLL_EX :: int where "PCNET_POLL_EX = 4"

section \<open>Providers\<close>

type_synonym in_ptr = "(nat \<Rightarrow> u8) option"

text \<open>What a naming call leaves behind its two out pointers: the address bytes and the new length, if it stores them.\<close>

type_synonym name_out = "u8 list \<times> int option"

record 'w net_provider_ops =
  start :: "('w \<Rightarrow> int \<times> 'w) option"
  stop :: "('w \<Rightarrow> 'w) option"
  sock_create :: "(int \<Rightarrow> int \<Rightarrow> int \<Rightarrow> 'w \<Rightarrow> (int \<times> nat) \<times> 'w) option"
  sock_close :: "(nat \<Rightarrow> 'w \<Rightarrow> int \<times> 'w) option"
  sock_shutdown :: "(nat \<Rightarrow> int \<Rightarrow> 'w \<Rightarrow> int \<times> 'w) option"
  sock_bind :: "(nat \<Rightarrow> in_ptr \<Rightarrow> int \<Rightarrow> 'w \<Rightarrow> int \<times> 'w) option"
  sock_connect :: "(nat \<Rightarrow> in_ptr \<Rightarrow> int \<Rightarrow> 'w \<Rightarrow> int \<times> 'w) option"
  sock_listen :: "(nat \<Rightarrow> int \<Rightarrow> 'w \<Rightarrow> int \<times> 'w) option"
  sock_accept :: "(nat \<Rightarrow> bool \<Rightarrow> int option \<Rightarrow> 'w \<Rightarrow> (int \<times> nat \<times> name_out) \<times> 'w) option"
  sock_getsockname :: "(nat \<Rightarrow> bool \<Rightarrow> int option \<Rightarrow> 'w \<Rightarrow> (int \<times> name_out) \<times> 'w) option"
  sock_getpeername :: "(nat \<Rightarrow> bool \<Rightarrow> int option \<Rightarrow> 'w \<Rightarrow> (int \<times> name_out) \<times> 'w) option"
  sock_send :: "(nat \<Rightarrow> (nat \<Rightarrow> u8) \<Rightarrow> u32 \<Rightarrow> int \<Rightarrow> 'w \<Rightarrow> int \<times> 'w) option"
  sock_recv :: "(nat \<Rightarrow> u32 \<Rightarrow> int \<Rightarrow> 'w \<Rightarrow> (int \<times> u8 list) \<times> 'w) option"
  sock_sendto :: "(nat \<Rightarrow> in_ptr \<Rightarrow> u32 \<Rightarrow> int \<Rightarrow> in_ptr \<Rightarrow> int \<Rightarrow> 'w \<Rightarrow> int \<times> 'w) option"
  sock_recvfrom :: "(nat \<Rightarrow> u32 \<Rightarrow> int \<Rightarrow> bool \<Rightarrow> int option \<Rightarrow> 'w \<Rightarrow> (int \<times> u8 list \<times> name_out) \<times> 'w) option"
  sock_poll :: "(nat \<Rightarrow> 'w \<Rightarrow> int \<times> 'w) option"
  sock_setsockopt :: "(nat \<Rightarrow> int \<Rightarrow> int \<Rightarrow> in_ptr \<Rightarrow> int \<Rightarrow> 'w \<Rightarrow> int \<times> 'w) option"
  sock_getsockopt :: "(nat \<Rightarrow> int \<Rightarrow> int \<Rightarrow> bool \<Rightarrow> int option \<Rightarrow> 'w \<Rightarrow> (int \<times> name_out) \<times> 'w) option"

text \<open>\<open>self\<close> is the address of the descriptor, which registration compares; the display fields are left out.\<close>

record 'w net_provider =
  self :: u32
  abi_version :: nat
  p_ops :: "'w net_provider_ops option"

section \<open>The descriptor table\<close>

record fd_entry =
  fd_in_use :: bool
  cookie :: nat

text \<open>
  \<open>now\<close> is the timer's tick counter, \<open>umem\<close> the caller's memory by linear address, \<open>g_resolve_seq\<close> the static counter of
  \<open>net_resolve\<close>.
\<close>

record 'w net_state =
  g_active :: "'w net_provider option"
  g_fdtab :: "fd_entry list"
  prov :: 'w
  umem :: "u32 \<Rightarrow> u8"
  now :: u64
  g_resolve_seq :: u32

definition free_fd :: fd_entry where "free_fd = \<lparr>fd_in_use = False, cookie = 0\<rparr>"

definition fd_alloc :: "nat \<Rightarrow> 'w net_state \<Rightarrow> int \<times> 'w net_state" where
  "fd_alloc c s =
     (case find_slot (\<lambda>e. \<not> fd_in_use e) (g_fdtab s) of
        None \<Rightarrow> (PCNET_EMFILE, s)
      | Some i \<Rightarrow> (int i, s\<lparr>g_fdtab := (g_fdtab s)[i := \<lparr>fd_in_use = True, cookie = c\<rparr>]\<rparr>))"

definition fd_free :: "int \<Rightarrow> 'w net_state \<Rightarrow> 'w net_state" where
  "fd_free fd s = (if fd \<ge> 0 \<and> fd < int PCNET_FD_SETSIZE then s\<lparr>g_fdtab := (g_fdtab s)[nat fd := free_fd]\<rparr> else s)"

definition fd_lookup :: "int \<Rightarrow> 'w net_state \<Rightarrow> nat option" where
  "fd_lookup fd s =
     (if fd < 0 \<or> fd \<ge> int PCNET_FD_SETSIZE then None
      else if \<not> fd_in_use (g_fdtab s ! nat fd) then None
      else Some (cookie (g_fdtab s ! nat fd)))"

section \<open>Registration\<close>

definition net_active_provider :: "'w net_state \<Rightarrow> 'w net_provider option" where
  "net_active_provider s = g_active s"

definition net_register_provider :: "'w net_provider option \<Rightarrow> 'w net_state \<Rightarrow> int \<times> 'w net_state" where
  "net_register_provider p s =
     (case p of None \<Rightarrow> (PCNET_EINVAL, s) | Some pr \<Rightarrow>
      case p_ops pr of None \<Rightarrow> (PCNET_EINVAL, s) | Some vt \<Rightarrow>
        if abi_version pr \<noteq> 1 then (PCNET_EINVAL, s)
        else if g_active s \<noteq> None then (PCNET_EADDRINUSE, s)
        else case start vt of
          None \<Rightarrow> (PCNET_OK, s\<lparr>g_active := Some pr\<rparr>)
        | Some f \<Rightarrow> (case f (prov s) of (rc, w) \<Rightarrow>
            if rc < 0 then (rc, s\<lparr>prov := w\<rparr>) else (PCNET_OK, s\<lparr>prov := w, g_active := Some pr\<rparr>)))"

definition close_with :: "'w net_provider_ops \<Rightarrow> nat \<Rightarrow> 'w \<Rightarrow> 'w" where
  "close_with vt c w = (case sock_close vt of None \<Rightarrow> w | Some f \<Rightarrow> snd (f c w))"

definition net_unregister_provider :: "u32 \<Rightarrow> 'w net_state \<Rightarrow> 'w net_state" where
  "net_unregister_provider p s =
     (case g_active s of None \<Rightarrow> s | Some pr \<Rightarrow>
      if self pr \<noteq> p then s
      else case p_ops pr of None \<Rightarrow> s | Some vt \<Rightarrow>
        let w1 = fold (\<lambda>e w. if fd_in_use e then close_with vt (cookie e) w else w) (g_fdtab s) (prov s);
            tab = map (\<lambda>e. if fd_in_use e then free_fd else e) (g_fdtab s);
            w2 = (case stop vt of None \<Rightarrow> w1 | Some f \<Rightarrow> f w1)
        in s\<lparr>prov := w2, g_fdtab := tab, g_active := None\<rparr>)"

section \<open>DNS messages\<close>

definition DNS_HDR_LEN :: nat where "DNS_HDR_LEN = 12"
definition DNS_MAX_NAME :: nat where "DNS_MAX_NAME = 255"
definition DNS_MAX_PKT :: nat where "DNS_MAX_PKT = 512"
definition DNS_TIMEOUT_TICKS :: u64 where "DNS_TIMEOUT_TICKS = 500"

definition wbe16 :: "u16 \<Rightarrow> u8 list" where "wbe16 v = [ucast (drop_bit 8 v), ucast v]"

definition rbe16 :: "u8 list \<Rightarrow> nat \<Rightarrow> nat" where "rbe16 b i = unat (b ! i) * 256 + unat (b ! (i + 1))"

text \<open>The labels of a name: what the loop appends from position \<open>pos\<close> on, with the terminator.\<close>

function encode_labels :: "u8 list \<Rightarrow> nat \<Rightarrow> nat \<Rightarrow> u8 list option" where
  "encode_labels p pos mx =
     (if p = [] then Some [0]
      else let label = takeWhile (\<lambda>c. c \<noteq> 46) p; n = length label; dot = drop n p
           in if n = 0 \<or> n > 63 then None
              else if pos + 1 + n + 1 > mx then None
              else if dot \<noteq> [] \<and> tl dot = [] then None
              else map_option (\<lambda>r. of_nat n # label @ r) (encode_labels (tl dot) (pos + 1 + n) mx))"
  by auto
termination
  by (relation "measure (\<lambda>(p, pos, mx). length p)") (auto simp: Let_def)

declare encode_labels.simps [simp del]

definition dns_encode_qname :: "u8 list option \<Rightarrow> nat \<Rightarrow> u8 list option" where
  "dns_encode_qname host mx =
     (case host of None \<Rightarrow> None | Some h \<Rightarrow>
      if h = [] then None
      else case encode_labels h 0 mx of None \<Rightarrow> None | Some out \<Rightarrow> if length out > DNS_MAX_NAME + 1 then None else Some out)"

text \<open>Stepping over a name; \<open>steps\<close> are the labels so far.\<close>

function skip_name :: "u8 list \<Rightarrow> nat \<Rightarrow> nat \<Rightarrow> nat \<Rightarrow> nat option" where
  "skip_name buf buflen pos steps =
     (if pos \<ge> buflen then None
      else if steps + 1 > DNS_MAX_NAME then None
      else let len = buf ! pos
           in if len = 0 then Some (pos + 1)
              else if len AND 0xC0 = 0xC0 then (if pos + 2 > buflen then None else Some (pos + 2))
              else if len > 63 then None
              else if pos + 1 + unat len > buflen then None
              else skip_name buf buflen (pos + 1 + unat len) (steps + 1))"
  by auto
termination
  by (relation "measure (\<lambda>(buf, buflen, pos, steps). DNS_MAX_NAME - steps)") (auto simp: Let_def)

declare skip_name.simps [simp del]

definition dns_skip_name :: "u8 list \<Rightarrow> nat \<Rightarrow> nat \<Rightarrow> nat option" where
  "dns_skip_name buf buflen pos = skip_name buf buflen pos 0"

text \<open>The comparison of the question sent with the one received: whether they differ before the terminator.\<close>

function echo_mismatch :: "u8 list \<Rightarrow> nat \<Rightarrow> u8 list \<Rightarrow> nat \<Rightarrow> nat \<Rightarrow> bool" where
  "echo_mismatch q qlen r rlen pos =
     (if pos < qlen - 4 \<and> pos < rlen
      then if q ! pos \<noteq> r ! pos then True else if q ! pos = 0 then False else echo_mismatch q qlen r rlen (pos + 1)
      else False)"
  by auto
termination by (relation "measure (\<lambda>(q, qlen, r, rlen, pos). rlen - pos)") auto

declare echo_mismatch.simps [simp del]

text \<open>The answer section: the address of the first A record.\<close>

fun find_a_record :: "u8 list \<Rightarrow> nat \<Rightarrow> nat \<Rightarrow> nat \<Rightarrow> u8 list option" where
  "find_a_record r rlen p 0 = None"
| "find_a_record r rlen p (Suc ancount) =
     (case dns_skip_name r rlen p of None \<Rightarrow> None | Some p1 \<Rightarrow>
      if p1 + 10 > rlen then None
      else let type = rbe16 r p1; cls = rbe16 r (p1 + 2); rdlen = rbe16 r (p1 + 8); p2 = p1 + 10
           in if p2 + rdlen > rlen then None
              else if type = 1 \<and> cls = 1 \<and> rdlen = 4 then Some (take 4 (drop p2 r))
              else find_a_record r rlen (p2 + rdlen) ancount)"

text \<open>What the resolver does with a datagram of at least 12 bytes from the right address and port.\<close>

datatype dns_verdict = Keep_waiting | Answer "u8 list" | Unreachable

definition dns_reply :: "u8 list \<Rightarrow> nat \<Rightarrow> u16 \<Rightarrow> u8 list \<Rightarrow> nat \<Rightarrow> dns_verdict" where
  "dns_reply q qlen txid r rlen =
     (if rbe16 r 0 \<noteq> unat txid then Keep_waiting
      else if echo_mismatch q qlen r rlen DNS_HDR_LEN then Keep_waiting
      else if (r ! 2) AND 0x80 = 0 then Unreachable
      else if (r ! 3) AND 0x0F \<noteq> 0 then Unreachable
      else if rbe16 r 6 = 0 then Unreachable
      else case dns_skip_name r rlen DNS_HDR_LEN of None \<Rightarrow> Unreachable | Some p \<Rightarrow>
        if p + 4 > rlen then Unreachable
        else case find_a_record r rlen (p + 4) (rbe16 r 6) of None \<Rightarrow> Unreachable | Some a \<Rightarrow> Answer a)"


section \<open>The resolver\<close>

definition dns_header :: "u16 \<Rightarrow> u8 list" where
  "dns_header txid = wbe16 txid @ wbe16 0x0100 @ wbe16 1 @ replicate 6 0"

definition dns_query :: "u16 \<Rightarrow> u8 list \<Rightarrow> u8 list" where
  "dns_query txid qname = dns_header txid @ qname @ wbe16 1 @ wbe16 1"

definition word_bytes :: "u32 \<Rightarrow> u8 list" where
  "word_bytes v = [ucast v, ucast (drop_bit 8 v), ucast (drop_bit 16 v), ucast (drop_bit 24 v)]"

text \<open>\<open>struct sockaddr_in\<close> for a server: family 2, port 53 in network order, the address as configured.\<close>

definition dns_server_addr :: "u32 \<Rightarrow> u8 list" where
  "dns_server_addr ip = [2, 0, 0, 53] @ word_bytes ip @ replicate 8 0"

definition next_seq :: "u32 \<Rightarrow> u32" where "next_seq x = x * 1103515245 + 12345"

definition dns_txid :: "u32 \<Rightarrow> u64 \<Rightarrow> nat \<Rightarrow> u16" where
  "dns_txid sq t attempt = ucast (sq XOR drop_bit 16 sq XOR ucast (ucast (t + of_nat attempt) :: u16))"

text \<open>
  Waiting for the reply. \<open>intr\<close> is what interrupts do to the kernel between two rounds of the loop. The result is the
  verdict, \<open>None\<close> when the loop ends at the deadline or on a poll error; not returning is the outer \<open>None\<close>.
\<close>

partial_function (option) dns_wait ::
  "('w net_state \<Rightarrow> 'w net_state) \<Rightarrow> (nat \<Rightarrow> 'w \<Rightarrow> int \<times> 'w) \<Rightarrow>
   (nat \<Rightarrow> u32 \<Rightarrow> int \<Rightarrow> bool \<Rightarrow> int option \<Rightarrow> 'w \<Rightarrow> (int \<times> u8 list \<times> name_out) \<times> 'w) \<Rightarrow>
   nat \<Rightarrow> u8 list \<Rightarrow> u8 list \<Rightarrow> u16 \<Rightarrow> u64 \<Rightarrow> u8 list \<Rightarrow> 'w net_state \<Rightarrow> (dns_verdict option \<times> 'w net_state) option" where
  "dns_wait intr poll recvfrom c sa q txid deadline r s =
     (if \<not> now s < deadline then Some (None, s)
      else case poll c (prov s) of (got, w) \<Rightarrow>
        let s1 = s\<lparr>prov := w\<rparr>
        in if got < 0 then Some (None, s1)
           else if and got PCNET_POLL_RD = 0 then dns_wait intr poll recvfrom c sa q txid deadline r (intr s1)
           else case recvfrom c (of_nat DNS_MAX_PKT) 0 True (Some 16) w of ((rlen, data, nm), w2) \<Rightarrow>
             let s2 = s1\<lparr>prov := w2\<rparr>;
                 r2 = data @ drop (length data) r;
                 from = fst nm @ drop (length (fst nm)) (replicate 16 0);
                 v = (if rlen < int DNS_HDR_LEN then Keep_waiting
                      else if le32 from 4 \<noteq> le32 sa 4 then Keep_waiting
                      else if le16 from 2 \<noteq> le16 sa 2 then Keep_waiting
                      else dns_reply q (length q) txid r2 (nat rlen))
             in if v = Keep_waiting then dns_wait intr poll recvfrom c sa q txid deadline r2 (intr s2)
                else Some (Some v, s2))"

text \<open>One attempt: \<open>Inl\<close> is the error the loop over the attempts goes on with, \<open>Inr\<close> a verdict.\<close>

definition dns_attempt where
  "dns_attempt intr sendto poll recvfrom c sa qname r s attempt =
     (let txid = dns_txid (g_resolve_seq s) (now s) attempt;
          s1 = s\<lparr>g_resolve_seq := next_seq (g_resolve_seq s)\<rparr>;
          q = dns_query txid qname
      in case sendto c (Some (\<lambda>k. (q @ replicate (272 - length q) 0) ! k)) (of_nat (length q)) 0
                (Some (\<lambda>k. sa ! k)) 16 (prov s1) of (sent, w) \<Rightarrow>
        let s2 = s1\<lparr>prov := w\<rparr>
        in if sent < 0 then Some (Inl sent, s2)
           else (case dns_wait intr poll recvfrom c sa q txid (now s2 + DNS_TIMEOUT_TICKS) r s2 of
                   None \<Rightarrow> None
                 | Some (None, s3) \<Rightarrow> Some (Inl PCNET_ETIMEDOUT, s3)
                 | Some (Some v, s3) \<Rightarrow> Some (Inr v, s3)))"

definition verdict_result :: "int + dns_verdict \<Rightarrow> int \<times> u8 list option" where
  "verdict_result v = (case v of Inl rc \<Rightarrow> (rc, None) | Inr (Answer a) \<Rightarrow> (PCNET_OK, Some a) | Inr _ \<Rightarrow> (PCNET_EHOSTUNREACH, None))"

text \<open>
  \<open>tsc\<close> is the low half of the processor's time stamp, \<open>dns_ip\<close> the configured server, \<open>r0\<close> what the stack holds where the reply
  buffer is; \<open>have_out\<close> is whether the result pointer is not null.
\<close>

definition net_resolve ::
  "('w net_state \<Rightarrow> 'w net_state) \<Rightarrow> u32 \<Rightarrow> u32 \<Rightarrow> u8 list \<Rightarrow> u8 list option \<Rightarrow> bool \<Rightarrow> 'w net_state \<Rightarrow>
   ((int \<times> u8 list option) \<times> 'w net_state) option" where
  "net_resolve intr tsc dns_ip r0 hostname have_out s =
     (if hostname = None \<or> \<not> have_out then Some ((PCNET_EINVAL, None), s)
      else case g_active s of None \<Rightarrow> Some ((PCNET_ENOPROVIDER, None), s) | Some pr \<Rightarrow>
      case p_ops pr of None \<Rightarrow> Some ((PCNET_ENOSYS, None), s) | Some vt \<Rightarrow>
      case (sock_create vt, sock_sendto vt, sock_recvfrom vt, sock_poll vt, sock_close vt) of
        (Some create, Some sendto, Some recvfrom, Some poll, Some close) \<Rightarrow>
          if dns_ip = 0 then Some ((PCNET_EHOSTUNREACH, None), s)
          else (case dns_encode_qname hostname 256 of None \<Rightarrow> Some ((PCNET_EINVAL, None), s) | Some qname \<Rightarrow>
            case create AF_INET SOCK_DGRAM 17 (prov s) of ((rc, c), w) \<Rightarrow>
              if rc < 0 then Some ((PCNET_ENETDOWN, None), s\<lparr>prov := w\<rparr>)
              else let s1 = s\<lparr>prov := w, g_resolve_seq := next_seq (g_resolve_seq s) + tsc\<rparr>;
                       sa = dns_server_addr dns_ip;
                       try = dns_attempt intr sendto poll recvfrom c sa qname r0;
                       fin = (\<lambda>v s. Some (verdict_result v, s\<lparr>prov := snd (close c (prov s))\<rparr>))
                   in (case try s1 0 of None \<Rightarrow> None
                       | Some (Inr v, s2) \<Rightarrow> fin (Inr v) s2
                       | Some (Inl _, s2) \<Rightarrow> (case try s2 1 of None \<Rightarrow> None | Some (v, s3) \<Rightarrow> fin v s3)))
      | _ \<Rightarrow> Some ((PCNET_ENOSYS, None), s))"

section \<open>System calls\<close>

record net_syscall_frame =
  op :: u32
  a0 :: u32
  a1 :: u32
  a2 :: u32
  a3 :: u32
  a4 :: u32
  a5 :: u32

definition xptr :: "u32 \<Rightarrow> u32 \<Rightarrow> u32" where
  "xptr ds_base x = (if x \<noteq> 0 then x + ds_base else 0)"

definition in_at :: "(u32 \<Rightarrow> u8) \<Rightarrow> u32 \<Rightarrow> in_ptr" where
  "in_at m a = (if a = 0 then None else Some (\<lambda>k. m (a + of_nat k)))"

definition mem_get :: "(u32 \<Rightarrow> u8) \<Rightarrow> u32 \<Rightarrow> nat \<Rightarrow> u8 list" where
  "mem_get m a n = map (\<lambda>k. m (a + of_nat k)) [0..<n]"

definition mem_put :: "u32 \<Rightarrow> u8 list \<Rightarrow> (u32 \<Rightarrow> u8) \<Rightarrow> u32 \<Rightarrow> u8" where
  "mem_put a bs m x = (if unat (x - a) < length bs then bs ! unat (x - a) else m x)"

definition len_at :: "(u32 \<Rightarrow> u8) \<Rightarrow> u32 \<Rightarrow> int option" where
  "len_at m a = (if a = 0 then None else Some (sint (le32 (mem_get m a 4) 0)))"

definition put_name :: "u32 \<Rightarrow> u32 \<Rightarrow> name_out \<Rightarrow> (u32 \<Rightarrow> u8) \<Rightarrow> u32 \<Rightarrow> u8" where
  "put_name a l out m = (let m1 = mem_put a (fst out) m
     in case snd out of None \<Rightarrow> m1 | Some n \<Rightarrow> mem_put l (word_bytes (word_of_int n)) m1)"

text \<open>A C string at an address: the bytes up to the first zero, and what strings longer than \<open>n\<close> bytes are is not modelled.\<close>

definition str_at :: "(u32 \<Rightarrow> u8) \<Rightarrow> u32 \<Rightarrow> nat \<Rightarrow> u8 list option" where
  "str_at m a n = (if a = 0 then None else Some (takeWhile (\<lambda>c. c \<noteq> 0) (mem_get m a n)))"

type_synonym pcnet_fd_set = "u64 list"

definition fd_isset :: "nat \<Rightarrow> pcnet_fd_set \<Rightarrow> bool" where
  "fd_isset fd ws = bit (ws ! (fd div 64)) (fd mod 64)"

definition fd_set :: "nat \<Rightarrow> pcnet_fd_set \<Rightarrow> pcnet_fd_set" where
  "fd_set fd ws = ws[fd div 64 := ws ! (fd div 64) OR push_bit (fd mod 64) 1]"

definition get_fd_set :: "(u32 \<Rightarrow> u8) \<Rightarrow> u32 \<Rightarrow> pcnet_fd_set option" where
  "get_fd_set m a = (if a = 0 then None else Some (map (\<lambda>i.
     ucast (le32 (mem_get m (a + of_nat (8 * i)) 4) 0) OR push_bit 32 (ucast (le32 (mem_get m (a + of_nat (8 * i + 4)) 4) 0))) [0..<16]))"

definition put_fd_set :: "u32 \<Rightarrow> pcnet_fd_set \<Rightarrow> (u32 \<Rightarrow> u8) \<Rightarrow> u32 \<Rightarrow> u8" where
  "put_fd_set a ws m = (if a = 0 then m
     else mem_put a (concat (map (\<lambda>w. word_bytes (ucast w) @ word_bytes (ucast (drop_bit 32 w))) ws)) m)"

definition wants :: "pcnet_fd_set option \<Rightarrow> nat \<Rightarrow> int \<Rightarrow> int" where
  "wants ws fd b = (case ws of None \<Rightarrow> 0 | Some s \<Rightarrow> if fd_isset fd s then b else 0)"

text \<open>One round of the \<open>select\<close> loop: the three result sets, the count and the provider.\<close>

definition select_fd where
  "select_fd poll tab rd wr ex fd st =
     (case st of (rdo, wro, exo, n, w) \<Rightarrow>
        let want = or (wants rd fd PCNET_POLL_RD) (or (wants wr fd PCNET_POLL_WR) (wants ex fd PCNET_POLL_EX))
        in if want = 0 then st
           else if \<not> fd_in_use (tab ! fd) then st
           else case poll (cookie (tab ! fd)) w of (got, w1) \<Rightarrow>
             if got < 0 then (rdo, wro, exo, n, w1)
             else let hit = (\<lambda>b. and (and got want) b \<noteq> 0)
                  in (if hit PCNET_POLL_RD then fd_set fd rdo else rdo,
                      if hit PCNET_POLL_WR then fd_set fd wro else wro,
                      if hit PCNET_POLL_EX then fd_set fd exo else exo,
                      n + of_bool (hit PCNET_POLL_RD) + of_bool (hit PCNET_POLL_WR) + of_bool (hit PCNET_POLL_EX), w1))"

definition sys_select where
  "sys_select poll f ds_base s =
     (let rda = xptr ds_base (a1 f); wra = xptr ds_base (a2 f); exa = xptr ds_base (a3 f);
          rd = get_fd_set (umem s) rda; wr = get_fd_set (umem s) wra; ex = get_fd_set (umem s) exa;
          nfds = nat (min (max (sint (a0 f)) 0) (int PCNET_FD_SETSIZE));
          zero = replicate 16 0
      in case fold (select_fd poll (g_fdtab s) rd wr ex) [0..<nfds] (zero, zero, zero, 0 :: int, prov s) of (rdo, wro, exo, n, w) \<Rightarrow>
           (n, s\<lparr>prov := w, umem := put_fd_set exa exo (put_fd_set wra wro (put_fd_set rda rdo (umem s)))\<rparr>))"

text \<open>The common shape of the calls on a descriptor.\<close>

definition on_fd where
  "on_fd f s call = (case fd_lookup (sint (a0 f)) s of None \<Rightarrow> (PCNET_EBADF, s) | Some c \<Rightarrow> call c)"

definition via where
  "via vt_op s call = (case vt_op of None \<Rightarrow> (PCNET_ENOSYS, s) | Some g \<Rightarrow> (case call g (prov s) of (rc, w) \<Rightarrow> (rc, s\<lparr>prov := w\<rparr>)))"

definition via_name where
  "via_name vt_op s a l call = (case vt_op of None \<Rightarrow> (PCNET_ENOSYS, s) | Some g \<Rightarrow>
     (case call g (a \<noteq> 0) (len_at (umem s) l) (prov s) of ((rc, out), w) \<Rightarrow> (rc, s\<lparr>prov := w, umem := put_name a l out (umem s)\<rparr>)))"

text \<open>A new socket gets a descriptor, or is closed again when there is none left.\<close>

definition give_fd where
  "give_fd vt c s = (case fd_alloc c s of (fd, s1) \<Rightarrow>
     (fd, if fd < 0 then s1\<lparr>prov := close_with vt c (prov s1)\<rparr> else s1))"

definition net_call where
  "net_call resolve vt f ds_base s =
     (let x = xptr ds_base; m = umem s; i = (\<lambda>v :: u32. sint v)
      in if op f = 1 then Some (case sock_create vt of None \<Rightarrow> (PCNET_ENOSYS, s) | Some g \<Rightarrow>
           (case g (i (a0 f)) (i (a1 f)) (i (a2 f)) (prov s) of ((rc, c), w) \<Rightarrow>
              if rc < 0 then (rc, s\<lparr>prov := w\<rparr>) else give_fd vt c (s\<lparr>prov := w\<rparr>)))
         else if op f = 2 then Some (on_fd f s (\<lambda>c.
           case (case sock_close vt of None \<Rightarrow> (PCNET_OK, prov s) | Some g \<Rightarrow> g c (prov s)) of (rc, w) \<Rightarrow>
             (rc, fd_free (i (a0 f)) (s\<lparr>prov := w\<rparr>))))
         else if op f = 3 then Some (on_fd f s (\<lambda>c. via (sock_shutdown vt) s (\<lambda>g. g c (i (a1 f)))))
         else if op f = 4 then Some (on_fd f s (\<lambda>c. via (sock_bind vt) s (\<lambda>g. g c (in_at m (x (a1 f))) (i (a2 f)))))
         else if op f = 5 then Some (on_fd f s (\<lambda>c. via (sock_connect vt) s (\<lambda>g. g c (in_at m (x (a1 f))) (i (a2 f)))))
         else if op f = 6 then Some (on_fd f s (\<lambda>c. via (sock_listen vt) s (\<lambda>g. g c (i (a1 f)))))
         else if op f = 7 then Some (on_fd f s (\<lambda>c. case sock_accept vt of None \<Rightarrow> (PCNET_ENOSYS, s) | Some g \<Rightarrow>
           (case g c (x (a1 f) \<noteq> 0) (len_at m (x (a2 f))) (prov s) of ((rc, nc, out), w) \<Rightarrow>
              let s1 = s\<lparr>prov := w, umem := put_name (x (a1 f)) (x (a2 f)) out m\<rparr>
              in if rc < 0 then (rc, s1) else give_fd vt nc s1)))
         else if op f = 8 then Some (on_fd f s (\<lambda>c. via_name (sock_getsockname vt) s (x (a1 f)) (x (a2 f)) (\<lambda>g. g c)))
         else if op f = 9 then Some (on_fd f s (\<lambda>c. via_name (sock_getpeername vt) s (x (a1 f)) (x (a2 f)) (\<lambda>g. g c)))
         else if op f = 10 then Some (on_fd f s (\<lambda>c. via (sock_send vt) s (\<lambda>g. g c (\<lambda>k. m (x (a1 f) + of_nat k)) (a2 f) (i (a3 f)))))
         else if op f = 11 then Some (on_fd f s (\<lambda>c. case sock_recv vt of None \<Rightarrow> (PCNET_ENOSYS, s) | Some g \<Rightarrow>
           (case g c (a2 f) (i (a3 f)) (prov s) of ((rc, bs), w) \<Rightarrow> (rc, s\<lparr>prov := w, umem := mem_put (x (a1 f)) bs m\<rparr>))))
         else if op f = 12 then Some (on_fd f s (\<lambda>c. via (sock_sendto vt) s (\<lambda>g. g c (in_at m (x (a1 f))) (a2 f) (i (a3 f)) (in_at m (x (a4 f))) (i (a5 f)))))
         else if op f = 13 then Some (on_fd f s (\<lambda>c. case sock_recvfrom vt of None \<Rightarrow> (PCNET_ENOSYS, s) | Some g \<Rightarrow>
           (case g c (a2 f) (i (a3 f)) (x (a4 f) \<noteq> 0) (len_at m (x (a5 f))) (prov s) of ((rc, bs, out), w) \<Rightarrow>
              (rc, s\<lparr>prov := w, umem := put_name (x (a4 f)) (x (a5 f)) out (mem_put (x (a1 f)) bs m)\<rparr>))))
         else if op f = 14 then Some (case sock_poll vt of None \<Rightarrow> (PCNET_ENOSYS, s) | Some g \<Rightarrow> sys_select g f ds_base s)
         else if op f = 15 then Some (on_fd f s (\<lambda>c. via (sock_setsockopt vt) s (\<lambda>g. g c (i (a1 f)) (i (a2 f)) (in_at m (x (a3 f))) (i (a4 f)))))
         else if op f = 16 then Some (on_fd f s (\<lambda>c. via_name (sock_getsockopt vt) s (x (a3 f)) (x (a4 f)) (\<lambda>g. g c (i (a1 f)) (i (a2 f)))))
         else if op f = 17 then
           (case resolve (str_at m (x (a0 f)) 300) (x (a1 f) \<noteq> 0) s of None \<Rightarrow> None
            | Some ((rc, out), s1) \<Rightarrow> Some (rc, case out of None \<Rightarrow> s1 | Some bs \<Rightarrow> s1\<lparr>umem := mem_put (x (a1 f)) bs (umem s1)\<rparr>))
         else Some (PCNET_ENOSYS, s))"

text \<open>
  The result is the value stored in \<open>ret\<close>, \<open>None\<close> in front when the frame pointer is null and nothing is stored.
\<close>

definition net_dispatch ::
  "('w net_state \<Rightarrow> 'w net_state) \<Rightarrow> u32 \<Rightarrow> u32 \<Rightarrow> u8 list \<Rightarrow> net_syscall_frame option \<Rightarrow> u32 \<Rightarrow> 'w net_state \<Rightarrow>
   (int option \<times> 'w net_state) option" where
  "net_dispatch intr tsc dns_ip r0 fp ds_base s =
     (case fp of None \<Rightarrow> Some (None, s) | Some f \<Rightarrow>
      case g_active s of None \<Rightarrow> Some (Some PCNET_ENOPROVIDER, s) | Some pr \<Rightarrow>
      case p_ops pr of None \<Rightarrow> Some (Some PCNET_ENOPROVIDER, s) | Some vt \<Rightarrow>
        map_option (apfst Some) (net_call (net_resolve intr tsc dns_ip r0) vt f ds_base s))"

text \<open>Boot: no provider, an empty table, and the gate of vector 0x80, callable from ring 3.\<close>

definition net_init :: "u32 \<Rightarrow> 'w net_state \<times> idt_state \<Rightarrow> 'w net_state \<times> idt_state" where
  "net_init stub si = (case si of (s, i) \<Rightarrow>
     (s\<lparr>g_active := None, g_fdtab := replicate PCNET_FD_SETSIZE free_fd\<rparr>, idt_set_gate 0x80 stub 0x08 0xEE i))"

section \<open>Names on the wire\<close>

definition wire_labels :: "u8 list list \<Rightarrow> u8 list" where
  "wire_labels ls = concat (map (\<lambda>l. of_nat (length l) # l) ls)"

definition labels_ok :: "u8 list list \<Rightarrow> bool" where
  "labels_ok ls \<longleftrightarrow> (\<forall>l \<in> set ls. 0 < length l \<and> length l \<le> 63)"

lemma wire_labels_simps [simp]: "wire_labels [] = []" "wire_labels (l # ls) = of_nat (length l) # l @ wire_labels ls"
  by (simp_all add: wire_labels_def)

text \<open>The labels of a host name: its parts between dots.\<close>

fun dotted :: "u8 list list \<Rightarrow> u8 list" where
  "dotted [] = []"
| "dotted [l] = l"
| "dotted (l # ls) = l @ 46 # dotted ls"

lemma encode_labels_shape:
  assumes "encode_labels p pos mx = Some out"
  shows "\<exists>ls. out = wire_labels ls @ [0] \<and> labels_ok ls \<and> (\<forall>l \<in> set ls. 46 \<notin> set l) \<and> p = dotted ls \<and> (p \<noteq> [] \<longrightarrow> pos + length out \<le> mx)"
  using assms
proof (induction p pos mx arbitrary: out rule: encode_labels.induct)
  case (1 p pos mx)
  show ?case
  proof (cases "p = []")
    case True
    then have "out = [0]" using 1(2) by (simp add: encode_labels.simps)
    then have "out = wire_labels [] @ [0] \<and> labels_ok [] \<and> p = dotted []" using True by (simp add: labels_ok_def)
    then show ?thesis using True by (intro exI [of _ "[]"]) simp
  next
    case False
    define l where "l = takeWhile (\<lambda>c. c \<noteq> 46) p"
    define d where "d = drop (length l) p"
    have dw: "d = dropWhile (\<lambda>c. c \<noteq> 46) p" unfolding d_def l_def by (simp add: dropWhile_eq_drop)
    have split: "p = l @ d" unfolding dw l_def by simp
    have hd: "d \<noteq> [] \<Longrightarrow> hd d = 46" unfolding dw using hd_dropWhile [of "\<lambda>c. c \<noteq> 46" p] by blast
    have l46: "46 \<notin> set l" unfolding l_def by (auto dest: set_takeWhileD)
    have eq: "encode_labels p pos mx = (if length l = 0 \<or> length l > 63 then None else if pos + 1 + length l + 1 > mx then None
        else if d \<noteq> [] \<and> tl d = [] then None
        else map_option (\<lambda>r. of_nat (length l) # l @ r) (encode_labels (tl d) (pos + 1 + length l) mx))"
      by (subst encode_labels.simps) (simp only: False if_False Let_def l_def d_def)
    from 1(2) obtain r where l: "length l \<noteq> 0" "length l \<le> 63" "pos + 1 + length l + 1 \<le> mx" "\<not> (d \<noteq> [] \<and> tl d = [])"
      and r: "encode_labels (tl d) (pos + 1 + length l) mx = Some r" "out = of_nat (length l) # l @ r"
      unfolding eq by (auto split: if_splits)
    have "\<exists>ls. r = wire_labels ls @ [0] \<and> labels_ok ls \<and> (\<forall>l \<in> set ls. 46 \<notin> set l) \<and> tl d = dotted ls \<and>
        (tl d \<noteq> [] \<longrightarrow> pos + 1 + length l + length r \<le> mx)"
      by (rule 1(1) [OF False l_def refl d_def _ _ _ r(1)]) (use l in auto)
    then obtain ls where ls: "r = wire_labels ls @ [0]" "labels_ok ls" "\<forall>l \<in> set ls. 46 \<notin> set l" "tl d = dotted ls"
      "tl d \<noteq> [] \<longrightarrow> pos + 1 + length l + length r \<le> mx" by blast
    have "p = dotted (l # ls)"
    proof (cases "d = []")
      case True
      have "\<exists>x. x \<in> set ls \<and> length x = 0 \<or> ls = []"
      proof (cases ls)
        case (Cons a as)
        then have "dotted ls \<noteq> []" using ls(2) by (cases as) (auto simp: labels_ok_def)
        then show ?thesis using ls(4) True by simp
      qed simp
      then have "ls = []" using ls(2) by (auto simp: labels_ok_def)
      then show ?thesis using split True by simp
    next
      case False
      then have "d = 46 # dotted ls" using hd ls(4) by (metis list.collapse)
      moreover have "ls \<noteq> []" using l(4) False ls(4) by auto
      ultimately show ?thesis using split by (cases ls) auto
    qed
    moreover have "pos + length out \<le> mx"
    proof (cases "tl d = []")
      case True
      then have "r = [0]" using r(1) by (simp add: encode_labels.simps)
      then show ?thesis using r(2) l(3) by simp
    next
      case False
      then show ?thesis using ls(5) r(2) by simp
    qed
    ultimately show ?thesis using ls l r(2) l46 by (intro exI [of _ "l # ls"]) (auto simp: labels_ok_def)
  qed
qed

lemma dns_encode_shape:
  assumes "dns_encode_qname (Some h) 256 = Some out"
  shows "\<exists>ls. out = wire_labels ls @ [0] \<and> labels_ok ls \<and> (\<forall>l \<in> set ls. 46 \<notin> set l) \<and> h = dotted ls \<and> ls \<noteq> [] \<and> length out \<le> 256"
proof -
  have h: "h \<noteq> []" "encode_labels h 0 256 = Some out" using assms by (auto simp: dns_encode_qname_def split: if_splits option.splits)
  then obtain ls where "out = wire_labels ls @ [0]" "labels_ok ls" "\<forall>l \<in> set ls. 46 \<notin> set l" "h = dotted ls" "length out \<le> 256"
    using encode_labels_shape [OF h(2)] by auto
  moreover then have "ls \<noteq> []" using h(1) by auto
  ultimately show ?thesis by blast
qed

lemma label_byte:
  assumes "0 < n" "n \<le> 63"
  shows "(of_nat n :: u8) \<noteq> 0" "unat (of_nat n :: u8) = n" "(of_nat n :: u8) AND 0xC0 = 0" "\<not> (of_nat n :: u8) > 63"
proof -
  show u: "unat (of_nat n :: u8) = n" using assms by (intro unat_of_nat_small) simp
  then show "(of_nat n :: u8) \<noteq> 0" using assms by (metis less_numeral_extra(3) unat_0)
  show "\<not> (of_nat n :: u8) > 63" unfolding word_less_nat_alt u using assms by simp
  have nb: "\<not> bit n k" if "k = 6 \<or> k = 7" for k using assms that by (auto simp: bit_iff_odd)
  have c0: "(0xC0 :: u8) = push_bit 6 (mask 2)" by (simp add: mask_eq_exp_minus_1)
  show "(of_nat n :: u8) AND 0xC0 = 0" unfolding c0
  proof (rule bit_word_eqI)
    fix k assume "k < LENGTH(8)"
    then have "bit ((of_nat n :: u8) AND push_bit 6 (mask 2)) k \<longrightarrow> bit n k \<and> (k = 6 \<or> k = 7)"
      by (auto simp: bit_simps)
    then show "bit ((of_nat n :: u8) AND push_bit 6 (mask 2)) k = bit (0 :: u8) k" using nb by auto
  qed
qed

lemma skip_name_labels:
  assumes "labels_ok ls" "buf = pre @ wire_labels ls @ [0] @ post" "buflen = length buf - length post1" "post1 = drop k post"
    "length (wire_labels ls) + 2 * steps \<le> 2 * 254"
  shows "skip_name buf buflen (length pre) steps = Some (length pre + length (wire_labels ls) + 1)"
  using assms
proof (induction ls arbitrary: pre steps)
  case Nil
  then show ?case by (subst skip_name.simps) (simp add: DNS_MAX_NAME_def)
next
  case (Cons l ls)
  have l: "0 < length l" "length l \<le> 63" "labels_ok ls" using Cons.prems(1) by (auto simp: labels_ok_def)
  have buf: "buf = (pre @ of_nat (length l) # l) @ wire_labels ls @ [0] @ post" using Cons.prems(2) by simp
  have at: "buf ! length pre = of_nat (length l)" using Cons.prems(2) by simp
  have "1 \<le> length l" using l(1) by linarith
  then have lim: "length (wire_labels ls) + 2 * Suc steps \<le> 2 * 254" using Cons.prems(5) by simp
  have "skip_name buf buflen (length (pre @ of_nat (length l) # l)) (Suc steps) =
      Some (length (pre @ of_nat (length l) # l) + length (wire_labels ls) + 1)"
    by (rule Cons.IH [OF l(3) buf Cons.prems(3,4) lim])
  moreover have "buflen > length pre + length l" using Cons.prems(2-4) by simp
  moreover have "steps < 255" using lim by simp
  ultimately show ?case
    by (subst skip_name.simps) (simp add: at label_byte [OF l(1,2)] DNS_MAX_NAME_def Let_def add.assoc)
qed

section \<open>Replies\<close>

lemma echo_same:
  "(\<And>k. pos \<le> k \<Longrightarrow> k < qlen - 4 \<Longrightarrow> q ! k = r ! k) \<Longrightarrow> \<not> echo_mismatch q qlen r rlen pos"
proof (induction q qlen r rlen pos rule: echo_mismatch.induct)
  case (1 q qlen r rlen pos)
  show ?case
  proof (cases "pos < qlen - 4 \<and> pos < rlen")
    case True
    then have "q ! pos = r ! pos" using 1(2) by simp
    then show ?thesis using 1(1) [OF True] 1(2) by (subst echo_mismatch.simps) simp
  next
    case False
    then show ?thesis by (subst echo_mismatch.simps) auto
  qed
qed

text \<open>What the parser makes of a datagram depends on its received bytes only, never on what the buffer holds behind them.\<close>

definition same_bytes :: "nat \<Rightarrow> u8 list \<Rightarrow> u8 list \<Rightarrow> bool" where
  "same_bytes n r r' \<longleftrightarrow> (\<forall>i < n. r ! i = r' ! i)"

lemma skip_name_cong:
  assumes "same_bytes n r r'"
  shows "skip_name r n pos steps = skip_name r' n pos steps"
proof (induction "DNS_MAX_NAME - steps" arbitrary: pos steps rule: less_induct)
  case less
  show ?case
  proof (cases "pos < n \<and> steps + 1 \<le> DNS_MAX_NAME")
    case False
    then show ?thesis by (subst (1 2) skip_name.simps) auto
  next
    case True
    then have "r ! pos = r' ! pos" using assms by (simp add: same_bytes_def)
    moreover have "skip_name r n (pos + 1 + unat (r' ! pos)) (steps + 1) = skip_name r' n (pos + 1 + unat (r' ! pos)) (steps + 1)"
      using True by (intro less) linarith
    ultimately show ?thesis by (subst (1 2) skip_name.simps) (simp only: Let_def)
  qed
qed

lemma rbe16_cong: "same_bytes n r r' \<Longrightarrow> i + 1 < n \<Longrightarrow> rbe16 r i = rbe16 r' i"
  by (simp add: rbe16_def same_bytes_def)

lemma slice_cong: "same_bytes n r r' \<Longrightarrow> p + k \<le> n \<Longrightarrow> n \<le> length r \<Longrightarrow> n \<le> length r' \<Longrightarrow> take k (drop p r) = take k (drop p r')"
  by (rule nth_equalityI) (auto simp: same_bytes_def)

lemma find_a_record_cong:
  assumes s: "same_bytes n r r'" and len: "n \<le> length r" "n \<le> length r'"
  shows "find_a_record r n p c = find_a_record r' n p c"
proof (induction c arbitrary: p)
  case 0
  then show ?case by simp
next
  case (Suc c)
  have sk: "dns_skip_name r n p = dns_skip_name r' n p" by (simp add: dns_skip_name_def skip_name_cong [OF s])
  show ?case
  proof (cases "dns_skip_name r' n p")
    case None
    then show ?thesis using sk by simp
  next
    case (Some p1)
    show ?thesis
    proof (cases "p1 + 10 > n")
      case True
      then show ?thesis using Some sk by simp
    next
      case False
      then have f: "rbe16 r p1 = rbe16 r' p1" "rbe16 r (p1 + 2) = rbe16 r' (p1 + 2)" "rbe16 r (p1 + 8) = rbe16 r' (p1 + 8)"
        using rbe16_cong [OF s] by auto
      show ?thesis
      proof (cases "p1 + 10 + rbe16 r' (p1 + 8) > n")
        case True
        then show ?thesis using Some sk False f by (simp add: Let_def)
      next
        case room: False
        then have "rbe16 r' (p1 + 8) = 4 \<Longrightarrow> take 4 (drop (p1 + 10) r) = take 4 (drop (p1 + 10) r')"
          using slice_cong [OF s _ len, of "p1 + 10" 4] by simp
        then show ?thesis using Some sk False room f Suc.IH [of "p1 + 10 + rbe16 r' (p1 + 8)"]
          unfolding find_a_record.simps Let_def by simp
      qed
    qed
  qed
qed

lemma echo_cong: "same_bytes n r r' \<Longrightarrow> echo_mismatch q qlen r n pos = echo_mismatch q qlen r' n pos"
proof (induction "n - pos" arbitrary: pos rule: less_induct)
  case less
  show ?case
  proof (cases "pos < qlen - 4 \<and> pos < n")
    case True
    then have "r ! pos = r' ! pos" using less.prems by (simp add: same_bytes_def)
    moreover have "echo_mismatch q qlen r n (pos + 1) = echo_mismatch q qlen r' n (pos + 1)" using True by (intro less.hyps [OF _ less.prems]) linarith
    ultimately show ?thesis by (subst (1 2) echo_mismatch.simps) (simp only:)
  next
    case False
    then show ?thesis by (subst (1 2) echo_mismatch.simps) auto
  qed
qed

text \<open>
  C26. The reply parser stays inside the datagram: for a datagram of \<open>n\<close> bytes, at least the 12 of a header, the verdict on it is the
  same whatever the buffer holds behind the \<open>n\<close> bytes. No malformed length, compression pointer or record count makes it
  read further.
\<close>

theorem dns_reply_in_bounds:
  assumes "12 \<le> n" and "n \<le> length r" and "n \<le> length r'" and "\<forall>i < n. r ! i = r' ! i"
  shows "dns_reply q qlen txid r n = dns_reply q qlen txid r' n"
proof -
  have s: "same_bytes n r r'" using assms(4) by (simp add: same_bytes_def)
  have "r ! 2 = r' ! 2" "r ! 3 = r' ! 3" "rbe16 r 0 = rbe16 r' 0" "rbe16 r 6 = rbe16 r' 6"
    using assms(1,4) rbe16_cong [OF s] by auto
  then show ?thesis
    unfolding dns_reply_def echo_cong [OF s] dns_skip_name_def skip_name_cong [OF s] find_a_record_cong [OF s assms(2,3)]
    by (simp only:)
qed

theorem dns_reply_in_bounds_witness:
  "dns_reply [] 0 0 ([0, 0, 0x80, 0, 0, 0, 0, 1, 0, 0, 0, 0, 0xFF, 1] @ [1, 2, 3]) 14 =
   dns_reply [] 0 0 ([0, 0, 0x80, 0, 0, 0, 0, 1, 0, 0, 0, 0, 0xFF, 1] @ [9, 9, 9]) 14"
  by (rule dns_reply_in_bounds) (simp_all add: nth_append del: append_Cons append_Nil)
end
