(* ===== verification/Loopback.thy ===== *)
theory Loopback
  imports Net
begin

text \<open>
  The loopback provider, src/src/modules/loopback.c: sixteen sockets, datagrams to port 53 answered by a synthesised DNS
  reply, and stream sockets paired in memory, each with a 2048-byte ring of received bytes. The state is the socket table;
  a cookie is the index of the socket plus one, 0 is the null pointer.
\<close>

section \<open>Sockets\<close>

definition LO_MAX_SOCKETS :: nat where "LO_MAX_SOCKETS = 16"
definition LO_BUF_SIZE :: nat where "LO_BUF_SIZE = 512"
definition LO_TCP_RING :: nat where "LO_TCP_RING = 2048"
definition LO_BACKLOG :: nat where "LO_BACKLOG = 4"

datatype lo_state = LO_IDLE | LO_LISTENING | LO_ESTABLISHED | LO_PEER_GONE

text \<open>
  Addresses are the 16 bytes of \<open>struct sockaddr_in\<close>; \<open>peer\<close> and the entries of the backlog are indices of the table.
\<close>

record lo_sock =
  in_use :: bool
  stype :: int
  st :: lo_state
  bound :: "u8 list"
  has_bound :: bool
  rx_buf :: "u8 list"
  rx_len :: nat
  rx_from :: "u8 list"
  tcp_rx :: "u8 list"
  tcp_head :: nat
  tcp_count :: nat
  peer :: "nat option"
  backlog :: "nat list"
  backlog_head :: nat
  backlog_count :: nat

type_synonym lo = "lo_sock list"

text \<open>A socket after \<^verbatim>\<open>memset\<close>, in use.\<close>

definition fresh_sock :: "int \<Rightarrow> lo_sock" where
  "fresh_sock t = \<lparr>in_use = True, stype = t, st = LO_IDLE, bound = replicate 16 0, has_bound = False,
     rx_buf = replicate LO_BUF_SIZE 0, rx_len = 0, rx_from = replicate 16 0, tcp_rx = replicate LO_TCP_RING 0, tcp_head = 0,
     tcp_count = 0, peer = None, backlog = replicate LO_BACKLOG 0, backlog_head = 0, backlog_count = 0\<rparr>"

definition loopback_start :: "lo \<Rightarrow> int \<times> lo" where
  "loopback_start g = (0, map (\<lambda>sk. sk\<lparr>in_use := False\<rparr>) g)"

definition loopback_stop :: "lo \<Rightarrow> lo" where
  "loopback_stop g = map (\<lambda>sk. sk\<lparr>in_use := False\<rparr>) g"

text \<open>The check every operation starts with: a live socket behind the cookie.\<close>

definition on_sock where
  "on_sock c g fail call = (if c = 0 \<or> \<not> in_use (g ! (c - 1)) then fail else call (c - 1) (g ! (c - 1)))"

definition lo_create :: "int \<Rightarrow> int \<Rightarrow> int \<Rightarrow> lo \<Rightarrow> (int \<times> nat) \<times> lo" where
  "lo_create domain type proto g =
     (if domain \<noteq> AF_INET then ((PCNET_EINVAL, 0), g)
      else if type \<noteq> SOCK_STREAM \<and> type \<noteq> SOCK_DGRAM then ((PCNET_EINVAL, 0), g)
      else case find_slot (\<lambda>sk. \<not> in_use sk) g of
        None \<Rightarrow> ((PCNET_EMFILE, 0), g)
      | Some i \<Rightarrow> ((PCNET_OK, i + 1), g[i := fresh_sock type]))"

definition lo_tcp_disconnect :: "nat \<Rightarrow> lo \<Rightarrow> lo" where
  "lo_tcp_disconnect i g =
     (case peer (g ! i) of None \<Rightarrow> g | Some p \<Rightarrow>
        let g1 = (if in_use (g ! p) \<and> st (g ! p) = LO_ESTABLISHED
                  then g[p := (g ! p)\<lparr>st := LO_PEER_GONE, peer := None\<rparr>] else g)
        in g1[i := (g1 ! i)\<lparr>peer := None\<rparr>])"

definition lo_close :: "nat \<Rightarrow> lo \<Rightarrow> int \<times> lo" where
  "lo_close c g = on_sock c g (PCNET_EBADF, g) (\<lambda>i sk.
     let g1 = (if stype sk = SOCK_STREAM \<and> st sk = LO_ESTABLISHED then lo_tcp_disconnect i g else g)
     in (PCNET_OK, g1[i := (g1 ! i)\<lparr>in_use := False\<rparr>]))"

definition lo_shutdown :: "nat \<Rightarrow> int \<Rightarrow> lo \<Rightarrow> int \<times> lo" where
  "lo_shutdown c how g = on_sock c g (PCNET_EBADF, g) (\<lambda>i sk.
     if stype sk = SOCK_STREAM \<and> st sk = LO_ESTABLISHED
     then let g1 = lo_tcp_disconnect i g in (PCNET_OK, g1[i := (g1 ! i)\<lparr>st := LO_PEER_GONE\<rparr>])
     else (PCNET_OK, g[i := sk\<lparr>rx_len := 0\<rparr>]))"

text \<open>The length argument is compared unsigned.\<close>

definition addr_ok :: "int \<Rightarrow> bool" where "addr_ok l = (unat (word_of_int l :: u32) \<ge> 16)"

definition ptr_bytes :: "(nat \<Rightarrow> u8) \<Rightarrow> nat \<Rightarrow> u8 list" where "ptr_bytes p n = map p [0..<n]"

definition lo_bind :: "nat \<Rightarrow> in_ptr \<Rightarrow> int \<Rightarrow> lo \<Rightarrow> int \<times> lo" where
  "lo_bind c a l g = on_sock c g (PCNET_EBADF, g) (\<lambda>i sk.
     case a of None \<Rightarrow> (PCNET_EINVAL, g) | Some p \<Rightarrow>
       if \<not> addr_ok l then (PCNET_EINVAL, g)
       else (PCNET_OK, g[i := sk\<lparr>bound := ptr_bytes p 16, has_bound := True\<rparr>]))"

section \<open>Streams: listen, accept, connect\<close>

definition listener_for :: "u8 list \<Rightarrow> lo_sock \<Rightarrow> bool" where
  "listener_for target sk \<longleftrightarrow> in_use sk \<and> st sk = LO_LISTENING \<and> has_bound sk \<and> le16 (bound sk) 2 = le16 target 2 \<and>
     \<not> (le32 (bound sk) 4 \<noteq> 0 \<and> le32 target 4 \<noteq> 0 \<and> le32 (bound sk) 4 \<noteq> le32 target 4)"

definition lo_find_listener :: "u8 list \<Rightarrow> lo \<Rightarrow> nat option" where
  "lo_find_listener target g = find_slot (listener_for target) g"

definition lo_alloc_pair_endpoint :: "lo \<Rightarrow> (nat \<times> lo) option" where
  "lo_alloc_pair_endpoint g =
     (case find_slot (\<lambda>sk. \<not> in_use sk) g of None \<Rightarrow> None | Some i \<Rightarrow> Some (i, g[i := fresh_sock SOCK_STREAM]))"

definition lo_listen :: "nat \<Rightarrow> int \<Rightarrow> lo \<Rightarrow> int \<times> lo" where
  "lo_listen c n g = on_sock c g (PCNET_EBADF, g) (\<lambda>i sk.
     if stype sk \<noteq> SOCK_STREAM then (PCNET_EOPNOTSUPP, g)
     else if \<not> has_bound sk then (PCNET_EINVAL, g)
     else (PCNET_OK, g[i := sk\<lparr>st := LO_LISTENING\<rparr>]))"

definition give_addr :: "bool \<Rightarrow> int option \<Rightarrow> u8 list \<Rightarrow> name_out" where
  "give_addr a l addr = (case l of Some n \<Rightarrow> if a \<and> addr_ok n then (addr, Some 16) else ([], None) | None \<Rightarrow> ([], None))"

definition lo_accept :: "nat \<Rightarrow> bool \<Rightarrow> int option \<Rightarrow> lo \<Rightarrow> (int \<times> nat \<times> name_out) \<times> lo" where
  "lo_accept c a l g = on_sock c g ((PCNET_EBADF, 0, [], None), g) (\<lambda>i sk.
     if st sk \<noteq> LO_LISTENING then ((PCNET_EINVAL, 0, [], None), g)
     else if backlog_count sk = 0 then ((PCNET_EAGAIN, 0, [], None), g)
     else ((PCNET_OK, backlog sk ! backlog_head sk + 1, give_addr a l (bound sk)),
           g[i := sk\<lparr>backlog_head := (backlog_head sk + 1) mod LO_BACKLOG, backlog_count := backlog_count sk - 1\<rparr>]))"

definition lo_connect :: "nat \<Rightarrow> in_ptr \<Rightarrow> int \<Rightarrow> lo \<Rightarrow> int \<times> lo" where
  "lo_connect c a l g = on_sock c g (PCNET_EBADF, g) (\<lambda>i sk.
     case a of None \<Rightarrow> (PCNET_EINVAL, g) | Some p \<Rightarrow>
     if \<not> addr_ok l then (PCNET_EINVAL, g)
     else if stype sk \<noteq> SOCK_STREAM then (PCNET_OK, g)
     else if st sk \<noteq> LO_IDLE then (PCNET_EISCONN, g)
     else case lo_find_listener (ptr_bytes p 16) g of None \<Rightarrow> (PCNET_ECONNREFUSED, g) | Some li \<Rightarrow>
       if backlog_count (g ! li) \<ge> LO_BACKLOG then (PCNET_ECONNREFUSED, g)
       else case lo_alloc_pair_endpoint g of None \<Rightarrow> (PCNET_ECONNREFUSED, g) | Some (sv, g1) \<Rightarrow>
         let g2 = g1[i := (g1 ! i)\<lparr>peer := Some sv, st := LO_ESTABLISHED\<rparr>];
             g3 = g2[sv := (g2 ! sv)\<lparr>peer := Some i, st := LO_ESTABLISHED, bound := bound (g2 ! li), has_bound := True\<rparr>];
             ls = g3 ! li;
             tail = (backlog_head ls + backlog_count ls) mod LO_BACKLOG
         in (PCNET_OK, g3[li := ls\<lparr>backlog := (backlog ls)[tail := sv], backlog_count := backlog_count ls + 1\<rparr>]))"

definition lo_getsockname :: "nat \<Rightarrow> bool \<Rightarrow> int option \<Rightarrow> lo \<Rightarrow> (int \<times> name_out) \<times> lo" where
  "lo_getsockname c a l g = on_sock c g ((PCNET_EBADF, [], None), g) (\<lambda>i sk.
     case l of None \<Rightarrow> ((PCNET_EINVAL, [], None), g) | Some n \<Rightarrow>
     if \<not> a \<or> \<not> addr_ok n then ((PCNET_EINVAL, [], None), g)
     else ((PCNET_OK, if has_bound sk then bound sk else replicate 16 0, Some 16), g))"

definition lo_getpeername :: "nat \<Rightarrow> bool \<Rightarrow> int option \<Rightarrow> lo \<Rightarrow> (int \<times> name_out) \<times> lo" where
  "lo_getpeername c a l g = on_sock c g ((PCNET_EBADF, [], None), g) (\<lambda>i sk.
     if stype sk \<noteq> SOCK_STREAM then ((PCNET_ENOTCONN, [], None), g)
     else if st sk \<noteq> LO_ESTABLISHED \<and> st sk \<noteq> LO_PEER_GONE then ((PCNET_ENOTCONN, [], None), g)
     else case l of None \<Rightarrow> ((PCNET_EINVAL, [], None), g) | Some n \<Rightarrow>
     if \<not> a \<or> \<not> addr_ok n then ((PCNET_EINVAL, [], None), g)
     else ((PCNET_OK, case peer sk of Some p \<Rightarrow> bound (g ! p) | None \<Rightarrow> replicate 16 0, Some 16), g))"

section \<open>Datagrams: the synthesised DNS reply\<close>

function synth_name_end :: "u8 list \<Rightarrow> nat \<Rightarrow> nat \<Rightarrow> nat option" where
  "synth_name_end q qlen p =
     (if p < qlen
      then let len = q ! p
           in if len = 0 then Some (p + 1)
              else if len AND 0xC0 \<noteq> 0 \<or> len > 63 then None
              else synth_name_end q qlen (p + 1 + unat len)
      else Some p)"
  by auto
termination by (relation "measure (\<lambda>(q, qlen, p). qlen - p)") auto

declare synth_name_end.simps [simp del]

text \<open>The reply as the bytes it is made of, \<open>None\<close> where the code returns 0.\<close>

definition loopback_dns_synth :: "u8 list \<Rightarrow> nat \<Rightarrow> nat \<Rightarrow> u8 list option" where
  "loopback_dns_synth q qlen rcap =
     (if qlen < DNS_HDR_LEN + 5 then None
      else if rcap < qlen + 16 then None
      else case synth_name_end q qlen DNS_HDR_LEN of None \<Rightarrow> None | Some p \<Rightarrow>
        if p + 4 > qlen then None
        else if rbe16 q p \<noteq> 1 \<or> rbe16 q (p + 2) \<noteq> 1 then None
        else let head = (take (p + 4) q)[2 := 0x81, 3 := 0x80, 6 := 0, 7 := 1, 8 := 0, 9 := 0, 10 := 0, 11 := 0]
             in Some (head @ [0xC0, 0x0C, 0, 1, 0, 1, 0, 0, 0, 60, 0, 4, 0x7F, 0, 0, 1]))"

definition lo_sendto :: "nat \<Rightarrow> in_ptr \<Rightarrow> u32 \<Rightarrow> int \<Rightarrow> in_ptr \<Rightarrow> int \<Rightarrow> lo \<Rightarrow> int \<times> lo" where
  "lo_sendto c buf len fl dest tolen g = on_sock c g (PCNET_EBADF, g) (\<lambda>i sk.
     if stype sk \<noteq> SOCK_DGRAM then (PCNET_EOPNOTSUPP, g)
     else case (buf, dest) of
       (Some b, Some d) \<Rightarrow>
         if \<not> addr_ok tolen then (PCNET_EINVAL, g)
         else let sin = ptr_bytes d 16; dest_port = unat (sin ! 2) * 256 + unat (sin ! 3)
              in if dest_port = 53
                 then (case loopback_dns_synth (ptr_bytes b (unat len)) (unat len) LO_BUF_SIZE of
                         None \<Rightarrow> (sint len, g)
                       | Some r \<Rightarrow> (sint len, g[i := sk\<lparr>rx_buf := r @ drop (length r) (rx_buf sk), rx_len := length r, rx_from := sin\<rparr>]))
                 else (sint len, g)
     | _ \<Rightarrow> (PCNET_EINVAL, g))"

section \<open>Rings\<close>

text \<open>Copying out of the ring and into it, in two parts where the ring wraps.\<close>

definition ring_get :: "nat \<Rightarrow> lo_sock \<Rightarrow> u8 list \<times> lo_sock" where
  "ring_get n sk =
     (let first = min (LO_TCP_RING - tcp_head sk) n
      in (take first (drop (tcp_head sk) (tcp_rx sk)) @ take (n - first) (tcp_rx sk),
          sk\<lparr>tcp_head := (tcp_head sk + n) mod LO_TCP_RING, tcp_count := tcp_count sk - n\<rparr>))"

definition overwrite :: "nat \<Rightarrow> u8 list \<Rightarrow> u8 list \<Rightarrow> u8 list" where
  "overwrite k bs buf = take k buf @ bs @ drop (k + length bs) buf"

definition ring_put :: "u8 list \<Rightarrow> lo_sock \<Rightarrow> lo_sock" where
  "ring_put bs p =
     (let tail = (tcp_head p + tcp_count p) mod LO_TCP_RING;
          first = min (LO_TCP_RING - tail) (length bs);
          rx1 = overwrite tail (take first bs) (tcp_rx p);
          rx2 = overwrite 0 (drop first bs) rx1
      in p\<lparr>tcp_rx := rx2, tcp_count := tcp_count p + length bs\<rparr>)"

definition lo_recvfrom :: "nat \<Rightarrow> u32 \<Rightarrow> int \<Rightarrow> bool \<Rightarrow> int option \<Rightarrow> lo \<Rightarrow> (int \<times> u8 list \<times> name_out) \<times> lo" where
  "lo_recvfrom c len fl from fromlen g = on_sock c g ((PCNET_EBADF, [], [], None), g) (\<lambda>i sk.
     if stype sk = SOCK_STREAM
     then if tcp_count sk = 0 then ((if st sk = LO_PEER_GONE then 0 else PCNET_EAGAIN, [], [], None), g)
          else let n = min (tcp_count sk) (unat len)
               in (case ring_get n sk of (bs, sk1) \<Rightarrow>
                     ((int n, bs, [], if from \<and> fromlen \<noteq> None then Some 0 else None), g[i := sk1]))
     else if rx_len sk = 0 then ((PCNET_EAGAIN, [], [], None), g)
     else let n = min (rx_len sk) (unat len)
          in ((int n, take n (rx_buf sk), give_addr from fromlen (rx_from sk)), g[i := sk\<lparr>rx_len := 0\<rparr>]))"

definition lo_send :: "nat \<Rightarrow> (nat \<Rightarrow> u8) \<Rightarrow> u32 \<Rightarrow> int \<Rightarrow> lo \<Rightarrow> int \<times> lo" where
  "lo_send c buf len fl g = on_sock c g (PCNET_EBADF, g) (\<lambda>i sk.
     if stype sk \<noteq> SOCK_STREAM then (PCNET_EOPNOTSUPP, g)
     else if st sk = LO_PEER_GONE then (PCNET_ECONNRESET, g)
     else if st sk \<noteq> LO_ESTABLISHED then (PCNET_ENOTCONN, g)
     else let gone = (PCNET_ECONNRESET, g[i := sk\<lparr>st := LO_PEER_GONE, peer := None\<rparr>])
          in case peer sk of None \<Rightarrow> gone | Some p \<Rightarrow>
             if \<not> in_use (g ! p) then gone
             else let space = LO_TCP_RING - tcp_count (g ! p)
                  in if space = 0 then (PCNET_EAGAIN, g)
                     else let n = min (unat len) space
                          in (int n, g[p := ring_put (ptr_bytes buf n) (g ! p)]))"

definition lo_recv :: "nat \<Rightarrow> u32 \<Rightarrow> int \<Rightarrow> lo \<Rightarrow> (int \<times> u8 list) \<times> lo" where
  "lo_recv c l f g = (case lo_recvfrom c l f False None g of ((rc, bs, _), g1) \<Rightarrow> ((rc, bs), g1))"

definition lo_poll :: "nat \<Rightarrow> lo \<Rightarrow> int \<times> lo" where
  "lo_poll c g = on_sock c g (PCNET_EBADF, g) (\<lambda>i sk.
     if stype sk = SOCK_STREAM
     then (case st sk of
             LO_LISTENING \<Rightarrow> if backlog_count sk > 0 then PCNET_POLL_RD else 0
           | LO_ESTABLISHED \<Rightarrow> or (if tcp_count sk > 0 then PCNET_POLL_RD else 0)
               (case peer sk of None \<Rightarrow> 0 | Some p \<Rightarrow> if tcp_count (g ! p) < LO_TCP_RING then PCNET_POLL_WR else 0)
           | LO_PEER_GONE \<Rightarrow> PCNET_POLL_RD
           | LO_IDLE \<Rightarrow> PCNET_POLL_WR, g)
     else (or PCNET_POLL_WR (if rx_len sk > 0 then PCNET_POLL_RD else 0), g))"

definition lo_setsockopt :: "nat \<Rightarrow> int \<Rightarrow> int \<Rightarrow> in_ptr \<Rightarrow> int \<Rightarrow> lo \<Rightarrow> int \<times> lo" where
  "lo_setsockopt c lv n v l g = (PCNET_OK, g)"

definition lo_getsockopt :: "nat \<Rightarrow> int \<Rightarrow> int \<Rightarrow> bool \<Rightarrow> int option \<Rightarrow> lo \<Rightarrow> (int \<times> name_out) \<times> lo" where
  "lo_getsockopt c lv n v l g = ((PCNET_OK, [], None), g)"

definition loopback_ops :: "lo net_provider_ops" where
  "loopback_ops = \<lparr>start = Some loopback_start, stop = Some loopback_stop, sock_create = Some lo_create, sock_close = Some lo_close,
     sock_shutdown = Some lo_shutdown, sock_bind = Some lo_bind, sock_connect = Some lo_connect, sock_listen = Some lo_listen,
     sock_accept = Some lo_accept, sock_getsockname = Some lo_getsockname, sock_getpeername = Some lo_getpeername,
     sock_send = Some lo_send, sock_recv = Some lo_recv, sock_sendto = Some lo_sendto, sock_recvfrom = Some lo_recvfrom,
     sock_poll = Some lo_poll, sock_setsockopt = Some lo_setsockopt, sock_getsockopt = Some lo_getsockopt\<rparr>"

definition loopback_provider :: "u32 \<Rightarrow> lo net_provider" where
  "loopback_provider addr = \<lparr>self = addr, abi_version = 1, p_ops = Some loopback_ops\<rparr>"

definition loopback_init :: "u32 \<Rightarrow> lo net_state \<Rightarrow> int \<times> lo net_state" where
  "loopback_init addr s = net_register_provider (Some (loopback_provider addr)) s"

definition loopback_exit :: "u32 \<Rightarrow> lo net_state \<Rightarrow> lo net_state" where
  "loopback_exit addr s = net_unregister_provider addr s"


section \<open>Bounded byte queues\<close>

text \<open>
  The interface between a stream's two ends: a queue that takes bytes while there is room and gives them back in order.
\<close>

locale bounded_queue =
  fixes put :: "'b list \<Rightarrow> 'q \<Rightarrow> 'q"
    and get :: "nat \<Rightarrow> 'q \<Rightarrow> 'b list \<times> 'q"
    and contents :: "'q \<Rightarrow> 'b list"
    and cap :: nat
    and invar :: "'q \<Rightarrow> bool"
  assumes put_law: "invar q \<Longrightarrow> length (contents q) + length bs \<le> cap \<Longrightarrow> invar (put bs q) \<and> contents (put bs q) = contents q @ bs"
    and get_law: "invar q \<Longrightarrow> n \<le> length (contents q) \<Longrightarrow>
      fst (get n q) = take n (contents q) \<and> invar (snd (get n q)) \<and> contents (snd (get n q)) = drop n (contents q)"
    and cap_law: "invar q \<Longrightarrow> length (contents q) \<le> cap"
begin

text \<open>What goes in comes out, in order, whatever the sizes of the pieces.\<close>

lemma get_put:
  assumes "invar q" "contents q = []" "length bs \<le> cap"
  shows "fst (get (length bs) (put bs q)) = bs"
  using put_law [of q bs] get_law [of "put bs q" "length bs"] assms by simp

lemma put_get_order:
  assumes "invar q" "length (contents q) + length bs \<le> cap" "n \<le> length (contents q) + length bs"
  shows "fst (get n (put bs q)) @ contents (snd (get n (put bs q))) = contents q @ bs"
  using put_law [of q bs] get_law [of "put bs q" n] assms by (simp add: append_eq_append_conv_if)

end

definition ring_ok :: "lo_sock \<Rightarrow> bool" where
  "ring_ok sk \<longleftrightarrow> length (tcp_rx sk) = LO_TCP_RING \<and> tcp_head sk < LO_TCP_RING \<and> tcp_count sk \<le> LO_TCP_RING"

definition ring_bytes :: "lo_sock \<Rightarrow> u8 list" where
  "ring_bytes sk = map (\<lambda>k. tcp_rx sk ! ((tcp_head sk + k) mod LO_TCP_RING)) [0..<tcp_count sk]"

lemma length_ring_bytes [simp]: "length (ring_bytes sk) = tcp_count sk"
  by (simp add: ring_bytes_def)

lemma ring_mod: "h < R \<Longrightarrow> k \<le> R \<Longrightarrow> (h + k) mod R = (if h + k < R then h + k else h + k - (R :: nat))"
  by (auto simp: mod_if)

lemma ring_get_bytes:
  assumes ok: "ring_ok sk" and n: "n \<le> tcp_count sk"
  shows "fst (ring_get n sk) = take n (ring_bytes sk)"
proof (rule nth_equalityI)
  let ?R = LO_TCP_RING and ?h = "tcp_head sk"
  have b: "n \<le> ?R" "?h < ?R" "length (tcp_rx sk) = ?R" using ok n by (auto simp: ring_ok_def)
  then show len: "length (fst (ring_get n sk)) = length (take n (ring_bytes sk))"
    using n by (auto simp: ring_get_def Let_def)
  fix i assume "i < length (fst (ring_get n sk))"
  then have i: "i < n" using len n by simp
  then have "take n (ring_bytes sk) ! i = tcp_rx sk ! (if ?h + i < ?R then ?h + i else ?h + i - ?R)"
    using n b by (simp add: ring_bytes_def ring_mod)
  then show "fst (ring_get n sk) ! i = take n (ring_bytes sk) ! i"
    using i b by (auto simp: ring_get_def Let_def nth_append min_def add.commute)
qed

lemma ring_get_rest:
  assumes ok: "ring_ok sk" and n: "n \<le> tcp_count sk"
  shows "ring_ok (snd (ring_get n sk))" "ring_bytes (snd (ring_get n sk)) = drop n (ring_bytes sk)"
proof -
  have R: "0 < LO_TCP_RING" by (simp add: LO_TCP_RING_def)
  then show "ring_ok (snd (ring_get n sk))" using ok n by (auto simp: ring_ok_def ring_get_def Let_def)
  have "((tcp_head sk + n) mod LO_TCP_RING + k) mod LO_TCP_RING = (tcp_head sk + (n + k)) mod LO_TCP_RING" for k
    by (simp add: mod_add_left_eq add.assoc)
  then show "ring_bytes (snd (ring_get n sk)) = drop n (ring_bytes sk)"
    by (auto simp: ring_bytes_def ring_get_def Let_def drop_map intro!: nth_equalityI)
qed

lemma nth_overwrite:
  "k + length bs \<le> length buf \<Longrightarrow> i < length buf \<Longrightarrow>
     overwrite k bs buf ! i = (if k \<le> i \<and> i < k + length bs then bs ! (i - k) else buf ! i)"
  by (auto simp: overwrite_def nth_append min_def)

lemma length_overwrite [simp]: "k + length bs \<le> length buf \<Longrightarrow> length (overwrite k bs buf) = length buf"
  by (simp add: overwrite_def)

lemma ring_put_result:
  assumes ok: "ring_ok p" and room: "tcp_count p + length bs \<le> LO_TCP_RING"
  shows "ring_ok (ring_put bs p)" "ring_bytes (ring_put bs p) = ring_bytes p @ bs"
proof -
  let ?R = LO_TCP_RING and ?h = "tcp_head p" and ?c = "tcp_count p" and ?n = "length bs"
  define t where "t = (?h + ?c) mod ?R"
  define f where "f = min (?R - t) ?n"
  define rx where "rx = overwrite 0 (drop f bs) (overwrite t (take f bs) (tcp_rx p))"
  have b: "?h < ?R" "?c \<le> ?R" "length (tcp_rx p) = ?R" using ok by (auto simp: ring_ok_def)
  have t: "t < ?R" using b by (simp add: t_def)
  have tR: "t = (if ?h + ?c < ?R then ?h + ?c else ?h + ?c - ?R)" unfolding t_def using b by (intro ring_mod)
  have f: "t + f \<le> ?R" "f \<le> ?n" "f < ?n \<Longrightarrow> f = ?R - t" using t by (auto simp: f_def)
  have len: "length (overwrite t (take f bs) (tcp_rx p)) = ?R" using f b by simp
  have dl: "length (drop f bs) \<le> ?R" using room by simp
  have lrx: "length rx = ?R" unfolding rx_def using len dl by simp
  have pe: "ring_put bs p = p\<lparr>tcp_rx := rx, tcp_count := ?c + ?n\<rparr>"
    unfolding ring_put_def Let_def t_def [symmetric] f_def [symmetric] rx_def by simp
  then show "ring_ok (ring_put bs p)" using lrx ok room by (simp add: ring_ok_def)
  have old: "rx ! ((?h + k) mod ?R) = tcp_rx p ! ((?h + k) mod ?R)" if k: "k < ?c" for k
  proof -
    define i where "i = (?h + k) mod ?R"
    have iR: "i = (if ?h + k < ?R then ?h + k else ?h + k - ?R)" unfolding i_def using b k by (intro ring_mod) auto
    have i: "i < ?R" using b k by (simp add: i_def)
    have "\<not> (t \<le> i \<and> i < t + f)" using iR tR f k room b by (auto split: if_splits)
    moreover have "\<not> i < ?n - f"
    proof
      assume a: "i < ?n - f"
      then have "f = ?R - t" using f by simp
      then show False using a iR tR k room b by (auto split: if_splits)
    qed
    ultimately show ?thesis using i f b len dl unfolding i_def [symmetric] rx_def by (auto simp: nth_overwrite)
  qed
  have new: "rx ! ((?h + (?c + k)) mod ?R) = bs ! k" if k: "k < ?n" for k
  proof -
    have m: "(?h + (?c + k)) mod ?R = (t + k) mod ?R" unfolding t_def by (simp add: mod_add_left_eq add.assoc)
    have tk: "(t + k) mod ?R = (if t + k < ?R then t + k else t + k - ?R)" using t k room by (intro ring_mod) auto
    show ?thesis
    proof (cases "k < f")
      case True
      then have "t + k < ?R" using f by simp
      moreover have "\<not> t + k < ?n - f"
      proof
        assume a: "t + k < ?n - f"
        then have "f = ?R - t" using f by simp
        then show False using a True tR room b by (auto split: if_splits)
      qed
      ultimately show ?thesis using True f b len dl unfolding m tk rx_def by (simp add: nth_overwrite)
    next
      case False
      then have fe: "f = ?R - t" using f k by simp
      then have "\<not> t + k < ?R" "t + k - ?R = k - f" using False t by linarith+
      then have "(t + k) mod ?R = k - f" using tk by simp
      moreover have "k - f < length (drop f bs)" "k - f < ?R" using False k room by auto
      then have "rx ! (k - f) = drop f bs ! (k - f)" unfolding rx_def using len dl by (subst nth_overwrite) auto
      moreover have "drop f bs ! (k - f) = bs ! k" using False k by simp
      ultimately show ?thesis unfolding m by simp
    qed
  qed
  show "ring_bytes (ring_put bs p) = ring_bytes p @ bs"
    unfolding pe ring_bytes_def using old new
    by (auto intro!: nth_equalityI simp: nth_append)
      (metis add_diff_inverse_nat nat_add_left_cancel_less)
qed

lemma ring_count: "ring_ok sk \<Longrightarrow> tcp_count sk \<le> LO_TCP_RING"
  by (simp add: ring_ok_def)

interpretation ring: bounded_queue ring_put ring_get ring_bytes LO_TCP_RING ring_ok
  by unfold_locales (auto simp: ring_put_result ring_get_bytes ring_get_rest ring_count)

section \<open>Pairs\<close>

text \<open>
  The invariant of the table: every ring is well-formed, and an established socket and its peer are two different live
  stream sockets that name each other.
\<close>

definition linked :: "lo \<Rightarrow> nat \<Rightarrow> nat \<Rightarrow> bool" where
  "linked g i p \<longleftrightarrow> in_use (g ! i) \<and> st (g ! i) = LO_ESTABLISHED \<and> stype (g ! i) = SOCK_STREAM \<and> peer (g ! i) = Some p"

definition lo_ok :: "lo \<Rightarrow> bool" where
  "lo_ok g \<longleftrightarrow> length g = LO_MAX_SOCKETS \<and> (\<forall>k < LO_MAX_SOCKETS. ring_ok (g ! k)) \<and>
     (\<forall>k < LO_MAX_SOCKETS. in_use (g ! k) \<and> st (g ! k) = LO_ESTABLISHED \<longrightarrow>
        (\<exists>p < LO_MAX_SOCKETS. p \<noteq> k \<and> linked g k p \<and> linked g p k))"

text \<open>The part of a socket the streams depend on.\<close>

definition stream_part where
  "stream_part sk = (in_use sk, stype sk, st sk, peer sk, tcp_rx sk, tcp_head sk, tcp_count sk)"

definition same_streams :: "lo \<Rightarrow> lo \<Rightarrow> bool" where
  "same_streams g g' \<longleftrightarrow> length g' = length g \<and> (\<forall>k < length g. stream_part (g' ! k) = stream_part (g ! k))"

lemma same_streams_refl [simp]: "same_streams g g"
  by (simp add: same_streams_def)

lemma same_streams_update:
  "i < length g \<Longrightarrow> stream_part sk = stream_part (g ! i) \<Longrightarrow> same_streams g (g[i := sk])"
  by (auto simp: same_streams_def nth_list_update)

lemma stream_partD:
  "stream_part a = stream_part b \<Longrightarrow> in_use a = in_use b \<and> stype a = stype b \<and> st a = st b \<and> peer a = peer b \<and>
     ring_ok a = ring_ok b \<and> ring_bytes a = ring_bytes b \<and> tcp_count a = tcp_count b"
  by (simp add: stream_part_def ring_ok_def ring_bytes_def)

lemma same_streams_linked: "same_streams g g' \<Longrightarrow> i < length g \<Longrightarrow> linked g' i p = linked g i p"
  by (auto simp: same_streams_def linked_def dest!: stream_partD)

lemma same_streams_ok: "same_streams g g' \<Longrightarrow> lo_ok g \<Longrightarrow> lo_ok g'"
  unfolding lo_ok_def using same_streams_linked [of g g']
  by (auto simp: same_streams_def dest!: stream_partD) (metis (no_types, lifting) stream_partD)

lemma linked_sym: "lo_ok g \<Longrightarrow> linked g i p \<Longrightarrow> i < LO_MAX_SOCKETS \<Longrightarrow> p < LO_MAX_SOCKETS \<and> p \<noteq> i \<and> linked g p i"
  unfolding lo_ok_def by (auto simp: linked_def)

lemma linked_unique: "lo_ok g \<Longrightarrow> linked g i p \<Longrightarrow> linked g k p \<Longrightarrow> i < LO_MAX_SOCKETS \<Longrightarrow> k < LO_MAX_SOCKETS \<Longrightarrow> i = k"
  using linked_sym [of g i p] linked_sym [of g k p] by (auto simp: linked_def)

text \<open>A change of sockets that leaves every link alone, or removes a pair, keeps the invariant.\<close>

lemma lo_okI:
  assumes "lo_ok g" "length g' = length g" "\<And>k. k < LO_MAX_SOCKETS \<Longrightarrow> ring_ok (g' ! k)"
    and "\<And>k. k < LO_MAX_SOCKETS \<Longrightarrow> in_use (g' ! k) \<Longrightarrow> st (g' ! k) = LO_ESTABLISHED \<Longrightarrow>
      \<exists>p < LO_MAX_SOCKETS. p \<noteq> k \<and> linked g' k p \<and> linked g' p k"
  shows "lo_ok g'"
  using assms by (auto simp: lo_ok_def)

lemma fresh_ring [simp]: "ring_ok (fresh_sock t)" "ring_bytes (fresh_sock t) = []"
  by (simp_all add: fresh_sock_def ring_ok_def ring_bytes_def LO_TCP_RING_def)

lemma fresh_fields [simp]: "in_use (fresh_sock t)" "st (fresh_sock t) = LO_IDLE" "stype (fresh_sock t) = t" "peer (fresh_sock t) = None"
  by (simp_all add: fresh_sock_def)

lemma lo_ok_nth: "lo_ok g \<Longrightarrow> k < LO_MAX_SOCKETS \<Longrightarrow> ring_ok (g ! k)" "lo_ok g \<Longrightarrow> length g = LO_MAX_SOCKETS"
  by (simp_all add: lo_ok_def)

text \<open>Replacing a socket that is not established by another that is not.\<close>

lemma lo_ok_replace:
  assumes ok: "lo_ok g" and i: "i < LO_MAX_SOCKETS" "ring_ok sk"
    and old: "\<not> (in_use (g ! i) \<and> st (g ! i) = LO_ESTABLISHED)" and new: "\<not> (in_use sk \<and> st sk = LO_ESTABLISHED)"
  shows "lo_ok (g[i := sk])" "k \<noteq> i \<or> \<not> linked g k p \<Longrightarrow> linked (g[i := sk]) k p = (k \<noteq> i \<and> linked g k p)"
proof -
  have len: "length g = LO_MAX_SOCKETS" using ok by (simp add: lo_ok_def)
  have l: "linked (g[i := sk]) k p = (k \<noteq> i \<and> linked g k p)" for k p
    using new i len by (auto simp: linked_def nth_list_update)
  then show "linked (g[i := sk]) k p = (k \<noteq> i \<and> linked g k p)" by simp
  have ni: "\<not> linked g i p" for p using old by (auto simp: linked_def)
  show "lo_ok (g[i := sk])"
  proof (rule lo_okI [OF ok])
    fix k assume k: "k < LO_MAX_SOCKETS"
    show "ring_ok (g[i := sk] ! k)" using k i len ok by (auto simp: nth_list_update lo_ok_def)
    assume "in_use (g[i := sk] ! k)" "st (g[i := sk] ! k) = LO_ESTABLISHED"
    then have "k \<noteq> i" "in_use (g ! k)" "st (g ! k) = LO_ESTABLISHED" using new i len by (auto simp: nth_list_update split: if_splits)
    then obtain p where "p < LO_MAX_SOCKETS" "p \<noteq> k" "linked g k p" "linked g p k" using ok k by (auto simp: lo_ok_def)
    then show "\<exists>p < LO_MAX_SOCKETS. p \<noteq> k \<and> linked (g[i := sk]) k p \<and> linked (g[i := sk]) p k"
      using l ni \<open>k \<noteq> i\<close> by metis
  qed simp
qed

text \<open>Replacing a socket by one that differs in its ring only.\<close>

lemma lo_ok_ring:
  assumes ok: "lo_ok g" and i: "i < LO_MAX_SOCKETS" "ring_ok sk"
    and same: "in_use sk = in_use (g ! i)" "st sk = st (g ! i)" "stype sk = stype (g ! i)" "peer sk = peer (g ! i)"
  shows "lo_ok (g[i := sk])" "linked (g[i := sk]) k p = linked g k p"
proof -
  have len: "length g = LO_MAX_SOCKETS" using ok by (simp add: lo_ok_def)
  have l: "linked (g[i := sk]) k p = linked g k p" for k p
    using same i len by (cases "k = i") (auto simp: linked_def)
  then show "linked (g[i := sk]) k p = linked g k p" .
  have f: "in_use (g[i := sk] ! k) = in_use (g ! k)" "st (g[i := sk] ! k) = st (g ! k)" for k
    using same i len by (cases "k = i"; simp)+
  have "ring_ok (g[i := sk] ! k)" if "k < LO_MAX_SOCKETS" for k
    using that i len ok by (auto simp: nth_list_update lo_ok_def)
  then show "lo_ok (g[i := sk])" using ok by (auto simp: lo_ok_def l f)
qed

lemma disconnect_result:
  assumes ok: "lo_ok g" and l: "linked g i p" and i: "i < LO_MAX_SOCKETS"
  shows "lo_tcp_disconnect i g = g[p := (g ! p)\<lparr>st := LO_PEER_GONE, peer := None\<rparr>, i := (g ! i)\<lparr>peer := None\<rparr>]"
    and "p < LO_MAX_SOCKETS" "p \<noteq> i"
  using linked_sym [OF ok l i] l by (auto simp: lo_tcp_disconnect_def Let_def linked_def)

text \<open>Taking a pair apart: both ends change to sockets that are not established.\<close>

lemma lo_ok_unpair:
  assumes ok: "lo_ok g" and l: "linked g i p" and i: "i < LO_MAX_SOCKETS"
    and sk: "ring_ok a" "ring_ok b" "\<not> (in_use a \<and> st a = LO_ESTABLISHED)" "\<not> (in_use b \<and> st b = LO_ESTABLISHED)"
  shows "lo_ok (g[p := a, i := b])" "linked (g[p := a, i := b]) k q = (k \<noteq> i \<and> k \<noteq> p \<and> linked g k q)"
proof -
  have len: "length g = LO_MAX_SOCKETS" using ok by (simp add: lo_ok_def)
  have p: "p < LO_MAX_SOCKETS" "p \<noteq> i" "linked g p i" using linked_sym [OF ok l i] by auto
  have L: "linked (g[p := a, i := b]) k q = (k \<noteq> i \<and> k \<noteq> p \<and> linked g k q)" for k q
    using sk i p len by (auto simp: linked_def nth_list_update)
  then show "linked (g[p := a, i := b]) k q = (k \<noteq> i \<and> k \<noteq> p \<and> linked g k q)" .
  show "lo_ok (g[p := a, i := b])"
  proof (rule lo_okI [OF ok])
    fix k assume k: "k < LO_MAX_SOCKETS"
    show "ring_ok (g[p := a, i := b] ! k)" using k i p sk len ok by (auto simp: nth_list_update lo_ok_def)
    assume "in_use (g[p := a, i := b] ! k)" "st (g[p := a, i := b] ! k) = LO_ESTABLISHED"
    then have kn: "k \<noteq> i" "k \<noteq> p" "in_use (g ! k)" "st (g ! k) = LO_ESTABLISHED"
      using sk i p len by (auto simp: nth_list_update split: if_splits)
    then obtain q where q: "q < LO_MAX_SOCKETS" "q \<noteq> k" "linked g k q" "linked g q k" using ok k by (auto simp: lo_ok_def)
    then have "q \<noteq> i" "q \<noteq> p" using l p kn by (auto simp: linked_def)
    then show "\<exists>q < LO_MAX_SOCKETS. q \<noteq> k \<and> linked (g[p := a, i := b]) k q \<and> linked (g[p := a, i := b]) q k"
      using q kn L by metis
  qed simp
qed

section \<open>What the operations keep\<close>

text \<open>The pairs outside \<open>X\<close> stay linked and keep the bytes in their rings.\<close>

definition keeps_pairs :: "nat set \<Rightarrow> lo \<Rightarrow> lo \<Rightarrow> bool" where
  "keeps_pairs X g g' \<longleftrightarrow> lo_ok g' \<and> (\<forall>k < LO_MAX_SOCKETS. \<forall>p. linked g k p \<and> k \<notin> X \<and> p \<notin> X \<longrightarrow>
     linked g' k p \<and> ring_bytes (g' ! k) = ring_bytes (g ! k))"

lemma keeps_refl [simp]: "lo_ok g \<Longrightarrow> keeps_pairs X g g"
  by (simp add: keeps_pairs_def)

lemma keeps_same: "lo_ok g \<Longrightarrow> same_streams g g' \<Longrightarrow> keeps_pairs X g g'"
  using same_streams_ok [of g g'] same_streams_linked [of g g']
  by (auto simp: keeps_pairs_def lo_ok_nth(2) same_streams_def dest!: stream_partD)

lemma keeps_update:
  "lo_ok g \<Longrightarrow> i < LO_MAX_SOCKETS \<Longrightarrow> stream_part sk = stream_part (g ! i) \<Longrightarrow> keeps_pairs X g (g[i := sk])"
  by (intro keeps_same same_streams_update) (simp_all add: lo_ok_nth)

lemma keeps_replace:
  assumes ok: "lo_ok g" and i: "i < LO_MAX_SOCKETS" "ring_ok sk"
    and old: "\<not> (in_use (g ! i) \<and> st (g ! i) = LO_ESTABLISHED)" and new: "\<not> (in_use sk \<and> st sk = LO_ESTABLISHED)"
  shows "keeps_pairs X g (g[i := sk])"
  unfolding keeps_pairs_def
proof (intro conjI allI impI)
  show "lo_ok (g[i := sk])" by (rule lo_ok_replace [OF ok i old new])
  fix k p assume k: "k < LO_MAX_SOCKETS" and l: "linked g k p \<and> k \<notin> X \<and> p \<notin> X"
  then have "k \<noteq> i" using old by (auto simp: linked_def)
  then show "linked (g[i := sk]) k p" "ring_bytes (g[i := sk] ! k) = ring_bytes (g ! k)"
    using lo_ok_replace(2) [OF ok i old new, of k p] l by auto
qed

lemma keeps_unpair:
  assumes ok: "lo_ok g" and l: "linked g i p" and i: "i < LO_MAX_SOCKETS"
    and sk: "ring_ok a" "ring_ok b" "\<not> (in_use a \<and> st a = LO_ESTABLISHED)" "\<not> (in_use b \<and> st b = LO_ESTABLISHED)"
  shows "keeps_pairs {i} g (g[p := a, i := b])"
  unfolding keeps_pairs_def
proof (intro conjI allI impI)
  show "lo_ok (g[p := a, i := b])" by (rule lo_ok_unpair [OF ok l i sk])
  fix k q assume k: "k < LO_MAX_SOCKETS" and lk: "linked g k q \<and> k \<notin> {i} \<and> q \<notin> {i}"
  then have "k \<noteq> i" "k \<noteq> p" using linked_sym [OF ok l i] by (auto simp: linked_def)
  then show "linked (g[p := a, i := b]) k q" "ring_bytes (g[p := a, i := b] ! k) = ring_bytes (g ! k)"
    using lo_ok_unpair(2) [OF ok l i sk, of k q] lk by auto
qed

definition cookie_ok :: "nat \<Rightarrow> bool" where "cookie_ok c \<longleftrightarrow> c \<le> LO_MAX_SOCKETS"

lemma on_sock_cases:
  assumes "cookie_ok c"
  obtains "on_sock c g fail call = fail" "c = 0 \<or> \<not> in_use (g ! (c - 1))"
  | i where "c = Suc i" "i < LO_MAX_SOCKETS" "in_use (g ! i)" "on_sock c g fail call = call i (g ! i)"
  using assms by (cases c) (auto simp: on_sock_def cookie_ok_def)

lemma free_slot: "find_slot (\<lambda>sk. \<not> in_use sk) g = Some i \<Longrightarrow> i < length g \<and> \<not> in_use (g ! i)"
  by (auto dest: find_slot_SomeD)

lemma lo_create_keeps: "lo_ok g \<Longrightarrow> keeps_pairs X g (snd (lo_create d t pr g))"
  using free_slot [of g] keeps_replace [of g _ "fresh_sock t" X]
  by (auto simp: lo_create_def lo_ok_nth split: option.splits)

lemma unlinked: "\<not> (stype (g ! i) = SOCK_STREAM \<and> st (g ! i) = LO_ESTABLISHED) \<Longrightarrow> lo_ok g \<Longrightarrow> i < LO_MAX_SOCKETS \<Longrightarrow>
   \<not> (in_use (g ! i) \<and> st (g ! i) = LO_ESTABLISHED)"
  by (auto simp: lo_ok_def linked_def)

lemma linked_ex:
  "lo_ok g \<Longrightarrow> i < LO_MAX_SOCKETS \<Longrightarrow> in_use (g ! i) \<Longrightarrow> st (g ! i) = LO_ESTABLISHED \<Longrightarrow> \<exists>p. linked g i p"
  by (auto simp: lo_ok_def)

lemma lo_close_keeps:
  assumes ok: "lo_ok g" and c: "cookie_ok c"
  shows "keeps_pairs {c - 1} g (snd (lo_close c g))"
proof (cases rule: on_sock_cases [OF c, of g "(PCNET_EBADF, g)" "\<lambda>i sk.
     let g1 = (if stype sk = SOCK_STREAM \<and> st sk = LO_ESTABLISHED then lo_tcp_disconnect i g else g)
     in (PCNET_OK, g1[i := (g1 ! i)\<lparr>in_use := False\<rparr>])"])
  case 1
  then show ?thesis using ok by (simp add: lo_close_def)
next
  case (2 i)
  note i = 2
  have ring: "ring_ok (g ! i)" using ok i by (simp add: lo_ok_nth)
  have len: "length g = LO_MAX_SOCKETS" using ok by (simp add: lo_ok_nth)
  show ?thesis
  proof (cases "stype (g ! i) = SOCK_STREAM \<and> st (g ! i) = LO_ESTABLISHED")
    case True
    then obtain p where l: "linked g i p" using linked_ex [OF ok i(2,3)] by auto
    note d = disconnect_result [OF ok l i(2)]
    have rp: "ring_ok (g ! p)" using ok d by (simp add: lo_ok_nth)
    have "snd (lo_close c g) = g[p := (g ! p)\<lparr>st := LO_PEER_GONE, peer := None\<rparr>, i := (g ! i)\<lparr>peer := None, in_use := False\<rparr>]"
      using i True d len by (simp add: lo_close_def Let_def)
    then show ?thesis using keeps_unpair [OF ok l i(2), of "(g ! p)\<lparr>st := LO_PEER_GONE, peer := None\<rparr>" "(g ! i)\<lparr>peer := None, in_use := False\<rparr>"]
      ring rp i by (simp add: ring_ok_def)
  next
    case False
    then have "snd (lo_close c g) = g[i := (g ! i)\<lparr>in_use := False\<rparr>]" using i by (auto simp: lo_close_def Let_def)
    then show ?thesis using keeps_replace [OF ok i(2), of "(g ! i)\<lparr>in_use := False\<rparr>"] unlinked [OF False ok i(2)] ring
      by (simp add: ring_ok_def)
  qed
qed

lemma lo_shutdown_keeps:
  assumes ok: "lo_ok g" and c: "cookie_ok c"
  shows "keeps_pairs {c - 1} g (snd (lo_shutdown c how g))"
proof (cases rule: on_sock_cases [OF c, of g "(PCNET_EBADF, g)" "\<lambda>i sk.
     if stype sk = SOCK_STREAM \<and> st sk = LO_ESTABLISHED
     then let g1 = lo_tcp_disconnect i g in (PCNET_OK, g1[i := (g1 ! i)\<lparr>st := LO_PEER_GONE\<rparr>])
     else (PCNET_OK, g[i := sk\<lparr>rx_len := 0\<rparr>])"])
  case 1
  then show ?thesis using ok by (simp add: lo_shutdown_def)
next
  case (2 i)
  note i = 2
  have ring: "ring_ok (g ! i)" using ok i by (simp add: lo_ok_nth)
  have len: "length g = LO_MAX_SOCKETS" using ok by (simp add: lo_ok_nth)
  show ?thesis
  proof (cases "stype (g ! i) = SOCK_STREAM \<and> st (g ! i) = LO_ESTABLISHED")
    case True
    then obtain p where l: "linked g i p" using linked_ex [OF ok i(2,3)] by auto
    note d = disconnect_result [OF ok l i(2)]
    have rp: "ring_ok (g ! p)" using ok d by (simp add: lo_ok_nth)
    have "snd (lo_shutdown c how g) = g[p := (g ! p)\<lparr>st := LO_PEER_GONE, peer := None\<rparr>, i := (g ! i)\<lparr>peer := None, st := LO_PEER_GONE\<rparr>]"
      using i True d len by (simp add: lo_shutdown_def Let_def)
    then show ?thesis using keeps_unpair [OF ok l i(2), of "(g ! p)\<lparr>st := LO_PEER_GONE, peer := None\<rparr>" "(g ! i)\<lparr>peer := None, st := LO_PEER_GONE\<rparr>"]
      ring rp i by (simp add: ring_ok_def)
  next
    case False
    then have "snd (lo_shutdown c how g) = g[i := (g ! i)\<lparr>rx_len := 0\<rparr>]" using i by (auto simp: lo_shutdown_def Let_def)
    then show ?thesis using keeps_update [OF ok i(2), of "(g ! i)\<lparr>rx_len := 0\<rparr>"] by (simp add: stream_part_def)
  qed
qed

lemma lo_bind_keeps: "lo_ok g \<Longrightarrow> cookie_ok c \<Longrightarrow> keeps_pairs X g (snd (lo_bind c a l g))"
  by (auto simp: lo_bind_def on_sock_def cookie_ok_def stream_part_def Let_def intro!: keeps_update split: option.splits)

lemma lo_accept_keeps: "lo_ok g \<Longrightarrow> cookie_ok c \<Longrightarrow> keeps_pairs X g (snd (lo_accept c a l g))"
  by (auto simp: lo_accept_def on_sock_def cookie_ok_def stream_part_def Let_def intro!: keeps_update)

lemma lo_names_keep:
  "lo_ok g \<Longrightarrow> keeps_pairs X g (snd (lo_getsockname c a l g))" "lo_ok g \<Longrightarrow> keeps_pairs X g (snd (lo_getpeername c a l g))"
  "lo_ok g \<Longrightarrow> keeps_pairs X g (snd (lo_poll c g))"
  by (auto simp: lo_getsockname_def lo_getpeername_def lo_poll_def on_sock_def split: option.splits lo_state.splits)

lemma lo_sendto_keeps: "lo_ok g \<Longrightarrow> cookie_ok c \<Longrightarrow> keeps_pairs X g (snd (lo_sendto c b n fl d dl g))"
  by (auto simp: lo_sendto_def on_sock_def cookie_ok_def stream_part_def Let_def intro!: keeps_update split: option.splits)

lemma lo_listen_keeps:
  assumes ok: "lo_ok g" and c: "cookie_ok c" and s: "c = 0 \<or> \<not> (in_use (g ! (c - 1)) \<and> st (g ! (c - 1)) = LO_ESTABLISHED)"
  shows "keeps_pairs X g (snd (lo_listen c n g))"
  using s ok keeps_replace [OF ok, of "c - 1" "(g ! (c - 1))\<lparr>st := LO_LISTENING\<rparr>" X] c lo_ok_nth(1) [OF ok, of "c - 1"]
  by (auto simp: lo_listen_def on_sock_def cookie_ok_def ring_ok_def)

text \<open>Connecting: a new pair is made of the caller and a socket that was free, everything else stays.\<close>

lemma keeps_trans: "keeps_pairs {} g g1 \<Longrightarrow> keeps_pairs {} g1 g2 \<Longrightarrow> keeps_pairs {} g g2"
  unfolding keeps_pairs_def by metis

lemma keeps_pair:
  assumes ok: "lo_ok g" and ab: "a < LO_MAX_SOCKETS" "b < LO_MAX_SOCKETS" "a \<noteq> b" "in_use (g ! a)" "in_use (g ! b)"
    "st (g ! a) \<noteq> LO_ESTABLISHED" "st (g ! b) \<noteq> LO_ESTABLISHED" "stype (g ! a) = SOCK_STREAM" "stype (g ! b) = SOCK_STREAM"
    and sk: "in_use x" "in_use y" "stype x = SOCK_STREAM" "stype y = SOCK_STREAM" "st x = LO_ESTABLISHED" "st y = LO_ESTABLISHED"
      "peer x = Some b" "peer y = Some a" "ring_ok x" "ring_ok y"
  shows "keeps_pairs {} g (g[a := x, b := y])"
proof -
  have len: "length g = LO_MAX_SOCKETS" using ok by (simp add: lo_ok_nth)
  have L: "linked (g[a := x, b := y]) k q \<longleftrightarrow> (if k = a then q = b else if k = b then q = a else linked g k q)" for k q
    using sk ab len by (auto simp: linked_def nth_list_update)
  have nl: "\<not> linked g a q" "\<not> linked g b q" for q using ab by (auto simp: linked_def)
  have "lo_ok (g[a := x, b := y])"
  proof (rule lo_okI [OF ok])
    fix k assume k: "k < LO_MAX_SOCKETS"
    show "ring_ok (g[a := x, b := y] ! k)" using k ab sk len ok by (auto simp: nth_list_update lo_ok_def)
    assume "in_use (g[a := x, b := y] ! k)" "st (g[a := x, b := y] ! k) = LO_ESTABLISHED"
    then consider "k = a" | "k = b" | "k \<noteq> a" "k \<noteq> b" "in_use (g ! k)" "st (g ! k) = LO_ESTABLISHED"
      by (cases "k = a"; cases "k = b") auto
    then show "\<exists>q < LO_MAX_SOCKETS. q \<noteq> k \<and> linked (g[a := x, b := y]) k q \<and> linked (g[a := x, b := y]) q k"
    proof cases
      case 3
      then obtain q where "q < LO_MAX_SOCKETS" "q \<noteq> k" "linked g k q" "linked g q k" using ok k by (auto simp: lo_ok_def)
      then show ?thesis using 3 nl L by metis
    qed (use ab L in auto)
  qed simp
  moreover have "linked (g[a := x, b := y]) k q \<and> ring_bytes (g[a := x, b := y] ! k) = ring_bytes (g ! k)" if "linked g k q" for k q
  proof -
    have "k \<noteq> a" "k \<noteq> b" using that nl by auto
    then show ?thesis using L that by simp
  qed
  ultimately show ?thesis by (simp add: keeps_pairs_def)
qed

lemma lo_connect_keeps:
  assumes ok: "lo_ok g" and c: "cookie_ok c"
  shows "keeps_pairs {} g (snd (lo_connect c a l g))"
proof (cases "snd (lo_connect c a l g) = g")
  case True
  then show ?thesis using ok by simp
next
  case False
  define i where "i = c - 1"
  have len: "length g = LO_MAX_SOCKETS" using ok by (simp add: lo_ok_nth)
  from False obtain p li sv where con: "c \<noteq> 0" "in_use (g ! i)" "stype (g ! i) = SOCK_STREAM" "st (g ! i) = LO_IDLE"
    and li: "lo_find_listener (ptr_bytes p 16) g = Some li" and sv: "find_slot (\<lambda>sk. \<not> in_use sk) g = Some sv"
    and eq: "snd (lo_connect c a l g) = (let g1 = g[sv := fresh_sock SOCK_STREAM];
         g2 = g1[i := (g1 ! i)\<lparr>peer := Some sv, st := LO_ESTABLISHED\<rparr>];
             g3 = g2[sv := (g2 ! sv)\<lparr>peer := Some i, st := LO_ESTABLISHED, bound := bound (g2 ! li), has_bound := True\<rparr>];
             ls = g3 ! li;
             tail = (backlog_head ls + backlog_count ls) mod LO_BACKLOG
         in g3[li := ls\<lparr>backlog := (backlog ls)[tail := sv], backlog_count := backlog_count ls + 1\<rparr>])"
    by (auto simp: lo_connect_def on_sock_def i_def lo_alloc_pair_endpoint_def Let_def split: if_splits option.splits)
  have i: "i < LO_MAX_SOCKETS" using c con by (simp add: cookie_ok_def i_def)
  have s: "sv < LO_MAX_SOCKETS" "\<not> in_use (g ! sv)" using free_slot [OF sv] len by auto
  have lb: "li < LO_MAX_SOCKETS" using find_slot_SomeD [OF li [unfolded lo_find_listener_def]] len by auto
  have ne: "i \<noteq> sv" using s con by auto
  define g1 where "g1 = g[sv := fresh_sock SOCK_STREAM]"
  have 1: "keeps_pairs {} g g1" unfolding g1_def using s ok by (intro keeps_replace) auto
  then have ok1: "lo_ok g1" by (simp add: keeps_pairs_def)
  define x where "x = (g1 ! i)\<lparr>peer := Some sv, st := LO_ESTABLISHED\<rparr>"
  define y where "y = (g1 ! sv)\<lparr>peer := Some i, st := LO_ESTABLISHED, bound := bound (g1[i := x] ! li), has_bound := True\<rparr>"
  define g3 where "g3 = g1[i := x, sv := y]"
  have f1: "g1 ! i = g ! i" "g1 ! sv = fresh_sock SOCK_STREAM" using ne s len by (auto simp: g1_def)
  have rings: "ring_ok (g ! i)" using ok i by (simp add: lo_ok_nth)
  have 2: "keeps_pairs {} g1 g3" unfolding g3_def
    by (rule keeps_pair [OF ok1 i s(1) ne]) (use con rings fresh_ring(1) in \<open>simp_all add: x_def y_def f1 ring_ok_def\<close>)
  then have ok3: "lo_ok g3" by (simp add: keeps_pairs_def)
  have "snd (lo_connect c a l g) = g3[li := (g3 ! li)\<lparr>backlog := (backlog (g3 ! li))[(backlog_head (g3 ! li) + backlog_count (g3 ! li)) mod LO_BACKLOG := sv],
      backlog_count := backlog_count (g3 ! li) + 1\<rparr>]"
    unfolding eq Let_def g3_def y_def x_def g1_def using ne by simp
  then have "keeps_pairs {} g3 (snd (lo_connect c a l g))" using ok3 lb by (auto simp: stream_part_def intro!: keeps_update)
  then show ?thesis using 1 2 keeps_trans by blast
qed

text \<open>Sending appends to the peer's ring as much as fits, receiving takes from the front of the caller's own ring.\<close>

lemma lo_send_result:
  fixes len :: u32
  assumes ok: "lo_ok g" and l: "linked g i p" and i: "i < LO_MAX_SOCKETS"
  defines "n \<equiv> min (unat len) (LO_TCP_RING - tcp_count (g ! p))"
  shows "lo_send (Suc i) buf len fl g =
    (if tcp_count (g ! p) = LO_TCP_RING then (PCNET_EAGAIN, g) else (int n, g[p := ring_put (ptr_bytes buf n) (g ! p)]))"
proof -
  have p: "p < LO_MAX_SOCKETS" "in_use (g ! p)" using linked_sym [OF ok l i] by (auto simp: linked_def)
  have c: "tcp_count (g ! p) \<le> LO_TCP_RING" using lo_ok_nth(1) [OF ok p(1)] by (rule ring_count)
  have "in_use (g ! i)" "stype (g ! i) = SOCK_STREAM" "st (g ! i) = LO_ESTABLISHED" "peer (g ! i) = Some p" using l by (auto simp: linked_def)
  then show ?thesis using p c by (auto simp: lo_send_def on_sock_def Let_def n_def)
qed

lemma ring_put_fields: "in_use (ring_put bs p) = in_use p" "st (ring_put bs p) = st p" "stype (ring_put bs p) = stype p" "peer (ring_put bs p) = peer p"
  by (simp_all add: ring_put_def Let_def)

lemma ring_get_fields:
  "in_use (snd (ring_get n p)) = in_use p" "st (snd (ring_get n p)) = st p" "stype (snd (ring_get n p)) = stype p" "peer (snd (ring_get n p)) = peer p"
  by (simp_all add: ring_get_def Let_def)

lemma length_ptr_bytes [simp]: "length (ptr_bytes b n) = n"
  by (simp add: ptr_bytes_def)

lemma lo_send_linked:
  assumes ok: "lo_ok g" and l: "linked g i p" and i: "i < LO_MAX_SOCKETS" and s: "lo_send (Suc i) buf len fl g = (rc, g')"
  shows "lo_ok g'" "linked g' k q = linked g k q" "k \<noteq> p \<Longrightarrow> g' ! k = g ! k"
    "ring_bytes (g' ! p) = ring_bytes (g ! p) @ (if rc \<ge> 0 then ptr_bytes buf (nat rc) else [])"
proof -
  define n where "n = min (unat len) (LO_TCP_RING - tcp_count (g ! p))"
  have p: "p < LO_MAX_SOCKETS" using linked_sym [OF ok l i] by auto
  have r: "ring_ok (g ! p)" using ok p by (simp add: lo_ok_nth)
  have len: "length g = LO_MAX_SOCKETS" using ok by (simp add: lo_ok_nth)
  have fit: "tcp_count (g ! p) + length (ptr_bytes buf n) \<le> LO_TCP_RING" using ring_count [OF r] by (simp add: n_def)
  have eq: "(rc, g') = (if tcp_count (g ! p) = LO_TCP_RING then (PCNET_EAGAIN, g) else (int n, g[p := ring_put (ptr_bytes buf n) (g ! p)]))"
    using lo_send_result [OF ok l i, where len = len and buf = buf and fl = fl] s by (simp add: n_def)
  show "lo_ok g'" "linked g' k q = linked g k q" "k \<noteq> p \<Longrightarrow> g' ! k = g ! k"
    "ring_bytes (g' ! p) = ring_bytes (g ! p) @ (if rc \<ge> 0 then ptr_bytes buf (nat rc) else [])"
    using eq ok p len lo_ok_ring [OF ok p ring_put_result(1) [OF r fit]] ring_put_result(2) [OF r fit]
    by (auto simp: ring_put_fields PCNET_EAGAIN_def split: if_splits)
qed

text \<open>A send on a socket that is not established changes no pair at all.\<close>

lemma lo_send_unlinked:
  assumes ok: "lo_ok g" and c: "cookie_ok c" and n: "c = 0 \<or> \<not> in_use (g ! (c - 1)) \<or> st (g ! (c - 1)) \<noteq> LO_ESTABLISHED"
  shows "snd (lo_send c buf len fl g) = g" "fst (lo_send c buf len fl g) < 0"
  using n by (auto simp: lo_send_def on_sock_def pcnet_errors)

lemma lo_recvfrom_stream:
  assumes ok: "lo_ok g" and i: "i < LO_MAX_SOCKETS" "in_use (g ! i)" "stype (g ! i) = SOCK_STREAM"
    and s: "lo_recvfrom (Suc i) len fl from fromlen g = ((rc, bs, nm), g')"
  shows "lo_ok g'" "linked g' k q = linked g k q" "k \<noteq> i \<Longrightarrow> g' ! k = g ! k" "bs @ ring_bytes (g' ! i) = ring_bytes (g ! i)"
    "bs = take (unat len) (ring_bytes (g ! i))"
proof -
  define n where "n = min (tcp_count (g ! i)) (unat len)"
  have r: "ring_ok (g ! i)" using ok i by (simp add: lo_ok_nth)
  have len: "length g = LO_MAX_SOCKETS" using ok by (simp add: lo_ok_nth)
  have n: "n \<le> tcp_count (g ! i)" by (simp add: n_def)
  have "tcp_count (g ! i) = 0 \<and> g' = g \<and> bs = [] \<or> g' = g[i := snd (ring_get n (g ! i))] \<and> bs = fst (ring_get n (g ! i))"
    using s i by (auto simp: lo_recvfrom_def on_sock_def Let_def n_def split: if_splits prod.splits)
  then consider "ring_bytes (g ! i) = []" "g' = g" "bs = []" | "g' = g[i := snd (ring_get n (g ! i))]" "bs = fst (ring_get n (g ! i))"
    by (auto simp: ring_bytes_def)
  then have "lo_ok g' \<and> linked g' k q = linked g k q \<and> (k \<noteq> i \<longrightarrow> g' ! k = g ! k) \<and> bs @ ring_bytes (g' ! i) = ring_bytes (g ! i) \<and>
      bs = take (unat len) (ring_bytes (g ! i))"
  proof cases
    case 1
    then show ?thesis using ok by simp
  next
    case 2
    have t: "take n (ring_bytes (g ! i)) = take (unat len) (ring_bytes (g ! i))" by (simp add: n_def min_def)
    have d: "take (unat len) (ring_bytes (g ! i)) @ drop n (ring_bytes (g ! i)) = ring_bytes (g ! i)"
      unfolding t [symmetric] by simp
    from 2 show ?thesis
      using lo_ok_ring [OF ok i(1) ring_get_rest(1) [OF r n]] ring_get_rest(2) [OF r n] ring_get_bytes [OF r n] len i t d
      by (auto simp: ring_get_fields)
  qed
  then show "lo_ok g'" "linked g' k q = linked g k q" "k \<noteq> i \<Longrightarrow> g' ! k = g ! k" "bs @ ring_bytes (g' ! i) = ring_bytes (g ! i)"
    "bs = take (unat len) (ring_bytes (g ! i))" by auto
qed

lemma lo_recvfrom_other:
  assumes ok: "lo_ok g" and c: "cookie_ok c" and n: "c = 0 \<or> \<not> in_use (g ! (c - 1)) \<or> stype (g ! (c - 1)) \<noteq> SOCK_STREAM"
  shows "keeps_pairs {} g (snd (lo_recvfrom c len fl from fromlen g))"
  using n ok c by (auto simp: lo_recvfrom_def on_sock_def cookie_ok_def stream_part_def Let_def intro!: keeps_update)

section \<open>Any sequence of calls\<close>

datatype lo_call =
    Do_create int int int
  | Do_close nat
  | Do_shutdown nat int
  | Do_bind nat in_ptr int
  | Do_connect nat in_ptr int
  | Do_listen nat int
  | Do_accept nat bool "int option"
  | Do_getsockname nat bool "int option"
  | Do_getpeername nat bool "int option"
  | Do_send nat "nat \<Rightarrow> u8" u32 int
  | Do_recv nat u32 int
  | Do_sendto nat in_ptr u32 int in_ptr int
  | Do_recvfrom nat u32 int bool "int option"
  | Do_poll nat
  | Do_setsockopt nat int int in_ptr int
  | Do_getsockopt nat int int bool "int option"

fun call_cookie :: "lo_call \<Rightarrow> nat" where
  "call_cookie (Do_create d t p) = 0"
| "call_cookie (Do_close c) = c"
| "call_cookie (Do_shutdown c h) = c"
| "call_cookie (Do_bind c a l) = c"
| "call_cookie (Do_connect c a l) = c"
| "call_cookie (Do_listen c n) = c"
| "call_cookie (Do_accept c a l) = c"
| "call_cookie (Do_getsockname c a l) = c"
| "call_cookie (Do_getpeername c a l) = c"
| "call_cookie (Do_send c b n f) = c"
| "call_cookie (Do_recv c n f) = c"
| "call_cookie (Do_sendto c b n f d k) = c"
| "call_cookie (Do_recvfrom c n f a l) = c"
| "call_cookie (Do_poll c) = c"
| "call_cookie (Do_setsockopt c v n p l) = c"
| "call_cookie (Do_getsockopt c v n p l) = c"

text \<open>The result code, the bytes received, and the new table.\<close>

fun lo_do :: "lo_call \<Rightarrow> lo \<Rightarrow> (int \<times> u8 list) \<times> lo" where
  "lo_do (Do_create d t p) g = (case lo_create d t p g of ((rc, c), g') \<Rightarrow> ((rc, []), g'))"
| "lo_do (Do_close c) g = (case lo_close c g of (rc, g') \<Rightarrow> ((rc, []), g'))"
| "lo_do (Do_shutdown c h) g = (case lo_shutdown c h g of (rc, g') \<Rightarrow> ((rc, []), g'))"
| "lo_do (Do_bind c a l) g = (case lo_bind c a l g of (rc, g') \<Rightarrow> ((rc, []), g'))"
| "lo_do (Do_connect c a l) g = (case lo_connect c a l g of (rc, g') \<Rightarrow> ((rc, []), g'))"
| "lo_do (Do_listen c n) g = (case lo_listen c n g of (rc, g') \<Rightarrow> ((rc, []), g'))"
| "lo_do (Do_accept c a l) g = (case lo_accept c a l g of ((rc, nc, nm), g') \<Rightarrow> ((rc, []), g'))"
| "lo_do (Do_getsockname c a l) g = (case lo_getsockname c a l g of ((rc, nm), g') \<Rightarrow> ((rc, []), g'))"
| "lo_do (Do_getpeername c a l) g = (case lo_getpeername c a l g of ((rc, nm), g') \<Rightarrow> ((rc, []), g'))"
| "lo_do (Do_send c b n f) g = (case lo_send c b n f g of (rc, g') \<Rightarrow> ((rc, []), g'))"
| "lo_do (Do_recv c n f) g = lo_recv c n f g"
| "lo_do (Do_sendto c b n f d k) g = (case lo_sendto c b n f d k g of (rc, g') \<Rightarrow> ((rc, []), g'))"
| "lo_do (Do_recvfrom c n f a l) g = (case lo_recvfrom c n f a l g of ((rc, bs, nm), g') \<Rightarrow> ((rc, bs), g'))"
| "lo_do (Do_poll c) g = (case lo_poll c g of (rc, g') \<Rightarrow> ((rc, []), g'))"
| "lo_do (Do_setsockopt c v n p l) g = (case lo_setsockopt c v n p l g of (rc, g') \<Rightarrow> ((rc, []), g'))"
| "lo_do (Do_getsockopt c v n p l) g = (case lo_getsockopt c v n p l g of ((rc, nm), g') \<Rightarrow> ((rc, []), g'))"

text \<open>What a call with result \<open>rc\<close> and \<open>bs\<close> puts into the stream from socket \<open>i\<close>, and takes out of the stream to socket \<open>j\<close>.\<close>

fun bytes_in :: "nat \<Rightarrow> lo_call \<Rightarrow> int \<Rightarrow> u8 list" where
  "bytes_in i (Do_send c b n f) rc = (if c = Suc i \<and> rc \<ge> 0 then ptr_bytes b (nat rc) else [])"
| "bytes_in i _ rc = []"

fun bytes_out :: "nat \<Rightarrow> lo_call \<Rightarrow> u8 list \<Rightarrow> u8 list" where
  "bytes_out j (Do_recv c n f) bs = (if c = Suc j then bs else [])"
| "bytes_out j (Do_recvfrom c n f a l) bs = (if c = Suc j then bs else [])"
| "bytes_out j _ bs = []"

text \<open>
  The calls a pair survives: any call but closing or shutting down one of its ends, and listening on a socket that is
  connected, which the code does not refuse.
\<close>

fun allowed :: "nat \<Rightarrow> nat \<Rightarrow> lo_call \<Rightarrow> lo \<Rightarrow> bool" where
  "allowed i j (Do_close c) g = (c \<noteq> Suc i \<and> c \<noteq> Suc j)"
| "allowed i j (Do_shutdown c h) g = (c \<noteq> Suc i \<and> c \<noteq> Suc j)"
| "allowed i j (Do_listen c n) g = (c = 0 \<or> st (g ! (c - 1)) \<noteq> LO_ESTABLISHED)"
| "allowed i j _ g = True"

lemma keeps_pairsD:
  assumes "keeps_pairs X g g'" "lo_ok g" "linked g i j" "i < LO_MAX_SOCKETS" "i \<notin> X" "j \<notin> X"
  shows "lo_ok g' \<and> linked g' i j \<and> ring_bytes (g' ! j) = ring_bytes (g ! j)"
  using assms linked_sym [of g i j] by (auto simp: keeps_pairs_def)

lemma lo_send_fifo:
  assumes ok: "lo_ok g" and l: "linked g i j" and i: "i < LO_MAX_SOCKETS" and c: "cookie_ok c"
    and s: "lo_send c b n f g = (rc, g')"
  shows "lo_ok g' \<and> linked g' i j \<and> ring_bytes (g' ! j) = ring_bytes (g ! j) @ bytes_in i (Do_send c b n f) rc"
proof (cases "c = 0 \<or> \<not> in_use (g ! (c - 1)) \<or> st (g ! (c - 1)) \<noteq> LO_ESTABLISHED")
  case True
  then have "g' = g" "rc < 0" using lo_send_unlinked [OF ok c True, of b n f] s by auto
  then show ?thesis using ok l by simp
next
  case False
  define k where "k = c - 1"
  have k: "k < LO_MAX_SOCKETS" "c = Suc k" using False c by (auto simp: cookie_ok_def k_def)
  then obtain p where p: "linked g k p" using linked_ex [OF ok k(1)] False by auto
  note r = lo_send_linked [OF ok p k(1) s [unfolded k(2)]]
  show ?thesis
  proof (cases "k = i")
    case True
    then have "p = j" using p l by (simp add: linked_def)
    then show ?thesis using r l True k by auto
  next
    case False
    then have "p \<noteq> j" using linked_unique [OF ok p _ k(1) i] l by auto
    then show ?thesis using r l False k by auto
  qed
qed

lemma lo_recv_fifo:
  assumes ok: "lo_ok g" and l: "linked g i j" and i: "i < LO_MAX_SOCKETS" and c: "cookie_ok c"
    and s: "lo_recvfrom c n f a al g = ((rc, bs, nm), g')"
  shows "lo_ok g' \<and> linked g' i j \<and> (if c = Suc j then bs else []) @ ring_bytes (g' ! j) = ring_bytes (g ! j)"
proof (cases "c = 0 \<or> \<not> in_use (g ! (c - 1)) \<or> stype (g ! (c - 1)) \<noteq> SOCK_STREAM")
  case True
  have "c \<noteq> Suc j" using True linked_sym [OF ok l i] by (auto simp: linked_def)
  moreover have "keeps_pairs {} g g'" using lo_recvfrom_other [OF ok c True, of n f a al] s by simp
  ultimately show ?thesis using keeps_pairsD [OF _ ok l i] by simp
next
  case False
  define k where "k = c - 1"
  have k: "k < LO_MAX_SOCKETS" "c = Suc k" "in_use (g ! k)" "stype (g ! k) = SOCK_STREAM" using False c by (auto simp: cookie_ok_def k_def)
  note r = lo_recvfrom_stream [OF ok k(1,3,4) s [unfolded k(2)]]
  show ?thesis using r l k(2) by (cases "k = j") auto
qed

lemma lo_step_fifo:
  assumes ok: "lo_ok g" and l: "linked g i j" and i: "i < LO_MAX_SOCKETS" and c: "cookie_ok (call_cookie cl)"
    and al: "allowed i j cl g" and s: "lo_do cl g = ((rc, bs), g')"
  shows "lo_ok g' \<and> linked g' i j \<and> ring_bytes (g ! j) @ bytes_in i cl rc = bytes_out j cl bs @ ring_bytes (g' ! j)"
proof -
  have quiet: ?thesis if "keeps_pairs X g g'" "i \<notin> X" "j \<notin> X" "bytes_in i cl rc = []" "bytes_out j cl bs = []" for X
    using keeps_pairsD [OF that(1) ok l i that(2,3)] that by simp
  show ?thesis
  proof (cases cl)
    case (Do_create d t p)
    then show ?thesis using quiet [of "{}"] s lo_create_keeps [OF ok, of "{}" d t p] by (auto split: prod.splits)
  next
    case (Do_close c1)
    then show ?thesis using quiet [of "{c1 - 1}"] s lo_close_keeps [OF ok, of c1] c al ok l
      by (cases c1) (auto simp: lo_close_def on_sock_def split: prod.splits)
  next
    case (Do_shutdown c1 h)
    then show ?thesis using quiet [of "{c1 - 1}"] s lo_shutdown_keeps [OF ok, of c1 h] c al ok l
      by (cases c1) (auto simp: lo_shutdown_def on_sock_def split: prod.splits)
  next
    case (Do_bind c1 a n)
    then show ?thesis using quiet [of "{}"] s lo_bind_keeps [OF ok, of c1 "{}" a n] c by (auto split: prod.splits)
  next
    case (Do_connect c1 a n)
    then show ?thesis using quiet [of "{}"] s lo_connect_keeps [OF ok, of c1 a n] c by (auto split: prod.splits)
  next
    case (Do_listen c1 n)
    then show ?thesis using quiet [of "{}"] s lo_listen_keeps [OF ok, of c1 "{}" n] c al by (auto split: prod.splits)
  next
    case (Do_accept c1 a n)
    then show ?thesis using quiet [of "{}"] s lo_accept_keeps [OF ok, of c1 "{}" a n] c by (auto split: prod.splits)
  next
    case (Do_getsockname c1 a n)
    then show ?thesis using quiet [of "{}"] s lo_names_keep(1) [OF ok, of "{}" c1 a n] by (auto split: prod.splits)
  next
    case (Do_getpeername c1 a n)
    then show ?thesis using quiet [of "{}"] s lo_names_keep(2) [OF ok, of "{}" c1 a n] by (auto split: prod.splits)
  next
    case (Do_send c1 b n f)
    then show ?thesis using lo_send_fifo [OF ok l i _, of c1 b n f rc g'] s c by (auto split: prod.splits)
  next
    case (Do_recv c1 n f)
    then show ?thesis using lo_recv_fifo [OF ok l i _, of c1 n f False None rc bs _ g'] s c
      by (auto simp: lo_recv_def split: prod.splits)
  next
    case (Do_sendto c1 b n f d k)
    then show ?thesis using quiet [of "{}"] s lo_sendto_keeps [OF ok, of c1 "{}" b n f d k] c by (auto split: prod.splits)
  next
    case (Do_recvfrom c1 n f a al1)
    then show ?thesis using lo_recv_fifo [OF ok l i _, of c1 n f a al1 rc bs _ g'] s c by (auto split: prod.splits)
  next
    case (Do_poll c1)
    then show ?thesis using quiet [of "{}"] s lo_names_keep(3) [OF ok, of "{}" c1] by (auto split: prod.splits)
  qed (use quiet [of "{}"] s ok in \<open>auto simp: lo_setsockopt_def lo_getsockopt_def\<close>)
qed

text \<open>Running a list of calls: the bytes that went into the stream from \<open>i\<close>, those that came out at \<open>j\<close>, and the table after.\<close>

fun stream_run :: "nat \<Rightarrow> nat \<Rightarrow> lo_call list \<Rightarrow> lo \<Rightarrow> u8 list \<times> u8 list \<times> lo" where
  "stream_run i j [] g = ([], [], g)"
| "stream_run i j (cl # cls) g =
     (case lo_do cl g of ((rc, bs), g1) \<Rightarrow> case stream_run i j cls g1 of (snds, recs, g2) \<Rightarrow>
        (bytes_in i cl rc @ snds, bytes_out j cl bs @ recs, g2))"

fun all_allowed :: "nat \<Rightarrow> nat \<Rightarrow> lo_call list \<Rightarrow> lo \<Rightarrow> bool" where
  "all_allowed i j [] g = True"
| "all_allowed i j (cl # cls) g \<longleftrightarrow> cookie_ok (call_cookie cl) \<and> allowed i j cl g \<and> all_allowed i j cls (snd (lo_do cl g))"

lemma stream_run_fifo:
  "lo_ok g \<Longrightarrow> linked g i j \<Longrightarrow> i < LO_MAX_SOCKETS \<Longrightarrow> all_allowed i j cls g \<Longrightarrow> stream_run i j cls g = (sent, received, g') \<Longrightarrow>
     lo_ok g' \<and> linked g' i j \<and> ring_bytes (g ! j) @ sent = received @ ring_bytes (g' ! j)"
proof (induction cls arbitrary: g sent received)
  case Nil
  then show ?case by simp
next
  case (Cons cl cls)
  obtain rc bs g1 where d: "lo_do cl g = ((rc, bs), g1)" by (metis surj_pair)
  obtain snds recs where r: "stream_run i j cls g1 = (snds, recs, g')" "sent = bytes_in i cl rc @ snds" "received = bytes_out j cl bs @ recs"
    using Cons.prems(5) d by (auto split: prod.splits)
  have 1: "lo_ok g1" "linked g1 i j" "ring_bytes (g ! j) @ bytes_in i cl rc = bytes_out j cl bs @ ring_bytes (g1 ! j)"
    using lo_step_fifo [OF Cons.prems(1-3) _ _ d] Cons.prems(4) by auto
  have 2: "lo_ok g'" "linked g' i j" "ring_bytes (g1 ! j) @ snds = recs @ ring_bytes (g' ! j)"
    using Cons.IH [OF 1(1,2) Cons.prems(3) _ r(1)] Cons.prems(4) d by auto
  have "ring_bytes (g ! j) @ sent = (ring_bytes (g ! j) @ bytes_in i cl rc) @ snds" using r by simp
  also have "\<dots> = received @ ring_bytes (g' ! j)" using 1(3) 2(3) r by simp
  finally show ?case using 2 by simp
qed

section \<open>Histories\<close>

text \<open>Listening only on sockets that are not connected.\<close>

fun listens_idle :: "lo_call \<Rightarrow> lo \<Rightarrow> bool" where
  "listens_idle (Do_listen c n) g = (c = 0 \<or> st (g ! (c - 1)) \<noteq> LO_ESTABLISHED)"
| "listens_idle _ g = True"

definition zero_sock :: lo_sock where "zero_sock = (fresh_sock 0)\<lparr>in_use := False\<rparr>"

inductive lo_reach :: "lo \<Rightarrow> bool" where
  started: "lo_reach (snd (loopback_start (replicate LO_MAX_SOCKETS zero_sock)))"
| called: "lo_reach g \<Longrightarrow> cookie_ok (call_cookie cl) \<Longrightarrow> listens_idle cl g \<Longrightarrow> lo_reach (snd (lo_do cl g))"

lemma lo_do_ok:
  assumes ok: "lo_ok g" and c: "cookie_ok (call_cookie cl)" and li: "listens_idle cl g"
  shows "lo_ok (snd (lo_do cl g))"
proof -
  have keeps: "keeps_pairs X g g' \<Longrightarrow> lo_ok g'" for X g' by (simp add: keeps_pairs_def)
  have recv: "lo_ok g'" if r: "lo_recvfrom c1 n f a l g = ((rc, bs, nm), g')" and c1: "cookie_ok c1" for c1 n f a l rc bs nm g'
  proof (cases "c1 = 0 \<or> \<not> in_use (g ! (c1 - 1)) \<or> stype (g ! (c1 - 1)) \<noteq> SOCK_STREAM")
    case True
    then show ?thesis using lo_recvfrom_other [OF ok c1 True, of n f a l] r keeps by auto
  next
    case False
    then have "c1 - 1 < LO_MAX_SOCKETS" "c1 = Suc (c1 - 1)" using c1 by (auto simp: cookie_ok_def)
    then show ?thesis using lo_recvfrom_stream(1) [OF ok, of "c1 - 1" n f a l rc bs nm g'] False r by simp
  qed
  have send: "lo_ok (snd (lo_send c1 b n f g))" if c1: "cookie_ok c1" for c1 b n f
  proof (cases "c1 = 0 \<or> \<not> in_use (g ! (c1 - 1)) \<or> st (g ! (c1 - 1)) \<noteq> LO_ESTABLISHED")
    case True
    then show ?thesis using lo_send_unlinked(1) [OF ok c1 True] ok by simp
  next
    case False
    then have k: "c1 - 1 < LO_MAX_SOCKETS" "c1 = Suc (c1 - 1)" using c1 by (auto simp: cookie_ok_def)
    then obtain p where "linked g (c1 - 1) p" using linked_ex [OF ok k(1)] False by auto
    then show ?thesis using lo_send_linked(1) [OF ok _ k(1)] k(2) by (metis surjective_pairing)
  qed
  show ?thesis
  proof (cases cl)
    case (Do_create d t p)
    then show ?thesis using keeps [OF lo_create_keeps [OF ok, of "{}" d t p]] by (auto split: prod.splits)
  next
    case (Do_close c1)
    then show ?thesis using keeps [OF lo_close_keeps [OF ok, of c1]] c by (auto split: prod.splits)
  next
    case (Do_shutdown c1 h)
    then show ?thesis using keeps [OF lo_shutdown_keeps [OF ok, of c1 h]] c by (auto split: prod.splits)
  next
    case (Do_bind c1 a n)
    then show ?thesis using keeps [OF lo_bind_keeps [OF ok, of c1 "{}" a n]] c by (auto split: prod.splits)
  next
    case (Do_connect c1 a n)
    then show ?thesis using keeps [OF lo_connect_keeps [OF ok, of c1 a n]] c by (auto split: prod.splits)
  next
    case (Do_listen c1 n)
    then show ?thesis using keeps [OF lo_listen_keeps [OF ok, of c1 "{}" n]] c li by (auto split: prod.splits)
  next
    case (Do_accept c1 a n)
    then show ?thesis using keeps [OF lo_accept_keeps [OF ok, of c1 "{}" a n]] c by (auto split: prod.splits)
  next
    case (Do_getsockname c1 a n)
    then show ?thesis using keeps [OF lo_names_keep(1) [OF ok, of "{}" c1 a n]] by (auto split: prod.splits)
  next
    case (Do_getpeername c1 a n)
    then show ?thesis using keeps [OF lo_names_keep(2) [OF ok, of "{}" c1 a n]] by (auto split: prod.splits)
  next
    case (Do_send c1 b n f)
    then show ?thesis using send [of c1 b n f] c by (auto split: prod.splits)
  next
    case (Do_recv c1 n f)
    then show ?thesis using recv [of c1 n f False None] c by (auto simp: lo_recv_def split: prod.splits)
  next
    case (Do_sendto c1 b n f d k)
    then show ?thesis using keeps [OF lo_sendto_keeps [OF ok, of c1 "{}" b n f d k]] c by (auto split: prod.splits)
  next
    case (Do_recvfrom c1 n f a al)
    then show ?thesis using recv [of c1 n f a al] c by (auto split: prod.splits)
  next
    case (Do_poll c1)
    then show ?thesis using keeps [OF lo_names_keep(3) [OF ok, of "{}" c1]] by (auto split: prod.splits)
  qed (use ok in \<open>auto simp: lo_setsockopt_def lo_getsockopt_def\<close>)
qed

lemma lo_reach_ok: "lo_reach g \<Longrightarrow> lo_ok g"
proof (induction rule: lo_reach.induct)
  case started
  have "ring_ok zero_sock" using fresh_ring(1) [of 0] by (simp add: zero_sock_def ring_ok_def)
  then show ?case by (simp add: loopback_start_def lo_ok_def ring_ok_def)
next
  case (called g cl)
  then show ?case by (intro lo_do_ok)
qed

section \<open>Properties of the streams\<close>


definition demo_addr :: "nat \<Rightarrow> u8" where
  "demo_addr k = [2, 0, 0x1F, 0x90, 127, 0, 0, 1, 0, 0, 0, 0, 0, 0, 0, 0] ! k"

fun lo_run :: "lo_call list \<Rightarrow> lo \<Rightarrow> lo" where
  "lo_run [] g = g"
| "lo_run (cl # cls) g = lo_run cls (snd (lo_do cl g))"

fun run_ok :: "lo_call list \<Rightarrow> lo \<Rightarrow> bool" where
  "run_ok [] g = True"
| "run_ok (cl # cls) g \<longleftrightarrow> cookie_ok (call_cookie cl) \<and> listens_idle cl g \<and> run_ok cls (snd (lo_do cl g))"

lemma lo_run_reach: "lo_reach g \<Longrightarrow> run_ok cls g \<Longrightarrow> lo_reach (lo_run cls g)"
  by (induction cls arbitrary: g) (auto intro: lo_reach.called)

definition demo_setup :: "lo_call list" where
  "demo_setup = [Do_create 2 1 0, Do_bind 1 (Some demo_addr) 16, Do_listen 1 4, Do_create 2 1 0, Do_connect 2 (Some demo_addr) 16]"

definition demo_lo :: lo where
  "demo_lo = lo_run demo_setup (snd (loopback_start (replicate LO_MAX_SOCKETS zero_sock)))"

lemma replicate_16: "replicate 16 x = [x, x, x, x, x, x, x, x, x, x, x, x, x, x, x, x]"
  by (simp add: numeral_eq_Suc)

lemma addr_ok_16 [simp]: "addr_ok 16"
  by (simp add: addr_ok_def)

lemma zero_sock_free [simp]: "\<not> in_use zero_sock" "zero_sock\<lparr>in_use := False\<rparr> = zero_sock"
  by (simp_all add: zero_sock_def)

lemmas lo_eval = on_sock_def lo_create_def lo_bind_def lo_listen_def lo_connect_def lo_find_listener_def listener_for_def
  lo_alloc_pair_endpoint_def Let_def AF_INET_def SOCK_STREAM_def SOCK_DGRAM_def LO_BACKLOG_def

lemma demo_lo_eq:
  "run_ok demo_setup (replicate 16 zero_sock) \<and> (\<exists>l b. in_use l \<and> lo_run demo_setup (replicate 16 zero_sock) =
     [l, (fresh_sock 1)\<lparr>peer := Some 2, st := LO_ESTABLISHED\<rparr>,
      (fresh_sock 1)\<lparr>peer := Some 1, st := LO_ESTABLISHED, bound := b, has_bound := True\<rparr>] @ drop 3 (replicate 16 zero_sock))"
  unfolding replicate_16 demo_setup_def
  by (simp add: lo_eval fresh_sock_def cookie_ok_def LO_MAX_SOCKETS_def numeral_2_eq_2)

lemma demo_lo_linked:
  "lo_reach demo_lo" "linked demo_lo 1 2" "ring_bytes (demo_lo ! 2) = []" "tcp_count (demo_lo ! 2) = 0"
proof -
  have z: "snd (loopback_start (replicate LO_MAX_SOCKETS zero_sock)) = replicate 16 zero_sock"
    by (simp add: loopback_start_def LO_MAX_SOCKETS_def)
  show "lo_reach demo_lo" unfolding demo_lo_def using demo_lo_eq lo_reach.started z by (intro lo_run_reach) simp_all
  obtain l b where d: "demo_lo = [l, (fresh_sock 1)\<lparr>peer := Some 2, st := LO_ESTABLISHED\<rparr>,
      (fresh_sock 1)\<lparr>peer := Some 1, st := LO_ESTABLISHED, bound := b, has_bound := True\<rparr>] @ drop 3 (replicate 16 zero_sock)"
    using demo_lo_eq unfolding demo_lo_def z by blast
  show "linked demo_lo 1 2" "ring_bytes (demo_lo ! 2) = []" "tcp_count (demo_lo ! 2) = 0"
    unfolding d by (simp_all add: linked_def SOCK_STREAM_def ring_bytes_def) (simp_all add: fresh_sock_def)
qed


text \<open>
  C39. Listening on a connected socket breaks the isolation of streams. The socket is no longer marked as connected, so closing it does not disconnect its
  peer; when its slot is given to a new, unconnected socket, what the old peer sends arrives in the new socket's ring.
\<close>

theorem lo_listen_connected_leaks:
  assumes "lo_reach g" and "linked g i p" and "i < LO_MAX_SOCKETS" and "has_bound (g ! p)"
    and "find_slot (\<lambda>sk. \<not> in_use sk) (g[p := zero_sock]) = Some p"
  shows "let g1 = snd (lo_listen (Suc p) n g); g2 = snd (lo_close (Suc p) g1); cg = lo_create AF_INET SOCK_STREAM 0 g2;
             rg = lo_send (Suc i) buf len fl (snd cg)
    in fst cg = (PCNET_OK, Suc p) \<and> peer (snd rg ! p) = None \<and> st (snd rg ! p) = LO_IDLE \<and>
       ring_bytes (snd rg ! p) = ptr_bytes buf (min (unat len) LO_TCP_RING)"
proof -
  have ok: "lo_ok g" using assms(1) by (rule lo_reach_ok)
  have p: "p < LO_MAX_SOCKETS" "p \<noteq> i" "linked g p i" using linked_sym [OF ok assms(2,3)] by auto
  have len: "length g = LO_MAX_SOCKETS" using ok by (simp add: lo_ok_nth)
  have 1: "snd (lo_listen (Suc p) n g) = g[p := (g ! p)\<lparr>st := LO_LISTENING\<rparr>]"
    using p assms(4) by (simp add: lo_listen_def on_sock_def linked_def)
  have 2: "snd (lo_close (Suc p) (g[p := (g ! p)\<lparr>st := LO_LISTENING\<rparr>])) = g[p := (g ! p)\<lparr>st := LO_LISTENING, in_use := False\<rparr>]"
    using p len by (simp add: lo_close_def on_sock_def linked_def Let_def)
  have "find_slot (\<lambda>sk. \<not> in_use sk) (g[p := x]) = Some p" if "\<not> in_use x" for x
  proof (rule find_slot_SomeI)
    have "\<forall>j<p. in_use (g[p := zero_sock] ! j)" using find_slot_SomeD [OF assms(5)] by blast
    then show "\<forall>j<p. \<not> \<not> in_use (g[p := x] ! j)" by simp
  qed (use p len that in auto)
  then have 3: "lo_create AF_INET SOCK_STREAM 0 (g[p := (g ! p)\<lparr>st := LO_LISTENING, in_use := False\<rparr>]) =
      ((PCNET_OK, Suc p), g[p := fresh_sock SOCK_STREAM])"
    by (simp add: lo_create_def)
  have c: "tcp_count (fresh_sock SOCK_STREAM) = 0" by (simp add: fresh_sock_def)
  define m where "m = min (unat len) LO_TCP_RING"
  have "0 < LO_TCP_RING" by (simp add: LO_TCP_RING_def)
  then have 4: "lo_send (Suc i) buf len fl (g[p := fresh_sock SOCK_STREAM]) =
      (int m, g[p := ring_put (ptr_bytes buf m) (fresh_sock SOCK_STREAM)])"
    using assms(2) p len c by (simp add: lo_send_def on_sock_def linked_def Let_def m_def)
  have r: "ring_bytes (ring_put (ptr_bytes buf m) (fresh_sock SOCK_STREAM)) = ptr_bytes buf m"
    using ring_put_result(2) [of "fresh_sock SOCK_STREAM" "ptr_bytes buf m"] c by (simp add: m_def)
  show ?thesis unfolding Let_def 1 2 3 snd_conv 4 using p len r by (simp add: ring_put_fields m_def)
qed

theorem lo_listen_connected_leaks_witness:
  "ring_bytes (snd (lo_send 2 (\<lambda>k. 33) 1 0 (snd (lo_create AF_INET SOCK_STREAM 0 (snd (lo_close 3 (snd (lo_listen 3 0 demo_lo))))))) ! 2) = [33]"
proof -
  have z: "snd (loopback_start (replicate LO_MAX_SOCKETS zero_sock)) = replicate 16 zero_sock"
    by (simp add: loopback_start_def LO_MAX_SOCKETS_def)
  obtain l b where d: "demo_lo = [l, (fresh_sock 1)\<lparr>peer := Some 2, st := LO_ESTABLISHED\<rparr>,
      (fresh_sock 1)\<lparr>peer := Some 1, st := LO_ESTABLISHED, bound := b, has_bound := True\<rparr>] @ drop 3 (replicate 16 zero_sock)"
    and l: "in_use l" using demo_lo_eq unfolding demo_lo_def z by blast
  have hb: "has_bound (demo_lo ! 2)" unfolding d by simp
  have f: "find_slot (\<lambda>sk. \<not> in_use sk) (demo_lo[2 := zero_sock]) = Some 2" unfolding d using l by (simp add: numeral_2_eq_2)
  have i: "(1 :: nat) < LO_MAX_SOCKETS" by (simp add: LO_MAX_SOCKETS_def)
  have e: "Suc 1 = (2 :: nat)" "Suc 2 = (3 :: nat)" by simp_all
  show ?thesis using lo_listen_connected_leaks [OF demo_lo_linked(1,2) i hb f, of 0 "\<lambda>k. 33" 1 0]
    unfolding e Let_def by (simp add: ptr_bytes_def LO_TCP_RING_def)
qed

text \<open>
  Closing a listener drops the connections that wait in its backlog: their server ends stay in use, and no call returns a cookie
  for them any more.
\<close>

lemma lo_close_listener_keeps_pending:
  "in_use (g ! i) \<Longrightarrow> st (g ! i) = LO_LISTENING \<Longrightarrow> k \<noteq> i \<Longrightarrow> snd (lo_close (Suc i) g) ! k = g ! k"
  by (simp add: lo_close_def on_sock_def Let_def)
end
