(* ===== verification/Resolve.thy ===== *)
theory Resolve
  imports Loopback
begin

text \<open>
  The resolver of src/src/kernel/net.c over the loopback provider of src/src/modules/loopback.c: the query the kernel encodes
  is the one the provider decodes, and the reply the provider synthesises is the one the kernel parses.
\<close>

section \<open>The provider's reading of a query\<close>

lemma synth_name_labels:
  assumes "labels_ok ls" "buf = pre @ wire_labels ls @ [0] @ post"
  shows "synth_name_end buf (length buf) (length pre) = Some (length pre + length (wire_labels ls) + 1)"
  using assms
proof (induction ls arbitrary: pre)
  case Nil
  then show ?case by (subst synth_name_end.simps) simp
next
  case (Cons l ls)
  have l: "0 < length l" "length l \<le> 63" "labels_ok ls" using Cons.prems(1) by (auto simp: labels_ok_def)
  have buf: "buf = (pre @ of_nat (length l) # l) @ wire_labels ls @ [0] @ post" using Cons.prems(2) by simp
  have at: "buf ! length pre = of_nat (length l)" using Cons.prems(2) by simp
  have "length pre < length buf" using Cons.prems(2) by simp
  then show ?case using Cons.IH [OF l(3) buf]
    by (subst synth_name_end.simps) (simp add: at label_byte [OF l(1,2)] Let_def add.assoc)
qed

definition dns_answer :: "u8 list" where
  "dns_answer = [0xC0, 0x0C, 0, 1, 0, 1, 0, 0, 0, 60, 0, 4, 0x7F, 0, 0, 1]"

definition reply_header :: "u16 \<Rightarrow> u8 list" where
  "reply_header txid = wbe16 txid @ [0x81, 0x80, 0, 1, 0, 1, 0, 0, 0, 0]"

text \<open>The reply to a query for a name: the query's id and question, and the one answer.\<close>

definition dns_response :: "u16 \<Rightarrow> u8 list \<Rightarrow> u8 list" where
  "dns_response txid qname = reply_header txid @ qname @ [0, 1, 0, 1] @ dns_answer"

lemma wbe16_1: "wbe16 1 = [0, 1]" "wbe16 0x0100 = [1, 0]"
  by (simp_all add: wbe16_def)

lemma length_wbe16 [simp]: "length (wbe16 v) = 2"
  by (simp add: wbe16_def)

lemma length_query: "length (dns_query txid qname) = 16 + length qname"
  by (simp add: dns_query_def dns_header_def)

lemma synth_response:
  assumes ls: "labels_ok ls" "ls \<noteq> []" and q: "qname = wire_labels ls @ [0]" "length qname \<le> 256"
  shows "loopback_dns_synth (dns_query txid qname) (length (dns_query txid qname)) LO_BUF_SIZE = Some (dns_response txid qname)"
proof -
  let ?q = "dns_query txid qname" and ?n = "length (dns_query txid qname)"
  have n: "?n = 16 + length qname" by (rule length_query)
  have q1: "1 < length qname" using ls q(1) by (cases ls) auto
  have hdr: "length (dns_header txid) = 12" by (simp add: dns_header_def)
  have "?q = dns_header txid @ wire_labels ls @ [0] @ [0, 1, 0, 1]" by (simp add: dns_query_def q(1) wbe16_1)
  from synth_name_labels [OF ls(1) this] have e: "synth_name_end ?q ?n 12 = Some (12 + length qname)"
    using hdr q(1) by (simp add: add.assoc)
  have "?q = (dns_header txid @ qname) @ [0, 1, 0, 1]" by (simp add: dns_query_def wbe16_1)
  moreover have "length (dns_header txid @ qname) = 12 + length qname" using hdr by simp
  ultimately have t: "rbe16 ?q (12 + length qname) = 1" "rbe16 ?q (12 + length qname + 2) = 1"
    by (simp_all add: rbe16_def nth_append del: append_assoc)
  obtain a b where id: "wbe16 txid = [a, b]" by (simp add: wbe16_def)
  have "take (12 + length qname + 4) ?q = ?q" using n by simp
  moreover have "?q[2 := 0x81, 3 := 0x80, 6 := 0, 7 := 1, 8 := 0, 9 := 0, 10 := 0, 11 := 0] @
      [0xC0, 0x0C, 0, 1, 0, 1, 0, 0, 0, 60, 0, 4, 0x7F, 0, 0, 1] = dns_response txid qname"
    by (simp add: dns_query_def dns_header_def dns_response_def reply_header_def dns_answer_def wbe16_1 id numeral_eq_Suc)
  moreover have "qname \<noteq> []" using q1 by auto
  ultimately show ?thesis using e t n q1 q(2)
    by (simp add: loopback_dns_synth_def DNS_HDR_LEN_def LO_BUF_SIZE_def Let_def)
qed

section \<open>The kernel's reading of the reply\<close>

lemma reply_parsed:
  assumes ls: "labels_ok ls" and q: "qname = wire_labels ls @ [0]" "length qname \<le> 256"
  shows "dns_reply (dns_query txid qname) (length (dns_query txid qname)) txid (dns_response txid qname @ rest)
    (length (dns_response txid qname)) = Answer [0x7F, 0, 0, 1]"
proof -
  let ?q = "dns_query txid qname" and ?n = "16 + length qname" and ?r = "dns_response txid qname @ rest"
  obtain a b where id: "wbe16 txid = [a, b]" and ab: "a = ucast (drop_bit 8 txid)" "b = ucast txid" by (simp add: wbe16_def)
  have hl: "length (reply_header txid) = 12" by (simp add: reply_header_def)
  have hdr: "?r = [a, b, 0x81, 0x80, 0, 1, 0, 1, 0, 0, 0, 0] @ qname @ [0, 1, 0, 1] @ dns_answer @ rest"
    by (simp add: dns_response_def reply_header_def id)
  have rlen: "length (dns_response txid qname) = ?n + 16" by (simp add: dns_response_def reply_header_def dns_answer_def)
  have "unat a * 256 + unat b = unat txid"
  proof -
    have "unat txid div 256 < 2 ^ 8" by (rule less_mult_imp_div_less) simp
    then have "unat a = unat txid div 256" unfolding ab
      by (simp add: unsigned_ucast_eq drop_bit_eq_div unat_div_distrib take_bit_nat_eq_self)
    moreover have "unat b = unat txid mod 256" unfolding ab by (simp add: unsigned_ucast_eq take_bit_eq_mod)
    ultimately show ?thesis by simp
  qed
  then have h: "rbe16 ?r 0 = unat txid" "?r ! 2 = 0x81" "?r ! 3 = 0x80" "rbe16 ?r 6 = 1"
    unfolding hdr rbe16_def by (simp_all add: numeral_eq_Suc)
  have echo: "\<not> echo_mismatch ?q (length ?q) ?r m 12" for m
  proof (rule echo_same)
    fix k assume k: "12 \<le> k" "k < length ?q - 4"
    then have "k - 12 < length qname" by (simp add: length_query)
    moreover have "length (dns_header txid) = 12" by (simp add: dns_header_def)
    ultimately have "?q ! k = qname ! (k - 12)" using k(1) by (simp add: dns_query_def nth_append)
    moreover have "?r ! k = qname ! (k - 12)"
      using k(1) \<open>k - 12 < length qname\<close> by (simp add: dns_response_def nth_append hl)
    ultimately show "?q ! k = ?r ! k" by simp
  qed
  have "?r = reply_header txid @ wire_labels ls @ [0] @ ([0, 1, 0, 1] @ dns_answer @ rest)"
    by (simp add: dns_response_def q(1))
  moreover have "drop 20 ([0, 1, 0, 1] @ dns_answer @ rest) = rest" by (simp add: dns_answer_def)
  ultimately have skip: "dns_skip_name ?r (?n + 16) 12 = Some (12 + length qname)"
    using skip_name_labels [OF ls, of ?r "reply_header txid" "[0, 1, 0, 1] @ dns_answer @ rest" "?n + 16" rest 20 0] q hl rlen
    by (simp add: dns_skip_name_def)
  have r2: "?r = (reply_header txid @ qname @ [0, 1, 0, 1]) @ dns_answer @ rest" by (simp add: dns_response_def)
  have l2: "length (reply_header txid @ qname @ [0, 1, 0, 1]) = ?n" using hl by simp
  have at: "?r ! (?n + k) = dns_answer ! k" if "k < 16" for k
  proof -
    have "k < length dns_answer" using that by (simp add: dns_answer_def)
    then show ?thesis unfolding r2 using l2 by (simp add: nth_append)
  qed
  have s2: "dns_skip_name ?r (?n + 16) ?n = Some (?n + 2)"
    unfolding dns_skip_name_def using at [of 0] by (subst skip_name.simps) (simp add: dns_answer_def DNS_MAX_NAME_def)
  have rd: "rbe16 ?r (?n + 2) = 1" "rbe16 ?r (?n + 4) = 1" "rbe16 ?r (?n + 10) = 4"
    using at [of 2] at [of 3] at [of 4] at [of 5] at [of 10] at [of 11] by (simp_all add: rbe16_def dns_answer_def)
  have "take 4 (drop (?n + 12) ?r) = [0x7F, 0, 0, 1]"
    unfolding r2 using l2 by (simp add: dns_answer_def)
  then have a: "find_a_record ?r (?n + 16) ?n 1 = Some [0x7F, 0, 0, 1]"
    using s2 rd by (simp add: Let_def)
  show ?thesis unfolding dns_reply_def rlen DNS_HDR_LEN_def h skip using echo a by simp
qed


section \<open>The loopback calls of a resolution\<close>

text \<open>The socket of the query, and the socket with the reply in it.\<close>

definition reply_sock :: "u16 \<Rightarrow> u8 list \<Rightarrow> u32 \<Rightarrow> lo_sock" where
  "reply_sock txid qname ip = (fresh_sock SOCK_DGRAM)\<lparr>rx_buf := dns_response txid qname @ drop (length (dns_response txid qname)) (replicate LO_BUF_SIZE 0),
     rx_len := length (dns_response txid qname), rx_from := dns_server_addr ip\<rparr>"

lemma length_server_addr [simp]: "length (dns_server_addr ip) = 16"
  by (simp add: dns_server_addr_def word_bytes_def)

lemma ptr_bytes_nth: "n \<le> length xs \<Longrightarrow> ptr_bytes (\<lambda>k. xs ! k) n = take n xs"
  by (auto simp: ptr_bytes_def intro!: nth_equalityI)

lemma query_ptr:
  assumes "length q \<le> 272"
  shows "ptr_bytes (\<lambda>k. (q @ replicate (272 - length q) 0) ! k) (length q) = q"
  using ptr_bytes_nth [of "length q" "q @ replicate (272 - length q) 0"] assms by simp

lemma server_port: "unat (dns_server_addr ip ! 2) * 256 + unat (dns_server_addr ip ! 3) = 53"
  by (simp add: dns_server_addr_def)

lemma sint_small: "n < 2147483648 \<Longrightarrow> sint (of_nat n :: u32) = int n"
  by (simp add: signed_of_nat signed_take_bit_int_eq_self)

lemma lo_sendto_query:
  fixes txid :: u16
  assumes ls: "labels_ok ls" "ls \<noteq> []" and q: "qname = wire_labels ls @ [0]" "length qname \<le> 256"
    and g: "i < length g" "g ! i = fresh_sock SOCK_DGRAM"
  defines "qq \<equiv> dns_query txid qname"
  shows "lo_sendto (Suc i) (Some (\<lambda>k. (qq @ replicate (272 - length qq) 0) ! k)) (of_nat (length qq)) 0
      (Some (\<lambda>k. dns_server_addr ip ! k)) 16 g = (int (length qq), g[i := reply_sock txid qname ip])"
proof -
  have n: "length qq = 16 + length qname" unfolding qq_def by (rule length_query)
  then have "length qq < 2147483648" using q(2) by simp
  then have u: "unat (of_nat (length qq) :: u32) = length qq" "sint (of_nat (length qq) :: u32) = int (length qq)"
    by (simp_all only: sint_small) (simp add: unat_of_nat_u32)
  have p: "ptr_bytes (\<lambda>k. dns_server_addr ip ! k) 16 = dns_server_addr ip"
    using ptr_bytes_nth [of 16 "dns_server_addr ip"] by simp
  have b: "ptr_bytes (\<lambda>k. (qq @ replicate (272 - length qq) 0) ! k) (length qq) = qq" using n q(2) by (intro query_ptr) simp
  have f: "stype (g ! i) = SOCK_DGRAM" "in_use (g ! i)" "rx_buf (g ! i) = replicate LO_BUF_SIZE 0" using g by (simp_all add: fresh_sock_def)
  show ?thesis using f synth_response [OF ls q, of txid, folded qq_def] server_port [of ip]
    unfolding lo_sendto_def on_sock_def option.case prod.case Let_def u p b by (simp add: reply_sock_def g)
qed

lemma lo_poll_reply: "i < length g \<Longrightarrow> g ! i = reply_sock txid qname ip \<Longrightarrow> lo_poll (Suc i) g = (3, g)"
  by (simp add: lo_poll_def on_sock_def reply_sock_def fresh_sock_def SOCK_STREAM_def SOCK_DGRAM_def dns_response_def
      dns_answer_def PCNET_POLL_WR_def PCNET_POLL_RD_def)

lemma length_response: "length (dns_response txid qname) = 32 + length qname"
  by (simp add: dns_response_def reply_header_def dns_answer_def)

lemma lo_recvfrom_reply:
  assumes "i < length g" "g ! i = reply_sock txid qname ip" "length qname \<le> 256"
  shows "lo_recvfrom (Suc i) (of_nat DNS_MAX_PKT) 0 True (Some 16) g =
    ((int (length (dns_response txid qname)), dns_response txid qname, dns_server_addr ip, Some 16),
     g[i := (reply_sock txid qname ip)\<lparr>rx_len := 0\<rparr>])"
proof -
  have "unat (of_nat DNS_MAX_PKT :: u32) = 512" by (simp add: DNS_MAX_PKT_def)
  moreover have "rx_len (reply_sock txid qname ip) = length (dns_response txid qname)" "stype (reply_sock txid qname ip) = SOCK_DGRAM"
    "in_use (reply_sock txid qname ip)" "rx_from (reply_sock txid qname ip) = dns_server_addr ip"
    by (simp_all add: reply_sock_def fresh_sock_def)
  moreover have "take (length (dns_response txid qname)) (rx_buf (reply_sock txid qname ip)) = dns_response txid qname"
    by (simp add: reply_sock_def)
  ultimately show ?thesis using assms
    by (simp add: lo_recvfrom_def on_sock_def SOCK_STREAM_def SOCK_DGRAM_def Let_def give_addr_def length_response min_def)
qed

lemma lo_close_dgram: "i < length g \<Longrightarrow> in_use (g ! i) \<Longrightarrow> stype (g ! i) = SOCK_DGRAM \<Longrightarrow>
    lo_close (Suc i) g = (PCNET_OK, g[i := (g ! i)\<lparr>in_use := False\<rparr>])"
  by (simp add: lo_close_def on_sock_def SOCK_STREAM_def SOCK_DGRAM_def Let_def)

section \<open>One attempt\<close>

lemma attempt_answers:
  assumes ls: "labels_ok ls" "ls \<noteq> []" and q: "qname = wire_labels ls @ [0]" "length qname \<le> 256"
    and g: "i < length (prov s)" "prov s ! i = fresh_sock SOCK_DGRAM" and t: "now s < now s + DNS_TIMEOUT_TICKS"
  shows "\<exists>sk. dns_attempt intr lo_sendto lo_poll lo_recvfrom (Suc i) (dns_server_addr ip) qname r0 s attempt =
    Some (Inr (Answer [0x7F, 0, 0, 1]), s\<lparr>g_resolve_seq := next_seq (g_resolve_seq s), prov := (prov s)[i := sk]\<rparr>) \<and>
    in_use sk \<and> stype sk = SOCK_DGRAM"
proof -
  define txid where "txid = dns_txid (g_resolve_seq s) (now s) attempt"
  define qq where "qq = dns_query txid qname"
  define sk where "sk = (reply_sock txid qname ip)\<lparr>rx_len := 0\<rparr>"
  define s2 where "s2 = s\<lparr>g_resolve_seq := next_seq (g_resolve_seq s), prov := (prov s)[i := reply_sock txid qname ip]\<rparr>"
  have n: "length qq = 16 + length qname" unfolding qq_def by (rule length_query)
  have s2: "i < length (prov s2)" "prov s2 ! i = reply_sock txid qname ip" "now s2 = now s" using g by (simp_all add: s2_def)
  have parse: "dns_reply qq (length qq) txid (dns_response txid qname @ rest) (length (dns_response txid qname)) = Answer [0x7F, 0, 0, 1]" for rest
    unfolding qq_def by (rule reply_parsed [OF ls(1) q])
  have nn: "nat (32 + int (length qname)) = 32 + length qname" by simp
  have w: "dns_wait intr lo_poll lo_recvfrom (Suc i) (dns_server_addr ip) qq txid (now s2 + DNS_TIMEOUT_TICKS) r0 s2 =
      Some (Some (Answer [0x7F, 0, 0, 1]), s2\<lparr>prov := (prov s2)[i := sk]\<rparr>)"
    using t s2 parse length_response [of txid qname]
    by (subst dns_wait.simps) (simp add: lo_poll_reply [OF s2(1,2)] lo_recvfrom_reply [OF s2(1,2) q(2)] Let_def
        PCNET_POLL_RD_def DNS_HDR_LEN_def sk_def nn)
  have snd: "lo_sendto (Suc i) (Some (\<lambda>k. (qq @ replicate (272 - length qq) 0) ! k)) (of_nat (length qq)) 0
      (Some (\<lambda>k. dns_server_addr ip ! k)) 16 (prov s) = (int (length qq), (prov s)[i := reply_sock txid qname ip])"
    unfolding qq_def by (rule lo_sendto_query [OF ls q g])
  have "dns_attempt intr lo_sendto lo_poll lo_recvfrom (Suc i) (dns_server_addr ip) qname r0 s attempt =
    Some (Inr (Answer [0x7F, 0, 0, 1]), s2\<lparr>prov := (prov s2)[i := sk]\<rparr>)"
    unfolding dns_attempt_def Let_def txid_def [symmetric] qq_def [symmetric] using snd w by (simp add: s2_def)
  then show ?thesis by (intro exI [of _ sk]) (simp add: s2_def sk_def reply_sock_def fresh_sock_def)
qed

section \<open>Properties\<close>

lemma next_deadline: "unat (t :: u64) + 500 < 2 ^ 64 \<Longrightarrow> t < t + DNS_TIMEOUT_TICKS"
proof -
  assume a: "unat t + 500 < 2 ^ 64"
  then have "unat (t + 500) = unat t + 500" by (simp add: unat_word_ariths)
  then show ?thesis unfolding DNS_TIMEOUT_TICKS_def word_less_nat_alt by simp
qed

text \<open>
  C10. With the loopback provider active, a server configured and a socket free, resolving any host name the encoder accepts
  returns, with success and the address 127.0.0.1, and leaves every socket and descriptor as free or in use as it was. So the query the
  kernel encodes is decoded by the provider and the reply it synthesises is accepted by the kernel's checks, for every
  transaction id, name, and content of the uninitialised reply buffer.
\<close>

theorem net_resolve_loopback:
  assumes act: "g_active s = Some (loopback_provider addr)" and free: "\<exists>sk \<in> set (prov s). \<not> in_use sk"
    and ip: "dns_ip \<noteq> 0" and name: "dns_encode_qname (Some host) 256 \<noteq> None" and t: "unat (now s) + 500 < 2 ^ 64"
  shows "\<exists>s'. net_resolve intr tsc dns_ip r0 (Some host) True s = Some ((PCNET_OK, Some [127, 0, 0, 1]), s') \<and>
    map in_use (prov s') = map in_use (prov s) \<and> g_fdtab s' = g_fdtab s"
proof -
  obtain qname where qn: "dns_encode_qname (Some host) 256 = Some qname" using name by blast
  obtain ls where ls: "labels_ok ls" "ls \<noteq> []" and q: "qname = wire_labels ls @ [0]" "length qname \<le> 256"
    using dns_encode_shape [OF qn] by blast
  obtain i where fs: "find_slot (\<lambda>sk. \<not> in_use sk) (prov s) = Some i" using free by (metis find_slot_None option.exhaust)
  have i: "i < length (prov s)" "\<not> in_use (prov s ! i)" using free_slot [OF fs] by auto
  define s1 where "s1 = s\<lparr>prov := (prov s)[i := fresh_sock SOCK_DGRAM], g_resolve_seq := next_seq (g_resolve_seq s) + tsc\<rparr>"
  have s1: "i < length (prov s1)" "prov s1 ! i = fresh_sock SOCK_DGRAM" "now s1 = now s" using i by (simp_all add: s1_def)
  have dl: "now s1 < now s1 + DNS_TIMEOUT_TICKS" using next_deadline [OF t] s1 by simp
  obtain sk where a: "dns_attempt intr lo_sendto lo_poll lo_recvfrom (Suc i) (dns_server_addr dns_ip) qname r0 s1 0 =
      Some (Inr (Answer [127, 0, 0, 1]), s1\<lparr>g_resolve_seq := next_seq (g_resolve_seq s1), prov := (prov s1)[i := sk]\<rparr>)"
    and sk: "in_use sk" "stype sk = SOCK_DGRAM"
    using attempt_answers [OF ls q s1(1,2) dl, of intr dns_ip r0 0] by blast
  have cr: "lo_create AF_INET SOCK_DGRAM 17 (prov s) = ((PCNET_OK, Suc i), (prov s)[i := fresh_sock SOCK_DGRAM])"
    using fs by (simp add: lo_create_def)
  define s2 where "s2 = s1\<lparr>g_resolve_seq := next_seq (g_resolve_seq s1), prov := (prov s1)[i := sk\<lparr>in_use := False\<rparr>]\<rparr>"
  have cl: "lo_close (Suc i) ((prov s1)[i := sk]) = (PCNET_OK, (prov s1)[i := sk\<lparr>in_use := False\<rparr>])"
    using lo_close_dgram [of i "(prov s1)[i := sk]"] s1 sk by simp
  have "net_resolve intr tsc dns_ip r0 (Some host) True s = Some ((PCNET_OK, Some [127, 0, 0, 1]), s2)"
    unfolding net_resolve_def act loopback_provider_def loopback_ops_def
    by (simp add: ip qn cr PCNET_OK_def Let_def s1_def [symmetric] a verdict_result_def cl s2_def)
  moreover have "map in_use (prov s2) = map in_use (prov s)"
    using i by (simp add: s2_def s1_def map_update list_update_same_conv)
  moreover have "g_fdtab s2 = g_fdtab s" by (simp add: s2_def s1_def)
  ultimately show ?thesis by blast
qed

definition demo_net :: "lo net_state" where
  "demo_net = \<lparr>g_active = Some (loopback_provider 0x1000), g_fdtab = [], prov = [zero_sock], umem = (\<lambda>a. 0), now = 7,
     g_resolve_seq = 0xA5A5A5A5\<rparr>"

text \<open>The name is \<^verbatim>\<open>a.bc\<close>.\<close>

theorem net_resolve_loopback_witness:
  "\<exists>s'. net_resolve id 99 0x01010101 [] (Some [97, 46, 98, 99]) True demo_net = Some ((PCNET_OK, Some [127, 0, 0, 1]), s') \<and>
    map in_use (prov s') = [False] \<and> g_fdtab s' = []"
proof -
  have "encode_labels [97, 46, 98, 99] 0 256 = Some [1, 97, 2, 98, 99, 0]"
    by (simp add: encode_labels.simps)
  then have n: "dns_encode_qname (Some [97, 46, 98, 99]) 256 \<noteq> None" by (simp add: dns_encode_qname_def DNS_MAX_NAME_def)
  show ?thesis
    using net_resolve_loopback [where s = demo_net and addr = "0x1000" and dns_ip = "0x01010101" and intr = id and tsc = 99 and ?r0.0 = "[]", OF _ _ _ n]
    by (simp add: demo_net_def)
qed
end
