(* ===== verification/Mcb.thy ===== *)
theory Mcb
  imports Paging
begin

text \<open>
  Conventional memory of a DOS task: the chain of memory control blocks (MCBs) that INT 21h functions 48h, 49h and 4Ah
  and \<open>dos_alloc_paragraphs\<close> work on, and the sweep that frees a child's blocks when it exits (src/src/kernel/dos.c).
  The chain lives in the byte-addressed memory the V86 task and the kernel share: a paragraph of header (type byte
  \<open>'M'\<close> or \<open>'Z'\<close>, owner and size words) before each block. Segment numbers and sizes are 16-bit words that wrap,
  except where the source adds them as \<open>int\<close>. A damaged chain can make the walks run for ever, so they are
  partial functions; that they return is part of what is proved about well-formed chains.
\<close>

section \<open>Memory and headers\<close>

type_synonym mem8 = "u32 \<Rightarrow> u8"

definition rd16 :: "mem8 \<Rightarrow> u32 \<Rightarrow> u16" where
  "rd16 m a = ucast (m a) OR push_bit 8 (ucast (m (a + 1)))"

definition wr16 :: "u32 \<Rightarrow> u16 \<Rightarrow> mem8 \<Rightarrow> mem8" where
  "wr16 a v m = m(a := ucast v, a + 1 := ucast (drop_bit 8 v))"

definition seg_adr :: "u16 \<Rightarrow> u32" where
  "seg_adr ms = push_bit 4 (ucast ms)"

definition MCB_M :: u8 where "MCB_M = 0x4D"
definition MCB_Z :: u8 where "MCB_Z = 0x5A"

definition mcb_type :: "mem8 \<Rightarrow> u32 \<Rightarrow> u8" where "mcb_type m a = m a"
definition mcb_owner :: "mem8 \<Rightarrow> u32 \<Rightarrow> u16" where "mcb_owner m a = rd16 m (a + 1)"
definition mcb_size :: "mem8 \<Rightarrow> u32 \<Rightarrow> u16" where "mcb_size m a = rd16 m (a + 3)"

definition set_type :: "u32 \<Rightarrow> u8 \<Rightarrow> mem8 \<Rightarrow> mem8" where "set_type a t m = m(a := t)"
definition set_owner :: "u32 \<Rightarrow> u16 \<Rightarrow> mem8 \<Rightarrow> mem8" where "set_owner a v = wr16 (a + 1) v"
definition set_size :: "u32 \<Rightarrow> u16 \<Rightarrow> mem8 \<Rightarrow> mem8" where "set_size a v = wr16 (a + 3) v"

section \<open>Allocation\<close>

text \<open>Handing a free block to \<open>psp\<close>; what is left over becomes a free block of the old type.\<close>

definition mcb_claim :: "u16 \<Rightarrow> u16 \<Rightarrow> u16 \<Rightarrow> u8 \<Rightarrow> u16 \<Rightarrow> mem8 \<Rightarrow> mem8" where
  "mcb_claim psp paras ms t msz m =
     (let a = seg_adr ms;
          m1 = set_owner a psp m
      in if uint msz > uint paras + 1 then
           let m2 = set_size a paras m1;
               n = push_bit 4 (ucast ms + 1 + ucast paras);
               m3 = set_size n (msz - paras - 1) (set_owner n 0 (set_type n t m2))
           in set_type a MCB_M m3
         else set_size a msz m1)"

text \<open>
  Function 48h: the segment of the MCB that was claimed, if any, and the largest free block met on the way. A header of
  neither type below 0xA000 is healed into a last free block that reaches to 0xA000.
\<close>

partial_function (option) mcb_alloc_48 ::
    "u16 \<Rightarrow> u16 \<Rightarrow> u16 \<Rightarrow> u16 \<Rightarrow> mem8 \<Rightarrow> (u16 option \<times> u16 \<times> mem8) option" where
  "mcb_alloc_48 psp paras ms largest m =
     (let a = seg_adr ms;
          bad = (mcb_type m a \<noteq> MCB_M \<and> mcb_type m a \<noteq> MCB_Z)
      in if bad \<and> \<not> ms < 0xA000 then Some (None, largest, m)
         else let m1 = (if bad then set_size a (0xA000 - ms - 1) (set_owner a 0 (set_type a MCB_Z m)) else m);
                  t = mcb_type m1 a;
                  msz = mcb_size m1 a;
                  owner = mcb_owner m1 a;
                  largest1 = (if owner = 0 \<and> msz > largest then msz else largest)
              in if owner = 0 \<and> msz \<ge> paras then Some (Some ms, largest, mcb_claim psp paras ms t msz m1)
                 else if t = MCB_Z then Some (None, largest1, m1)
                 else mcb_alloc_48 psp paras (ms + 1 + msz) largest1 m1)"

text \<open>The walk of \<open>dos_alloc_paragraphs\<close>, which gives up on a damaged header; the result is a segment or 0.\<close>

partial_function (option) mcb_alloc_walk :: "u16 \<Rightarrow> u16 \<Rightarrow> u16 \<Rightarrow> mem8 \<Rightarrow> (u16 \<times> mem8) option" where
  "mcb_alloc_walk psp paras ms m =
     (let a = seg_adr ms;
          t = mcb_type m a;
          msz = mcb_size m a;
          owner = mcb_owner m a
      in if t \<noteq> MCB_M \<and> t \<noteq> MCB_Z then Some (0, m)
         else if owner = 0 \<and> msz \<ge> paras then Some (ms + 1, mcb_claim psp paras ms t msz m)
         else if t = MCB_Z then Some (0, m)
         else mcb_alloc_walk psp paras (ms + 1 + msz) m)"

definition dos_alloc_paragraphs :: "int \<Rightarrow> u16 \<Rightarrow> kernel \<Rightarrow> mem8 \<Rightarrow> (u16 \<times> mem8) option" where
  "dos_alloc_paragraphs task_id paragraphs k m =
     (if task_id < 0 \<or> task_id \<ge> int DOS_MAX_TASKS then Some (0, m)
      else if \<not> d_active (dos_tasks k ! nat task_id) then Some (0, m)
      else if paragraphs = 0 then Some (0, m)
      else mcb_alloc_walk (ucast (psp_seg (dos_tasks k ! nat task_id))) paragraphs (v86_current_mcb_root k) m)"

section \<open>Freeing and resizing\<close>

text \<open>Function 49h; \<open>None\<close> when the block has no valid header (error 9).\<close>

definition mcb_free_49 :: "u16 \<Rightarrow> mem8 \<Rightarrow> mem8 option" where
  "mcb_free_49 seg m =
     (let a = seg_adr (seg - 1)
      in if mcb_type m a \<noteq> MCB_M \<and> mcb_type m a \<noteq> MCB_Z then None
         else let m1 = set_owner a 0 m
              in if mcb_type m1 a = MCB_M then
                   let this_sz = mcb_size m1 a;
                       n = seg_adr (seg - 1 + 1 + this_sz)
                   in if mcb_owner m1 n = 0
                      then let m2 = set_size a (this_sz + 1 + mcb_size m1 n) m1 in Some (set_type a (mcb_type m2 n) m2)
                      else Some m1
                 else Some m1)"

text \<open>Function 4Ah: \<open>Inl\<close> the error code and the word for BX (9 leaves BX alone).\<close>

datatype mcb_error = Bad_Block | No_Room u16

definition mcb_shrink :: "u16 \<Rightarrow> u16 \<Rightarrow> u16 \<Rightarrow> mem8 \<Rightarrow> mem8" where
  "mcb_shrink seg new_size old_size m =
     (let a = seg_adr (seg - 1);
          freed = old_size - new_size - 1;
          f = seg_adr (seg + new_size);
          m1 = set_size a new_size m
      in if mcb_type m1 a = MCB_Z then
           set_size f freed (set_owner f 0 (set_type f MCB_Z (set_type a MCB_M m1)))
         else let n = seg_adr (seg - 1 + 1 + old_size)
              in if mcb_owner m1 n = 0 then
                   let next_sz = mcb_size m1 n
                   in set_size f (freed + 1 + next_sz) (set_owner f 0 (set_type f (mcb_type m1 n) m1))
                 else set_size f freed (set_owner f 0 (set_type f MCB_M m1)))"

definition mcb_grow :: "u16 \<Rightarrow> u16 \<Rightarrow> u16 \<Rightarrow> mem8 \<Rightarrow> mcb_error + mem8" where
  "mcb_grow seg new_size old_size m =
     (let a = seg_adr (seg - 1)
      in if mcb_type m a = MCB_M then
           let n = seg_adr (seg - 1 + 1 + old_size);
               next_owner = mcb_owner m n;
               next_sz = mcb_size m n;
               total = old_size + 1 + next_sz
           in if next_owner = 0 \<and> total \<ge> new_size then
                let m1 = set_size a new_size m
                in if new_size < total then
                     let f = push_bit 4 (ucast seg + ucast new_size);
                         m2 = set_type f (mcb_type m1 n) m1;
                         m3 = set_size f (total - new_size - 1) (set_owner f 0 m2)
                     in Inr (set_type a MCB_M m3)
                   else Inr (set_type a (mcb_type m1 n) m1)
              else Inl (No_Room (if next_owner = 0 then total else old_size))
         else Inl (No_Room old_size))"

definition mcb_resize_4A :: "u16 \<Rightarrow> u16 \<Rightarrow> mem8 \<Rightarrow> mcb_error + mem8" where
  "mcb_resize_4A seg new_size m =
     (let a = seg_adr (seg - 1)
      in if seg < 2 \<or> (mcb_type m a \<noteq> MCB_M \<and> mcb_type m a \<noteq> MCB_Z) then Inl Bad_Block
         else let old_size = mcb_size m a
              in if new_size < old_size then Inr (mcb_shrink seg new_size old_size m)
                 else if new_size > old_size then mcb_grow seg new_size old_size m
                 else Inr m)"

section \<open>Process exit\<close>

text \<open>The two sweeps of function 4Ch: free the blocks of the child, then merge neighbouring free blocks.\<close>

partial_function (option) mcb_exit_free :: "u16 \<Rightarrow> u16 \<Rightarrow> mem8 \<Rightarrow> mem8 option" where
  "mcb_exit_free child_psp ms m =
     (let a = seg_adr ms;
          msz = mcb_size m a;
          mtype = mcb_type m a;
          mine = (mcb_owner m a = child_psp);
          m1 = (if mine then set_owner a 0 m else m);
          n = seg_adr (ms + 1 + msz)
      in if mine \<and> mtype = MCB_M \<and> mcb_owner m1 n = 0 then
           (let m2 = set_size a (msz + 1 + mcb_size m1 n) m1
            in mcb_exit_free child_psp ms (set_type a (mcb_type m2 n) m2))
         else if mtype \<noteq> MCB_M then Some m1
         else mcb_exit_free child_psp (ms + 1 + msz) m1)"

partial_function (option) mcb_exit_merge :: "u16 \<Rightarrow> mem8 \<Rightarrow> mem8 option" where
  "mcb_exit_merge ms m =
     (let a = seg_adr ms;
          msz = mcb_size m a;
          n = seg_adr (ms + 1 + msz)
      in if mcb_type m a = MCB_M \<and> mcb_owner m a = 0 \<and> mcb_owner m n = 0 then
           (let m1 = set_size a (msz + 1 + mcb_size m n) m
            in mcb_exit_merge ms (set_type a (mcb_type m1 n) m1))
         else if mcb_type m a \<noteq> MCB_M then Some m
         else mcb_exit_merge (ms + 1 + msz) m)"

definition mcb_exit :: "u16 \<Rightarrow> u16 \<Rightarrow> mem8 \<Rightarrow> mem8 option" where
  "mcb_exit child_psp root m = Option.bind (mcb_exit_free child_psp root m) (mcb_exit_merge root)"


section \<open>Headers are independent\<close>

text \<open>The header of segment number \<open>s\<close>, which may lie above 64K for the sums the source computes as \<open>int\<close>.\<close>

definition hd_adr :: "nat \<Rightarrow> u32" where
  "hd_adr s = of_nat (16 * s)"

lemma seg_adr_hd: "seg_adr ms = hd_adr (unat ms)"
  unfolding seg_adr_def hd_adr_def
  by (simp add: push_bit_eq_mult)

lemma seg_adr_of_nat: "s < 65536 \<Longrightarrow> seg_adr (of_nat s) = hd_adr s"
  by (simp add: seg_adr_hd unat_of_nat_small)

lemma hd_adr_plus: "hd_adr s + of_nat i = of_nat (16 * s + i)"
  by (simp add: hd_adr_def)

lemma hd_adr_eq:
  "s < 131072 \<Longrightarrow> s' < 131072 \<Longrightarrow> i < 16 \<Longrightarrow> j < 16 \<Longrightarrow> (hd_adr s + of_nat i = hd_adr s' + of_nat j) = (s = s' \<and> i = j)"
proof -
  assume a: "s < 131072" "s' < 131072" "i < 16" "j < 16"
  have "(16 * s + i = 16 * s' + j) = (s = s' \<and> i = j)" (is "?l = ?r")
  proof
    assume ?l
    then have "(16 * s + i) div 16 = (16 * s' + j) div 16" by simp
    with a(3,4) have "s = s'" by simp
    with \<open>?l\<close> show ?r by simp
  qed simp
  moreover have "(hd_adr s + of_nat i = hd_adr s' + of_nat j) = (16 * s + i = 16 * s' + j)"
    unfolding hd_adr_plus by (rule of_nat_inj_u32) (use a in linarith)+
  ultimately show ?thesis by simp
qed

lemma hd_adr_num:
  assumes "s < 131072" "s' < 131072"
  shows "(hd_adr s = hd_adr s') = (s = s')"
    and "numeral i < (16 :: nat) \<Longrightarrow> hd_adr s \<noteq> hd_adr s' + numeral i"
    and "numeral i < (16 :: nat) \<Longrightarrow> hd_adr s + numeral i \<noteq> hd_adr s'"
    and "hd_adr s \<noteq> hd_adr s' + 1" "hd_adr s + 1 \<noteq> hd_adr s'"
    and "(hd_adr s + 1 = hd_adr s' + 1) = (s = s')"
    and "numeral i < (16 :: nat) \<Longrightarrow> numeral i \<noteq> (1 :: nat) \<Longrightarrow> hd_adr s + 1 \<noteq> hd_adr s' + numeral i"
    and "numeral i < (16 :: nat) \<Longrightarrow> numeral i \<noteq> (1 :: nat) \<Longrightarrow> hd_adr s + numeral i \<noteq> hd_adr s' + 1"
    and "numeral i < (16 :: nat) \<Longrightarrow> numeral j < (16 :: nat) \<Longrightarrow>
      (hd_adr s + numeral i = hd_adr s' + numeral j) = (s = s' \<and> (numeral i :: nat) = numeral j)"
  using hd_adr_eq [OF assms, of 0 0] hd_adr_eq [OF assms, of 0 "numeral i"] hd_adr_eq [OF assms, of "numeral i" 0]
    hd_adr_eq [OF assms, of 0 1] hd_adr_eq [OF assms, of 1 0] hd_adr_eq [OF assms, of 1 1]
    hd_adr_eq [OF assms, of 1 "numeral i"] hd_adr_eq [OF assms, of "numeral i" 1]
    hd_adr_eq [OF assms, of "numeral i" "numeral j"]
  by (simp_all del: One_nat_def)

lemma rd16_wr16: "rd16 (wr16 a v m) a = v"
  unfolding rd16_def wr16_def by (rule bit_word_eqI) (auto simp: bit_simps)

lemmas mcb_acc = mcb_type_def mcb_owner_def mcb_size_def set_type_def set_owner_def set_size_def

lemma mcb_fields [simp]:
  assumes "s < 131072" "s' < 131072"
  shows "mcb_type (set_type (hd_adr s) t m) (hd_adr s') = (if s' = s then t else mcb_type m (hd_adr s'))"
    and "mcb_type (set_owner (hd_adr s) v m) (hd_adr s') = mcb_type m (hd_adr s')"
    and "mcb_type (set_size (hd_adr s) v m) (hd_adr s') = mcb_type m (hd_adr s')"
    and "mcb_owner (set_type (hd_adr s) t m) (hd_adr s') = mcb_owner m (hd_adr s')"
    and "mcb_owner (set_owner (hd_adr s) v m) (hd_adr s') = (if s' = s then v else mcb_owner m (hd_adr s'))"
    and "mcb_owner (set_size (hd_adr s) v m) (hd_adr s') = mcb_owner m (hd_adr s')"
    and "mcb_size (set_type (hd_adr s) t m) (hd_adr s') = mcb_size m (hd_adr s')"
    and "mcb_size (set_owner (hd_adr s) v m) (hd_adr s') = mcb_size m (hd_adr s')"
    and "mcb_size (set_size (hd_adr s) v m) (hd_adr s') = (if s' = s then v else mcb_size m (hd_adr s'))"
  using assms by (auto simp: mcb_acc rd16_wr16)
    (simp_all add: rd16_def wr16_def hd_adr_num add.assoc)

section \<open>Well-formed chains\<close>

text \<open>
  A block is its size in paragraphs and its owner (0 when it is free). The blocks lie without gaps from
  segment \<open>s\<close> to segment \<open>e\<close>, one header paragraph before each, the last of type \<open>'Z'\<close>.
\<close>

type_synonym mblock = "nat \<times> u16"

definition mcb_is :: "mem8 \<Rightarrow> nat \<Rightarrow> u8 \<Rightarrow> mblock \<Rightarrow> bool" where
  "mcb_is m s t b \<longleftrightarrow> mcb_type m (hd_adr s) = t \<and> mcb_owner m (hd_adr s) = snd b \<and> mcb_size m (hd_adr s) = of_nat (fst b)"

fun mchain :: "mem8 \<Rightarrow> nat \<Rightarrow> mblock list \<Rightarrow> nat \<Rightarrow> bool" where
  "mchain m s [] e = False"
| "mchain m s [b] e = (mcb_is m s MCB_Z b \<and> s + 1 + fst b = e)"
| "mchain m s (b # c # bs) e = (mcb_is m s MCB_M b \<and> mchain m (s + 1 + fst b) (c # bs) e)"

text \<open>The segments of the headers.\<close>

fun heads :: "nat \<Rightarrow> mblock list \<Rightarrow> nat set" where
  "heads s [] = {}"
| "heads s (b # bs) = insert s (heads (s + 1 + fst b) bs)"

text \<open>Two memories that differ in headers of \<open>hs\<close> only.\<close>

definition same_but :: "nat set \<Rightarrow> mem8 \<Rightarrow> mem8 \<Rightarrow> bool" where
  "same_but hs m m' \<longleftrightarrow> (\<forall>x. (\<forall>s \<in> hs. \<forall>i < 5. x \<noteq> hd_adr s + of_nat i) \<longrightarrow> m' x = m x)"

lemma same_but_refl [simp]: "same_but hs m m"
  by (simp add: same_but_def)

lemma same_but_trans: "same_but hs m m' \<Longrightarrow> same_but hs m' m'' \<Longrightarrow> same_but hs m m''"
  by (simp add: same_but_def)

lemma same_but_mono: "same_but hs m m' \<Longrightarrow> hs \<subseteq> hs' \<Longrightarrow> same_but hs' m m'"
  unfolding same_but_def by blast

lemma same_but_set:
  assumes "s \<in> hs"
  shows "same_but hs m (set_type (hd_adr s) t m)" "same_but hs m (set_owner (hd_adr s) v m)"
    "same_but hs m (set_size (hd_adr s) v m)"
proof -
  have k: "\<forall>i < 5. x \<noteq> hd_adr s + of_nat i \<Longrightarrow>
      x \<noteq> hd_adr s \<and> x \<noteq> hd_adr s + 1 \<and> x \<noteq> hd_adr s + 2 \<and> x \<noteq> hd_adr s + 3 \<and> x \<noteq> hd_adr s + 4" for x
  proof -
    assume a: "\<forall>i < 5. x \<noteq> hd_adr s + of_nat i"
    show ?thesis using a [rule_format, of 0] a [rule_format, of 1] a [rule_format, of 2] a [rule_format, of 3]
        a [rule_format, of 4] by simp
  qed
  show "same_but hs m (set_type (hd_adr s) t m)" "same_but hs m (set_owner (hd_adr s) v m)"
    "same_but hs m (set_size (hd_adr s) v m)"
    unfolding same_but_def using assms by (auto dest!: bspec k simp: mcb_acc wr16_def add.assoc)
qed

lemma mcb_is_frame:
  assumes "same_but hs m m'" "s \<notin> hs" "s < 131072" "\<forall>h \<in> hs. h < 131072"
  shows "mcb_is m' s t b = mcb_is m s t b"
proof -
  have "m' (hd_adr s + of_nat i) = m (hd_adr s + of_nat i)" if "i < 5" for i
  proof (rule assms(1) [unfolded same_but_def, rule_format])
    fix h j assume h: "h \<in> hs" and j: "(j :: nat) < 5"
    have "i < 16" "j < 16" "h < 131072" "s \<noteq> h" using that j h assms(2,4) by auto
    then show "hd_adr s + of_nat i \<noteq> hd_adr h + of_nat j" using hd_adr_eq [OF assms(3)] by blast
  qed
  from this [of 0] this [of 1] this [of 2] this [of 3] this [of 4]
  show ?thesis unfolding mcb_is_def mcb_acc rd16_def by (simp add: add.assoc)
qed

lemma mchain_less: "mchain m s bs e \<Longrightarrow> s < e"
  by (induction m s bs e rule: mchain.induct) auto

lemma heads_bounds: "mchain m s bs e \<Longrightarrow> h \<in> heads s bs \<Longrightarrow> s \<le> h \<and> h < e"
proof (induction m s bs e arbitrary: h rule: mchain.induct)
  case (3 m s b c bs e)
  then show ?case using mchain_less [of m "s + 1 + fst b" "c # bs" e] by fastforce
qed auto

text \<open>A chain is not affected by changes of headers outside it.\<close>

lemma mchain_frame:
  "same_but hs m m' \<Longrightarrow> \<forall>h \<in> hs. h < 131072 \<and> (h < s \<or> e \<le> h) \<Longrightarrow> e < 131072 \<Longrightarrow> mchain m s bs e \<Longrightarrow> mchain m' s bs e"
proof (induction m s bs e rule: mchain.induct)
  case (2 m s b e)
  then have "s \<notin> hs" "s < 131072" "\<forall>h \<in> hs. h < 131072" by auto
  then show ?case using 2 mcb_is_frame [of hs m m' s MCB_Z b] by simp
next
  case (3 m s b c bs e)
  have "s < e" using 3(5) mchain_less by fastforce
  then have "s \<notin> hs" "s < 131072" "\<forall>h \<in> hs. h < 131072" using 3 by auto
  then have "mcb_is m' s MCB_M b" using 3 mcb_is_frame [of hs m m' s MCB_M b] by simp
  moreover have "mchain m' (s + 1 + fst b) (c # bs) e" using 3 by fastforce
  ultimately show ?case by simp
qed simp

lemma mchain_Cons:
  "mchain m s (b # bs) e \<longleftrightarrow>
     mcb_is m s (if bs = [] then MCB_Z else MCB_M) b \<and> (if bs = [] then s + 1 + fst b = e else mchain m (s + 1 + fst b) bs e)"
  by (cases bs) auto

lemma mchain_size: "mchain m s (b # bs) e \<Longrightarrow> s + 1 + fst b \<le> e"
  by (auto simp: mchain_Cons split: if_splits dest: mchain_less)

lemma mcb_type_ne [simp]: "MCB_M \<noteq> MCB_Z" "MCB_Z \<noteq> MCB_M"
  by (simp_all add: MCB_M_def MCB_Z_def)

section \<open>Allocation refines first fit\<close>

definition abs_split :: "nat \<Rightarrow> u16 \<Rightarrow> nat \<Rightarrow> mblock list" where
  "abs_split n p sz = (if n + 1 < sz then [(n, p), (sz - n - 1, 0)] else [(sz, p)])"

fun abs_alloc48 :: "nat \<Rightarrow> u16 \<Rightarrow> nat \<Rightarrow> mblock list \<Rightarrow> (nat \<times> mblock list) option" where
  "abs_alloc48 n p s [] = None"
| "abs_alloc48 n p s (b # bs) =
     (if snd b = 0 \<and> n \<le> fst b then Some (s, abs_split n p (fst b) @ bs)
      else map_option (\<lambda>(r, bs'). (r, b # bs')) (abs_alloc48 n p (s + 1 + fst b) bs))"

fun largest_free :: "mblock list \<Rightarrow> nat" where
  "largest_free [] = 0"
| "largest_free (b # bs) = (if snd b = 0 then max (fst b) (largest_free bs) else largest_free bs)"

lemma unat_of_nat_u16: "n < 65536 \<Longrightarrow> unat (of_nat n :: u16) = n"
  by (rule unat_of_nat_small) simp

lemma uint_of_nat_u16: "n < 65536 \<Longrightarrow> uint (of_nat n :: u16) = int n"
  using unat_of_nat_u16 [of n] by (metis uint_nat)

lemma ucast_of_nat_u16: "n < 65536 \<Longrightarrow> (ucast (of_nat n :: u16) :: u32) = of_nat n"
  by (rule word_unat_eq_iff [THEN iffD2]) (simp add: unat_of_nat_u16 unat_of_nat_u32)

lemma word_le_of_nat_u16: "a < 65536 \<Longrightarrow> b < 65536 \<Longrightarrow> ((of_nat a :: u16) \<le> of_nat b) = (a \<le> b)"
  by (simp add: word_le_nat_alt unat_of_nat_u16)

lemma word_less_of_nat_u16: "a < 65536 \<Longrightarrow> b < 65536 \<Longrightarrow> ((of_nat a :: u16) < of_nat b) = (a < b)"
  by (simp add: word_less_nat_alt unat_of_nat_u16)

lemma hd_adr_sum:
  "s < 65536 \<Longrightarrow> n < 65536 \<Longrightarrow> push_bit 4 (ucast (of_nat s :: u16) + 1 + ucast (of_nat n :: u16)) = hd_adr (s + 1 + n)"
  by (simp add: ucast_of_nat_u16 hd_adr_def push_bit_eq_mult algebra_simps)

lemma seg_sum: "(of_nat s :: u16) + 1 + of_nat n = of_nat (s + 1 + n)"
  by simp

lemma mcb_is_upd [simp]:
  assumes "s < 131072" "s' < 131072"
  shows "mcb_is (set_type (hd_adr s) t' m) s' t b =
      (if s' = s then t' = t \<and> mcb_is m s (mcb_type m (hd_adr s)) b else mcb_is m s' t b)"
    and "mcb_is (set_owner (hd_adr s) v m) s' t b =
      (if s' = s then v = snd b \<and> mcb_is m s t (fst b, mcb_owner m (hd_adr s)) else mcb_is m s' t b)"
    and "mcb_is (set_size (hd_adr s) z m) s' t b =
      (if s' = s then z = of_nat (fst b) \<and> mcb_type m (hd_adr s) = t \<and> mcb_owner m (hd_adr s) = snd b else mcb_is m s' t b)"
  using assms by (auto simp: mcb_is_def)

lemma mcb_claim_chain:
  assumes "mchain m s (b # bs) e" "e < 65536" "n \<le> fst b"
    and m'_def: "m' = mcb_claim p (of_nat n) (of_nat s) (mcb_type m (hd_adr s)) (of_nat (fst b)) m"
  shows "mchain m' s (abs_split n p (fst b) @ bs) e \<and> same_but (heads s (abs_split n p (fst b))) m m'"
proof -
  have sz: "s + 1 + fst b \<le> e" using mchain_size [OF assms(1)] .
  have bnd: "s < 65536" "n < 65536" "fst b < 65536" using sz assms by linarith+
  have t: "mcb_type m (hd_adr s) = (if bs = [] then MCB_Z else MCB_M)"
    using assms(1) by (auto simp: mchain_Cons mcb_is_def)
  have sub: "same_but {s, s + 1 + n} m m' \<and> (\<not> n + 1 < fst b \<longrightarrow> same_but {s} m m')"
    unfolding m'_def mcb_claim_def Let_def seg_adr_of_nat [OF bnd(1)] hd_adr_sum [OF bnd(1,2)]
    by (auto simp: uint_of_nat_u16 bnd intro!: same_but_trans [OF _ same_but_set(1)] same_but_trans [OF _ same_but_set(2)]
        same_but_trans [OF _ same_but_set(3)])
  show ?thesis
  proof (cases "n + 1 < fst b")
    case True
    have d: "(of_nat (fst b) :: u16) - of_nat n - 1 = of_nat (fst b - n - 1)" using True by simp
    have m': "mcb_is m' s MCB_M (n, p)" "mcb_is m' (s + 1 + n) (if bs = [] then MCB_Z else MCB_M) (fst b - n - 1, 0)"
      unfolding m'_def mcb_claim_def Let_def seg_adr_of_nat [OF bnd(1)] hd_adr_sum [OF bnd(1,2)]
      using True bnd sz assms(2) by (simp_all add: uint_of_nat_u16 mcb_is_def d t)
    have "mchain m' (s + 1 + fst b) bs e" if "bs \<noteq> []"
      using mchain_frame [OF conjunct1 [OF sub], of "s + 1 + fst b" e bs] assms(1,2) True sz bnd that
      by (auto simp: mchain_Cons)
    then show ?thesis using True m' sub assms(1) by (auto simp: abs_split_def mchain_Cons split: if_splits)
  next
    case False
    have m': "mcb_is m' s (if bs = [] then MCB_Z else MCB_M) (fst b, p)"
      unfolding m'_def mcb_claim_def Let_def seg_adr_of_nat [OF bnd(1)]
      using False bnd by (simp add: uint_of_nat_u16 mcb_is_def t)
    have "mchain m' (s + 1 + fst b) bs e" if "bs \<noteq> []"
      using mchain_frame [of "{s}" m m' "s + 1 + fst b" e bs] sub False assms(1,2) sz bnd that
      by (auto simp: mchain_Cons)
    then show ?thesis using False m' sub assms(1) by (auto simp: abs_split_def mchain_Cons split: if_splits)
  qed
qed

text \<open>One step of a walk that leaves the first block alone.\<close>

lemma mchain_ConsI:
  assumes "mchain m s (b # c # bs) e" "e < 65536" "mchain m' (s + 1 + fst b) bs' e" "bs' \<noteq> []"
    "same_but (heads (s + 1 + fst b) bs') m m'"
  shows "mchain m' s (b # bs') e \<and> same_but (heads s (b # bs')) m m'"
proof -
  have "s + 1 + fst b \<le> h \<and> h < e" if "h \<in> heads (s + 1 + fst b) bs'" for h
    using heads_bounds [OF assms(3) that] .
  moreover have "s < e" using mchain_less [OF assms(1)] .
  ultimately have "mcb_is m' s MCB_M b = mcb_is m s MCB_M b"
    using assms(2) by (intro mcb_is_frame [OF assms(5)]) fastforce+
  then show ?thesis
    using assms same_but_mono [OF assms(5), of "heads s (b # bs')"] by (auto simp: mchain_Cons)
qed

lemma heads_append: "heads s xs \<subseteq> heads s (xs @ ys)"
  by (induction xs arbitrary: s) auto

lemma abs_alloc48_ne: "abs_alloc48 n p s bs = Some (r, bs') \<Longrightarrow> bs' \<noteq> []"
  by (cases bs) (auto simp: abs_split_def split: if_splits)

lemma mcb_alloc_48_refines:
  assumes "e < 65536" "n < 65536"
  shows "mchain m s bs e \<Longrightarrow> l < 65536 \<Longrightarrow>
    (case abs_alloc48 n p s bs of
       None \<Rightarrow> mcb_alloc_48 p (of_nat n) (of_nat s) (of_nat l) m = Some (None, of_nat (max l (largest_free bs)), m)
     | Some (r, bs') \<Rightarrow>
         \<exists>l' m'. mcb_alloc_48 p (of_nat n) (of_nat s) (of_nat l) m = Some (Some (of_nat r), l', m') \<and>
           mchain m' s bs' e \<and> same_but (heads s bs') m m')"
proof (induction bs arbitrary: s l)
  case (Cons b bs)
  have b: "s < 65536" "fst b < 65536" using mchain_size [OF Cons.prems(1)] assms by linarith+
  have bi: "mcb_is m s (if bs = [] then MCB_Z else MCB_M) b" using Cons.prems(1) by (simp add: mchain_Cons)
  then have hd: "mcb_type m (hd_adr s) = (if bs = [] then MCB_Z else MCB_M)" "mcb_owner m (hd_adr s) = snd b"
      "mcb_size m (hd_adr s) = of_nat (fst b)"
    by (auto simp: mcb_is_def)
  have step: "mcb_alloc_48 p (of_nat n) (of_nat s) (of_nat l) m =
     (if snd b = 0 \<and> n \<le> fst b
      then Some (Some (of_nat s), of_nat l, mcb_claim p (of_nat n) (of_nat s) (mcb_type m (hd_adr s)) (of_nat (fst b)) m)
      else if bs = [] then Some (None, of_nat (if snd b = 0 then max l (fst b) else l), m)
      else mcb_alloc_48 p (of_nat n) (of_nat (s + 1 + fst b)) (of_nat (if snd b = 0 then max l (fst b) else l)) m)"
    by (subst mcb_alloc_48.simps)
      (use b assms(2) Cons.prems(2) hd in \<open>auto simp: Let_def seg_adr_of_nat word_le_of_nat_u16 word_less_of_nat_u16 max_def seg_sum\<close>)
  show ?case
  proof (cases "snd b = 0 \<and> n \<le> fst b")
    case True
    then show ?thesis
      using step mcb_claim_chain [OF Cons.prems(1) assms(1) _ refl, of n p] same_but_mono [OF _ heads_append] by fastforce
  next
    case no: False
    define l' where "l' = (if snd b = 0 then max l (fst b) else l)"
    show ?thesis
    proof (cases "bs = []")
      case True
      then show ?thesis using no step by auto
    next
      case ne: False
      then obtain c cs where cs: "bs = c # cs" by (cases bs) auto
      have tl: "mchain m (s + 1 + fst b) bs e" using Cons.prems(1) ne by (simp add: mchain_Cons)
      have "l' < 65536" using Cons.prems(2) b(2) by (simp add: l'_def)
      note ih = Cons.IH [OF tl this]
      have st: "mcb_alloc_48 p (of_nat n) (of_nat s) (of_nat l) m = mcb_alloc_48 p (of_nat n) (of_nat (s + 1 + fst b)) (of_nat l') m"
        using step no ne by (auto simp: l'_def)
      show ?thesis
      proof (cases "abs_alloc48 n p (s + 1 + fst b) bs")
        case None
        then show ?thesis using ih st no by (auto simp: l'_def max.assoc)
      next
        case (Some q)
        obtain r bs' where q: "q = (r, bs')" by (cases q)
        from ih Some q obtain l2 m' where m':
            "mcb_alloc_48 p (of_nat n) (of_nat s) (of_nat l) m = Some (Some (of_nat r), l2, m')"
            "mchain m' (s + 1 + fst b) bs' e" "same_but (heads (s + 1 + fst b) bs') m m'"
          using st by auto
        then have "mchain m' s (b # bs') e \<and> same_but (heads s (b # bs')) m m'"
          using mchain_ConsI Cons.prems(1) cs assms(1) abs_alloc48_ne Some q by metis
        then show ?thesis using Some q no m'(1) by (auto simp del: heads.simps)
      qed
    qed
  qed
qed simp

text \<open>On a well-formed chain the two allocators do the same.\<close>

lemma mcb_alloc_walk_48:
  assumes "e < 65536"
  shows "mchain m s bs e \<Longrightarrow> mcb_alloc_walk p n (of_nat s) m =
    map_option (\<lambda>(r, l', m'). (case r of None \<Rightarrow> 0 | Some ms \<Rightarrow> ms + 1, m')) (mcb_alloc_48 p n (of_nat s) l m)"
proof (induction bs arbitrary: s l)
  case (Cons b bs)
  have b: "s < 65536" using mchain_less [OF Cons.prems] assms by linarith
  have hd: "mcb_type m (hd_adr s) = (if bs = [] then MCB_Z else MCB_M)" "mcb_size m (hd_adr s) = of_nat (fst b)"
    using Cons.prems by (auto simp: mchain_Cons mcb_is_def)
  show ?case
  proof (cases "bs = []")
    case True
    then show ?thesis
      by (subst mcb_alloc_walk.simps, subst mcb_alloc_48.simps) (simp add: Let_def seg_adr_of_nat b hd)
  next
    case False
    with Cons.prems have "mchain m (s + 1 + fst b) bs e" by (simp add: mchain_Cons)
    note ih = Cons.IH [OF this]
    show ?thesis
      by (subst mcb_alloc_walk.simps, subst mcb_alloc_48.simps)
        (use ih False in \<open>simp add: Let_def seg_adr_of_nat b hd seg_sum del: of_nat_add of_nat_Suc\<close>)
  qed
qed simp

section \<open>Freeing and resizing a block of a chain\<close>

definition off :: "mblock list \<Rightarrow> nat" where
  "off xs = sum_list (map (\<lambda>b. 1 + fst b) xs)"

fun mpre :: "mem8 \<Rightarrow> nat \<Rightarrow> mblock list \<Rightarrow> bool" where
  "mpre m s [] = True"
| "mpre m s (b # xs) = (mcb_is m s MCB_M b \<and> mpre m (s + 1 + fst b) xs)"

lemma off_simps [simp]: "off [] = 0" "off (b # xs) = 1 + fst b + off xs" "off (xs @ ys) = off xs + off ys"
  by (simp_all add: off_def)

lemma mchain_append: "ys \<noteq> [] \<Longrightarrow> mchain m s (xs @ ys) e \<longleftrightarrow> mpre m s xs \<and> mchain m (s + off xs) ys e"
  by (induction xs arbitrary: s) (auto simp: mchain_Cons add.assoc [symmetric] simp del: mchain.simps)

lemma mpre_frame:
  "mpre m s xs \<Longrightarrow> same_but hs m m' \<Longrightarrow> \<forall>h \<in> hs. s + off xs \<le> h \<and> h < 131072 \<Longrightarrow> s + off xs < 131072 \<Longrightarrow> mpre m' s xs"
proof (induction xs arbitrary: s)
  case (Cons b xs)
  have "mcb_is m' s MCB_M b = mcb_is m s MCB_M b"
    using Cons.prems by (intro mcb_is_frame [OF Cons.prems(2)]) fastforce+
  then show ?case using Cons by (auto simp: add.assoc)
qed simp

text \<open>Rewriting a chain from one of its blocks on.\<close>

lemma mchain_replace:
  assumes "mchain m s (xs @ ys) e" "ys \<noteq> []" "e < 65536" "zs \<noteq> []" "mchain m' (s + off xs) zs e"
    "same_but hs m m'" "\<forall>h \<in> hs. s + off xs \<le> h \<and> h < e"
  shows "mchain m' s (xs @ zs) e"
proof -
  have "mpre m s xs" "mchain m (s + off xs) ys e" using assms(1,2) by (simp_all add: mchain_append)
  then have "mpre m' s xs"
    using assms(3,7) mchain_less [of m "s + off xs" ys e] by (intro mpre_frame [OF _ assms(6)]) fastforce+
  then show ?thesis using assms(4,5) by (simp add: mchain_append)
qed

fun abs_free49 :: "mblock list \<Rightarrow> mblock list" where
  "abs_free49 (b # c # bs) = (if snd c = 0 then (fst b + 1 + fst c, 0) # bs else (fst b, 0) # c # bs)"
| "abs_free49 [b] = [(fst b, 0)]"
| "abs_free49 [] = []"

lemma mcb_free_49_local:
  assumes "mchain m s (b # bs) e" "e < 65536"
  shows "\<exists>m'. mcb_free_49 (of_nat s + 1) m = Some m' \<and> mchain m' s (abs_free49 (b # bs)) e \<and> same_but {s} m m'"
proof -
  have bnd: "s < 65536" "s + 1 + fst b \<le> e" "s < 131072"
    using mchain_less [OF assms(1)] mchain_size [OF assms(1)] assms(2) by linarith+
  have hd: "mcb_type m (hd_adr s) = (if bs = [] then MCB_Z else MCB_M)" "mcb_size m (hd_adr s) = of_nat (fst b)"
    using assms(1) by (auto simp: mchain_Cons mcb_is_def)
  note unf = mcb_free_49_def Let_def seg_adr_of_nat [OF bnd(1)] seg_sum add_diff_cancel_right'
  show ?thesis
  proof (cases bs)
    case Nil
    then show ?thesis using assms(1) hd bnd same_but_set(2) [of s "{s}"]
      by (auto simp: unf mcb_is_def simp del: of_nat_add of_nat_Suc)
  next
    case (Cons c cs)
    let ?n = "s + 1 + fst b"
    have tl: "mchain m ?n (c # cs) e" using assms(1) Cons by simp
    have n: "?n < 65536" "?n + 1 + fst c \<le> e" using mchain_less [OF tl] mchain_size [OF tl] assms(2) by linarith+
    have hc: "mcb_type m (hd_adr ?n) = (if cs = [] then MCB_Z else MCB_M)" "mcb_size m (hd_adr ?n) = of_nat (fst c)"
        "mcb_owner m (hd_adr ?n) = snd c"
      using tl by (auto simp: mchain_Cons mcb_is_def)
    have fr: "mchain m' t zs e" if "same_but {s} m m'" "s < t" "mchain m t zs e" for m' t zs
      using mchain_frame [OF that(1) _ _ that(3)] that(2) bnd assms(2) by auto
    let ?m1 = "set_owner (hd_adr s) 0 m"
    let ?m2 = "set_size (hd_adr s) (of_nat (fst b) + 1 + of_nat (fst c)) ?m1"
    let ?m3 = "set_type (hd_adr s) (if cs = [] then MCB_Z else MCB_M) ?m2"
    have s1: "same_but {s} m ?m1" by (rule same_but_set) simp
    have s3: "same_but {s} m ?m3"
      by (rule same_but_trans [OF same_but_trans [OF s1 same_but_set(3)] same_but_set(1)]) simp_all
    have n131: "?n < 131072" using n by simp
    have ev: "mcb_free_49 (of_nat s + 1) m = Some (if snd c = 0 then ?m3 else ?m1)"
      using hd hc n bnd Cons n131 by (auto simp: unf seg_adr_of_nat simp del: of_nat_add of_nat_Suc)
    show ?thesis
    proof (cases "snd c = 0")
      case True
      have "mchain ?m3 s ((fst b + 1 + fst c, 0) # cs) e"
        using tl fr [OF s3, of "?n + 1 + fst c" cs] bnd hd(1) Cons
        by (auto simp: mchain_Cons mcb_is_def add.assoc split: if_splits)
      then show ?thesis using ev True s3 Cons by auto
    next
      case False
      have "mchain ?m1 s ((fst b, 0) # c # cs) e"
        using tl fr [OF s1 _ tl] bnd hd Cons by (auto simp: mcb_is_def)
      then show ?thesis using ev False s1 Cons by auto
    qed
  qed
qed

text \<open>Resizing on block lists: \<open>Inl\<close> the largest size that could have been had.\<close>

fun abs_resize :: "nat \<Rightarrow> mblock list \<Rightarrow> nat + mblock list" where
  "abs_resize n (b # bs) =
     (let next_free = (bs \<noteq> [] \<and> snd (hd bs) = 0);
          total = fst b + 1 + fst (hd bs)
      in if n = fst b then Inr (b # bs)
         else if n < fst b then
           (if next_free then Inr ((n, snd b) # (total - n - 1, 0) # tl bs)
            else Inr ((n, snd b) # (fst b - n - 1, 0) # bs))
         else if \<not> next_free then Inl (fst b)
         else if total < n then Inl total
         else if n < total then Inr ((n, snd b) # (total - n - 1, 0) # tl bs)
         else Inr ((n, snd b) # tl bs))"
| "abs_resize n [] = Inl 0"

text \<open>Writing a block of \<open>n\<close> paragraphs and, after it, the header of a free block.\<close>

lemma mchain_resplit:
  assumes "e < 65536" "s + n + 2 \<le> e" "s + n + 2 + r = e \<and> zs = [] \<or> mchain m (s + n + 2 + r) zs e"
    "same_but {s, s + n + 1} m m'" "mcb_is m' s MCB_M (n, p)"
    "mcb_is m' (s + n + 1) (if zs = [] then MCB_Z else MCB_M) (r, 0)"
  shows "mchain m' s ((n, p) # (r, 0) # zs) e"
proof (cases "zs = []")
  case True
  then show ?thesis using assms by (auto simp: add.commute add.left_commute)
next
  case False
  have "mchain m' (s + n + 2 + r) zs e"
    using assms(3) False by (intro mchain_frame [OF assms(4)]) (use assms(1,2) in auto)
  then show ?thesis using assms(5,6) False by (simp add: mchain_Cons add.commute add.left_commute)
qed

lemma same_but_free_hdr:
  assumes "h \<in> hs" "same_but hs m m'"
  shows "same_but hs m (set_size (hd_adr h) z (set_owner (hd_adr h) v (set_type (hd_adr h) t m')))"
  using assms by (intro same_but_trans [OF _ same_but_set(3)] same_but_trans [OF _ same_but_set(2)]
      same_but_trans [OF _ same_but_set(1)]) auto

lemma mcb_shrink_local:
  assumes "mchain m s (b # bs) e" "e < 65536" "n < fst b"
  defines "m' \<equiv> mcb_shrink (of_nat s + 1) (of_nat n) (of_nat (fst b)) m"
  shows "\<exists>zs. abs_resize n (b # bs) = Inr zs \<and> mchain m' s zs e \<and> same_but {s, s + n + 1} m m'"
proof -
  have bnd: "s < 65536" "s + 1 + fst b \<le> e" "s < 131072" "n < 65536" "fst b < 65536" "s + n + 1 < 65536" "s + n + 1 < 131072"
    using mchain_less [OF assms(1)] mchain_size [OF assms(1)] assms(2,3) by linarith+
  have hd: "mcb_type m (hd_adr s) = (if bs = [] then MCB_Z else MCB_M)" "mcb_size m (hd_adr s) = of_nat (fst b)"
      "mcb_owner m (hd_adr s) = snd b"
    using assms(1) by (auto simp: mchain_Cons mcb_is_def)
  have f: "seg_adr (of_nat s + 1 + of_nat n) = hd_adr (s + n + 1)"
    unfolding seg_sum by (subst seg_adr_of_nat) (use bnd in \<open>simp_all add: add.commute add.left_commute\<close>)
  have d: "(of_nat (fst b) :: u16) - of_nat n - 1 = of_nat (fst b - n - 1)" using assms(3) by simp
  note unf = mcb_shrink_def Let_def add_diff_cancel_right' diff_add_cancel seg_adr_of_nat [OF bnd(1)] f
  define m1 where "m1 = set_size (hd_adr s) (of_nat n) m"
  have s1: "same_but {s, s + n + 1} m m1" unfolding m1_def by (rule same_but_set) simp
  show ?thesis
  proof (cases bs)
    case Nil
    have m': "m' = set_size (hd_adr (s + n + 1)) (of_nat (fst b - n - 1)) (set_owner (hd_adr (s + n + 1)) 0
        (set_type (hd_adr (s + n + 1)) MCB_Z (set_type (hd_adr s) MCB_M m1)))"
      unfolding m'_def unf using Nil hd bnd d by (simp add: m1_def)
    have sb: "same_but {s, s + n + 1} m m'"
      unfolding m' by (rule same_but_free_hdr, simp, rule same_but_trans [OF s1 same_but_set(1)], simp)
    have "mchain m' s ((n, snd b) # (fst b - n - 1, 0) # []) e"
      by (rule mchain_resplit [OF assms(2) _ _ sb])
        (use assms(1,3) Nil bnd hd in \<open>auto simp: m' mcb_is_def m1_def\<close>)
    then show ?thesis using sb assms(3) Nil by (auto simp: Let_def)
  next
    case (Cons c cs)
    let ?n = "s + 1 + fst b"
    have tl: "mchain m ?n (c # cs) e" using assms(1) Cons by simp
    have n: "?n < 65536" "?n + 1 + fst c \<le> e" "?n < 131072" using mchain_less [OF tl] mchain_size [OF tl] assms(2) by linarith+
    have hc: "mcb_type m (hd_adr ?n) = (if cs = [] then MCB_Z else MCB_M)" "mcb_size m (hd_adr ?n) = of_nat (fst c)"
        "mcb_owner m (hd_adr ?n) = snd c"
      using tl by (auto simp: mchain_Cons mcb_is_def)
    have an: "seg_adr (of_nat s + 1 + of_nat (fst b)) = hd_adr ?n"
      unfolding seg_sum by (rule seg_adr_of_nat) (rule n)
    have tl2: "cs = [] \<and> e = Suc (Suc (s + (fst b + fst c))) \<or> mchain m (Suc (Suc (s + (fst b + fst c)))) cs e"
      using tl by (auto simp: mchain_Cons add.assoc split: if_splits)
    define t r where "t = (if snd c = 0 \<and> cs = [] then MCB_Z else MCB_M)"
      and "r = (if snd c = 0 then fst b + fst c - n else fst b - n - 1)"
    have r: "(if snd c = 0 then (of_nat (fst b) :: u16) - of_nat n - 1 + 1 + of_nat (fst c) else of_nat (fst b) - of_nat n - 1) = of_nat r"
      using assms(3) by (auto simp: r_def)
    have m': "m' = set_size (hd_adr (s + n + 1)) (of_nat r) (set_owner (hd_adr (s + n + 1)) 0
        (set_type (hd_adr (s + n + 1)) t m1))"
      unfolding m'_def unf an using Cons hd hc bnd n r [symmetric] by (auto simp: m1_def t_def)
    have sb: "same_but {s, s + n + 1} m m'" unfolding m' by (rule same_but_free_hdr [OF _ s1]) simp
    define zs where "zs = (if snd c = 0 then cs else c # cs)"
    have "mchain m' s ((n, snd b) # (r, 0) # zs) e"
      by (rule mchain_resplit [OF assms(2) _ _ sb])
        (use assms(1,3) Cons bnd hd n tl tl2 in \<open>auto simp: m' mcb_is_def m1_def zs_def t_def r_def split: if_splits\<close>)
    then show ?thesis using sb assms(3) Cons by (auto simp: Let_def zs_def r_def split: if_splits)
  qed
qed

lemma mcb_grow_local:
  assumes "mchain m s (b # bs) e" "e < 65536" "fst b < n" "n < 65536"
  shows "case abs_resize n (b # bs) of
      Inl mx \<Rightarrow> mcb_grow (of_nat s + 1) (of_nat n) (of_nat (fst b)) m = Inl (No_Room (of_nat mx))
    | Inr zs \<Rightarrow> \<exists>m'. mcb_grow (of_nat s + 1) (of_nat n) (of_nat (fst b)) m = Inr m' \<and> mchain m' s zs e \<and>
        same_but {s, s + n + 1} m m' \<and> s + n + 1 \<le> e"
proof -
  have bnd: "s < 65536" "s + 1 + fst b \<le> e" "s < 131072" "fst b < 65536"
    using mchain_less [OF assms(1)] mchain_size [OF assms(1)] assms(2) by linarith+
  have hd: "mcb_type m (hd_adr s) = (if bs = [] then MCB_Z else MCB_M)" "mcb_size m (hd_adr s) = of_nat (fst b)"
      "mcb_owner m (hd_adr s) = snd b"
    using assms(1) by (auto simp: mchain_Cons mcb_is_def)
  note unf = mcb_grow_def Let_def add_diff_cancel_right' diff_add_cancel seg_adr_of_nat [OF bnd(1)]
  show ?thesis
  proof (cases bs)
    case Nil
    then show ?thesis using assms(3) hd by (simp add: unf)
  next
    case (Cons c cs)
    let ?n = "s + 1 + fst b" and ?tot = "fst b + 1 + fst c"
    have tl: "mchain m ?n (c # cs) e" using assms(1) Cons by simp
    have n: "?n < 65536" "?n + 1 + fst c \<le> e" "?n < 131072" "?tot < 65536"
      using mchain_less [OF tl] mchain_size [OF tl] assms(2) by linarith+
    have hc: "mcb_type m (hd_adr ?n) = (if cs = [] then MCB_Z else MCB_M)" "mcb_size m (hd_adr ?n) = of_nat (fst c)"
        "mcb_owner m (hd_adr ?n) = snd c"
      using tl by (auto simp: mchain_Cons mcb_is_def)
    have tl2: "cs = [] \<and> e = Suc (Suc (s + (fst b + fst c))) \<or> mchain m (Suc (Suc (s + (fst b + fst c)))) cs e"
      using tl by (auto simp: mchain_Cons add.assoc split: if_splits)
    have an: "seg_adr (of_nat s + 1 + of_nat (fst b)) = hd_adr ?n"
      unfolding seg_sum by (rule seg_adr_of_nat) (rule n)
    have tot: "(of_nat (fst b) :: u16) + 1 + of_nat (fst c) = of_nat ?tot" by simp
    note ev = unf an tot hd(1) hc word_le_of_nat_u16 [OF assms(4) n(4)] word_less_of_nat_u16 [OF assms(4) n(4)]
    consider (no) "\<not> (snd c = 0 \<and> n \<le> ?tot)" | (split) "snd c = 0" "n < ?tot" | (exact) "snd c = 0" "n = ?tot" by linarith
    then show ?thesis
    proof cases
      case no
      have "mcb_grow (of_nat s + 1) (of_nat n) (of_nat (fst b)) m = Inl (No_Room (of_nat (if snd c = 0 then ?tot else fst b)))"
        using no Cons unfolding ev by auto
      then show ?thesis using no Cons assms(3) by (auto simp: Let_def)
    next
      case split
      have sn: "s + 1 < 65536" "s + n + 1 < 131072" using n bnd split by linarith+
      have f: "push_bit 4 (ucast (of_nat s + 1 :: u16) + ucast (of_nat n :: u16)) = hd_adr (s + n + 1)"
        using ucast_of_nat_u16 [OF sn(1)] ucast_of_nat_u16 [OF assms(4)]
        by (simp add: hd_adr_def push_bit_eq_mult algebra_simps)
      define m' where "m' = set_type (hd_adr s) MCB_M (set_size (hd_adr (s + n + 1)) (of_nat (?tot - n - 1))
        (set_owner (hd_adr (s + n + 1)) 0 (set_type (hd_adr (s + n + 1)) (if cs = [] then MCB_Z else MCB_M)
          (set_size (hd_adr s) (of_nat n) m))))"
      have d: "(of_nat ?tot :: u16) - of_nat n - 1 = of_nat (?tot - n - 1)" using split by simp
      have r: "mcb_grow (of_nat s + 1) (of_nat n) (of_nat (fst b)) m = Inr m'"
        unfolding ev f d m'_def using split Cons n bnd hc(1) by simp
      have sb: "same_but {s, s + n + 1} m m'" unfolding m'_def
        by (rule same_but_trans [OF same_but_free_hdr [OF _ same_but_set(3)] same_but_set(1)]) simp_all
      have "mchain m' s ((n, snd b) # (?tot - n - 1, 0) # cs) e"
        by (rule mchain_resplit [OF assms(2) _ _ sb])
          (use bnd hd n tl2 split sn in \<open>auto simp: m'_def mcb_is_def split: if_splits\<close>)
      moreover have "s + n + 1 \<le> e" using n split by linarith
      ultimately show ?thesis using r sb split Cons assms(3) by (auto simp: Let_def)
    next
      case exact
      define m' where "m' = set_type (hd_adr s) (if cs = [] then MCB_Z else MCB_M) (set_size (hd_adr s) (of_nat n) m)"
      have r: "mcb_grow (of_nat s + 1) (of_nat n) (of_nat (fst b)) m = Inr m'"
        unfolding ev m'_def using exact Cons n bnd hc(1) by simp
      have sb1: "same_but {s} m m'" unfolding m'_def
        by (rule same_but_trans [OF same_but_set(3) same_but_set(1)]) simp_all
      then have sb: "same_but {s, s + n + 1} m m'" by (rule same_but_mono) simp
      have "mchain m' (Suc (Suc (s + (fst b + fst c)))) cs e" if "cs \<noteq> []"
        using that tl2 by (intro mchain_frame [OF sb1]) (use bnd assms(2) in auto)
      moreover have "mcb_is m' s (if cs = [] then MCB_Z else MCB_M) (n, snd b)" unfolding m'_def using bnd hd by (simp add: mcb_is_def)
      ultimately have "mchain m' s ((n, snd b) # cs) e" using tl2 exact by (auto simp: mchain_Cons)
      moreover have "s + n + 1 \<le> e" using n exact by linarith
      ultimately show ?thesis using r sb exact Cons assms(3) by (auto simp: Let_def)
    qed
  qed
qed

lemma mcb_resize_local:
  assumes "mchain m s (b # bs) e" "e < 65536" "0 < s" "n < 65536"
  shows "case abs_resize n (b # bs) of
      Inl mx \<Rightarrow> mcb_resize_4A (of_nat s + 1) (of_nat n) m = Inl (No_Room (of_nat mx))
    | Inr zs \<Rightarrow> \<exists>m'. mcb_resize_4A (of_nat s + 1) (of_nat n) m = Inr m' \<and> mchain m' s zs e \<and>
        same_but {s, s + n + 1} m m' \<and> s + n + 1 \<le> e"
proof -
  have bnd: "s < 65536" "s + 1 + fst b \<le> e" "fst b < 65536" "s + 1 < 65536"
    using mchain_size [OF assms(1)] assms(2) by linarith+
  have hd: "mcb_type m (hd_adr s) = (if bs = [] then MCB_Z else MCB_M)" "mcb_size m (hd_adr s) = of_nat (fst b)"
    using assms(1) by (auto simp: mchain_Cons mcb_is_def)
  have "\<not> (of_nat s + 1 :: u16) < 2"
    using word_less_of_nat_u16 [of "s + 1" 2] bnd assms(3) by (simp add: add.commute)
  then have ev: "mcb_resize_4A (of_nat s + 1) (of_nat n) m =
     (if n < fst b then Inr (mcb_shrink (of_nat s + 1) (of_nat n) (of_nat (fst b)) m)
      else if fst b < n then mcb_grow (of_nat s + 1) (of_nat n) (of_nat (fst b)) m else Inr m)"
    unfolding mcb_resize_4A_def Let_def add_diff_cancel_right' seg_adr_of_nat [OF bnd(1)] hd
    by (auto simp: word_less_of_nat_u16 assms(4) bnd)
  consider (lt) "n < fst b" | (eq) "n = fst b" | (gt) "fst b < n" by linarith
  then show ?thesis
  proof cases
    case lt
    then show ?thesis using ev mcb_shrink_local [OF assms(1,2) lt] bnd by (auto simp del: abs_resize.simps)
  next
    case eq
    then show ?thesis using ev assms(1) bnd by (auto simp: Let_def)
  next
    case gt
    then show ?thesis using ev mcb_grow_local [OF assms(1,2) gt assms(4)] by (auto simp del: abs_resize.simps split: sum.splits)
  qed
qed

section \<open>The sweeps at process exit\<close>

fun abs_sweep :: "u16 \<Rightarrow> mblock list \<Rightarrow> mblock list" where
  "abs_sweep cp (b # c # bs) =
     (if snd b = cp \<and> snd c = 0 then abs_sweep cp ((fst b + 1 + fst c, 0) # bs)
      else (if snd b = cp then (fst b, 0) else b) # abs_sweep cp (c # bs))"
| "abs_sweep cp [b] = [if snd b = cp then (fst b, 0) else b]"
| "abs_sweep cp [] = []"

text \<open>The reference: runs of free blocks become one free block.\<close>

fun coalesce :: "mblock list \<Rightarrow> mblock list" where
  "coalesce (b # c # bs) =
     (if snd b = 0 \<and> snd c = 0 then coalesce ((fst b + 1 + fst c, 0) # bs) else b # coalesce (c # bs))"
| "coalesce [b] = [b]"
| "coalesce [] = []"

definition disown :: "u16 \<Rightarrow> mblock \<Rightarrow> mblock" where
  "disown cp b = (if snd b = cp then (fst b, 0) else b)"

lemma disown_simps [simp]: "fst (disown cp b) = fst b" "snd (disown cp b) = (if snd b = cp then 0 else snd b)"
  by (simp_all add: disown_def)

lemma abs_sweep_ne [simp]: "abs_sweep cp bs = [] \<longleftrightarrow> bs = []"
  by (induction cp bs rule: abs_sweep.induct) auto

lemma coalesce_ne [simp]: "coalesce bs = [] \<longleftrightarrow> bs = []"
  by (induction bs rule: coalesce.induct) auto

lemma coalesce_hd: "coalesce (b # bs) = c # cs \<Longrightarrow> snd c = snd b"
  by (induction "b # bs" arbitrary: b bs rule: coalesce.induct) (auto split: if_splits)

text \<open>Coalescing absorbs a coalesced tail.\<close>

lemma coalesce_Cons: "coalesce (b # coalesce bs) = coalesce (b # bs)"
proof (induction bs arbitrary: b rule: coalesce.induct)
  case (1 c d bs)
  show ?case
  proof (cases "snd c = 0 \<and> snd d = 0")
    case True
    then show ?thesis using 1(1) [OF True, of b] by (cases "snd b = 0") (auto simp: add.assoc)
  next
    case False
    then have "coalesce (c # d # bs) = c # coalesce (d # bs)" by auto
    moreover have "coalesce (b # c # coalesce (d # bs)) = coalesce (b # c # d # bs)"
    proof (cases "snd b = 0 \<and> snd c = 0")
      case True
      then show ?thesis using 1(2) [OF False, of "(fst b + 1 + fst c, 0)"] by simp
    next
      case no: False
      then show ?thesis using 1(2) [OF False, of c] by auto
    qed
    ultimately show ?thesis by simp
  qed
qed simp_all

lemma coalesce_Cons_cong: "coalesce xs = coalesce ys \<Longrightarrow> coalesce (b # xs) = coalesce (b # ys)"
  by (metis coalesce_Cons)

text \<open>The first sweep leaves merging undone; after the second one the result is the reference.\<close>

lemma coalesce_sweep: "coalesce (abs_sweep cp bs) = coalesce (map (disown cp) bs)"
proof (induction cp bs rule: abs_sweep.induct)
  case (1 cp b c bs)
  show ?case
  proof (cases "snd b = cp \<and> snd c = 0")
    case True
    have d: "disown cp (n, 0) = (n, 0)" for n by (simp add: disown_def)
    have "coalesce (map (disown cp) (b # c # bs)) = coalesce (map (disown cp) ((fst b + 1 + fst c, 0) # bs))"
      using True by (cases "cp = 0") (simp_all add: d, simp_all add: disown_def)
    then show ?thesis using 1(1) [OF True] True by simp
  next
    case False
    have "coalesce (disown cp b # abs_sweep cp (c # bs)) = coalesce (disown cp b # map (disown cp) (c # bs))"
      by (rule coalesce_Cons_cong) (rule 1(2) [OF False])
    moreover have "abs_sweep cp (b # c # bs) = disown cp b # abs_sweep cp (c # bs)"
      using False by (auto simp: disown_def)
    ultimately show ?thesis by (simp only: list.map)
  qed
qed (simp_all add: disown_def)

fun no_free_pair :: "mblock list \<Rightarrow> bool" where
  "no_free_pair (b # c # bs) \<longleftrightarrow> \<not> (snd b = 0 \<and> snd c = 0) \<and> no_free_pair (c # bs)"
| "no_free_pair _ \<longleftrightarrow> True"

lemma no_free_pair_coalesce: "no_free_pair (coalesce bs)"
proof (induction bs rule: coalesce.induct)
  case (1 b c bs)
  then show ?case
    using coalesce_hd [of c bs] by (cases "coalesce (c # bs)") auto
qed simp_all

lemma coalesce_owned: "filter (\<lambda>b. snd b \<noteq> 0) (coalesce bs) = filter (\<lambda>b. snd b \<noteq> 0) bs"
  by (induction bs rule: coalesce.induct) auto

text \<open>Memory.\<close>

lemma mchain_own:
  assumes "mchain m s (b # bs) e" "e < 65536"
  shows "mchain (set_owner (hd_adr s) v m) s ((fst b, v) # bs) e"
proof -
  have "s < 131072" using mchain_less [OF assms(1)] assms(2) by linarith
  moreover have "mchain (set_owner (hd_adr s) v m) (s + 1 + fst b) bs e" if "bs \<noteq> []"
    by (rule mchain_frame [OF same_but_set(2) [of s "{s}"]]) (use assms that calculation in \<open>auto simp: mchain_Cons\<close>)
  ultimately show ?thesis using assms(1) by (auto simp: mchain_Cons mcb_is_def)
qed

lemma mchain_merge:
  assumes "mchain m s (b # c # bs) e" "e < 65536" "snd b = 0"
  defines "n \<equiv> hd_adr (s + 1 + fst b)"
  defines "m1 \<equiv> set_size (hd_adr s) (of_nat (fst b) + 1 + mcb_size m n) m"
  shows "mchain (set_type (hd_adr s) (mcb_type m1 n) m1) s ((fst b + 1 + fst c, 0) # bs) e \<and>
    same_but {s} m (set_type (hd_adr s) (mcb_type m1 n) m1)" (is "mchain ?m s _ e \<and> _")
proof -
  have tl: "mchain m (s + 1 + fst b) (c # bs) e" using assms(1) by simp
  have bnd: "s < 131072" "s + 1 + fst b < 131072" using mchain_less [OF tl] assms(2) by linarith+
  have sb: "same_but {s} m ?m" unfolding m1_def
    by (rule same_but_trans [OF same_but_set(3) same_but_set(1)]) simp_all
  have "mchain ?m (s + 1 + fst b + 1 + fst c) bs e" if "bs \<noteq> []"
    by (rule mchain_frame [OF sb]) (use tl that bnd assms(2) in \<open>auto simp: mchain_Cons\<close>)
  then show ?thesis using sb tl bnd assms(1,3)
    by (auto simp: mchain_Cons mcb_is_def m1_def n_def add.assoc split: if_splits)
qed

lemma mchain_ConsI2:
  assumes "mcb_is m s MCB_M b" "s + fst b < e" "e < 65536" "mchain m' (s + 1 + fst b) bs' e"
    "same_but hs m m'" "\<forall>h \<in> hs. s < h \<and> h < e"
  shows "mchain m' s (b # bs') e"
proof -
  have "mcb_is m' s MCB_M b = mcb_is m s MCB_M b"
    by (rule mcb_is_frame [OF assms(5)]) (use assms in auto)
  then show ?thesis using assms(1,4) by (cases bs') auto
qed

lemma mchain_heads:
  assumes "mchain m s (b # bs) e" "e < 65536"
  shows "mcb_type m (hd_adr s) = (if bs = [] then MCB_Z else MCB_M)" "mcb_owner m (hd_adr s) = snd b"
    "mcb_size m (hd_adr s) = of_nat (fst b)" "s < 65536" "s < 131072" "s + fst b < e"
  using assms mchain_size [OF assms(1)] by (auto simp: mchain_Cons mcb_is_def)

lemma mcb_exit_free_refines:
  "mchain m s bs e \<Longrightarrow> e < 65536 \<Longrightarrow>
   \<exists>m'. mcb_exit_free cp (of_nat s) m = Some m' \<and> mchain m' s (abs_sweep cp bs) e \<and> same_but (heads s bs) m m'"
proof (induction cp bs arbitrary: s m rule: abs_sweep.induct)
  case (1 cp b c bs)
  note h = mchain_heads [OF 1(3,4)]
  have tl: "mchain m (s + 1 + fst b) (c # bs) e" using 1(3) by simp
  note hc = mchain_heads [OF tl 1(4)]
  have an: "seg_adr (of_nat s + 1 + of_nat (fst b)) = hd_adr (s + 1 + fst b)"
    unfolding seg_sum by (rule seg_adr_of_nat) (rule hc)
  define m1 where "m1 = (if snd b = cp then set_owner (hd_adr s) 0 m else m)"
  define b1 where "b1 = (if snd b = cp then (fst b, 0) else b)"
  have b1: "fst b1 = fst b" by (simp add: b1_def)
  have c1: "mchain m1 s (b1 # c # bs) e" using mchain_own [OF 1(3,4)] 1(3) by (simp add: m1_def b1_def)
  have s1: "same_but (heads s (b # c # bs)) m m1" by (auto simp: m1_def intro!: same_but_set(2))
  have o1: "mcb_owner m1 (hd_adr (s + 1 + fst b)) = snd c"
    using mchain_heads [of m1 "s + 1 + fst b" c bs e] c1 1(4) b1 by simp
  show ?case
  proof (cases "snd b = cp \<and> snd c = 0")
    case True
    define m2 where "m2 = set_size (hd_adr s) (of_nat (fst b1) + 1 + mcb_size m1 (hd_adr (s + 1 + fst b1))) m1"
    define m3 where "m3 = set_type (hd_adr s) (mcb_type m2 (hd_adr (s + 1 + fst b1))) m2"
    have "snd b1 = 0" using True by (simp add: b1_def)
    from mchain_merge [OF c1 1(4) this, folded m2_def, folded m3_def]
    have c3: "mchain m3 s ((fst b + 1 + fst c, 0) # bs) e" "same_but {s} m1 m3" by (simp_all add: b1)
    have s3: "same_but (heads s (b # c # bs)) m m3" by (rule same_but_trans [OF s1 same_but_mono [OF c3(2)]]) simp
    have sub: "heads s ((fst b + 1 + fst c, 0) # bs) \<subseteq> heads s (b # c # bs)" by (auto simp: add.assoc)
    have "mcb_exit_free cp (of_nat s) m = mcb_exit_free cp (of_nat s) m3"
      by (subst mcb_exit_free.simps)
        (use True h o1 in \<open>simp add: Let_def seg_adr_of_nat an m3_def m2_def b1 m1_def\<close>)
    then show ?thesis using 1(1) [OF True c3(1) 1(4)] True same_but_trans [OF s3 same_but_mono [OF _ sub]] by auto
  next
    case False
    have "mchain m1 (s + 1 + fst b) (c # bs) e" using c1 b1 by simp
    from 1(2) [OF False this 1(4)] obtain m' where m':
        "mcb_exit_free cp (of_nat (s + 1 + fst b)) m1 = Some m'" "mchain m' (s + 1 + fst b) (abs_sweep cp (c # bs)) e"
        "same_but (heads (s + 1 + fst b) (c # bs)) m1 m'"
      by blast
    have "mcb_exit_free cp (of_nat s) m = mcb_exit_free cp (of_nat (s + 1 + fst b)) m1"
      by (subst mcb_exit_free.simps)
        (use False h hc(4) o1 in \<open>auto simp: Let_def seg_adr_of_nat an m1_def seg_sum simp del: of_nat_add of_nat_Suc\<close>)
    moreover have "mchain m' s (b1 # abs_sweep cp (c # bs)) e"
      by (rule mchain_ConsI2 [OF _ _ 1(4) _ m'(3)]) (use c1 m' h(6) b1 heads_bounds [OF tl] in fastforce)+
    moreover have "same_but (heads s (b # c # bs)) m m'"
      by (rule same_but_trans [OF s1 same_but_mono [OF m'(3)]]) auto
    ultimately show ?thesis using m'(1) False by (auto simp: b1_def)
  qed
next
  case (2 cp b)
  note h = mchain_heads [OF 2]
  define m1 where "m1 = (if snd b = cp then set_owner (hd_adr s) 0 m else m)"
  have "mcb_exit_free cp (of_nat s) m = Some m1"
    by (subst mcb_exit_free.simps) (use h in \<open>simp add: Let_def seg_adr_of_nat m1_def\<close>)
  moreover have "mchain m1 s (abs_sweep cp [b]) e" using mchain_own [OF 2] 2(1) by (simp add: m1_def)
  moreover have "same_but (heads s [b]) m m1" by (auto simp: m1_def intro!: same_but_set(2))
  ultimately show ?case by blast
qed simp

lemma mcb_exit_merge_refines:
  "mchain m s bs e \<Longrightarrow> e < 65536 \<Longrightarrow>
   \<exists>m'. mcb_exit_merge (of_nat s) m = Some m' \<and> mchain m' s (coalesce bs) e \<and> same_but (heads s bs) m m'"
proof (induction bs arbitrary: s m rule: coalesce.induct)
  case (1 b c bs)
  note h = mchain_heads [OF 1(3,4)]
  have tl: "mchain m (s + 1 + fst b) (c # bs) e" using 1(3) by simp
  note hc = mchain_heads [OF tl 1(4)]
  have an: "seg_adr (of_nat s + 1 + of_nat (fst b)) = hd_adr (s + 1 + fst b)"
    unfolding seg_sum by (rule seg_adr_of_nat) (rule hc)
  show ?case
  proof (cases "snd b = 0 \<and> snd c = 0")
    case True
    define m2 where "m2 = set_size (hd_adr s) (of_nat (fst b) + 1 + mcb_size m (hd_adr (s + 1 + fst b))) m"
    define m3 where "m3 = set_type (hd_adr s) (mcb_type m2 (hd_adr (s + 1 + fst b))) m2"
    from mchain_merge [OF 1(3,4), folded m2_def, folded m3_def] True
    have c3: "mchain m3 s ((fst b + 1 + fst c, 0) # bs) e" "same_but {s} m m3" by simp_all
    have "mcb_exit_merge (of_nat s) m = mcb_exit_merge (of_nat s) m3"
      by (subst mcb_exit_merge.simps) (use True h hc in \<open>simp add: Let_def seg_adr_of_nat an m3_def m2_def\<close>)
    moreover have sub: "heads s ((fst b + 1 + fst c, 0) # bs) \<subseteq> heads s (b # c # bs)" by (auto simp: add.assoc)
    moreover have "same_but (heads s (b # c # bs)) m m3" by (rule same_but_mono [OF c3(2)]) simp
    ultimately show ?thesis using 1(1) [OF True c3(1) 1(4)] True same_but_trans [OF _ same_but_mono [OF _ sub]] by auto
  next
    case False
    from 1(2) [OF False tl 1(4)] obtain m' where m':
        "mcb_exit_merge (of_nat (s + 1 + fst b)) m = Some m'" "mchain m' (s + 1 + fst b) (coalesce (c # bs)) e"
        "same_but (heads (s + 1 + fst b) (c # bs)) m m'"
      by blast
    have "mcb_exit_merge (of_nat s) m = mcb_exit_merge (of_nat (s + 1 + fst b)) m"
      by (subst mcb_exit_merge.simps)
        (use False h hc in \<open>auto simp: Let_def seg_adr_of_nat an seg_sum simp del: of_nat_add of_nat_Suc\<close>)
    moreover have "mchain m' s (b # coalesce (c # bs)) e"
      by (rule mchain_ConsI2 [OF _ _ 1(4) _ m'(3)]) (use 1(3) m' h(6) heads_bounds [OF tl] in fastforce)+
    moreover have "same_but (heads s (b # c # bs)) m m'" by (rule same_but_mono [OF m'(3)]) auto
    ultimately show ?thesis using m'(1) False by auto
  qed
next
  case (2 b)
  note h = mchain_heads [OF 2]
  have "mcb_exit_merge (of_nat s) m = Some m"
    by (subst mcb_exit_merge.simps) (use h in \<open>simp add: Let_def seg_adr_of_nat\<close>)
  then show ?case using 2 by simp
qed simp

section \<open>Properties\<close>

lemma abs_alloc48_None: "abs_alloc48 n p s bs = None \<longleftrightarrow> (\<forall>b \<in> set bs. snd b = 0 \<longrightarrow> fst b < n)"
  by (induction bs arbitrary: s) auto

lemma abs_sweep_heads: "heads s (abs_sweep cp bs) \<subseteq> heads s bs"
proof (induction cp bs arbitrary: s rule: abs_sweep.induct)
  case (1 cp b c bs)
  show ?case
  proof (cases "snd b = cp \<and> snd c = 0")
    case True
    then show ?thesis using 1(1) [OF True, of s] by (auto simp: add.assoc)
  next
    case False
    have "heads s (abs_sweep cp (b # c # bs)) = insert s (heads (s + 1 + fst b) (abs_sweep cp (c # bs)))" using False by auto
    then show ?thesis using 1(2) [OF False, of "s + 1 + fst b"] by auto
  qed
qed auto

text \<open>
  C18. INT 21h function 48h on a well-formed chain of memory control blocks is first-fit allocation: it always returns; it
  fails exactly when no free block is large enough, then leaves memory alone and reports the largest free block;
  otherwise the chain it leaves is the one first fit gives, and no byte outside the headers of that chain has changed.
\<close>

theorem mcb_alloc_first_fit:
  assumes "mchain m (unat root) bs e" "e < 65536"
  shows "case abs_alloc48 (unat paras) psp (unat root) bs of
      None \<Rightarrow> mcb_alloc_48 psp paras root 0 m = Some (None, of_nat (largest_free bs), m)
        \<and> (\<forall>b \<in> set bs. snd b = 0 \<longrightarrow> fst b < unat paras)
    | Some (r, bs') \<Rightarrow> \<exists>l m'. mcb_alloc_48 psp paras root 0 m = Some (Some (of_nat r), l, m')
        \<and> mchain m' (unat root) bs' e \<and> same_but (heads (unat root) bs') m m'"
  using mcb_alloc_48_refines [OF assms(2) unat_u16_bound [of paras] assms(1), of 0 psp]
    abs_alloc48_None [of "unat paras" psp "unat root" bs]
  by (cases "abs_alloc48 (unat paras) psp (unat root) bs") auto

text \<open>A chain of a 16-paragraph block of program 0x1100 and 32 free paragraphs, from segment 0x40 on.\<close>

definition demo_chain :: mem8 where
  "demo_chain = set_size (hd_adr 81) 32 (set_owner (hd_adr 81) 0 (set_type (hd_adr 81) MCB_Z
     (set_size (hd_adr 64) 16 (set_owner (hd_adr 64) 0x1100 (set_type (hd_adr 64) MCB_M (\<lambda>_. 0))))))"

lemma demo_chain_ok: "mchain demo_chain 64 [(16, 0x1100), (32, 0)] 114"
  by (simp add: demo_chain_def mcb_is_def)

theorem mcb_alloc_first_fit_witness:
  "mchain demo_chain (unat (0x40 :: u16)) [(16, 0x1100), (32, 0)] 114 \<and>
   (\<exists>l m'. mcb_alloc_48 0x1234 10 0x40 0 demo_chain = Some (Some 81, l, m') \<and>
      mchain m' 64 [(16, 0x1100), (10, 0x1234), (21, 0)] 114)"
  using mcb_alloc_first_fit [where m = demo_chain and root = "0x40" and bs = "[(16, 0x1100), (32, 0)]" and e = 114
      and paras = 10 and psp = "0x1234"] demo_chain_ok
  by (auto simp: abs_split_def)

text \<open>
  C21. INT 21h function 49h on a block of a well-formed chain frees it and absorbs the following block if that is
  free; function 4Ah shrinks or grows the block in place, giving what it does not use to the free block
  after it, and otherwise reports the largest size the block could have had. The
  chain stays well formed, every other block keeps its place, and no byte changes outside the header of the block
  and the one header written after it.
\<close>

theorem mcb_free_resize_refine:
  assumes "mchain m s (xs @ b # ys) e" "e < 65536" "0 < s" "t = s + off xs"
  shows "(\<exists>m'. mcb_free_49 (of_nat t + 1) m = Some m' \<and> mchain m' s (xs @ abs_free49 (b # ys)) e \<and> same_but {t} m m') \<and>
    (case abs_resize (unat new_size) (b # ys) of
       Inl mx \<Rightarrow> mcb_resize_4A (of_nat t + 1) new_size m = Inl (No_Room (of_nat mx))
     | Inr zs \<Rightarrow> \<exists>m'. mcb_resize_4A (of_nat t + 1) new_size m = Inr m' \<and> mchain m' s (xs @ zs) e \<and>
         same_but {t, t + unat new_size + 1} m m')"
proof
  have c: "mchain m t (b # ys) e" using assms(1,4) by (simp add: mchain_append)
  have te: "t < e" using mchain_less [OF c] .
  have ne: "abs_free49 (b # ys) \<noteq> []" by (cases ys) auto
  from mcb_free_49_local [OF c assms(2)] obtain m' where m':
      "mcb_free_49 (of_nat t + 1) m = Some m'" "mchain m' t (abs_free49 (b # ys)) e" "same_but {t} m m'"
    by blast
  have "mchain m' s (xs @ abs_free49 (b # ys)) e"
    by (rule mchain_replace [OF assms(1) _ assms(2) ne _ m'(3)]) (use m'(2) assms(4) te in auto)
  with m' show "\<exists>m'. mcb_free_49 (of_nat t + 1) m = Some m' \<and> mchain m' s (xs @ abs_free49 (b # ys)) e \<and> same_but {t} m m'"
    by blast
  have "0 < t" using assms(3,4) by simp
  note r = mcb_resize_local [OF c assms(2) this unat_u16_bound [of new_size]]
  show "case abs_resize (unat new_size) (b # ys) of
       Inl mx \<Rightarrow> mcb_resize_4A (of_nat t + 1) new_size m = Inl (No_Room (of_nat mx))
     | Inr zs \<Rightarrow> \<exists>m'. mcb_resize_4A (of_nat t + 1) new_size m = Inr m' \<and> mchain m' s (xs @ zs) e \<and>
         same_but {t, t + unat new_size + 1} m m'"
  proof (cases "abs_resize (unat new_size) (b # ys)")
    case (Inl mx)
    then show ?thesis using r by (simp del: abs_resize.simps)
  next
    case (Inr zs)
    then obtain m' where m': "mcb_resize_4A (of_nat t + 1) new_size m = Inr m'" "mchain m' t zs e"
        "same_but {t, t + unat new_size + 1} m m'" "t + unat new_size + 1 \<le> e"
      using r by (auto simp del: abs_resize.simps)
    have z: "zs \<noteq> []" using m'(2) by (cases zs) auto
    have lt: "t + unat new_size + 1 < e \<or> t + unat new_size + 1 = e" using m'(4) by linarith
    have "mchain m' s (xs @ zs) e"
    proof -
      have "mpre m' s xs"
        using assms(1,2,4) te m'(4) by (intro mpre_frame [OF _ m'(3)]) (auto simp: mchain_append)
      then show ?thesis using m'(2) z assms(4) by (simp add: mchain_append)
    qed
    then show ?thesis using Inr m' by (auto simp del: abs_resize.simps)
  qed
qed

theorem mcb_free_resize_refine_witness:
  "\<exists>m'. mcb_resize_4A 0x41 40 demo_chain = Inr m' \<and> mchain m' 64 [(40, 0x1100), (8, 0)] 114"
  using mcb_free_resize_refine [of demo_chain 64 "[]" "(16, 0x1100)" "[(32, 0)]" 114 64 40] demo_chain_ok
  by (auto simp: Let_def)

lemma mcb_exit_refines:
  assumes "mchain m (unat root) bs e" "e < 65536"
  shows "\<exists>m' bs'. mcb_exit child_psp root m = Some m' \<and> bs' = coalesce (map (disown child_psp) bs) \<and>
    mchain m' (unat root) bs' e \<and> no_free_pair bs' \<and>
    filter (\<lambda>b. snd b \<noteq> 0) bs' = filter (\<lambda>b. snd b \<noteq> 0 \<and> snd b \<noteq> child_psp) bs \<and>
    same_but (heads (unat root) bs) m m'"
proof -
  from mcb_exit_free_refines [OF assms, of child_psp] obtain m1 where m1:
      "mcb_exit_free child_psp root m = Some m1" "mchain m1 (unat root) (abs_sweep child_psp bs) e"
      "same_but (heads (unat root) bs) m m1"
    by auto
  from mcb_exit_merge_refines [OF m1(2) assms(2)] obtain m2 where m2:
      "mcb_exit_merge root m1 = Some m2" "mchain m2 (unat root) (coalesce (abs_sweep child_psp bs)) e"
      "same_but (heads (unat root) (abs_sweep child_psp bs)) m1 m2"
    by auto
  have "filter (\<lambda>b. snd b \<noteq> 0) (map (disown child_psp) bs) = filter (\<lambda>b. snd b \<noteq> 0 \<and> snd b \<noteq> child_psp) bs"
    by (induction bs) (auto simp: disown_def)
  then show ?thesis
    using m1(1) m2 same_but_trans [OF m1(3) same_but_mono [OF m2(3) abs_sweep_heads]] no_free_pair_coalesce
    by (auto simp: mcb_exit_def coalesce_sweep coalesce_owned)
qed

text \<open>
  C22. When a child program exits, the two sweeps of INT 21h function 4Ch return, give back every block of the child and
  leave the chain with runs of free blocks merged: no two neighbouring blocks are both free, the blocks of other programs
  keep their sizes and order, and no byte outside the headers of the old chain has changed.
\<close>

theorem mcb_exit_reclaims:
  assumes "mchain m (unat root) bs e" "e < 65536"
  shows "\<exists>m' bs'. mcb_exit child_psp root m = Some m' \<and> bs' = coalesce (map (disown child_psp) bs) \<and>
    mchain m' (unat root) bs' e \<and> no_free_pair bs' \<and>
    filter (\<lambda>b. snd b \<noteq> 0) bs' = filter (\<lambda>b. snd b \<noteq> 0 \<and> snd b \<noteq> child_psp) bs \<and>
    same_but (heads (unat root) bs) m m'"
  by (rule mcb_exit_refines [OF assms])

theorem mcb_exit_reclaims_witness:
  "\<exists>m'. mcb_exit 0x1100 0x40 demo_chain = Some m' \<and> mchain m' 64 [(49, 0)] 114"
  using mcb_exit_reclaims [of demo_chain "0x40" "[(16, 0x1100), (32, 0)]" 114 "0x1100"] demo_chain_ok
  by (auto simp: disown_def)


definition demo_dos :: kernel where
  "demo_dos = \<lparr>frames = pmm_init 0, pmem = (\<lambda>_. 0), kpd = 0, kpt = 0, v86_tasks = [], current_v86 = -1,
     dos_tasks = [\<lparr>d_active = True, handle_map = replicate 20 0xFF, dta_seg = 0, dta_off = 0x80, psp_seg = 0x1234, d_cwd = [0x2F],
       return_code = 0, next_alloc_seg = 0x2000\<rparr>],
     fat = fat_init \<lparr>sectors = \<lambda>_ _. [], rd_err = \<lambda>_ _. True, wr_err = \<lambda>_ _. True\<rparr> [], v86mt_vts = (\<lambda>_ _. None)\<rparr>"


text \<open>Freeing merges with the following block only: two neighbouring free blocks can remain.\<close>

lemma free_leaves_pair: "snd c \<noteq> 0 \<Longrightarrow> \<not> no_free_pair ((n, 0) # abs_free49 (b # c # bs))"
  by (cases bs) auto
end
