(* ===== verification/Loader.thy ===== *)
theory Loader
  imports Mcb
begin

text \<open>
  Program loading: MCB, environment and PSP set-up and the COM loader (src/src/kernel/comload.c) and the MZ EXE loader
  (src/src/kernel/exeload.c). The loaders read the file through the FAT layer of \<open>Fat_File\<close> and write the
  byte-addressed V86 memory of \<open>Mcb\<close>. A command line that is the null pointer behaves like an empty one and
  is modelled as the empty string. The contents the two local buffers of \<open>exe_load\<close> have before they are read into
  (the MZ header and the relocation entry) are arguments, since a short read leaves part of them as it was.
\<close>

section \<open>Bytes\<close>

text \<open>Storing a list of bytes from an address on.\<close>

definition put_bytes :: "u32 \<Rightarrow> u8 list \<Rightarrow> mem8 \<Rightarrow> mem8" where
  "put_bytes a xs m = (\<lambda>x. if unat (x - a) < length xs then xs ! unat (x - a) else m x)"

definition le16 :: "u8 list \<Rightarrow> nat \<Rightarrow> u16" where
  "le16 bs i = ucast (bs ! i) OR push_bit 8 (ucast (bs ! (i + 1)))"

text \<open>The characters of a C string literal.\<close>

definition lit :: "string \<Rightarrow> u8 list" where
  "lit s = map (\<lambda>c. of_nat (of_char c)) s"

section \<open>MCB, environment and PSP\<close>

definition mcb_setup :: "u16 \<Rightarrow> u16 \<Rightarrow> u16 \<Rightarrow> u8 \<Rightarrow> mem8 \<Rightarrow> mem8" where
  "mcb_setup seg owner size_paras t m =
     (let a = push_bit 4 (ucast seg - 1)
      in put_bytes (a + 5) (replicate 11 0) (set_size a size_paras (set_owner a owner (set_type a t m))))"

definition env_vars :: "bool \<Rightarrow> u8 list list" where
  "env_vars floppy =
     [lit (if floppy then ''COMSPEC=A:'' else ''COMSPEC=C:'') @ [0x5C] @ lit ''COMMAND.COM'',
      lit (if floppy then ''PATH=A:'' else ''PATH=C:'') @ [0x5C],
      lit ''PROMPT=$P$G'']"

definition env_block :: "bool \<Rightarrow> cstr \<Rightarrow> u8 list" where
  "env_block floppy program_path = concat (map (\<lambda>v. v @ [0]) (env_vars floppy)) @ [0, 1, 0] @ program_path @ [0]"

definition env_setup :: "u16 \<Rightarrow> cstr \<Rightarrow> fat_state \<Rightarrow> mem8 \<Rightarrow> mem8" where
  "env_setup seg program_path f m =
     put_bytes (seg_adr seg) (env_block (fat_is_floppy f) program_path) (mcb_setup seg (seg + 0x100) 0x100 MCB_M m)"

definition cmd_tail :: "cstr \<Rightarrow> u8 list" where
  "cmd_tail cmdline =
     (if cmdline = [] then [0, 0x0D]
      else let copied = take 125 cmdline in [of_nat (1 + length copied), 0x20] @ copied @ [0x0D])"

definition psp_setup :: "u16 \<Rightarrow> u16 \<Rightarrow> u16 \<Rightarrow> cstr \<Rightarrow> mem8 \<Rightarrow> mem8" where
  "psp_setup seg env_seg top_seg cmdline m =
     (let p = seg_adr seg;
          m1 = put_bytes p (replicate 256 0) m;
          m2 = wr16 (p + 0x02) top_seg (put_bytes p [0xCD, 0x20] m1);
          m3 = wr16 (p + 0x16) 0x0050 (put_bytes (p + 0x05) [0xCD, 0x21, 0xCB] m2);
          m4 = put_bytes (p + 0x18) ([1, 1, 1, 0, 0] @ replicate 15 0xFF) m3;
          m5 = wr16 (p + 0x36) seg (wr16 (p + 0x34) 0x18 (wr16 (p + 0x32) 20 (wr16 (p + 0x2C) env_seg m4)));
          m6 = put_bytes (p + 0x50) [0xCD, 0x21, 0xCB] m5
      in put_bytes (p + 0x80) (cmd_tail cmdline) m6)"

section \<open>The COM loader\<close>

definition com_load :: "cstr \<Rightarrow> cstr \<Rightarrow> fat_state \<Rightarrow> mem8 \<Rightarrow> (u16 \<times> fat_state \<times> mem8) option" where
  "com_load filename cmdline f m =
     (let m1 = env_setup 0x1000 filename f m;
          m2 = mcb_setup 0x1100 0x1100 0x1000 MCB_Z m1;
          m3 = psp_setup 0x1100 0x1000 0x9000 cmdline m2
      in case fat_open filename 0 f of
           None \<Rightarrow> None
         | Some (fd, f1) \<Rightarrow>
             if fd < 0 then Some (0, f1, m3)
             else (case fat_read fd 0xFF00 f1 of (bytes_read, bs, f2) \<Rightarrow>
                     let m4 = put_bytes (0x1100 * 16 + 0x100) bs m3;
                         f3 = snd (fat_close fd f2)
                     in Some (if bytes_read \<le> 0 then 0 else 0x1100, f3, m4)))"

section \<open>The EXE loader\<close>

record mz_header =
  signature :: u16
  last_page :: u16
  pages :: u16
  num_relocs :: u16
  header_paras :: u16
  min_extra :: u16
  max_extra :: u16
  init_ss :: u16
  init_sp :: u16
  checksum :: u16
  init_ip :: u16
  init_cs :: u16
  reloc_offset :: u16
  overlay :: u16

definition mz_of :: "u8 list \<Rightarrow> mz_header" where
  "mz_of bs = \<lparr>signature = le16 bs 0, last_page = le16 bs 2, pages = le16 bs 4, num_relocs = le16 bs 6, header_paras = le16 bs 8,
     min_extra = le16 bs 10, max_extra = le16 bs 12, init_ss = le16 bs 14, init_sp = le16 bs 16, checksum = le16 bs 18,
     init_ip = le16 bs 20, init_cs = le16 bs 22, reloc_offset = le16 bs 24, overlay = le16 bs 26\<rparr>"

definition header_size :: "mz_header \<Rightarrow> u32" where
  "header_size h = ucast (header_paras h) * 16"

definition mz_file_size :: "mz_header \<Rightarrow> u32" where
  "mz_file_size h = (if last_page h \<noteq> 0 then ucast (pages h) * 512 - 512 + ucast (last_page h) else ucast (pages h) * 512)"

definition image_size :: "mz_header \<Rightarrow> u32" where
  "image_size h = mz_file_size h - header_size h"

record exe_info =
  load_seg :: u16
  entry_cs :: u16
  entry_ip :: u16
  info_ss :: u16
  info_sp :: u16
  info_psp :: u16
  info_env :: u16

text \<open>Reading into a buffer that keeps its old contents behind a short read.\<close>

definition fat_read_buf :: "int \<Rightarrow> u8 list \<Rightarrow> fat_state \<Rightarrow> int \<times> u8 list \<times> fat_state" where
  "fat_read_buf fd buf f = (case fat_read fd (of_nat (length buf)) f of (n, bs, f1) \<Rightarrow> (n, bs @ drop (length bs) buf, f1))"

definition reloc_addr :: "u16 \<Rightarrow> u8 list \<Rightarrow> u32" where
  "reloc_addr ls rel = (ucast (le16 rel 2) + ucast ls) * 16 + ucast (le16 rel 0)"

fun apply_relocs :: "nat \<Rightarrow> int \<Rightarrow> u16 \<Rightarrow> u8 list \<Rightarrow> fat_state \<Rightarrow> mem8 \<Rightarrow> fat_state \<times> mem8" where
  "apply_relocs 0 fd ls rel f m = (f, m)"
| "apply_relocs (Suc n) fd ls rel f m =
     (case fat_read_buf fd rel f of (_, rel1, f1) \<Rightarrow>
        let a = reloc_addr ls rel1 in apply_relocs n fd ls rel1 f1 (wr16 a (rd16 m a + ls) m))"

definition exe_load ::
    "u8 list \<Rightarrow> u8 list \<Rightarrow> cstr \<Rightarrow> cstr \<Rightarrow> u16 \<Rightarrow> u16 \<Rightarrow> fat_state \<Rightarrow> mem8 \<Rightarrow> (exe_info option \<times> fat_state \<times> mem8) option" where
  "exe_load stack_hdr stack_rel filename cmdline env_seg arena_paras f m =
     (case fat_open filename 0 f of
        None \<Rightarrow> None
      | Some (fd, f1) \<Rightarrow>
          if fd < 0 then Some (None, f1, m)
          else (case fat_read_buf fd stack_hdr f1 of (n, hb, f2) \<Rightarrow>
            let hdr = mz_of hb;
                psp = env_seg + 0x100;
                ls = psp + 0x10;
                arena_top = env_seg + arena_paras;
                mcb_size_paras = arena_top - psp - 1
            in if n < 28 \<or> signature hdr \<noteq> 0x5A4D then Some (None, snd (fat_close fd f2), m)
               else if ucast ls * 16 + image_size hdr > ucast arena_top * 16 then Some (None, snd (fat_close fd f2), m)
               else let m1 = env_setup env_seg filename f2 m;
                        m2 = set_size (push_bit 4 (ucast env_seg - 1)) (psp - 1 - env_seg) m1;
                        m3 = psp_setup psp env_seg arena_top cmdline (mcb_setup psp psp mcb_size_paras MCB_Z m2);
                        f3 = snd (fat_seek fd (header_size hdr) f2)
                    in case fat_read fd (image_size hdr) f3 of (bytes_read, bs, f4) \<Rightarrow>
                         let m4 = put_bytes (ucast ls * 16) bs m3
                         in if bytes_read \<le> 0 then Some (None, snd (fat_close fd f4), m4)
                            else case (if num_relocs hdr > 0
                                       then apply_relocs (unat (num_relocs hdr)) fd ls stack_rel
                                              (snd (fat_seek fd (ucast (reloc_offset hdr)) f4)) m4
                                       else (f4, m4)) of (f5, m5) \<Rightarrow>
                              Some (Some \<lparr>load_seg = ls, entry_cs = init_cs hdr + ls, entry_ip = init_ip hdr,
                                       info_ss = init_ss hdr + ls, info_sp = init_sp hdr, info_psp = psp, info_env = env_seg\<rparr>,
                                    snd (fat_close fd f5), m5)))"


section \<open>What a store can change\<close>

text \<open>Two memories that agree outside the addresses from \<open>lo\<close> up to, not including, \<open>hi\<close>.\<close>

definition confined :: "nat \<Rightarrow> nat \<Rightarrow> mem8 \<Rightarrow> mem8 \<Rightarrow> bool" where
  "confined lo hi m m' \<longleftrightarrow> (\<forall>x. unat x < lo \<or> hi \<le> unat x \<longrightarrow> m' x = m x)"

lemma confined_refl [simp]: "confined lo hi m m"
  by (simp add: confined_def)

lemma confined_trans: "confined lo hi m m' \<Longrightarrow> confined lo hi m' m'' \<Longrightarrow> confined lo hi m m''"
  by (simp add: confined_def)

lemma confined_mono: "confined lo hi m m' \<Longrightarrow> lo' \<le> lo \<Longrightarrow> hi \<le> hi' \<Longrightarrow> confined lo' hi' m m'"
  by (auto simp: confined_def)

lemma unat_diff_less:
  assumes "unat (x - a) < n" "unat a + n \<le> 4294967296"
  shows "unat a \<le> unat (x :: u32) \<and> unat x < unat a + n"
proof -
  have x: "x = (x - a) + a" by simp
  have "unat x = unat (x - a) + unat a"
    by (subst x, rule unat_plus_small) (use assms in linarith)
  then show ?thesis using assms(1) by simp
qed

lemma confined_put: "unat a + length xs \<le> 4294967296 \<Longrightarrow> confined (unat a) (unat a + length xs) m (put_bytes a xs m)"
  unfolding confined_def put_bytes_def using unat_diff_less [of _ a "length xs"] by fastforce

lemma unat_next: "unat a + 1 < 4294967296 \<Longrightarrow> unat (a + 1) = unat (a :: u32) + 1"
  using unat_plus_small [of a 1] by simp

lemma confined_wr16: "unat a + 2 \<le> 4294967296 \<Longrightarrow> confined (unat a) (unat a + 2) m (wr16 a v m)"
  unfolding confined_def wr16_def using unat_next [of a] by auto

lemma confined_putI:
  "confined lo hi m m' \<Longrightarrow> lo \<le> unat a \<Longrightarrow> unat a + length xs \<le> hi \<Longrightarrow> hi \<le> 4294967296 \<Longrightarrow> confined lo hi m (put_bytes a xs m')"
  by (rule confined_trans, assumption) (rule confined_mono [OF confined_put], linarith+)

lemma confined_wr16I:
  "confined lo hi m m' \<Longrightarrow> lo \<le> unat a \<Longrightarrow> unat a + 2 \<le> hi \<Longrightarrow> hi \<le> 4294967296 \<Longrightarrow> confined lo hi m (wr16 a v m')"
  by (rule confined_trans, assumption) (rule confined_mono [OF confined_wr16], linarith+)

lemma unat_hd_off: "s < 131072 \<Longrightarrow> k < 65536 \<Longrightarrow> unat (hd_adr s + of_nat k) = 16 * s + k"
  unfolding hd_adr_plus by (rule unat_of_nat_u32) linarith

lemma unat_hd_adr: "s < 131072 \<Longrightarrow> unat (hd_adr s) = 16 * s"
  using unat_hd_off [of s 0] by simp

lemma unat_hd_num: "s < 131072 \<Longrightarrow> numeral k < (65536 :: nat) \<Longrightarrow> unat (hd_adr s + numeral k) = 16 * s + numeral k"
  using unat_hd_off [of s "numeral k"] by simp

lemma confined_set:
  assumes "confined lo hi m m'" "lo \<le> 16 * s" "16 * s + 5 \<le> hi" "s < 131072" "hi \<le> 4294967296"
  shows "confined lo hi m (set_type (hd_adr s) t m')" "confined lo hi m (set_owner (hd_adr s) v m')"
    "confined lo hi m (set_size (hd_adr s) v m')"
proof -
  have u: "unat (hd_adr s) = 16 * s" "unat (hd_adr s + 1) = 16 * s + 1" "unat (hd_adr s + 3) = 16 * s + 3"
    using assms(4) unat_hd_adr [of s] unat_hd_off [of s 1] unat_hd_num [of s] by simp_all
  show "confined lo hi m (set_owner (hd_adr s) v m')" "confined lo hi m (set_size (hd_adr s) v m')"
    unfolding set_owner_def set_size_def by (rule confined_wr16I [OF assms(1)]; use assms u in simp)+
  show "confined lo hi m (set_type (hd_adr s) t m')"
    using assms u unfolding confined_def set_type_def by auto
qed

lemma mcb_is_confined:
  assumes "confined lo hi m m'" "16 * s + 5 \<le> lo \<or> hi \<le> 16 * s" "s < 131072"
  shows "mcb_is m' s t b = mcb_is m s t b"
proof -
  have u: "unat (hd_adr s + of_nat i) = 16 * s + i" if "i < 5" for i
    using that assms(3) by (simp add: unat_hd_off)
  have "m' (hd_adr s + of_nat i) = m (hd_adr s + of_nat i)" if "i < 5" for i
    using assms(1,2) u [OF that] that unfolding confined_def by auto
  from this [of 0] this [of 1] this [of 2] this [of 3] this [of 4]
  show ?thesis unfolding mcb_is_def mcb_acc rd16_def by (simp add: add.assoc)
qed

lemma seg_pred: "0 < unat s \<Longrightarrow> push_bit 4 (ucast (s :: u16) - 1 :: u32) = hd_adr (unat s - 1)"
proof -
  assume "0 < unat s"
  then have "(ucast s :: u32) = of_nat (unat s - 1) + 1"
    by (metis One_nat_def Suc_pred of_nat_Suc add.commute unat_ucast_u32(2) word_unat_inverse)
  then show ?thesis by (simp add: hd_adr_def push_bit_eq_mult)
qed

section \<open>The pieces stay in their place\<close>

lemma mcb_setup_ok:
  assumes "0 < unat seg"
  shows "confined (16 * (unat seg - 1)) (16 * unat seg) m (mcb_setup seg ow sz t m)"
    "mcb_is (mcb_setup seg ow sz t m) (unat seg - 1) t (unat sz, ow)"
proof -
  let ?s = "unat seg - 1"
  have s: "?s < 131072" "16 * ?s + 16 = 16 * unat seg" "16 * unat seg \<le> 4294967296"
    using assms unat_u16_bound [of seg] by linarith+
  let ?m = "set_size (hd_adr ?s) sz (set_owner (hd_adr ?s) ow (set_type (hd_adr ?s) t m))"
  have c: "confined (16 * ?s) (16 * unat seg) m ?m"
    by (intro confined_set) (use s in auto)
  have p: "confined (16 * ?s + 5) (16 * unat seg) ?m (put_bytes (hd_adr ?s + 5) (replicate 11 0) ?m)"
    by (rule confined_putI [OF confined_refl]) (use s unat_hd_num [OF s(1), of "num.Bit1 (num.Bit0 num.One)"] in simp_all)
  show "confined (16 * ?s) (16 * unat seg) m (mcb_setup seg ow sz t m)"
    unfolding mcb_setup_def Let_def seg_pred [OF assms]
    by (rule confined_trans [OF c confined_mono [OF p]]) auto
  have "mcb_is ?m ?s t (unat sz, ow)" using s by (simp add: mcb_is_def)
  then show "mcb_is (mcb_setup seg ow sz t m) ?s t (unat sz, ow)"
    unfolding mcb_setup_def Let_def seg_pred [OF assms] using mcb_is_confined [OF p _ s(1)] by simp
qed

lemma env_block_length: "length (env_block fl p) = 48 + length p"
  by (simp add: env_block_def env_vars_def lit_def)

lemma cmd_tail_length: "length (cmd_tail c) \<le> 128"
  by (simp add: cmd_tail_def Let_def)

lemma psp_setup_confined:
  "confined (16 * unat seg) (16 * unat seg + 256) m (psp_setup seg env atop c m)"
proof -
  have s: "unat seg < 131072" "16 * unat seg + 256 \<le> 4294967296" using unat_u16_bound [of seg] by linarith+
  note u = unat_hd_adr [OF s(1)] unat_hd_num [OF s(1)]
  show ?thesis unfolding psp_setup_def Let_def seg_adr_hd
    by (intro confined_putI confined_wr16I) (use s cmd_tail_length [of c] in \<open>simp_all add: u\<close>)
qed

section \<open>Reads are bounded\<close>

lemma read_loop_length: "length (fst (read_loop lft f acc s)) \<le> length acc + unat lft"
proof (induction lft f acc s rule: read_loop.induct)
  case (1 lft f acc s)
  let ?off = "position f mod cluster_bytes s"
  obtain ok buf where rd: "read_sector (cluster_to_sector (current_cluster f) s + ?off div 512) (sector_buf s) s = (ok, buf)"
    by fastforce
  show ?case
  proof (cases "lft = 0 \<or> is_eoc s (current_cluster f) \<or> \<not> ok")
    case True
    then show ?thesis using rd by (subst read_loop.simps) (auto simp: Let_def)
  next
    case False
    define n where "n = chunk_len (?off mod 512) lft"
    have le: "n \<le> lft" using chunk_len_props [of lft ?off] False by (simp add: n_def)
    then have u: "unat (lft - n) = unat lft - unat n" "unat n \<le> unat lft" by (simp_all add: unat_sub word_le_nat_alt)
    define acc1 where "acc1 = acc @ take (unat n) (drop (unat (?off mod 512)) buf)"
    have acc1: "length acc1 \<le> length acc + unat n" by (simp add: acc1_def)
    define f1 s1 where "f1 = f\<lparr>position := position f + n\<rparr>" and "s1 = s\<lparr>sector_buf := buf\<rparr>"
    have step: "read_loop lft f acc s =
        (if position f1 mod cluster_bytes s1 = 0
         then (case fat_read_entry (current_cluster f1) s1 of (c, s2) \<Rightarrow> read_loop (lft - n) (f1\<lparr>current_cluster := c\<rparr>) acc1 s2)
         else read_loop (lft - n) f1 acc1 s1)"
      using False rd by (subst read_loop.simps) (simp add: Let_def n_def acc1_def f1_def s1_def)
    have ih1: "length (fst (read_loop (lft - n) (f1\<lparr>current_cluster := c\<rparr>) acc1 s2)) \<le> length acc1 + unat (lft - n)"
      if "position f1 mod cluster_bytes s1 = 0" "fat_read_entry (current_cluster f1) s1 = (c, s2)" for c s2
      using 1(1) [OF _ refl refl refl, of ok buf s1 n acc1 f1 c s2] False rd that by (auto simp: n_def acc1_def f1_def s1_def)
    have ih2: "length (fst (read_loop (lft - n) f1 acc1 s1)) \<le> length acc1 + unat (lft - n)"
      if "position f1 mod cluster_bytes s1 \<noteq> 0"
      using 1(2) [OF _ refl refl refl, of ok buf s1 n acc1 f1] False rd that by (auto simp: n_def acc1_def f1_def s1_def)
    have "length (fst (read_loop lft f acc s)) \<le> length acc1 + unat (lft - n)"
      unfolding step using ih1 ih2 by (cases "fat_read_entry (current_cluster f1) s1") auto
    then show ?thesis using u acc1 by linarith
  qed
qed

lemma fat_read_length:
  assumes "fat_read fd c f = (n, bs, f')" "\<And>h. get_handle fd f = Some h \<Longrightarrow> position h \<le> f_size h"
  shows "length bs \<le> unat c"
proof (cases "get_handle fd f")
  case None
  then show ?thesis using assms(1) by (simp add: fat_read_def)
next
  case (Some h)
  define c1 where "c1 = (if position h + c > f_size h then f_size h - position h else c)"
  have le: "unat (position h) \<le> unat (f_size h)" using assms(2) [OF Some] by (simp add: word_le_nat_alt)
  have "unat c1 \<le> unat c"
  proof (cases "position h + c > f_size h")
    case True
    then have "unat (f_size h) < unat (position h + c)" by (simp add: word_less_nat_alt)
    moreover have "unat (position h + c) \<le> unat (position h) + unat c"
      by (simp add: unat_word_ariths)
    ultimately show ?thesis using True le by (simp add: c1_def unat_sub word_le_nat_alt)
  qed (simp add: c1_def)
  moreover have "length bs \<le> unat c1"
    using assms(1) Some
    by (auto simp: fat_read_def Let_def c1_def [symmetric] split: if_splits prod.splits)
      (metis add_0 fst_conv list.size(3) read_loop_length)
  ultimately show ?thesis by linarith
qed

lemma seek_read_length:
  assumes "fat_read fd c (snd (fat_seek fd pos f)) = (n, bs, f')" "length (handles f) = FAT_MAX_HANDLES"
  shows "length bs \<le> unat c"
proof (rule fat_read_length [OF assms(1)])
  fix h assume h: "get_handle fd (snd (fat_seek fd pos f)) = Some h"
  show "position h \<le> f_size h"
  proof (cases "get_handle fd f")
    case None
    then show ?thesis using h by (simp add: fat_seek_def)
  next
    case (Some g)
    let ?g = "g\<lparr>position := (if pos > f_size g then f_size g else pos)\<rparr>"
    have "nat fd < length (handles f)" using Some assms(2) by (auto simp: get_handle_def FAT_MAX_HANDLES_def split: if_splits)
    then have "h = ?g" using h Some by (auto simp: fat_seek_def get_handle_def put_handle_def Let_def split: if_splits)
    then show ?thesis by auto
  qed
qed

section \<open>The EXE loader keeps to its arena\<close>

text \<open>The header that \<open>exe_load\<close> reads, and the addresses its relocation entries name.\<close>

definition exe_header :: "u8 list \<Rightarrow> cstr \<Rightarrow> fat_state \<Rightarrow> (mz_header \<times> int \<times> fat_state) option" where
  "exe_header stack_hdr filename f =
     (case fat_open filename 0 f of None \<Rightarrow> None
      | Some (fd, f1) \<Rightarrow> (case fat_read_buf fd stack_hdr f1 of (n, hb, f2) \<Rightarrow> Some (mz_of hb, fd, f2)))"

fun reloc_targets :: "nat \<Rightarrow> int \<Rightarrow> u16 \<Rightarrow> u8 list \<Rightarrow> fat_state \<Rightarrow> u32 list" where
  "reloc_targets 0 fd ls rel f = []"
| "reloc_targets (Suc n) fd ls rel f =
     (case fat_read_buf fd rel f of (_, rel1, f1) \<Rightarrow> reloc_addr ls rel1 # reloc_targets n fd ls rel1 f1)"

definition exe_relocs :: "mz_header \<Rightarrow> int \<Rightarrow> u16 \<Rightarrow> u8 list \<Rightarrow> fat_state \<Rightarrow> u32 list" where
  "exe_relocs hdr fd ls stack_rel f2 =
     (case fat_read fd (image_size hdr) (snd (fat_seek fd (header_size hdr) f2)) of (_, _, f4) \<Rightarrow>
        reloc_targets (unat (num_relocs hdr)) fd ls stack_rel (snd (fat_seek fd (ucast (reloc_offset hdr)) f4)))"

lemma apply_relocs_confined:
  "\<forall>a \<in> set (reloc_targets n fd ls rel f). lo \<le> unat a \<and> unat a + 2 \<le> hi \<Longrightarrow> hi \<le> 4294967296 \<Longrightarrow>
   confined lo hi m (snd (apply_relocs n fd ls rel f m))"
proof (induction n arbitrary: rel f m)
  case (Suc n)
  obtain k rel1 f1 where r: "fat_read_buf fd rel f = (k, rel1, f1)" by (metis prod_cases3)
  have a: "lo \<le> unat (reloc_addr ls rel1)" "unat (reloc_addr ls rel1) + 2 \<le> hi"
    using Suc.prems(1) r by auto
  have "confined lo hi m (wr16 (reloc_addr ls rel1) (rd16 m (reloc_addr ls rel1) + ls) m)"
    by (rule confined_wr16I [OF confined_refl]) (use a Suc.prems(2) in auto)
  moreover have "confined lo hi m2 (snd (apply_relocs n fd ls rel1 f1 m2))" for m2
    using Suc.prems r by (intro Suc.IH) auto
  ultimately show ?case using r by (auto simp: Let_def intro: confined_trans)
qed simp

lemma unat_seg16: "unat (ucast (s :: u16) * 16 :: u32) = unat s * 16"
proof -
  have "unat s < 268435456" using unat_u16_bound [of s] by linarith
  then show ?thesis unfolding unat_word_ariths by simp
qed

lemma image_fits:
  assumes "header_size hdr \<le> mz_file_size hdr" "0 < pages hdr" "unat ls \<le> unat atop"
    "\<not> ucast (ls :: u16) * 16 + image_size hdr > (ucast (atop :: u16) * 16 :: u32)"
  shows "16 * unat ls + unat (image_size hdr) \<le> 16 * unat atop"
proof -
  have p: "1 \<le> unat (pages hdr)" using assms(2) by (simp add: word_less_nat_alt)
  have pb: "unat (pages hdr) < 65536" "unat (last_page hdr) < 65536" by simp_all
  have pb8: "unat (pages hdr) < 8388608" using pb(1) by linarith
  have u512: "unat (ucast (pages hdr) * 512 :: u32) = unat (pages hdr) * 512"
    unfolding unat_word_ariths using pb8 by (subst mod_less) auto
  have "unat (mz_file_size hdr) < 33620000"
  proof (cases "last_page hdr = 0")
    case True
    then have "unat (mz_file_size hdr) = unat (pages hdr) * 512" using u512 by (simp add: mz_file_size_def)
    then show ?thesis using pb by linarith
  next
    case False
    have d: "unat (ucast (pages hdr) * 512 - 512 :: u32) = unat (pages hdr) * 512 - 512"
      using u512 p by (simp add: unat_sub word_le_nat_alt)
    have "unat (ucast (pages hdr) * 512 - 512 :: u32) + unat (ucast (last_page hdr) :: u32) < 4294967296"
      unfolding d unat_ucast_u32 using pb by linarith
    then have "unat (mz_file_size hdr) = unat (pages hdr) * 512 - 512 + unat (last_page hdr)"
      using False d unat_plus_small by (simp add: mz_file_size_def)
    then show ?thesis using pb by linarith
  qed
  then have im: "unat (image_size hdr) < 33620000"
    using assms(1) by (simp add: image_size_def unat_sub)
  have l: "unat (ucast ls * 16 :: u32) = unat ls * 16" "unat (ucast atop * 16 :: u32) = unat atop * 16"
    by (rule unat_seg16)+
  have "unat (ucast ls * 16 :: u32) + unat (image_size hdr) < 4294967296"
    unfolding l using im unat_u16_bound [of ls] by linarith
  then have "unat (ucast ls * 16 + image_size hdr) = unat ls * 16 + unat (image_size hdr)"
    using l by (simp add: unat_plus_small)
  then show ?thesis using assms(4) l by (simp add: word_less_nat_alt not_less)
qed

text \<open>The state of memory before the image is read: three set-up steps from the environment on.\<close>

definition exe_setup :: "cstr \<Rightarrow> cstr \<Rightarrow> u16 \<Rightarrow> u16 \<Rightarrow> fat_state \<Rightarrow> mem8 \<Rightarrow> mem8" where
  "exe_setup filename cmdline env atop f m =
     (let psp = env + 0x100;
          m1 = env_setup env filename f m;
          m2 = set_size (push_bit 4 (ucast env - 1)) (psp - 1 - env) m1
      in psp_setup psp env atop cmdline (mcb_setup psp psp (atop - psp - 1) MCB_Z m2))"

lemma exe_setup_ok:
  assumes "0 < unat env" "unat env + A < 65536" "0x112 \<le> A" "length filename \<le> 4000"
    and atop_def: "atop = env + of_nat A"
    and m'_def: "m' = exe_setup filename cmdline env atop f m"
  shows "confined (16 * (unat env - 1)) (16 * (unat env + 0x110)) m m'"
    "mchain m' (unat env - 1) [(255, env + 0x100), (A - 257, env + 0x100)] (unat env + A - 1)"
proof -
  let ?E = "unat env" and ?e = "unat env - 1"
  have E: "?e < 131072" "?E + 255 < 131072" "?E + 16 * 17 < 65536" using assms(2,3) by linarith+
  have up: "unat (env + 0x100) = ?E + 256"
    using assms(2,3) by (simp add: unat_word_ariths)
  have psz: "unat (atop - (env + 0x100) - 1) = A - 257"
  proof -
    have "atop - (env + 0x100) - 1 = (of_nat (A - 257) :: u16)" using assms(3) by (simp add: atop_def)
    then show ?thesis using assms(2) by (simp add: unat_of_nat_small)
  qed
  have esz: "(env + 0x100) - 1 - env = (of_nat 255 :: u16)" by simp
  define hi where "hi = 16 * (?E + 0x110)"
  have hi: "hi \<le> 4294967296" "16 * ?E + 4352 = hi" using assms(2,3) by (auto simp: hi_def)
  define m0 where "m0 = mcb_setup env (env + 0x100) 0x100 MCB_M m"
  define m1 where "m1 = env_setup env filename f m"
  have m1: "m1 = put_bytes (hd_adr ?E) (env_block (fat_is_floppy f) filename) m0"
    by (simp add: m1_def m0_def env_setup_def seg_adr_hd)
  define m2 where "m2 = set_size (hd_adr ?e) (of_nat 255) m1"
  define m3 where "m3 = mcb_setup (env + 0x100) (env + 0x100) (atop - (env + 0x100) - 1) MCB_Z m2"
  have m': "m' = psp_setup (env + 0x100) env atop cmdline m3"
    by (simp add: m'_def exe_setup_def Let_def m3_def m2_def m1_def seg_pred [OF assms(1)])
  have c0: "confined (16 * ?e) (16 * ?E) m m0" unfolding m0_def by (rule mcb_setup_ok [OF assms(1)])
  have uE: "unat (hd_adr ?E) = 16 * ?E" by (rule unat_hd_adr) (use E in simp)
  have c1: "confined (16 * ?E) (16 * (?E + 255)) m0 m1" unfolding m1
    by (rule confined_putI [OF confined_refl]) (use uE assms(2,3,4) in \<open>simp_all add: env_block_length\<close>)
  have c2: "confined (16 * ?e) (16 * ?E) m1 m2" unfolding m2_def
    by (rule confined_set [OF confined_refl]) (use E assms(1,2) in auto)
  have c3: "confined (16 * (?E + 255)) (16 * (?E + 256)) m2 m3"
    using mcb_setup_ok(1) [of "env + 0x100"] by (simp add: m3_def up add.commute)
  have c4: "confined (16 * (?E + 256)) (16 * (?E + 256) + 256) m3 m'"
    using psp_setup_confined [of "env + 0x100"] by (simp add: m' up)
  show "confined (16 * ?e) (16 * (?E + 0x110)) m m'"
    unfolding hi_def [symmetric]
    by (intro confined_trans [OF confined_mono [OF c0] confined_trans [OF confined_mono [OF c1] confined_trans
          [OF confined_mono [OF c2] confined_trans [OF confined_mono [OF c3] confined_mono [OF c4]]]]])
      (use hi in auto)
  have "mcb_is m0 ?e MCB_M (256, env + 0x100)" using mcb_setup_ok(2) [OF assms(1), of "env + 0x100" "0x100"] by (simp add: m0_def)
  moreover have "16 * ?e + 5 \<le> 16 * ?E" using assms(1) by linarith
  ultimately have "mcb_is m1 ?e MCB_M (256, env + 0x100)" using mcb_is_confined [OF c1 _ E(1)] by simp
  then have "mcb_is m2 ?e MCB_M (255, env + 0x100)" using E by (simp add: m2_def mcb_is_def)
  moreover have "16 * ?e + 5 \<le> 16 * (?E + 255)" by presburger
  moreover have "16 * ?e + 5 \<le> 16 * (?E + 256)" by presburger
  ultimately have b1: "mcb_is m' ?e MCB_M (255, env + 0x100)"
    using mcb_is_confined [OF c3 _ E(1)] mcb_is_confined [OF c4 _ E(1)] by blast
  have "mcb_is m3 (?E + 255) MCB_Z (A - 257, env + 0x100)"
    using mcb_setup_ok(2) [of "env + 0x100" "env + 0x100" "atop - (env + 0x100) - 1" MCB_Z m2]
    by (simp only: m3_def [symmetric] up psz) (simp add: add.commute)
  then have b2: "mcb_is m' (?E + 255) MCB_Z (A - 257, env + 0x100)"
    using mcb_is_confined [OF c4 _ E(2)] by simp
  show "mchain m' ?e [(255, env + 0x100), (A - 257, env + 0x100)] (?E + A - 1)"
    using b1 b2 assms(1,3) by (simp add: numeral_eq_Suc [of "num.Bit1 num.One"])
qed

lemma mchain_confined:
  assumes "mchain m s bs e" "confined lo hi m m'" "\<forall>h \<in> heads s bs. 16 * h + 5 \<le> lo \<or> hi \<le> 16 * h" "e < 131072"
  shows "mchain m' s bs e"
  using assms
proof (induction m s bs e rule: mchain.induct)
  case (2 m s b e)
  then have "s < 131072" by auto
  then show ?case using 2 mcb_is_confined [OF 2(2)] by auto
next
  case (3 m s b c bs e)
  have "s < 131072" using mchain_less [OF 3(2)] 3(5) by linarith
  then have "mcb_is m' s MCB_M b" using 3 mcb_is_confined [OF 3(3)] by auto
  moreover have "mchain m' (s + 1 + fst b) (c # bs) e" using 3 by fastforce
  ultimately show ?case by simp
qed simp


text \<open>A disk whose only file \<open>AB.T\<close> is an EXE: a 32-byte header with one relocation entry, and an image of 8 bytes.\<close>

definition exe_bytes :: "u8 list" where
  "exe_bytes = [0x4D, 0x5A, 40, 0, 1, 0, 1, 0, 2, 0, 0, 0, 0xFF, 0xFF, 0, 0, 0x80, 0, 0, 0, 4, 0, 0, 0, 28, 0, 0, 0, 2, 0, 0, 0,
     1, 2, 3, 4, 5, 6, 7, 8]"

definition example_exe :: fat_state where
  "example_exe = example_fat12\<lparr>handles := replicate 32 zero_file,
     dsk := \<lparr>sectors = \<lambda>d a. if a = 64 then [0, 0, 0, 0xFF, 0x0F] @ replicate 507 0
         else if a = 68 then [0x41, 0x42, SPC, SPC, SPC, SPC, SPC, SPC, 0x54, SPC, SPC, 0x20] @ replicate 14 0 @ [2, 0, 40, 0, 0, 0] @ replicate 480 0
         else if a = 69 then exe_bytes @ replicate 472 0 else replicate 512 0,
       rd_err = \<lambda>d a. False, wr_err = \<lambda>d a. False\<rparr>\<rparr>"

abbreviation "exe_name \<equiv> [0x41, 0x42, 0x2E, 0x54]"

lemma example_exe_header:
  "map_option (\<lambda>(h, fd, f2). (fd, length (handles f2), header_size h \<le> mz_file_size h, 0 < pages h,
     exe_relocs h fd 0x1110 [0, 0, 0, 0] f2)) (exe_header (replicate 28 0) exe_name example_exe) =
   Some (0, 32, True, True, [0x11102])"
  by code_simp

lemma example_exe_load:
  "map_option (\<lambda>(r, f, m). (map_option entry_ip r, m 0x11102, m 0x11103))
     (exe_load (replicate 28 0) [0, 0, 0, 0] exe_name [] 0x1000 0x3000 example_exe (\<lambda>_. 0)) =
   Some (Some 4, 0x13, 0x15)"
  by code_simp


text \<open>
  A header that states more header paragraphs than the file has makes the image size wrap, and the wrapped size
  passes the test that the image fits into the arena.
\<close>

lemma exe_fit_check_wraps:
  assumes "mz_file_size hdr < header_size hdr" "unat (header_size hdr - mz_file_size hdr) \<le> 16 * unat ls" "unat ls \<le> unat atop"
  shows "\<not> ucast (ls :: u16) * 16 + image_size hdr > (ucast (atop :: u16) * 16 :: u32)"
    "unat (image_size hdr) = 4294967296 - unat (header_size hdr - mz_file_size hdr)"
proof -
  have d: "image_size hdr = - (header_size hdr - mz_file_size hdr)" by (simp add: image_size_def)
  define w where "w = header_size hdr - mz_file_size hdr"
  have w: "0 < unat w" using assms(1) by (auto simp: unat_gt_0 w_def)
  have "(unat (- w) + unat w) mod 4294967296 = 0" using unat_word_ariths(1) [of "- w" w] by simp
  then obtain k where k: "unat (- w) + unat w = 4294967296 * k" by (auto simp: mod_eq_0_iff_dvd elim: dvdE)
  moreover have "unat (- w) < 4294967296" "unat w < 4294967296" by simp_all
  ultimately have "k = 1" using w by (cases k; cases "k - 1") (linarith | simp)+
  with k show "unat (image_size hdr) = 4294967296 - unat (header_size hdr - mz_file_size hdr)"
    unfolding d w_def [symmetric] by linarith
  have "ucast ls * 16 + image_size hdr = ucast ls * 16 - (header_size hdr - mz_file_size hdr)" by (simp add: d)
  moreover have "unat (ucast ls * 16 - (header_size hdr - mz_file_size hdr) :: u32) \<le> unat ls * 16"
    using assms(2) unat_seg16 [of ls] by (simp add: unat_sub word_le_nat_alt)
  ultimately have "unat (ucast ls * 16 + image_size hdr) \<le> unat ls * 16" by metis
  then show "\<not> ucast ls * 16 + image_size hdr > (ucast atop * 16 :: u32)"
    unfolding word_less_nat_alt unat_seg16 using assms(3) by linarith
qed
end
