(* ===== verification/Dos.thy ===== *)
theory Dos
  imports Loader Timers
begin

text \<open>
  INT 21h, src/src/kernel/dos.c: console, files, directories, searches, memory, program execution and the small
  services. A call gets the task's registers and returns a result code, the registers and the
  state, or \<open>None\<close> when it never returns (waiting for a key that does not come, or a damaged MCB or FAT chain). The files
  are those of \<open>Fat_File\<close> and \<open>Fat_Dir\<close>, reached through the task's handle map; the memory is the byte
  memory of \<open>Mcb\<close>. The three console hooks, which the source keeps as function pointers behind a
  routing step, and the CMOS chip are the fields of \<open>dos_env\<close>; \<open>junk\<close> and \<open>junk_find\<close> are the earlier
  contents of local buffers where the source reads more of them than was written. Trace output is left out.
\<close>

section \<open>Registers and state\<close>

record dos_regs =
  r_eax :: u32
  r_ebx :: u32
  r_ecx :: u32
  r_edx :: u32
  r_esi :: u32
  r_edi :: u32
  r_ebp :: u32
  r_ds :: u32
  r_es :: u32
  r_eflags :: u32
  r_cs :: u32
  r_eip :: u32
  r_ss :: u32
  r_esp :: u32

record exec_save =
  p_active :: bool
  p_regs :: dos_regs
  p_psp_seg :: u16
  p_dta_seg :: u32
  p_dta_off :: u32
  p_next_alloc_seg :: u16

record exec_entry =
  c_cs :: u16
  c_ip :: u16
  c_ss :: u16
  c_sp :: u16
  c_ds :: u16
  c_es :: u16
  c_is_exe :: bool

record dos_state =
  kern :: kernel
  lin :: mem8
  parent :: "nat \<Rightarrow> exec_save"
  child :: "nat \<Rightarrow> exec_entry"
  rtc_cmos :: cmos

record dos_env =
  con_putc :: "nat \<Rightarrow> u8 \<Rightarrow> dos_state \<Rightarrow> dos_state"
  con_getc :: "nat \<Rightarrow> dos_state \<Rightarrow> (u8 \<times> dos_state) option"
  con_kbhit :: "nat \<Rightarrow> dos_state \<Rightarrow> bool"
  rtc_dev :: cmos_dev
  junk :: "u8 list"
  junk_find :: fat_find

datatype dos_result = DOS_RESULT_NORMAL | DOS_RESULT_EXEC | DOS_RESULT_CHILD_EXIT

type_synonym dos_return = "(dos_result \<times> dos_regs \<times> dos_state) option"

definition ret :: "dos_regs \<Rightarrow> dos_state \<Rightarrow> dos_return" where
  "ret r s = Some (DOS_RESULT_NORMAL, r, s)"

definition set_cf :: "dos_regs \<Rightarrow> dos_regs" where "set_cf r = r\<lparr>r_eflags := r_eflags r OR 1\<rparr>"
definition clear_cf :: "dos_regs \<Rightarrow> dos_regs" where "clear_cf r = r\<lparr>r_eflags := r_eflags r AND NOT 1\<rparr>"

text \<open>Replacing the low word or the low byte of a register.\<close>

definition low16 :: "u32 \<Rightarrow> u16 \<Rightarrow> u32" where "low16 w v = (w AND 0xFFFF0000) OR ucast v"
definition low8 :: "u32 \<Rightarrow> u8 \<Rightarrow> u32" where "low8 w v = (w AND 0xFFFFFF00) OR ucast v"
definition ax :: "u16 \<Rightarrow> dos_regs \<Rightarrow> dos_regs" where "ax v r = r\<lparr>r_eax := low16 (r_eax r) v\<rparr>"
definition bx :: "u16 \<Rightarrow> dos_regs \<Rightarrow> dos_regs" where "bx v r = r\<lparr>r_ebx := low16 (r_ebx r) v\<rparr>"
definition cx :: "u16 \<Rightarrow> dos_regs \<Rightarrow> dos_regs" where "cx v r = r\<lparr>r_ecx := low16 (r_ecx r) v\<rparr>"
definition dx :: "u16 \<Rightarrow> dos_regs \<Rightarrow> dos_regs" where "dx v r = r\<lparr>r_edx := low16 (r_edx r) v\<rparr>"
definition set_al :: "u8 \<Rightarrow> dos_regs \<Rightarrow> dos_regs" where "set_al v r = r\<lparr>r_eax := low8 (r_eax r) v\<rparr>"
definition al :: "dos_regs \<Rightarrow> u8" where "al r = ucast (r_eax r)"

definition v86_ptr :: "u32 \<Rightarrow> u32 \<Rightarrow> u32" where
  "v86_ptr sg o16 = push_bit 4 (ucast (ucast sg :: u16)) + ucast (ucast o16 :: u16)"

definition mem_bytes :: "mem8 \<Rightarrow> u32 \<Rightarrow> nat \<Rightarrow> u8 list" where
  "mem_bytes m a n = map (\<lambda>i. m (a + of_nat i)) [0..<n]"

definition v86_read_asciiz :: "u32 \<Rightarrow> nat \<Rightarrow> mem8 \<Rightarrow> cstr" where
  "v86_read_asciiz a mx m = takeWhile (\<lambda>c. c \<noteq> 0) (mem_bytes m a (mx - 1))"

definition wr32 :: "u32 \<Rightarrow> u32 \<Rightarrow> mem8 \<Rightarrow> mem8" where
  "wr32 a v m = wr16 (a + 2) (ucast (drop_bit 16 v)) (wr16 a (ucast v) m)"

definition rd32 :: "mem8 \<Rightarrow> u32 \<Rightarrow> u32" where
  "rd32 m a = ucast (rd16 m a) OR push_bit 16 (ucast (rd16 m (a + 2)))"

definition dtask :: "nat \<Rightarrow> dos_state \<Rightarrow> dos_task" where "dtask t s = dos_tasks (kern s) ! t"

definition upd_dtask :: "nat \<Rightarrow> (dos_task \<Rightarrow> dos_task) \<Rightarrow> dos_state \<Rightarrow> dos_state" where
  "upd_dtask t g s = s\<lparr>kern := (kern s)\<lparr>dos_tasks := (dos_tasks (kern s))[t := g (dtask t s)]\<rparr>\<rparr>"

definition dfat :: "dos_state \<Rightarrow> fat_state" where "dfat s = fat (kern s)"
definition put_fat :: "fat_state \<Rightarrow> dos_state \<Rightarrow> dos_state" where "put_fat f s = s\<lparr>kern := (kern s)\<lparr>fat := f\<rparr>\<rparr>"
definition put_lin :: "mem8 \<Rightarrow> dos_state \<Rightarrow> dos_state" where "put_lin m s = s\<lparr>lin := m\<rparr>"

definition dos_get_psp :: "int \<Rightarrow> kernel \<Rightarrow> u16" where
  "dos_get_psp t k = (if t < 0 \<or> t \<ge> int DOS_MAX_TASKS then 0 else if \<not> d_active (dos_tasks k ! nat t) then 0 else ucast (psp_seg (dos_tasks k ! nat t)))"

definition dos_set_psp :: "int \<Rightarrow> u16 \<Rightarrow> kernel \<Rightarrow> kernel" where
  "dos_set_psp t psp k =
     (if t < 0 \<or> t \<ge> int DOS_MAX_TASKS then k
      else k\<lparr>dos_tasks := (dos_tasks k)[nat t := (dos_tasks k ! nat t)\<lparr>psp_seg := ucast psp, dta_seg := ucast psp, dta_off := 0x80,
        next_alloc_seg := psp + 0x1000\<rparr>]\<rparr>)"

section \<open>File handles\<close>

definition dos_to_fat_handle :: "u8 list \<Rightarrow> int \<Rightarrow> int" where
  "dos_to_fat_handle hm h =
     (if h < 0 \<or> h \<ge> int DOS_MAX_HANDLES then -1 else if hm ! nat h = 0xFF then -1 else uint (hm ! nat h))"

definition alloc_dos_handle :: "u8 list \<Rightarrow> int \<Rightarrow> int \<times> u8 list" where
  "alloc_dos_handle hm fat_handle =
     (case find (\<lambda>i. hm ! i = 0xFF) [5..<DOS_MAX_HANDLES] of
        None \<Rightarrow> (-1, hm)
      | Some i \<Rightarrow> (int i, hm[i := of_int fat_handle]))"

section \<open>Console\<close>

text \<open>Function 09h: a string up to \<open>'$'\<close>, at most 4096 characters.\<close>

fun dollar_out :: "dos_env \<Rightarrow> nat \<Rightarrow> u32 \<Rightarrow> nat \<Rightarrow> dos_state \<Rightarrow> dos_state" where
  "dollar_out env t a 0 s = s"
| "dollar_out env t a (Suc n) s = (if lin s a = 0x24 then s else dollar_out env t (a + 1) n (con_putc env t (lin s a) s))"

text \<open>Function 0Ah: the line editor; \<open>a\<close> is the buffer, \<open>cnt\<close> the characters so far.\<close>

partial_function (option) line_input :: "dos_env \<Rightarrow> nat \<Rightarrow> u32 \<Rightarrow> u8 \<Rightarrow> u8 \<Rightarrow> dos_state \<Rightarrow> (u8 \<times> dos_state) option" where
  "line_input env t a max_len cnt s =
     (if \<not> uint cnt < uint max_len - 1 then Some (cnt, s)
      else case con_getc env t s of
        None \<Rightarrow> None
      | Some (c, s1) \<Rightarrow>
          if c = 0x0D \<or> c = 0x0A then Some (cnt, con_putc env t 0x0A (con_putc env t 0x0D s1))
          else if c = 8 \<and> cnt > 0 then
            line_input env t a max_len (cnt - 1) (con_putc env t 8 (con_putc env t 0x20 (con_putc env t 8 s1)))
          else line_input env t a max_len (cnt + 1)
                 (con_putc env t c (put_lin ((lin s1)(a + 2 + ucast cnt := c)) s1)))"

definition int21_console :: "dos_env \<Rightarrow> nat \<Rightarrow> u8 \<Rightarrow> dos_regs \<Rightarrow> dos_state \<Rightarrow> dos_return" where
  "int21_console env t ah r s =
     (if ah = 0x01 then (case con_getc env t s of None \<Rightarrow> None | Some (c, s1) \<Rightarrow> ret (set_al c r) (con_putc env t c s1))
      else if ah = 0x07 \<or> ah = 0x08 then (case con_getc env t s of None \<Rightarrow> None | Some (c, s1) \<Rightarrow> ret (set_al c r) s1)
      else if ah = 0x02 then ret r (con_putc env t (ucast (r_edx r)) s)
      else if ah = 0x06 then
        (if (ucast (r_edx r) :: u8) = 0xFF then
           (if con_kbhit env t s
            then (case con_getc env t s of None \<Rightarrow> None
                  | Some (c, s1) \<Rightarrow> ret ((set_al c r)\<lparr>r_eflags := r_eflags r AND NOT 0x40\<rparr>) s1)
            else ret ((set_al 0 r)\<lparr>r_eflags := r_eflags r OR 0x40\<rparr>) s)
         else ret r (con_putc env t (ucast (r_edx r)) s))
      else if ah = 0x09 then ret r (dollar_out env t (v86_ptr (r_ds r) (r_edx r)) 4096 s)
      else if ah = 0x0A then
        (let a = v86_ptr (r_ds r) (r_edx r)
         in case line_input env t a (lin s a) 0 s of
              None \<Rightarrow> None
            | Some (cnt, s1) \<Rightarrow> ret r (put_lin ((lin s1)(a + 2 + ucast cnt := 0x0D, a + 1 := cnt)) s1))
      else ret (set_al (if con_kbhit env t s then 0xFF else 0) r) s)"

section \<open>Files\<close>

definition dos_open_with :: "nat \<Rightarrow> cstr \<Rightarrow> u8 \<Rightarrow> u16 \<Rightarrow> dos_regs \<Rightarrow> dos_state \<Rightarrow> dos_return" where
  "dos_open_with t path mode err r s =
     (case fat_open path mode (dfat s) of
        None \<Rightarrow> None
      | Some (h, f1) \<Rightarrow>
          let s1 = put_fat f1 s
          in if h < 0 then ret (ax err (set_cf r)) s1
             else case alloc_dos_handle (handle_map (dtask t s1)) h of (d, hm) \<Rightarrow>
               if d < 0 then ret (set_cf r) (put_fat (snd (fat_close h f1)) s1)
               else ret (ax (of_int d) (clear_cf r)) (upd_dtask t (\<lambda>k. k\<lparr>handle_map := hm\<rparr>) s1))"

definition int21_3C :: "nat \<Rightarrow> dos_regs \<Rightarrow> dos_state \<Rightarrow> dos_return" where
  "int21_3C t r s = dos_open_with t (v86_read_asciiz (v86_ptr (r_ds r) (r_edx r)) 128 (lin s)) 1 0x03 r s"

definition int21_3D :: "nat \<Rightarrow> dos_regs \<Rightarrow> dos_state \<Rightarrow> dos_return" where
  "int21_3D t r s =
     dos_open_with t (v86_read_asciiz (v86_ptr (r_ds r) (r_edx r)) 128 (lin s)) (ucast (r_eax r AND 3)) 0x02 r s"

text \<open>The handle in BX and the FAT handle it stands for.\<close>

definition bx_handle :: "dos_regs \<Rightarrow> int" where "bx_handle r = uint (ucast (r_ebx r) :: u16)"

definition int21_3E :: "nat \<Rightarrow> dos_regs \<Rightarrow> dos_state \<Rightarrow> dos_return" where
  "int21_3E t r s =
     (let h = bx_handle r; fh = dos_to_fat_handle (handle_map (dtask t s)) h
      in if fh < 0 then ret (ax 0x06 (set_cf r)) s
         else ret (clear_cf r) (upd_dtask t (\<lambda>k. k\<lparr>handle_map := (handle_map k)[nat h := 0xFF]\<rparr>)
                (put_fat (snd (fat_close fh (dfat s))) s)))"

text \<open>Reading the console through handle 0: \<open>n\<close> characters are still wanted, \<open>i\<close> are stored.\<close>

fun stdin_read :: "dos_env \<Rightarrow> nat \<Rightarrow> u32 \<Rightarrow> nat \<Rightarrow> u16 \<Rightarrow> dos_state \<Rightarrow> (u16 \<times> dos_state) option" where
  "stdin_read env t a 0 i s = Some (i, s)"
| "stdin_read env t a (Suc n) i s =
     (case con_getc env t s of
        None \<Rightarrow> None
      | Some (c, s1) \<Rightarrow>
          let s2 = put_lin ((lin s1)(a + ucast i := c)) s1
          in if c = 0x0D then
               (if n > 0 then Some (i + 2, put_lin ((lin s2)(a + ucast (i + 1) := 0x0A)) s2) else Some (i + 1, s2))
             else stdin_read env t a n (i + 1) (con_putc env t c s2))"

definition int21_3F :: "dos_env \<Rightarrow> nat \<Rightarrow> dos_regs \<Rightarrow> dos_state \<Rightarrow> dos_return" where
  "int21_3F env t r s =
     (let h = bx_handle r; cnt = ucast (r_ecx r) :: u16; a = v86_ptr (r_ds r) (r_edx r)
      in if h = 0 then (case stdin_read env t a (unat cnt) 0 s of None \<Rightarrow> None | Some (i, s1) \<Rightarrow> ret (clear_cf (ax i r)) s1)
         else let fh = dos_to_fat_handle (handle_map (dtask t s)) h
              in if fh < 0 then ret (ax 0x06 (set_cf r)) s
                 else case fat_read fh (ucast cnt) (dfat s) of (n, bs, f1) \<Rightarrow>
                   let s1 = put_lin (put_bytes a bs (lin s)) (put_fat f1 s)
                   in if n < 0 then ret (ax 0x05 (set_cf r)) s1
                      else ret (ax (of_int n) (clear_cf r)) s1)"

fun console_out :: "dos_env \<Rightarrow> nat \<Rightarrow> u32 \<Rightarrow> nat \<Rightarrow> dos_state \<Rightarrow> dos_state" where
  "console_out env t a 0 s = s"
| "console_out env t a (Suc n) s = console_out env t (a + 1) n (con_putc env t (lin s a) s)"

definition int21_40 :: "dos_env \<Rightarrow> nat \<Rightarrow> dos_regs \<Rightarrow> dos_state \<Rightarrow> dos_return" where
  "int21_40 env t r s =
     (let h = bx_handle r; cnt = ucast (r_ecx r) :: u16; a = v86_ptr (r_ds r) (r_edx r)
      in if h = 1 \<or> h = 2 then ret (clear_cf (ax cnt r)) (console_out env t a (unat cnt) s)
         else let fh = dos_to_fat_handle (handle_map (dtask t s)) h
              in if fh < 0 then ret (ax 0x06 (set_cf r)) s
                 else case fat_write fh (mem_bytes (lin s) a (unat cnt)) (dfat s) of (n, f1) \<Rightarrow>
                   if n < 0 then ret (ax 0x05 (set_cf r)) (put_fat f1 s)
                   else ret (ax (of_int n) (clear_cf r)) (put_fat f1 s))"

definition int21_42 :: "nat \<Rightarrow> dos_regs \<Rightarrow> dos_state \<Rightarrow> dos_return" where
  "int21_42 t r s =
     (let fh = dos_to_fat_handle (handle_map (dtask t s)) (bx_handle r);
          ofs = push_bit 16 (ucast (ucast (r_ecx r) :: u16)) OR (r_edx r AND 0xFFFF);
          new_pos = (if al r = 2 then fat_get_size fh (dfat s) + ofs
                     else if al r = 1 then fat_get_position fh (dfat s) + ofs else ofs)
      in if fh < 0 then ret (ax 0x06 (set_cf r)) s
         else ret (clear_cf (ax (ucast new_pos) (dx (ucast (drop_bit 16 new_pos)) r)))
                (put_fat (snd (fat_seek fh new_pos (dfat s))) s))"

definition int21_43 :: "dos_regs \<Rightarrow> dos_state \<Rightarrow> dos_return" where
  "int21_43 r s =
     (if al r = 0 then
        (case fat_open (v86_read_asciiz (v86_ptr (r_ds r) (r_edx r)) 128 (lin s)) 0 (dfat s) of
           None \<Rightarrow> None
         | Some (fd, f1) \<Rightarrow>
             if fd \<ge> 0 then ret (clear_cf (cx (ucast FAT_ATTR_ARCHIVE) r)) (put_fat (snd (fat_close fd f1)) s)
             else ret (ax 0x02 (set_cf r)) (put_fat f1 s))
      else ret (clear_cf r) s)"

text \<open>The calls that pass a path to the FAT layer and report its verdict.\<close>

definition dos_path_call :: "(cstr \<Rightarrow> fat_state \<Rightarrow> (int \<times> fat_state) option) \<Rightarrow> u16 \<Rightarrow> dos_regs \<Rightarrow> dos_state \<Rightarrow> dos_return" where
  "dos_path_call op err r s =
     (case op (v86_read_asciiz (v86_ptr (r_ds r) (r_edx r)) 128 (lin s)) (dfat s) of
        None \<Rightarrow> None
      | Some (x, f1) \<Rightarrow> if x < 0 then ret (ax err (set_cf r)) (put_fat f1 s) else ret (clear_cf r) (put_fat f1 s))"

definition int21_56 :: "dos_regs \<Rightarrow> dos_state \<Rightarrow> dos_return" where
  "int21_56 r s =
     (case fat_rename (v86_read_asciiz (v86_ptr (r_ds r) (r_edx r)) 128 (lin s))
             (v86_read_asciiz (v86_ptr (r_es r) (r_edi r)) 128 (lin s)) (dfat s) of
        None \<Rightarrow> None
      | Some (x, f1) \<Rightarrow> if x < 0 then ret (ax 0x02 (set_cf r)) (put_fat f1 s) else ret (clear_cf r) (put_fat f1 s))"

definition int21_47 :: "dos_env \<Rightarrow> dos_regs \<Rightarrow> dos_state \<Rightarrow> dos_return" where
  "int21_47 env r s =
     (let cwd = (case fat_getcwd 128 (dfat s) of (x, p) \<Rightarrow> if x < 0 then takeWhile (\<lambda>c. c \<noteq> 0) (junk env) else p);
          src = (if cch cwd 0 = 0x2F \<or> cch cwd 0 = 0x5C then tl cwd else cwd)
      in ret (clear_cf r) (put_lin (put_bytes (v86_ptr (r_ds r) (r_esi r)) (take 63 src @ [0]) (lin s)) s))"

definition int21_57 :: "nat \<Rightarrow> dos_regs \<Rightarrow> dos_state \<Rightarrow> dos_return" where
  "int21_57 t r s =
     (if al r = 0 then
        (let fh = dos_to_fat_handle (handle_map (dtask t s)) (bx_handle r)
         in if fh \<ge> 0 then (case fat_get_datetime fh (dfat s) of ((tm, dt), f1) \<Rightarrow>
              ret (clear_cf (dx (ucast dt) (cx (ucast tm) r))) (put_fat f1 s))
            else ret (clear_cf (dx 0 (cx 0 r))) s)
      else if al r = 1 then ret (clear_cf r) s
      else ret (ax 0x01 (set_cf r)) s)"


section \<open>Searches\<close>

text \<open>The part of a search pattern behind the last separator, or else behind a drive letter.\<close>

definition file_part :: "cstr \<Rightarrow> cstr" where
  "file_part p =
     (let tail = rev (takeWhile (\<lambda>c. c \<noteq> 0x5C \<and> c \<noteq> 0x2F) (rev p))
      in if length tail = length p \<and> cch p 1 = 0x3A then drop 2 p else tail)"

definition dta_result :: "u32 \<Rightarrow> fat_find \<Rightarrow> mem8 \<Rightarrow> mem8" where
  "dta_result a ff m =
     put_bytes (a + 0x1E) (take 12 (ff_name ff) @ [0]) (wr32 (a + 0x1A) (ff_size ff) (wr16 (a + 0x18) (ucast (ff_date ff))
       (wr16 (a + 0x16) (ucast (ff_time ff)) (m(a + 0x15 := ff_attr ff)))))"

definition int21_4E :: "dos_env \<Rightarrow> nat \<Rightarrow> dos_regs \<Rightarrow> dos_state \<Rightarrow> dos_return" where
  "int21_4E env t r s =
     (let a = v86_ptr (dta_seg (dtask t s)) (dta_off (dtask t s));
          filepart = file_part (v86_read_asciiz (v86_ptr (r_ds r) (r_edx r)) 128 (lin s))
      in if (ucast (r_ecx r) :: u16) = 0x08 then ret (ax 0x12 (set_cf r)) s
         else case fat_find_first filepart (junk_find env) (dfat s) of
           None \<Rightarrow> None
         | Some (x, ff, f1) \<Rightarrow>
             if x = 0 then
               let m1 = wr32 (a + 4) (ff_dir_index ff) (wr32 a (ff_dir_cluster ff) (lin s));
                   m2 = put_bytes (a + 9) (take 12 filepart @ [0]) (m1(a + 8 := of_nat (ff_drive ff)))
               in ret (clear_cf r) (put_lin (dta_result a ff m2) (put_fat f1 s))
             else ret (ax 0x12 (set_cf r)) (put_fat f1 s))"

text \<open>Function 4Fh takes up the search from the DTA; it reads back eleven characters of the pattern.\<close>

definition dta_pattern :: "u32 \<Rightarrow> mem8 \<Rightarrow> cstr" where
  "dta_pattern a m = takeWhile (\<lambda>c. c \<noteq> 0) (mem_bytes m (a + 9) 11)"

definition int21_4F :: "dos_env \<Rightarrow> nat \<Rightarrow> dos_regs \<Rightarrow> dos_state \<Rightarrow> dos_return" where
  "int21_4F env t r s =
     (let a = v86_ptr (dta_seg (dtask t s)) (dta_off (dtask t s));
          ff = (junk_find env)\<lparr>ff_dir_cluster := rd32 (lin s) a, ff_dir_index := rd32 (lin s) (a + 4),
                 ff_drive := unat (lin s (a + 8)), ff_pattern := dta_pattern a (lin s)\<rparr>
      in case fat_find_next ff (dfat s) of
           None \<Rightarrow> None
         | Some (x, ff1, f1) \<Rightarrow>
             if x = 0 then ret (clear_cf r) (put_lin (dta_result a ff1 (wr32 (a + 4) (ff_dir_index ff1) (lin s))) (put_fat f1 s))
             else ret (ax 0x12 (set_cf r)) (put_fat f1 s))"

section \<open>File names for FCBs\<close>

partial_function (option) skip_while :: "(u8 \<Rightarrow> bool) \<Rightarrow> mem8 \<Rightarrow> u32 \<Rightarrow> nat \<Rightarrow> nat option" where
  "skip_while P m a si = (if P (m (a + of_nat si)) then skip_while P m a (si + 1) else Some si)"

text \<open>
  One field of the name: \<open>n\<close> places are left from place \<open>k\<close> on, \<open>stop\<close> are the characters that end it; the
  results are the source offset, whether there was a wildcard, and the memory.
\<close>

fun fcb_field :: "(u8 \<Rightarrow> bool) \<Rightarrow> u32 \<Rightarrow> u32 \<Rightarrow> nat \<Rightarrow> nat \<Rightarrow> nat \<Rightarrow> bool \<Rightarrow> mem8 \<Rightarrow> nat \<times> bool \<times> mem8" where
  "fcb_field stop src fcb 0 k si wild m = (si, wild, m)"
| "fcb_field stop src fcb (Suc n) k si wild m =
     (let c0 = m (src + of_nat si); c = upcase c0
      in if stop c0 then (si, wild, m)
         else if c = 0x2A then (si + 1, True, put_bytes (fcb + of_nat k) (replicate (Suc n) 0x3F) m)
         else fcb_field stop src fcb n (k + 1) (si + 1) (wild \<or> c = 0x3F) (m(fcb + of_nat k := c)))"

definition name_stop :: "u8 \<Rightarrow> bool" where
  "name_stop c \<longleftrightarrow> c = 0 \<or> c = 0x2E \<or> c = 0x20 \<or> c = 0x2F \<or> c = 0x5C"

definition ext_stop :: "u8 \<Rightarrow> bool" where
  "ext_stop c \<longleftrightarrow> c = 0 \<or> c = 0x20 \<or> c = 0x2F \<or> c = 0x5C"

definition int21_29 :: "dos_regs \<Rightarrow> dos_state \<Rightarrow> dos_return" where
  "int21_29 r s =
     (let src = v86_ptr (r_ds r) (r_esi r); fcb = v86_ptr (r_es r) (r_edi r); m = lin s
      in case skip_while (\<lambda>c. c = 0x20 \<or> c = 9) m src 0 of None \<Rightarrow> None | Some si0 \<Rightarrow>
        let d = upcase (m (src + of_nat si0));
            drv = m (src + of_nat si0) \<noteq> 0 \<and> m (src + of_nat si0 + 1) = 0x3A \<and> 0x41 \<le> d \<and> d \<le> 0x5A;
            m1 = m(fcb := (if drv then d - 0x41 + 1 else 0));
            si1 = (if drv then si0 + 2 else si0);
            m2 = put_bytes (fcb + 1) (replicate 11 0x20) m1
        in case fcb_field name_stop src fcb 8 1 si1 False m2 of (si2, w2, m3) \<Rightarrow>
          case skip_while (\<lambda>c. \<not> name_stop c) m3 src si2 of None \<Rightarrow> None | Some si3 \<Rightarrow>
            case (if m3 (src + of_nat si3) = 0x2E then fcb_field ext_stop src fcb 3 9 (si3 + 1) w2 m3 else (si3, w2, m3)) of (si4, w4, m4) \<Rightarrow>
              ret (set_al (if w4 then 1 else 0) (r\<lparr>r_esi := low16 (r_esi r) (ucast (r_esi r + of_nat si4))\<rparr>)) (put_lin m4 s))"

section \<open>Memory\<close>

definition int21_48 :: "nat \<Rightarrow> dos_regs \<Rightarrow> dos_state \<Rightarrow> dos_return" where
  "int21_48 t r s =
     (case mcb_alloc_48 (ucast (psp_seg (dtask t s))) (ucast (r_ebx r)) (v86_current_mcb_root (kern s)) 0 (lin s) of
        None \<Rightarrow> None
      | Some (None, largest, m) \<Rightarrow> ret (bx largest (ax 0x08 (set_cf r))) (put_lin m s)
      | Some (Some ms, _, m) \<Rightarrow> ret (clear_cf (r\<lparr>r_eax := (r_eax r AND 0xFFFF0000) OR (ucast ms + 1)\<rparr>)) (put_lin m s))"

definition int21_49 :: "dos_regs \<Rightarrow> dos_state \<Rightarrow> dos_return" where
  "int21_49 r s =
     (case mcb_free_49 (ucast (r_es r)) (lin s) of
        None \<Rightarrow> ret (ax 0x09 (set_cf r)) s
      | Some m \<Rightarrow> ret (clear_cf r) (put_lin m s))"

definition int21_4A :: "dos_regs \<Rightarrow> dos_state \<Rightarrow> dos_return" where
  "int21_4A r s =
     (case mcb_resize_4A (ucast (r_es r)) (ucast (r_ebx r)) (lin s) of
        Inr m \<Rightarrow> ret (clear_cf r) (put_lin m s)
      | Inl Bad_Block \<Rightarrow> ret (ax 0x09 (set_cf r)) s
      | Inl (No_Room sz) \<Rightarrow> ret (bx sz (ax 0x08 (set_cf r))) s)"

section \<open>Running programs\<close>

text \<open>The largest free block of the chain: its MCB segment and size.\<close>

partial_function (option) mcb_best :: "u16 \<Rightarrow> u16 \<Rightarrow> u16 \<Rightarrow> mem8 \<Rightarrow> (u16 \<times> u16) option" where
  "mcb_best ws best_seg best_size m =
     (let a = seg_adr ws;
          better = (mcb_owner m a = 0 \<and> mcb_size m a > best_size);
          bseg = (if better then ws else best_seg);
          bsz = (if better then mcb_size m a else best_size)
      in if mcb_type m a \<noteq> MCB_M then Some (bseg, bsz) else mcb_best (ws + 1 + mcb_size m a) bseg bsz m)"

definition exec_tail :: "u32 \<Rightarrow> mem8 \<Rightarrow> cstr" where
  "exec_tail ct m =
     (let len = (if m ct > 126 then 126 else m ct)
      in takeWhile (\<lambda>c. c \<noteq> 0) (dropWhile (\<lambda>c. c = 0x20) (mem_bytes m (ct + 1) (unat len))))"

definition save_parent :: "nat \<Rightarrow> dos_regs \<Rightarrow> dos_state \<Rightarrow> exec_save" where
  "save_parent t r s = \<lparr>p_active = True, p_regs = r, p_psp_seg = ucast (psp_seg (dtask t s)), p_dta_seg = dta_seg (dtask t s),
     p_dta_off = dta_off (dtask t s), p_next_alloc_seg = next_alloc_seg (dtask t s)\<rparr>"

text \<open>The environment block of the child, carved from the start of the free block.\<close>

definition exec_env :: "u16 \<Rightarrow> u16 \<Rightarrow> cstr \<Rightarrow> fat_state \<Rightarrow> mem8 \<Rightarrow> mem8" where
  "exec_env env_seg psp progname f m =
     (let a = push_bit 4 (ucast env_seg - 1)
      in set_owner a psp (set_size a (psp - 1 - env_seg) (set_type a MCB_M (env_setup env_seg progname f m))))"

definition exec_psp :: "u16 \<Rightarrow> u16 \<Rightarrow> u16 \<Rightarrow> cstr \<Rightarrow> u16 \<Rightarrow> mem8 \<Rightarrow> mem8" where
  "exec_psp psp env_seg top_seg cmdtail parent_psp m =
     wr16 (seg_adr psp + 0x16) parent_psp (psp_setup psp env_seg top_seg cmdtail m)"

definition exec_exe_paras :: "mz_header \<Rightarrow> u16 \<Rightarrow> u16" where
  "exec_exe_paras hdr block =
     (let image_paras = ucast ((image_size hdr + 15) div 16) :: u16;
          tot = image_paras + 0x10;
          more = tot + max_extra hdr
      in if max_extra hdr = 0xFFFF then block else if more > block then block else more)"

definition exec_exe_mcbs :: "u16 \<Rightarrow> u16 \<Rightarrow> u16 \<Rightarrow> u8 \<Rightarrow> mem8 \<Rightarrow> u16 \<times> mem8" where
  "exec_exe_mcbs psp tot block free_type m =
     (if tot < block \<and> block - tot > 1 then
        let m1 = mcb_setup psp psp tot MCB_M m;
            f = seg_adr (psp + tot)
        in (tot, set_size f (block - tot - 1) (set_owner f 0 (set_type f free_type m1)))
      else (block, mcb_setup psp psp block free_type m))"

definition exec_exe :: "dos_env \<Rightarrow> cstr \<Rightarrow> cstr \<Rightarrow> u16 \<Rightarrow> u16 \<Rightarrow> u16 \<Rightarrow> u8 \<Rightarrow> u16 \<Rightarrow> fat_state \<Rightarrow> mem8 \<Rightarrow> (exec_entry \<times> fat_state \<times> mem8) option" where
  "exec_exe env progname cmdtail env_seg psp block free_type parent_psp f m =
     (case fat_open progname 0 f of
        None \<Rightarrow> None
      | Some (efd, f1) \<Rightarrow>
          (case fat_read_buf efd (take 28 (junk env)) f1 of (_, hb, f2) \<Rightarrow>
           let hdr = mz_of hb;
               ls = psp + 0x10
           in case exec_exe_mcbs psp (exec_exe_paras hdr block) block free_type m of (tot, m1) \<Rightarrow>
             let m2 = exec_psp psp env_seg (psp + tot) cmdtail parent_psp m1
             in case fat_read efd (image_size hdr) (snd (fat_seek efd (header_size hdr) f2)) of (_, bs, f3) \<Rightarrow>
               let m3 = put_bytes (seg_adr ls) bs m2
               in case (if num_relocs hdr > 0
                        then apply_relocs (unat (num_relocs hdr)) efd ls (take 4 (junk env))
                               (snd (fat_seek efd (ucast (reloc_offset hdr)) f3)) m3
                        else (f3, m3)) of (f4, m4) \<Rightarrow>
                 Some (\<lparr>c_cs = init_cs hdr + ls, c_ip = init_ip hdr, c_ss = init_ss hdr + ls, c_sp = init_sp hdr,
                         c_ds = psp, c_es = psp, c_is_exe = True\<rparr>, snd (fat_close efd f4), m4)))"

definition exec_com :: "cstr \<Rightarrow> cstr \<Rightarrow> u16 \<Rightarrow> u16 \<Rightarrow> u16 \<Rightarrow> u8 \<Rightarrow> u16 \<Rightarrow> fat_state \<Rightarrow> mem8 \<Rightarrow> (exec_entry \<times> fat_state \<times> mem8) option" where
  "exec_com progname cmdtail env_seg psp block free_type parent_psp f m =
     (let m1 = exec_psp psp env_seg (psp + block) cmdtail parent_psp (mcb_setup psp psp block free_type m)
      in case fat_open progname 0 f of
           None \<Rightarrow> None
         | Some (cfd, f1) \<Rightarrow>
             (case fat_read cfd 0xFF00 f1 of (_, bs, f2) \<Rightarrow>
                Some (\<lparr>c_cs = psp, c_ip = 0x100, c_ss = psp, c_sp = 0xFFFE, c_ds = psp, c_es = psp, c_is_exe = False\<rparr>,
                  snd (fat_close cfd f2), put_bytes (seg_adr psp + 0x100) bs m1)))"

definition int21_4B :: "dos_env \<Rightarrow> nat \<Rightarrow> dos_regs \<Rightarrow> dos_state \<Rightarrow> dos_return" where
  "int21_4B env t r s =
     (let progname = v86_read_asciiz (v86_ptr (r_ds r) (r_edx r)) 128 (lin s);
          pb = v86_ptr (r_es r) (r_ebx r);
          cmdtail = exec_tail (v86_ptr (ucast (rd16 (lin s) (pb + 4))) (ucast (rd16 (lin s) (pb + 2)))) (lin s)
      in case fat_open progname 0 (dfat s) of
           None \<Rightarrow> None
         | Some (fd, f1) \<Rightarrow>
             if fd < 0 then ret (ax 0x02 (set_cf r)) (put_fat f1 s)
             else (case fat_read_buf fd (take 2 (junk env)) f1 of (_, sig, f2) \<Rightarrow>
               let f3 = snd (fat_close fd f2)
               in case mcb_best (v86_current_mcb_root (kern s)) 0 0 (lin s) of
                    None \<Rightarrow> None
                  | Some (best_seg, best_size) \<Rightarrow>
                      if best_size < 0x30 then ret (ax 0x08 (set_cf r)) (put_fat f3 s)
                      else
                        let env_seg = best_seg + 1;
                            psp = env_seg + 0x10 + 1;
                            fa = seg_adr (env_seg - 1);
                            free_type = mcb_type (lin s) fa;
                            block = mcb_size (lin s) fa - (0x10 + 1);
                            saved = save_parent t r s;
                            m1 = exec_env env_seg psp progname f3 (lin s)
                        in case (if sig ! 0 = 0x4D \<and> sig ! 1 = 0x5A
                                 then exec_exe env progname cmdtail env_seg psp block free_type (p_psp_seg saved) f3 m1
                                 else exec_com progname cmdtail env_seg psp block free_type (p_psp_seg saved) f3 m1) of
                             None \<Rightarrow> None
                           | Some (ent, f4, m2) \<Rightarrow>
                               Some (DOS_RESULT_EXEC, clear_cf r,
                                 upd_dtask t (\<lambda>k. k\<lparr>psp_seg := ucast psp, dta_seg := ucast psp, dta_off := 0x80, next_alloc_seg := psp + block\<rparr>)
                                   (put_lin m2 (put_fat f4 (s\<lparr>parent := (parent s)(t := saved), child := (child s)(t := ent)\<rparr>))))))"

definition int21_4C :: "nat \<Rightarrow> dos_regs \<Rightarrow> dos_state \<Rightarrow> dos_return" where
  "int21_4C t r s =
     (let s1 = upd_dtask t (\<lambda>k. k\<lparr>return_code := al r\<rparr>) s;
          p = parent s t
      in if \<not> p_active p then ret r s1
         else case mcb_exit (ucast (psp_seg (dtask t s))) (v86_current_mcb_root (kern s)) (lin s) of
           None \<Rightarrow> None
         | Some m \<Rightarrow>
             let q = p_regs p;
                 r1 = r\<lparr>r_eax := r_eax q, r_ebx := r_ebx q, r_ecx := r_ecx q, r_edx := r_edx q, r_esi := r_esi q, r_edi := r_edi q,
                        r_ebp := r_ebp q, r_eflags := r_eflags q\<rparr>;
                 r2 = clear_cf r1
             in Some (DOS_RESULT_CHILD_EXIT, r2\<lparr>r_eax := r_eax r2 AND 0xFFFF0000\<rparr>,
                  upd_dtask t (\<lambda>k. k\<lparr>psp_seg := ucast (p_psp_seg p), dta_seg := p_dta_seg p, dta_off := p_dta_off p,
                      next_alloc_seg := p_next_alloc_seg p\<rparr>)
                    (put_lin m (s1\<lparr>parent := (parent s1)(t := p\<lparr>p_active := False\<rparr>)\<rparr>))))"

section \<open>Small services\<close>

definition int21_36 :: "dos_regs \<Rightarrow> dos_state \<Rightarrow> dos_return" where
  "int21_36 r s =
     (let dl = ucast (r_edx r) :: u8; f = dfat s;
          drive = (if dl = 0 then int (fat_get_drive f) else uint dl - 1);
          prev = int (fat_get_drive f)
      in if \<not> fat_is_mounted drive f then ret (ax 0xFFFF r) s
         else let f1 = fat_set_drive drive f
              in case fat_count_free_clusters f1 of (free_clus, f2) \<Rightarrow>
                ret (dx (ucast (fat_get_total_clusters f1)) (cx 512 (bx (ucast free_clus) (ax (ucast (fat_get_sec_per_clus f1)) r))))
                  (put_fat (fat_set_drive prev f2) s))"

definition int21_73 :: "dos_regs \<Rightarrow> dos_state \<Rightarrow> dos_return" where
  "int21_73 r s =
     (if al r \<noteq> 3 then ret (ax 0x7300 (set_cf r)) s
      else let c = lin s (v86_ptr (r_ds r) (r_edx r)); f = dfat s;
               drive = (if 0x41 \<le> c \<and> c \<le> 0x5A then uint c - 0x41 else if 0x61 \<le> c \<and> c \<le> 0x7A then uint c - 0x61 else int (fat_get_drive f))
           in if \<not> fat_is_mounted drive f \<or> (ucast (r_ecx r) :: u16) < 0x2C then ret (ax 0x000F (set_cf r)) s
              else let prev = int (fat_get_drive f); f1 = fat_set_drive drive f
                   in case fat_count_free_clusters f1 of (free_clus, f2) \<Rightarrow>
                     let spc32 = fat_get_sec_per_clus f1; tot = fat_get_total_clusters f1;
                         a = v86_ptr (r_es r) (r_edi r);
                         m1 = wr16 a 0x2C (put_bytes a (replicate 0x2C 0) (lin s));
                         m2 = wr32 (a + 0x10) tot (wr32 (a + 0x0C) free_clus (wr32 (a + 8) 512 (wr32 (a + 4) spc32 (wr16 (a + 2) 0 m1))));
                         m3 = wr32 (a + 0x20) tot (wr32 (a + 0x1C) free_clus (wr32 (a + 0x18) 512 (wr32 (a + 0x14) spc32 m2)))
                     in ret (clear_cf r) (put_lin m3 (put_fat (fat_set_drive prev f2) s)))"

definition country_38 :: "u8 list" where
  "country_38 = [0, 0, 0x24, 0, 0, 0, 0, 0x2C, 0, 0x2E, 0, 0x2F, 0, 0x3A, 0, 0, 2, 0]"

definition country_65 :: "u8 list" where
  "country_65 = [1, 38, 0, 1, 0, 0xB5, 1, 0, 0, 0x24, 0, 0, 0, 0, 0x2C, 0, 0x2E, 0, 0x2F, 0, 0x3A, 0, 0, 2, 0] @ replicate 16 0"

definition int21_country :: "u8 \<Rightarrow> dos_regs \<Rightarrow> dos_state \<Rightarrow> dos_return" where
  "int21_country ah r s =
     (if ah = 0x38 then
        (if al r = 0 \<or> al r = 1
         then ret (clear_cf (bx 1 r)) (put_lin (put_bytes (v86_ptr (r_ds r) (r_edx r)) country_38 (lin s)) s)
         else ret (clear_cf r) s)
      else if al r = 1 \<and> (ucast (r_ecx r) :: u16) \<ge> 41
      then ret (clear_cf (cx 41 r)) (put_lin (put_bytes (v86_ptr (r_es r) (r_edi r)) country_65 (lin s)) s)
      else ret (ax 0x01 (set_cf r)) s)"

definition int21_52 :: "dos_regs \<Rightarrow> dos_state \<Rightarrow> dos_return" where
  "int21_52 r s =
     (let m1 = put_bytes 0x626 (replicate 64 0) (lin s);
          m2 = wr16 0x624 (v86_current_mcb_root (kern s)) m1;
          m3 = wr16 (0x626 + 0x18) 0x70 (wr16 (0x626 + 0x16) 0 m2)
      in ret (bx 0x26 (r\<lparr>r_es := 0x60\<rparr>)) (put_lin (m3(0x626 + 0x21 := 3)) s))"

definition int21_69 :: "dos_regs \<Rightarrow> dos_state \<Rightarrow> dos_return" where
  "int21_69 r s =
     (if al r = 0 then
        (let a = v86_ptr (r_ds r) (r_edx r);
             m1 = wr32 (a + 2) 0x12345678 (wr16 a 0 (lin s))
         in ret (clear_cf r) (put_lin (put_bytes (a + 6) (lit ''NO NAME    '' @ lit ''FAT16   '') m1) s))
      else ret (clear_cf r) s)"

definition int21_date_time :: "dos_env \<Rightarrow> u8 \<Rightarrow> dos_regs \<Rightarrow> dos_state \<Rightarrow> dos_return" where
  "int21_date_time env ah r s =
     (if ah = 0x2A then
        (case rtc_read_date (rtc_dev env) (rtc_cmos s) of None \<Rightarrow> None
         | Some ((year, month, day), c1) \<Rightarrow>
             ret (set_al 0 (dx (push_bit 8 (ucast month) OR ucast day) (cx year r))) (s\<lparr>rtc_cmos := c1\<rparr>))
      else (case rtc_read_time (rtc_dev env) (rtc_cmos s) of None \<Rightarrow> None
         | Some ((hour, minute, sec), c1) \<Rightarrow>
             ret (dx (push_bit 8 (ucast sec)) (cx (push_bit 8 (ucast hour) OR ucast minute) r)) (s\<lparr>rtc_cmos := c1\<rparr>)))"

definition int21_vectors :: "u8 \<Rightarrow> dos_regs \<Rightarrow> dos_state \<Rightarrow> dos_return" where
  "int21_vectors ah r s =
     (let ivt = ucast (al r) * 4 :: u32
      in if ah = 0x25 then ret r (put_lin (wr16 (ivt + 2) (ucast (r_ds r)) (wr16 ivt (ucast (r_edx r)) (lin s))) s)
         else ret ((bx (rd16 (lin s) ivt) r)\<lparr>r_es := ucast (rd16 (lin s) (ivt + 2))\<rparr>) s)"

text \<open>The process calls that only read or set the task's fields.\<close>

definition int21_task :: "nat \<Rightarrow> u8 \<Rightarrow> dos_regs \<Rightarrow> dos_state \<Rightarrow> dos_return" where
  "int21_task t ah r s =
     (if ah = 0x1A then ret r (upd_dtask t (\<lambda>k. k\<lparr>dta_seg := r_ds r AND 0xFFFF, dta_off := r_edx r AND 0xFFFF\<rparr>) s)
      else if ah = 0x2F then ret (r\<lparr>r_es := dta_seg (dtask t s), r_ebx := (r_ebx r AND 0xFFFF0000) OR dta_off (dtask t s)\<rparr>) s
      else if ah = 0x50 then ret r (upd_dtask t (\<lambda>k. k\<lparr>psp_seg := r_ebx r AND 0xFFFF\<rparr>) s)
      else if ah = 0x51 \<or> ah = 0x62 then ret (r\<lparr>r_ebx := (r_ebx r AND 0xFFFF0000) OR psp_seg (dtask t s)\<rparr>) s
      else ret (r\<lparr>r_eax := (r_eax r AND 0xFFFF0000) OR ucast (return_code (dtask t s))\<rparr>) s)"

definition int21_drive :: "u8 \<Rightarrow> dos_regs \<Rightarrow> dos_state \<Rightarrow> dos_return" where
  "int21_drive ah r s =
     (if ah = 0x19 then ret (set_al (of_nat (fat_get_drive (dfat s))) r) s
      else let dl = ucast (r_edx r) :: u8
           in ret (set_al 3 r) (if fat_is_mounted (uint dl) (dfat s) then put_fat (fat_set_drive (uint dl) (dfat s)) s else s))"

definition int21_misc :: "u8 \<Rightarrow> dos_regs \<Rightarrow> dos_state \<Rightarrow> dos_return" where
  "int21_misc ah r s =
     (if ah = 0x33 then
        (if al r = 0 then ret (r\<lparr>r_edx := low8 (r_edx r) 0\<rparr>) s else if al r = 6 then ret (dx 0 (bx 0x3205 r)) s else ret r s)
      else if ah = 0x34 then ret (bx 0 (r\<lparr>r_es := 0x80\<rparr>)) (put_lin ((lin s)(0x800 := 0)) s)
      else if ah = 0x30 then ret ((ax 0x0A07 r)\<lparr>r_ebx := 0, r_ecx := 0\<rparr>) s
      else if ah = 0x44 then
        (if al r = 0 then
           ret (clear_cf (dx (if bx_handle r \<le> 2 then 0xC0 OR (if bx_handle r \<le> 1 then 3 else 2) else 0) r)) s
         else ret (ax 0x01 (set_cf r)) s)
      else if ah = 0x37 then ret (clear_cf (if al r = 0 then r\<lparr>r_edx := low8 (r_edx r) 0x2F\<rparr> else r)) s
      else if ah = 0x58 then
        (if al r = 0 \<or> al r = 2 then ret (clear_cf (ax 0 r)) s else if al r = 1 \<or> al r = 3 then ret (clear_cf r) s else ret (set_cf r) s)
      else if ah = 0x26 then ret (clear_cf r) s
      else if ah = 0x0F \<or> ah = 0x16 then ret (set_al 0xFF r) s
      else if ah = 0x10 then ret (set_al 0 r) s
      else if ah = 0x14 \<or> ah = 0x15 then ret (set_al 1 r) s
      else if ah = 0x71 then ret (ax 0x7100 (set_cf r)) s
      else if ah = 0xFF \<and> (ucast (r_eax r) :: u16) = 0xFF00 \<and> (ucast (r_edx r) :: u16) = 0x78
      then ret (clear_cf (r\<lparr>r_eax := 0xFFFF3447\<rparr>)) s
      else ret (ax 0x01 (set_cf r)) s)"

section \<open>The dispatcher\<close>

text \<open>Function 0Ch flushes nothing and goes on with the input function in AL, where it is one of three.\<close>

definition int21_0C :: "dos_env \<Rightarrow> nat \<Rightarrow> dos_regs \<Rightarrow> dos_state \<Rightarrow> dos_return" where
  "int21_0C env t r s =
     (if al r = 0x01 \<or> al r = 0x06 \<or> al r = 0x0A
      then (case int21_console env t (al r) (r\<lparr>r_eax := (r_eax r AND 0xFFFF0000) OR push_bit 8 (ucast (al r)) OR ucast (al r)\<rparr>) s of
              None \<Rightarrow> None | Some (_, r1, s1) \<Rightarrow> ret r1 s1)
      else ret r s)"

definition int21_file :: "dos_env \<Rightarrow> nat \<Rightarrow> u8 \<Rightarrow> dos_regs \<Rightarrow> dos_state \<Rightarrow> dos_return" where
  "int21_file env t ah r s =
     (if ah = 0x3C then int21_3C t r s
      else if ah = 0x3D then int21_3D t r s
      else if ah = 0x3E then int21_3E t r s
      else if ah = 0x3F then int21_3F env t r s
      else if ah = 0x40 then int21_40 env t r s
      else if ah = 0x41 then dos_path_call fat_delete 0x02 r s
      else if ah = 0x42 then int21_42 t r s
      else if ah = 0x43 then int21_43 r s
      else if ah = 0x39 then dos_path_call fat_mkdir 0x03 r s
      else if ah = 0x3A then dos_path_call fat_rmdir 0x03 r s
      else if ah = 0x3B then dos_path_call fat_chdir 0x03 r s
      else if ah = 0x47 then int21_47 env r s
      else if ah = 0x4E then int21_4E env t r s
      else if ah = 0x4F then int21_4F env t r s
      else if ah = 0x56 then int21_56 r s
      else int21_57 t r s)"

definition dos_int21 :: "dos_env \<Rightarrow> int \<Rightarrow> dos_regs \<Rightarrow> dos_state \<Rightarrow> dos_return" where
  "dos_int21 env task_id r s =
     (if task_id < 0 \<or> task_id \<ge> int DOS_MAX_TASKS then ret r s
      else let t = nat task_id; ah = ucast (drop_bit 8 (r_eax r)) :: u8
      in if \<not> d_active (dtask t s) then ret r s
         else if ah \<in> set [0x01, 0x02, 0x06, 0x07, 0x08, 0x09, 0x0A, 0x0B] then int21_console env t ah r s
         else if ah = 0x0C then int21_0C env t r s
         else if ah \<in> set [0x19, 0x0E] then int21_drive ah r s
         else if ah \<in> set [0x1A, 0x2F, 0x50, 0x51, 0x62, 0x4D] then int21_task t ah r s
         else if ah \<in> set [0x2A, 0x2C] then int21_date_time env ah r s
         else if ah \<in> set [0x25, 0x35] then int21_vectors ah r s
         else if ah \<in> set [0x3C, 0x3D, 0x3E, 0x3F, 0x40, 0x41, 0x42, 0x43, 0x39, 0x3A, 0x3B, 0x47, 0x4E, 0x4F, 0x56, 0x57]
         then int21_file env t ah r s
         else if ah = 0x29 then int21_29 r s
         else if ah = 0x4B then int21_4B env t r s
         else if ah = 0x4C then int21_4C t r s
         else if ah = 0x48 then int21_48 t r s
         else if ah = 0x49 then int21_49 r s
         else if ah = 0x4A then int21_4A r s
         else if ah = 0x36 then int21_36 r s
         else if ah \<in> set [0x38, 0x65] then int21_country ah r s
         else if ah = 0x52 then int21_52 r s
         else if ah = 0x69 then int21_69 r s
         else if ah = 0x73 then int21_73 r s
         else int21_misc ah r s)"
end
