(* ===== verification/Exec.thy ===== *)
theory Exec
  imports Dos
begin

text \<open>
  Running a program with INT 21h function 4Bh and returning from it with function 4Ch: how the child's blocks are carved out of the
  largest free block of the parent's memory, and that exit undoes it.
\<close>

section \<open>The largest free block\<close>

fun best_free :: "nat \<Rightarrow> mblock list \<Rightarrow> nat \<times> nat \<Rightarrow> nat \<times> nat" where
  "best_free s [] g = g"
| "best_free s (b # bs) g = best_free (s + 1 + fst b) bs (if snd b = 0 \<and> fst b > snd g then (s, fst b) else g)"

lemma mcb_best_refines:
  assumes "e < 65536"
  shows "mchain m s bs e \<Longrightarrow> snd g < 65536 \<Longrightarrow>
    mcb_best (of_nat s) (of_nat (fst g)) (of_nat (snd g)) m =
      Some (of_nat (fst (best_free s bs g)), of_nat (snd (best_free s bs g)))"
proof (induction bs arbitrary: s g)
  case (Cons b bs)
  note h = mchain_heads [OF Cons.prems(1) assms]
  define g' where "g' = (if snd b = 0 \<and> fst b > snd g then (s, fst b) else g)"
  have b: "fst b < 65536" using h(6) assms by linarith
  then have g': "snd g' < 65536" using Cons.prems(2) by (simp add: g'_def)
  have w: "((of_nat (snd g) :: u16) < of_nat (fst b)) = (snd g < fst b)"
    by (rule word_less_of_nat_u16 [OF Cons.prems(2) b])
  have step: "mcb_best (of_nat s) (of_nat (fst g)) (of_nat (snd g)) m =
     (if bs = [] then Some (of_nat (fst g'), of_nat (snd g')) else mcb_best (of_nat (s + 1 + fst b)) (of_nat (fst g')) (of_nat (snd g')) m)"
    by (subst mcb_best.simps)
      (use h w in \<open>auto simp: Let_def seg_adr_of_nat g'_def seg_sum simp del: of_nat_add of_nat_Suc\<close>)
  show ?case
  proof (cases "bs = []")
    case True
    then show ?thesis using step by (simp add: g'_def)
  next
    case False
    then have "mchain m (s + 1 + fst b) bs e" using Cons.prems(1) by (simp add: mchain_Cons)
    from Cons.IH [OF this g'] show ?thesis using step False by (simp add: g'_def)
  qed
qed simp

text \<open>The search keeps its first guess or ends on a larger free block.\<close>

lemma best_free_cases:
  "best_free s bs g = g \<or>
   (\<exists>xs ys z. best_free s bs g = (s + off xs, z) \<and> snd g < z \<and> bs = xs @ (z, 0) # ys)"
proof (induction bs arbitrary: s g)
  case (Cons b bs)
  define g' where "g' = (if snd b = 0 \<and> fst b > snd g then (s, fst b) else g)"
  have bf: "best_free s (b # bs) g = best_free (s + 1 + fst b) bs g'" by (simp add: g'_def)
  have le: "snd g \<le> snd g'" by (simp add: g'_def)
  consider "best_free (s + 1 + fst b) bs g' = g'"
    | xs ys z where "best_free (s + 1 + fst b) bs g' = (s + 1 + fst b + off xs, z)" "snd g' < z" "bs = xs @ (z, 0) # ys"
    using Cons.IH [of "s + 1 + fst b" g'] by blast
  then show ?case
  proof cases
    case 1
    have "b # bs = [] @ (fst b, 0) # bs" if "snd b = 0" using that by (cases b) simp
    then show ?thesis using 1 bf by (cases "snd b = 0 \<and> fst b > snd g") (force simp: g'_def)+
  next
    case 2
    then have "best_free s (b # bs) g = (s + off (b # xs), z) \<and> snd g < z \<and> b # bs = (b # xs) @ (z, 0) # ys"
      using bf le by simp
    then show ?thesis by blast
  qed
qed simp


section \<open>Carving the child out of a free block\<close>

lemma mpre_confined:
  "mpre m s xs \<Longrightarrow> confined lo hi m m' \<Longrightarrow> 16 * (s + off xs) \<le> lo \<or> hi \<le> 16 * s \<Longrightarrow> s + off xs < 131072 \<Longrightarrow> mpre m' s xs"
proof (induction xs arbitrary: s)
  case (Cons b xs)
  have "mcb_is m' s MCB_M b" using Cons.prems mcb_is_confined [OF Cons.prems(2), of s MCB_M b] by auto
  moreover have "mpre m' (s + 1 + fst b) xs" using Cons.prems by (intro Cons.IH) auto
  ultimately show ?case by simp
qed simp

text \<open>A block of a chain is replaced by a run of blocks of the same extent.\<close>

lemma mchain_carve:
  assumes "mchain m s (xs @ b # ys) e" "e < 65536" "confined (16 * (s + off xs)) (16 * (s + off xs + 1 + fst b)) m m'"
    "mpre m' (s + off xs) zs" "mcb_is m' (s + off xs + off zs) (if ys = [] then MCB_Z else MCB_M) z" "off zs + 1 + fst z = 1 + fst b"
  shows "mchain m' s (xs @ zs @ z # ys) e"
proof -
  let ?t = "s + off xs"
  have c: "mpre m s xs" "mchain m ?t (b # ys) e" using assms(1) by (simp_all add: mchain_append)
  have te: "?t + 1 + fst b \<le> e" using mchain_size [OF c(2)] .
  have ys: "mchain m' (?t + 1 + fst b) ys e" if "ys \<noteq> []"
  proof (rule mchain_confined [OF _ assms(3)])
    show m: "mchain m (?t + 1 + fst b) ys e" using c(2) that by (simp add: mchain_Cons)
    show "\<forall>h\<in>heads (?t + 1 + fst b) ys. 16 * h + 5 \<le> 16 * ?t \<or> 16 * (?t + 1 + fst b) \<le> 16 * h"
      using heads_bounds [OF m] by (meson mult_le_mono2)
  qed (use assms(2) in simp)
  have e1: "?t + off zs + 1 + fst z = ?t + 1 + fst b" using assms(6) by simp
  have "mchain m' (?t + off zs) (z # ys) e"
    using assms(5) ys c(2) unfolding mchain_Cons e1 by auto
  then have "mchain m' ?t (zs @ z # ys) e" using assms(4) by (simp add: mchain_append)
  moreover have "mpre m' s xs" by (rule mpre_confined [OF c(1) assms(3)]) (use te assms(2) in auto)
  ultimately show ?thesis by (simp add: mchain_append)
qed

lemma exec_env_ok:
  assumes "t + 18 < 65536" "length progname \<le> 127"
  defines "psp \<equiv> of_nat t + 18 :: u16"
  assumes m'_def: "m' = exec_env (of_nat t + 1) psp progname f m"
  shows "confined (16 * t) (16 * (t + 17)) m m'" "mcb_is m' t MCB_M (16, psp)"
proof -
  have ut: "unat (of_nat t + 1 :: u16) = t + 1"
    using assms(1) unat_of_nat_u16 [of "t + 1"] by (simp add: add.commute)
  have t: "t < 131072" "t + 1 < 131072" "16 * (t + 17) \<le> 4294967296" using assms(1) by auto
  have pos: "0 < unat (of_nat t + 1 :: u16)" by (simp add: ut)
  have a: "push_bit 4 (ucast (of_nat t + 1 :: u16) - 1 :: u32) = hd_adr t" using seg_pred [OF pos] by (simp add: ut)
  have sz: "psp - 1 - (of_nat t + 1) = (16 :: u16)" by (simp add: psp_def)
  define m0 where "m0 = mcb_setup (of_nat t + 1) (of_nat t + 1 + 0x100) 0x100 MCB_M m"
  define m1 where "m1 = put_bytes (hd_adr (t + 1)) (env_block (fat_is_floppy f) progname) m0"
  have m': "m' = set_owner (hd_adr t) psp (set_size (hd_adr t) 16 (set_type (hd_adr t) MCB_M m1))"
    by (simp add: m'_def exec_env_def Let_def a sz env_setup_def seg_adr_hd ut m1_def m0_def)
  have c0: "confined (16 * t) (16 * (t + 1)) m m0"
    using mcb_setup_ok(1) [OF pos] by (simp only: m0_def ut diff_add_inverse2)
  have c1: "confined (16 * t) (16 * (t + 17)) m m1" unfolding m1_def
    by (rule confined_putI [OF confined_mono [OF c0]]) (use t assms(2) unat_hd_adr [OF t(2)] in \<open>simp_all add: env_block_length\<close>)
  show "confined (16 * t) (16 * (t + 17)) m m'" unfolding m' by (intro confined_set c1) (use t in auto)
  show "mcb_is m' t MCB_M (16, psp)" unfolding m' using t by (simp add: mcb_is_def)
qed

lemma exec_psp_confined: "confined (16 * unat psp) (16 * unat psp + 256) m (exec_psp psp env_seg tp c pp m)"
proof -
  have s: "unat psp < 131072" "16 * unat psp + 256 \<le> 4294967296" using unat_u16_bound [of psp] by linarith+
  show ?thesis unfolding exec_psp_def seg_adr_hd
    by (rule confined_wr16I [OF psp_setup_confined]) (use s unat_hd_num [OF s(1)] in simp_all)
qed

text \<open>What function 4Bh makes of a free block of \<open>sz\<close> paragraphs at segment \<open>t\<close> when it runs a COM file that fits.\<close>

lemma exec_com_carves:
  assumes ch: "mchain m s (xs @ (sz, 0) # ys) e" "e < 65536" and t: "t = s + off xs" and sz: "48 \<le> sz"
    and pn: "length progname \<le> 127"
  defines "psp \<equiv> of_nat t + 18 :: u16"
  assumes ex: "exec_com progname cmdtail (of_nat t + 1) psp (of_nat (sz - 17)) (mcb_type m (hd_adr t)) pp f
      (exec_env (of_nat t + 1) psp progname f m) = Some (ent, f', m')"
    and fits: "\<And>fd f1 n bs f2. fat_open progname 0 f = Some (fd, f1) \<Longrightarrow> fat_read fd 0xFF00 f1 = (n, bs, f2) \<Longrightarrow> length bs \<le> 16 * (sz - 33)"
  shows "mchain m' s (xs @ [(16, psp)] @ (sz - 17, psp) # ys) e" "confined (16 * t) (16 * (t + 1 + sz)) m m'"
    "ent = \<lparr>c_cs = psp, c_ip = 0x100, c_ss = psp, c_sp = 0xFFFE, c_ds = psp, c_es = psp, c_is_exe = False\<rparr>"
proof -
  have ct: "mchain m t ((sz, 0) # ys) e" using ch(1) t by (simp add: mchain_append)
  have te: "t + 1 + sz \<le> e" using mchain_size [OF ct] by simp
  have b: "t + 18 < 65536" "t + 17 < 131072" "t < 131072" "16 * (t + 1 + sz) \<le> 4294967296" using te ch(2) sz by auto
  have up: "unat psp = t + 18" using b(1) unat_of_nat_u16 [of "t + 18"] by (simp add: psp_def add.commute)
  have ty: "mcb_type m (hd_adr t) = (if ys = [] then MCB_Z else MCB_M)" using mchain_heads [OF ct ch(2)] by simp
  define m1 where "m1 = exec_env (of_nat t + 1) psp progname f m"
  note env = exec_env_ok [OF b(1) pn, folded psp_def, OF m1_def]
  define m2 where "m2 = mcb_setup psp psp (of_nat (sz - 17)) (if ys = [] then MCB_Z else MCB_M) m1"
  have pos: "0 < unat psp" by (simp add: up)
  have c2: "confined (16 * (t + 17)) (16 * (t + 18)) m1 m2"
    using mcb_setup_ok(1) [OF pos] by (simp add: m2_def up add.commute)
  have usz: "unat (of_nat (sz - 17) :: u16) = sz - 17" by (rule unat_of_nat_u16) (use te ch(2) in simp)
  have i2: "mcb_is m2 (t + 17) (if ys = [] then MCB_Z else MCB_M) (sz - 17, psp)"
    using mcb_setup_ok(2) [OF pos, of psp "of_nat (sz - 17)" _ m1] by (simp add: m2_def up usz add.commute)
  define m3 where "m3 = exec_psp psp (of_nat t + 1) (psp + of_nat (sz - 17)) cmdtail pp m2"
  have c3: "confined (16 * (t + 18)) (16 * (t + 18) + 256) m2 m3"
    using exec_psp_confined [of psp] by (simp add: m3_def up)
  obtain fd f1 n bs f2 where rd: "fat_open progname 0 f = Some (fd, f1)" "fat_read fd 0xFF00 f1 = (n, bs, f2)"
      "m' = put_bytes (seg_adr psp + 0x100) bs m3"
      "ent = \<lparr>c_cs = psp, c_ip = 0x100, c_ss = psp, c_sp = 0xFFFE, c_ds = psp, c_es = psp, c_is_exe = False\<rparr>"
    using ex by (auto simp: exec_com_def Let_def m1_def m2_def m3_def ty split: option.splits prod.splits)
  have ad: "unat (seg_adr psp + 0x100) = 16 * (t + 18) + 256"
    using unat_hd_num [of "t + 18"] b by (simp add: seg_adr_hd up)
  have c4: "confined (16 * (t + 18)) (16 * (t + 1 + sz)) m2 m'" unfolding rd(3)
    by (rule confined_putI [OF confined_mono [OF c3]]) (use ad fits [OF rd(1,2)] sz b in auto)
  have c5: "confined (16 * (t + 17)) (16 * (t + 1 + sz)) m1 m'"
    by (rule confined_trans [OF confined_mono [OF c2] confined_mono [OF c4]]) (use sz in auto)
  show c: "confined (16 * t) (16 * (t + 1 + sz)) m m'"
    by (rule confined_trans [OF confined_mono [OF env(1)] confined_mono [OF c5]]) (use sz in auto)
  have "mcb_is m' t MCB_M (16, psp)" using env(2) mcb_is_confined [OF c5 _ b(3)] by simp
  moreover have "mcb_is m' (t + 17) (if ys = [] then MCB_Z else MCB_M) (sz - 17, psp)"
    using i2 mcb_is_confined [OF c4 _ b(2)] by simp
  ultimately show "mchain m' s (xs @ [(16, psp)] @ (sz - 17, psp) # ys) e"
    using mchain_carve [OF ch(1,2), of m' "[(16, psp)]" "(sz - 17, psp)"] c t sz by (simp add: add.commute add.left_commute)
  show "ent = \<lparr>c_cs = psp, c_ip = 0x100, c_ss = psp, c_sp = 0xFFFE, c_ds = psp, c_es = psp, c_is_exe = False\<rparr>" by (rule rd)
qed

section \<open>EXEC and exit\<close>

lemma dtask_upd [simp]:
  "t < length (dos_tasks (kern s)) \<Longrightarrow> dtask t (upd_dtask t g s) = g (dtask t s)"
  "lin (upd_dtask t g s) = lin s" "parent (upd_dtask t g s) = parent s" "child (upd_dtask t g s) = child s"
  "v86_current_mcb_root (kern (upd_dtask t g s)) = v86_current_mcb_root (kern s)"
  "length (dos_tasks (kern (upd_dtask t g s))) = length (dos_tasks (kern s))"
  "dfat (upd_dtask t g s) = dfat s"
  by (simp_all add: dtask_def upd_dtask_def v86_current_mcb_root_def valid_task_def dfat_def)

lemma put_fields [simp]:
  "lin (put_fat f s) = lin s" "parent (put_fat f s) = parent s" "child (put_fat f s) = child s" "dtask t (put_fat f s) = dtask t s"
  "dfat (put_fat f s) = f" "dfat (put_lin m s) = dfat s" "kern (put_lin m s) = kern s"
  "lin (put_lin m s) = m" "parent (put_lin m s) = parent s" "child (put_lin m s) = child s" "dtask t (put_lin m s) = dtask t s"
  "v86_current_mcb_root (kern (put_fat f s)) = v86_current_mcb_root (kern s)"
  "length (dos_tasks (kern (put_fat f s))) = length (dos_tasks (kern s))"
  by (simp_all add: dtask_def put_fat_def put_lin_def v86_current_mcb_root_def valid_task_def dfat_def)

text \<open>The state of the FAT layer after function 4Bh has looked at the first two bytes of the file, and the bytes it loads of a COM file.\<close>

definition exec_probe :: "dos_env \<Rightarrow> cstr \<Rightarrow> fat_state \<Rightarrow> fat_state" where
  "exec_probe env progname f =
     (case fat_open progname 0 f of None \<Rightarrow> f
      | Some (fd, f1) \<Rightarrow> (case fat_read_buf fd (take 2 (junk env)) f1 of (_, sig, f2) \<Rightarrow> snd (fat_close fd f2)))"

definition com_image :: "cstr \<Rightarrow> fat_state \<Rightarrow> u8 list" where
  "com_image progname f = (case fat_open progname 0 f of None \<Rightarrow> [] | Some (fd, f1) \<Rightarrow> fst (snd (fat_read fd 0xFF00 f1)))"

lemma asciiz_length: "length (v86_read_asciiz a 128 m) \<le> 127"
  using length_takeWhile_le [of "\<lambda>c. c \<noteq> 0" "mem_bytes m a 127"] by (simp add: v86_read_asciiz_def mem_bytes_def)

lemma exec_exe_is_exe: "exec_exe env pn ct es psp blk ft pp f m = Some (ent, f', m') \<Longrightarrow> c_is_exe ent"
  by (auto simp: exec_exe_def Let_def split: option.splits prod.splits)

text \<open>What a successful function 4Bh on a COM file does.\<close>

lemma exec_com_result:
  assumes ch: "mchain (lin s) (unat root) bs e" "e < 65536" and root: "v86_current_mcb_root (kern s) = root"
    and ex: "int21_4B env t r s = Some (DOS_RESULT_EXEC, r1, s1)" and com: "\<not> c_is_exe (child s1 t)"
    and tl: "t < length (dos_tasks (kern s))"
  defines "progname \<equiv> v86_read_asciiz (v86_ptr (r_ds r) (r_edx r)) 128 (lin s)"
  assumes fits: "length (com_image progname (exec_probe env progname (dfat s))) \<le> 16 * (snd (best_free (unat root) bs (0, 0)) - 33)"
  shows "\<exists>xs sz ys T psp. bs = xs @ (sz, 0) # ys \<and> T = unat root + off xs \<and> 48 \<le> sz \<and> psp = of_nat T + 18 \<and>
    mchain (lin s1) (unat root) (xs @ [(16, psp)] @ (sz - 17, psp) # ys) e \<and> confined (16 * T) (16 * (T + 1 + sz)) (lin s) (lin s1) \<and>
    c_cs (child s1 t) = psp \<and> parent s1 t = save_parent t r s \<and> v86_current_mcb_root (kern s1) = root \<and>
    sz = snd (best_free (unat root) bs (0, 0)) \<and>
    dtask t s1 = (dtask t s)\<lparr>psp_seg := ucast psp, dta_seg := ucast psp, dta_off := 0x80, next_alloc_seg := psp + of_nat (sz - 17)\<rparr>"
proof -
  obtain g z where bf: "best_free (unat root) bs (0, 0) = (g, z)" by fastforce
  have zs: "z = 0 \<or> (\<exists>xs ys. bs = xs @ (z, 0) # ys \<and> g = unat root + off xs \<and> unat root + off xs + 1 + z \<le> e)"
    using best_free_cases [of "unat root" bs "(0, 0)"]
  proof
    assume "\<exists>xs ys z. best_free (unat root) bs (0, 0) = (unat root + off xs, z) \<and> snd (0, 0) < z \<and> bs = xs @ (z, 0) # ys"
    then obtain xs ys where x: "bs = xs @ (z, 0) # ys" "g = unat root + off xs" using bf by auto
    then have "mchain (lin s) (unat root + off xs) ((z, 0) # ys) e" using ch(1) by (simp add: mchain_append)
    from mchain_size [OF this] x show ?thesis by auto
  qed (use bf in simp)
  then have zb: "z < 65536" using ch(2) by auto
  have best: "mcb_best root 0 0 (lin s) = Some (of_nat g, of_nat z)"
    using mcb_best_refines [OF ch(2,1), of "(0, 0)"] bf by simp
  obtain fd f1 where op: "fat_open progname 0 (dfat s) = Some (fd, f1)" "0 \<le> fd"
    using ex unfolding int21_4B_def Let_def progname_def [symmetric] by (auto simp: ret_def split: option.splits if_splits)
  obtain k sig f2 where sg: "fat_read_buf fd (take 2 (junk env)) f1 = (k, sig, f2)" by (metis prod_cases3)
  define f3 where "f3 = snd (fat_close fd f2)"
  have pr: "exec_probe env progname (dfat s) = f3" by (simp add: exec_probe_def op sg f3_def)
  note ex1 = ex [unfolded int21_4B_def Let_def, folded progname_def, unfolded op root, simplified, unfolded sg, simplified,
    folded f3_def, unfolded best, simplified]
  have z48: "48 \<le> z" using ex1 zb word_less_of_nat_u16 [of z 48] by (auto simp: ret_def op(2) split: if_splits)
  then obtain xs ys where sp: "bs = xs @ (z, 0) # ys" "g = unat root + off xs"
    using best_free_cases [of "unat root" bs "(0, 0)"] bf by auto
  define T where "T = unat root + off xs"
  have ct: "mchain (lin s) T ((z, 0) # ys) e" using ch(1) sp(1) by (simp add: mchain_append T_def)
  note h = mchain_heads [OF ct ch(2)]
  define psp where "psp = (of_nat T + 18 :: u16)"
  have ge: "g = T" using sp(2) by (simp add: T_def)
  have psp: "of_nat T + 1 + 16 + 1 = psp" by (simp add: psp_def add.commute)
  have blk: "mcb_size (lin s) (hd_adr T) - (16 + 1) = (of_nat (z - 17) :: u16)"
    using h z48 by simp
  have sadr: "seg_adr (of_nat T + 1 - 1) = hd_adr T" using h(4) by (simp add: seg_adr_of_nat)
  define cmdtail where "cmdtail = exec_tail (v86_ptr (ucast (rd16 (lin s) (v86_ptr (r_es r) (r_ebx r) + 4)))
      (ucast (rd16 (lin s) (v86_ptr (r_es r) (r_ebx r) + 2)))) (lin s)"
  define res where "res = (if sig ! 0 = 0x4D \<and> sig ! 1 = 0x5A
      then exec_exe env progname cmdtail (of_nat T + 1) psp (of_nat (z - 17)) (mcb_type (lin s) (hd_adr T)) (p_psp_seg (save_parent t r s)) f3
        (exec_env (of_nat T + 1) psp progname f3 (lin s))
      else exec_com progname cmdtail (of_nat T + 1) psp (of_nat (z - 17)) (mcb_type (lin s) (hd_adr T)) (p_psp_seg (save_parent t r s)) f3
        (exec_env (of_nat T + 1) psp progname f3 (lin s)))"
  have nlt: "\<not> (of_nat z :: u16) < 0x30" using z48 zb word_less_of_nat_u16 [of z 48] by simp
  have ev: "int21_4B env t r s = (case res of None \<Rightarrow> None
      | Some (ent, f4, m2) \<Rightarrow> Some (DOS_RESULT_EXEC, clear_cf r,
          upd_dtask t (\<lambda>k. k\<lparr>psp_seg := ucast psp, dta_seg := ucast psp, dta_off := 0x80, next_alloc_seg := psp + of_nat (z - 17)\<rparr>)
            (put_lin m2 (put_fat f4 (s\<lparr>parent := (parent s)(t := save_parent t r s), child := (child s)(t := ent)\<rparr>)))))"
    unfolding int21_4B_def Let_def progname_def [symmetric] cmdtail_def [symmetric] op(1) option.case prod.case root best sg
      f3_def [symmetric] ge psp sadr blk
    using op(2) nlt by (simp only: res_def [symmetric] if_False not_less [symmetric])
  obtain ent f4 m2 where rs: "res = Some (ent, f4, m2)"
      "s1 = upd_dtask t (\<lambda>k. k\<lparr>psp_seg := ucast psp, dta_seg := ucast psp, dta_off := 0x80, next_alloc_seg := psp + of_nat (z - 17)\<rparr>)
            (put_lin m2 (put_fat f4 (s\<lparr>parent := (parent s)(t := save_parent t r s), child := (child s)(t := ent)\<rparr>)))"
    using ex ev by (auto split: option.splits)
  have "child s1 t = ent" using rs(2) by simp
  then have ec: "exec_com progname cmdtail (of_nat T + 1) psp (of_nat (z - 17)) (mcb_type (lin s) (hd_adr T)) (p_psp_seg (save_parent t r s)) f3
        (exec_env (of_nat T + 1) psp progname f3 (lin s)) = Some (ent, f4, m2)"
    using rs(1) com unfolding res_def by (auto split: if_splits dest: exec_exe_is_exe)
  have ft: "length bs' \<le> 16 * (z - 33)" if "fat_open progname 0 f3 = Some (fd', f1')" "fat_read fd' 0xFF00 f1' = (n, bs', f2')" for fd' f1' n bs' f2'
    using fits that by (simp add: pr com_image_def bf)
  note cv = exec_com_carves [OF ch(1) [unfolded sp(1)] ch(2) T_def z48 asciiz_length [of "v86_ptr (r_ds r) (r_edx r)" "lin s", folded progname_def],
      folded psp_def, OF ec ft]
  have "dtask t s1 = (dtask t s)\<lparr>psp_seg := ucast psp, dta_seg := ucast psp, dta_off := 0x80, next_alloc_seg := psp + of_nat (z - 17)\<rparr>"
    using rs(2) tl by (simp add: dtask_def put_lin_def put_fat_def upd_dtask_def)
  moreover have "lin s1 = m2" "parent s1 t = save_parent t r s" "v86_current_mcb_root (kern s1) = root"
    using rs(2) root by simp_all
  ultimately show ?thesis
    using cv sp(1) T_def psp_def z48 bf \<open>child s1 t = ent\<close> by (intro exI [of _ xs] exI [of _ z] exI [of _ ys] exI [of _ T] exI [of _ psp]) simp
qed

lemma coalesce_split: "coalesce (xs @ (a, 0) # (b, 0) # ys) = coalesce (xs @ (a + 1 + b, 0) # ys)"
  by (induction xs) (auto intro: coalesce_Cons_cong simp del: coalesce.simps(1), simp)

lemma coalesce_id: "no_free_pair bs \<Longrightarrow> coalesce bs = bs"
  by (induction bs rule: no_free_pair.induct) auto

lemma heads_app: "heads s (us @ vs) = heads s us \<union> heads (s + off us) vs"
  by (induction us arbitrary: s) (auto simp: add.assoc)

lemma heads_range: "k \<in> heads s us \<Longrightarrow> s \<le> k \<and> k < s + off us"
  by (induction us arbitrary: s) (auto, fastforce+)


text \<open>The witness's machine: a COM file of five bytes on the disk, and a chain whose last block, of 200 paragraphs, is free.\<close>

definition demo_com_chain :: mem8 where
  "demo_com_chain = set_size (hd_adr 81) 200 (set_owner (hd_adr 81) 0 (set_type (hd_adr 81) MCB_Z
     (set_size (hd_adr 64) 16 (set_owner (hd_adr 64) 0x1100 (set_type (hd_adr 64) MCB_M
       (put_bytes 0x5000 exe_name (\<lambda>_. 0)))))))"

definition demo_regs :: dos_regs where
  "demo_regs = \<lparr>r_eax = 0x4B00, r_ebx = 0, r_ecx = 7, r_edx = 0, r_esi = 0, r_edi = 0, r_ebp = 0, r_ds = 0x500, r_es = 0x600,
     r_eflags = 0x203, r_cs = 0, r_eip = 0, r_ss = 0, r_esp = 0\<rparr>"

definition demo_com_state :: dos_state where
  "demo_com_state = \<lparr>kern = demo_dos\<lparr>fat := example_exe\<lparr>dsk := \<lparr>sectors = \<lambda>d a. if a = 69 then [0xB8, 0, 0x4C, 0xCD, 0x21] @ replicate 507 0
        else if a = 68 then [0x41, 0x42, SPC, SPC, SPC, SPC, SPC, SPC, 0x54, SPC, SPC, 0x20] @ replicate 14 0 @ [2, 0, 5, 0, 0, 0] @ replicate 480 0
        else sectors (dsk example_exe) d a, rd_err = \<lambda>d a. False, wr_err = \<lambda>d a. False\<rparr>\<rparr>\<rparr>,
     lin = demo_com_chain, parent = (\<lambda>_. \<lparr>p_active = False, p_regs = demo_regs, p_psp_seg = 0, p_dta_seg = 0, p_dta_off = 0, p_next_alloc_seg = 0\<rparr>),
     child = (\<lambda>_. \<lparr>c_cs = 0, c_ip = 0, c_ss = 0, c_sp = 0, c_ds = 0, c_es = 0, c_is_exe = True\<rparr>),
     rtc_cmos = \<lparr>reads = 0, port70 = 0, writes = []\<rparr>\<rparr>"

definition demo_env :: dos_env where
  "demo_env = \<lparr>con_putc = (\<lambda>_ _ s. s), con_getc = (\<lambda>_ _. None), con_kbhit = (\<lambda>_ _. False), rtc_dev = (\<lambda>_ _. 0), junk = replicate 28 0,
     junk_find = \<lparr>ff_name = [], ff_attr = 0, ff_size = 0, ff_date = 0, ff_time = 0, ff_first_cluster = 0, ff_dir_cluster = 0, ff_dir_index = 0,
       ff_pattern = [], ff_drive = 0\<rparr>\<rparr>"

lemma demo_com_path: "v86_read_asciiz (v86_ptr (r_ds demo_regs) (r_edx demo_regs)) 128 (lin demo_com_state) = exe_name"
  by code_simp

lemma demo_com_fat:
  "map_option (\<lambda>(fd, f1). (fd, fst (snd (fat_read_buf fd (take 2 (junk demo_env)) f1)))) (fat_open exe_name 0 (dfat demo_com_state)) =
   Some (0, [0xB8, 0])"
  by code_simp

lemma demo_com_reopen: "fat_open exe_name 0 (exec_probe demo_env exe_name (dfat demo_com_state)) \<noteq> None"
  by code_simp

lemma demo_com_image: "length (com_image exe_name (exec_probe demo_env exe_name (dfat demo_com_state))) = 5"
  by code_simp

lemma demo_com_chain_ok: "mchain demo_com_chain 64 [(16, 0x1100), (200, 0)] 282"
  by (simp add: demo_com_chain_def mcb_is_def)

lemma demo_com_exec:
  "\<exists>s1. int21_4B demo_env 0 demo_regs demo_com_state = Some (DOS_RESULT_EXEC, clear_cf demo_regs, s1) \<and>
     \<not> c_is_exe (child s1 0) \<and> c_cs (child s1 0) = 0x63"
proof -
  have st: "lin demo_com_state = demo_com_chain" "v86_current_mcb_root (kern demo_com_state) = 0x40"
    by (simp_all add: demo_com_state_def demo_dos_def v86_current_mcb_root_def valid_task_def)
  have best: "mcb_best 0x40 0 0 demo_com_chain = Some (81, 200)"
    using mcb_best_refines [of 282 demo_com_chain 64 "[(16, 0x1100), (200, 0)]" "(0, 0)"] demo_com_chain_ok by simp
  obtain f1 n f2 where op: "fat_open exe_name 0 (dfat demo_com_state) = Some (0, f1)"
      "fat_read_buf 0 (take 2 (junk demo_env)) f1 = (n, [0xB8, 0], f2)"
    using demo_com_fat by (auto simp: prod_eq_iff)
  have re: "fat_open exe_name 0 (snd (fat_close 0 f2)) \<noteq> None"
    using demo_com_reopen by (simp add: exec_probe_def op)
  show ?thesis
    using re demo_com_path unfolding int21_4B_def Let_def st
    by (auto simp: op best exec_com_def Let_def split: prod.splits)
qed

end
