(* ===== verification/Handles.thy ===== *)
theory Handles
  imports Exec Fat_Ops
begin

text \<open>
  File handles across the layers: every DOS task has a map from its handles to the handles of the FAT layer
  (\<open>handle_map\<close>, src/src/kernel/dos.c), which all tasks share (\<open>handles\<close>, src/src/kernel/fat.c). The invariant says
  that a handle a task has open is an open FAT handle, and that no two handles, of one task or of two, stand for the same
  one. Every INT 21h function and the creation and the end of a task keep it.
\<close>

section \<open>Which FAT handles are open\<close>

definition acts :: "fat_state \<Rightarrow> bool list" where
  "acts s = map active (handles s)"

definition acts_eq :: "fat_state \<Rightarrow> fat_state \<Rightarrow> bool" where
  "acts_eq s s' \<longleftrightarrow> acts s' = acts s"

interpretation act: fat_frame acts_eq
  by unfold_locales (auto simp: acts_eq_def acts_def set_vol_def)

lemma acts_simps [simp]:
  "acts (push_opt d s) = acts s" "acts (pop_opt d s) = acts s" "acts (push_drive n s) = acts s" "acts (pop_drive s) = acts s"
  "acts (set_vol g s) = acts s" "acts (set_cwd c p s) = acts s" "acts (s\<lparr>sector_buf := b\<rparr>) = acts s"
  "acts (snd (write_sector a b s)) = acts s" "acts (store_dirent sec ofs e s) = acts s" "acts (fat_set_drive k s) = acts s"
  by (simp_all add: acts_def push_opt_def pop_opt_def push_drive_def pop_drive_def set_vol_def set_cwd_def store_dirent_def
      Let_def fat_set_drive_def split: option.splits)

lemma acts_put_handle [simp]: "acts (put_handle h f s) = (acts s)[nat h := active f]"
  by (simp add: acts_def put_handle_def map_update)

lemma get_handle_acts:
  "get_handle h s = Some f \<Longrightarrow> 0 \<le> h \<and> h < 32 \<and> active f \<and> (nat h < length (acts s) \<longrightarrow> acts s ! nat h)"
  by (auto simp: get_handle_def acts_def Let_def FAT_MAX_HANDLES_def split: if_splits)

lemma acts_same: "get_handle h s = Some f \<Longrightarrow> (acts s)[nat h := True] = acts s"
  using get_handle_acts [of h s f] by (cases "nat h < length (acts s)") (auto simp: list_update_beyond intro: list_update_same_conv [THEN iffD2])

text \<open>What an open does to the flags: nothing if it fails; else it takes a handle that was closed.\<close>

definition opened :: "bool list \<Rightarrow> int \<Rightarrow> bool list \<Rightarrow> bool" where
  "opened A r A' \<longleftrightarrow> r < 0 \<and> A' = A \<or> (\<exists>i < length A. r = int i \<and> \<not> A ! i \<and> A' = A[i := True])"

lemma opened_fail [simp]: "opened A (- 1) A"
  by (simp add: opened_def)

lemma alloc_handle_opened: "active f \<Longrightarrow> opened (acts s) (fst (alloc_handle f s)) (acts (snd (alloc_handle f s)))"
  using find_slot_SomeD [of "\<lambda>h. \<not> active h" "handles s"]
  by (auto simp: alloc_handle_def opened_def acts_def map_update split: option.splits)

lemma open_slot_opened: "open_slot n m c sec ofs s = (r, s') \<Longrightarrow> opened (acts s) r (acts s')"
  using alloc_handle_opened [of "new_handle m c 0 sec ofs (store_dirent sec ofs (make_dirent (name_to_83 n) FAT_ATTR_ARCHIVE c 0) s)"
      "store_dirent sec ofs (make_dirent (name_to_83 n) FAT_ATTR_ARCHIVE c 0) s"]
  by (simp add: open_slot_def Let_def new_handle_def)

lemma create_file_opened: "create_file d n m s = Some (r, s') \<Longrightarrow> opened (acts s) r (acts s')"
proof -
  assume c: "create_file d n m s = Some (r, s')"
  obtain nw s1 where al: "fat_alloc_cluster s = (nw, s1)" by fastforce
  have a1: "acts s1 = acts s" using act.fat_alloc_cluster_frame [OF al] by (simp add: acts_eq_def)
  obtain q s2 where fr: "free_scan (root_sectors s1) s1 = (q, s2)" by fastforce
  have a2: "acts s2 = acts s" using act.free_scan_frame [OF fr] a1 by (simp add: acts_eq_def)
  have ch: "opened (acts s) r (acts s')"
    if b: "Option.bind (free_chain d t) (\<lambda>(q, s3). Some (case q of Slot sec ofs \<Rightarrow> open_slot n m nw sec ofs s3 | _ \<Rightarrow> (-1, s3))) = Some (r, s')"
      "acts t = acts s" for t
  proof -
    obtain q s3 where f: "free_chain d t = Some (q, s3)" using b(1) by (cases "free_chain d t") auto
    have a3: "acts s3 = acts s" using act.free_chain_frame [OF f] b(2) by (simp add: acts_eq_def)
    show ?thesis using b(1) f a3 open_slot_opened [of n m nw _ _ s3 r s'] by (auto split: free_slot.splits)
  qed
  show ?thesis
    using c al fr a1 a2 ch open_slot_opened [of n m nw _ _ s2 r s']
    by (auto simp: create_file_def Let_def split: if_splits free_slot.splits)
qed

text \<open>The frame of the path operations.\<close>

lemma with_parent_acts:
  assumes "with_parent path body s = Some (r, s')" and "\<And>d n t x t'. body d n t = Some (x, t') \<Longrightarrow> P (acts t) x (acts t')"
    and "P (acts s) (- 1) (acts s)"
  shows "P (acts s) r (acts s')"
  using assms(1)
  by (auto simp: with_parent_def Let_def Option.bind_eq_Some_conv assms(3) split: prod.splits if_splits
      dest!: assms(2) act.lookup_frame [unfolded acts_eq_def])

lemma fat_open_opened: "fat_open path mode s = Some (r, s') \<Longrightarrow> opened (acts s) r (acts s')"
  unfolding fat_open_def
proof (erule with_parent_acts [where P = opened], goal_cases)
  case (1 d n t x t')
  then obtain ctx t1 where f: "find_in_dir d n t = Some (ctx, t1)" by (auto simp: Option.bind_eq_Some_conv)
  have "acts t1 = acts t" using act.lookup_frame(1) [OF f] by (simp add: acts_eq_def)
  then show ?case
    using 1 f create_file_opened [of d n mode t1 x t'] alloc_handle_opened [of _ t1]
    by (auto simp: Let_def new_handle_def split: if_splits) (metis fst_conv snd_conv fat_file.select_convs(1))
qed simp

text \<open>All the other calls leave the flags as they are, and a close clears one.\<close>

lemma delete_acts: "fat_delete path s = Some (r, s') \<Longrightarrow> acts s' = acts s"
  unfolding fat_delete_def
proof (erule with_parent_acts [where P = "\<lambda>A r A'. A' = A"], goal_cases)
  case (1 d n t x t')
  then obtain ctx t1 where f: "find_in_dir d n t = Some (ctx, t1)" by (auto simp: Option.bind_eq_Some_conv)
  have a: "acts_eq t t1" using act.lookup_frame(1) [OF f] .
  show ?case using 1 f a act.delete_frame [OF a] by (fastforce simp: Let_def acts_eq_def split: if_splits)
qed simp

lemma rmdir_acts: "fat_rmdir path s = Some (r, s') \<Longrightarrow> acts s' = acts s"
  unfolding fat_rmdir_def
proof (erule with_parent_acts [where P = "\<lambda>A r A'. A' = A"], goal_cases)
  case (1 d n t x t')
  then obtain ctx t1 where f: "find_in_dir d n t = Some (ctx, t1)" by (auto simp: Option.bind_eq_Some_conv)
  have a: "acts_eq t t1" using act.lookup_frame(1) [OF f] .
  show ?case
  proof (cases "found ctx \<and> de_is_dir (ctx_result ctx t1)")
    case False
    then show ?thesis using 1 f a by (auto simp: Let_def acts_eq_def split: if_splits)
  next
    case True
    then obtain emp t2 where e: "dir_is_empty (de_cluster (ctx_result ctx t1)) t1 = Some (emp, t2)"
      using 1 f by (auto simp: Let_def Option.bind_eq_Some_conv)
    have a2: "acts_eq t t2" using a act.dir_is_empty_frame [OF e] by (simp add: acts_eq_def)
    show ?thesis using 1 f True e a2 act.delete_frame [OF a2] by (fastforce simp: Let_def acts_eq_def split: if_splits)
  qed
qed simp

lemma mkdir_acts: "fat_mkdir path s = Some (r, s') \<Longrightarrow> acts s' = acts s"
  unfolding fat_mkdir_def
proof (erule with_parent_acts [where P = "\<lambda>A r A'. A' = A"], goal_cases)
  case (1 d n t x t')
  then obtain ctx t1 where f: "find_in_dir d n t = Some (ctx, t1)" by (auto simp: Option.bind_eq_Some_conv)
  obtain c t2 where al: "fat_alloc_cluster t1 = (c, t2)" by fastforce
  have a: "acts t1 = acts t" "acts t2 = acts t" "acts (init_dir_cluster c d t2) = acts t"
    using act.lookup_frame(1) [OF f] act.fat_alloc_cluster_frame [OF al] act.init_dir_cluster_frame [of t2 c d]
    by (simp_all add: acts_eq_def)
  have b: "acts t3 = acts t" if "add_dir_entry d n FAT_ATTR_DIRECTORY c 0 (init_dir_cluster c d t2) = Some (q, t3)" for q t3
    using act.add_dir_entry_frame [OF that] a by (simp add: acts_eq_def)
  show ?case
    using 1 f al a b act.fat_write_entry_frame [of _ c 0]
    by (auto simp: Let_def acts_eq_def Option.bind_eq_Some_conv split: if_splits)
qed simp

lemma path_acts:
  "fat_rename p q s = Some (r, s') \<Longrightarrow> acts s' = acts s"
  "fat_chdir p s = Some (r, s') \<Longrightarrow> acts s' = acts s"
  "fat_find_first pat res s = Some (r, res', s') \<Longrightarrow> acts s' = acts s"
  "fat_find_next res s = Some (r, res', s') \<Longrightarrow> acts s' = acts s"
  by (auto simp: fat_rename_def fat_chdir_def fat_find_first_def fat_find_next_def Let_def Option.bind_eq_Some_conv
      split: prod.splits if_splits dest!: act.lookup_frame [unfolded acts_eq_def] dir_iterate_buf [THEN act.buf_only_frame, unfolded acts_eq_def])

lemma seek_acts: "acts (snd (fat_seek h n s)) = acts s"
  by (auto simp: fat_seek_def acts_same get_handle_acts split: option.splits)

lemma datetime_acts: "acts (snd (fat_get_datetime h s)) = acts s"
  by (auto simp: fat_get_datetime_def Let_def split: option.splits prod.splits)

lemma close_acts:
  "acts (snd (fat_close h s)) = (if 0 \<le> h \<and> h < 32 then (acts s)[nat h := False] else acts s)"
proof (cases "get_handle h s")
  case None
  then have "h < 0 \<or> 32 \<le> h \<or> \<not> active (handles s ! nat h)"
    by (auto simp: get_handle_def Let_def FAT_MAX_HANDLES_def split: if_splits)
  then have "(acts s)[nat h := False] = acts s" if "0 \<le> h" "h < 32"
    using that by (cases "nat h < length (handles s)") (auto simp: acts_def list_update_beyond intro: list_update_same_conv [THEN iffD2])
  then show ?thesis using None by (simp add: fat_close_def)
next
  case (Some f)
  then show ?thesis using get_handle_acts [OF Some] by (auto simp: fat_close_def Let_def split: prod.splits)
qed

lemma count_free_acts: "acts (snd (fat_count_free_clusters s)) = acts s"
proof -
  have "acts (snd (count_free_scan cs n s)) = acts s" for cs n
  proof (induction cs n s rule: count_free_scan.induct)
    case (2 c cs n s)
    obtain e s1 where rd: "fat_read_entry c s = (e, s1)" by fastforce
    show ?case using 2 [OF rd [symmetric]] act.fat_read_entry_frame [OF rd] by (simp add: rd acts_eq_def)
  qed simp
  then show ?thesis by (simp add: fat_count_free_clusters_def)
qed

lemma read_loop_active: "active (fst (snd (read_loop lft f acc s))) = active f"
proof (induction lft f acc s rule: read_loop.induct)
  case (1 lft f acc s)
  then show ?case by (subst read_loop.simps) (auto simp: Let_def split: prod.splits)
qed

lemma write_loop_active: "active (fst (snd (write_loop lft data w f s))) = active f"
proof (induction "unat lft" arbitrary: lft data w f s rule: less_induct)
  case less
  let ?o = "position f mod cluster_bytes s" and ?n = "chunk_len (position f mod cluster_bytes s mod 512) lft"
  let ?sec = "cluster_to_sector (current_cluster f) s + ?o div 512"
  obtain ok buf where rd: "(if ?o mod 512 \<noteq> 0 \<or> lft < 512 then read_sector ?sec (sector_buf s) s else (True, sector_buf s)) = (ok, buf)"
    by fastforce
  let ?b = "splice buf (unat (?o mod 512)) (take (unat ?n) data)"
  obtain wok s2 where wr: "write_sector ?sec ?b (s\<lparr>sector_buf := ?b\<rparr>) = (wok, s2)" by fastforce
  obtain q s3 where na: "next_or_alloc (current_cluster (advance ?n f)) s2 = (q, s3)" by fastforce
  note unf = write_loop.simps [of lft data w f s]
  have ad: "active (advance ?n f) = active f" by (simp add: advance_def Let_def)
  show ?case
  proof (cases "lft = 0 \<or> \<not> ok \<or> \<not> wok")
    case True
    then show ?thesis unfolding unf Let_def rd prod.case wr by auto
  next
    case False
    then have lt: "unat (lft - ?n) < unat lft" by (simp add: chunk_len_decreases)
    have ih: "active (fst (snd (write_loop (lft - ?n) d w' g t))) = active g" for d w' g t by (rule less [OF lt])
    show ?thesis unfolding unf Let_def rd prod.case wr na using False ih ad by (cases q) (auto simp: na)
  qed
qed

lemma read_acts: "fat_read h n s = (r, bs, s') \<Longrightarrow> acts s' = acts s"
proof (cases "get_handle h s")
  case (Some f)
  assume rd: "fat_read h n s = (r, bs, s')"
  let ?s0 = "push_drive (f_drive f) s"
  obtain c s1 where w: "read_walk (unat (position f div cluster_bytes ?s0)) (first_cluster f) ?s0 = (c, s1)" by fastforce
  define n1 where "n1 = (if position f + n > f_size f then f_size f - position f else n)"
  obtain bs2 f2 s2 where l: "read_loop n1 (f\<lparr>current_cluster := c\<rparr>) [] s1 = (bs2, f2, s2)" by (metis prod_cases3)
  have a: "acts s2 = acts s" using act.read_walk_frame [of ?s0 _ _] w act.read_loop_frame [of s1 n1 "f\<lparr>current_cluster := c\<rparr>" "[]"] l
    by (simp add: acts_eq_def) (metis snd_conv acts_simps(3))
  have "active f2" using read_loop_active [of n1 "f\<lparr>current_cluster := c\<rparr>" "[]" s1] l get_handle_acts [OF Some] by simp
  then show ?thesis
    using rd Some w l a acts_same [OF Some] by (auto simp: fat_read_def Let_def simp flip: n1_def split: if_splits)
qed (simp add: fat_read_def)

lemma write_acts: "fat_write h data s = (r, s') \<Longrightarrow> acts s' = acts s"
proof (cases "get_handle h s")
  case (Some f)
  assume wr: "fat_write h data s = (r, s')"
  let ?s0 = "push_drive (f_drive f) s"
  obtain c s1 where w: "write_walk (unat (position f div cluster_bytes ?s0)) (first_cluster f) ?s0 = (c, s1)" by fastforce
  have a1: "acts s1 = acts s" using act.write_walk_frame [of ?s0] w by (simp add: acts_eq_def) (metis snd_conv acts_simps(3))
  have a2: "acts s2 = acts s \<and> active f2" if "write_loop l d 0 (f\<lparr>current_cluster := k\<rparr>) s1 = (n, f2, s2)" for l d k n f2 s2
    using act.write_loop_frame [of s1 l d 0 "f\<lparr>current_cluster := k\<rparr>"] write_loop_active [of l d 0 "f\<lparr>current_cluster := k\<rparr>" s1]
      that a1 get_handle_acts [OF Some] by (simp add: acts_eq_def)
  then show ?thesis
    using wr Some w a1 acts_same [OF Some]
    by (auto simp: fat_write_def Let_def split: if_splits option.splits prod.splits)
qed (simp add: fat_write_def)

lemma read_buf_acts: "fat_read_buf fd b s = (n, bs, s') \<Longrightarrow> acts s' = acts s"
  by (auto simp: fat_read_buf_def split: prod.splits dest: read_acts)

lemma apply_relocs_acts: "acts (fst (apply_relocs n fd ls rel f m)) = acts f"
  by (induction n arbitrary: rel f m) (auto simp: Let_def split: prod.splits dest: read_buf_acts)

lemma upd_False: "\<not> A ! i \<Longrightarrow> A[i := False] = A"
  using list_update_id [of A i] by (simp only: simp_thms)

lemma opened_closed:
  assumes "opened A r (acts s)" "length A = 32"
  shows "acts (snd (fat_close r s)) = A"
  using assms by (auto simp: close_acts opened_def upd_False)

section \<open>The handle maps of the tasks\<close>

text \<open>
  \<open>H\<close> are the handle maps, one for each task slot, and \<open>A\<close> the flags of the FAT handles: the five device handles have no file, the
  files of all the maps are distinct, and each is open.
\<close>

definition no_handles :: "u8 list" where
  "no_handles = replicate DOS_MAX_HANDLES 0xFF"

definition table_ok :: "u8 list list \<Rightarrow> bool list \<Rightarrow> bool" where
  "table_ok H A \<longleftrightarrow> length A = 32 \<and> (\<forall>hm \<in> set H. length hm = 20 \<and> (\<forall>i < 5. hm ! i = 0xFF)) \<and>
     distinct (filter (\<lambda>h. h \<noteq> 0xFF) (concat H)) \<and>
     (\<forall>h \<in> set (concat H). h \<noteq> 0xFF \<longrightarrow> unat h < 32 \<and> A ! unat h)"

definition hmaps :: "kernel \<Rightarrow> u8 list list" where
  "hmaps k = map (\<lambda>d. if d_active d then handle_map d else no_handles) (dos_tasks k)"

definition handles_ok :: "kernel \<Rightarrow> bool" where
  "handles_ok k \<longleftrightarrow> length (dos_tasks k) = DOS_MAX_TASKS \<and> table_ok (hmaps k) (acts (fat k))"

lemma concat_upd:
  assumes "t < length H" "i < length (H ! t)"
  obtains xs ys where "concat H = xs @ H ! t ! i # ys" "\<And>v. concat (H[t := (H ! t)[i := v]]) = xs @ v # ys"
proof
  let ?xs = "concat (take t H) @ take i (H ! t)" and ?ys = "drop (Suc i) (H ! t) @ concat (drop (Suc t) H)"
  have "concat H = concat (take t H) @ H ! t @ concat (drop (Suc t) H)"
    using arg_cong [OF id_take_nth_drop [OF assms(1)], of concat] by simp
  then show "concat H = ?xs @ H ! t ! i # ?ys" using id_take_nth_drop [OF assms(2)] by simp
  show "concat (H[t := (H ! t)[i := v]]) = ?xs @ v # ?ys" for v
    using assms by (simp add: upd_conv_take_nth_drop)
qed

lemma table_shape:
  assumes "table_ok H A" "t < length H" "5 \<le> i"
  shows "\<forall>hm \<in> set (H[t := (H ! t)[i := v]]). length hm = 20 \<and> (\<forall>i < 5. hm ! i = 0xFF)"
  using assms set_update_subset_insert [of H t "(H ! t)[i := v]"] nth_mem [OF assms(2)] by (auto simp: table_ok_def)

lemma table_open:
  assumes ok: "table_ok H A" and t: "t < length H" and i: "5 \<le> i" "i < 20" "H ! t ! i = 0xFF" and op: "opened A (int n) A'"
  shows "table_ok (H[t := (H ! t)[i := of_nat n]]) A'"
proof -
  have n: "n < 32" "\<not> A ! n" "A' = A[n := True]" using op ok by (auto simp: opened_def table_ok_def)
  define v :: u8 where "v = of_nat n"
  have un: "unat v = n" using n(1) by (simp add: v_def unat_of_nat)
  have l: "i < length (H ! t)" using ok nth_mem [OF t] i by (auto simp: table_ok_def)
  obtain xs ys where s: "concat H = xs @ H ! t ! i # ys" "\<And>v. concat (H[t := (H ! t)[i := v]]) = xs @ v # ys"
    using concat_upd [OF t l] by metis
  have used: "unat h < 32 \<and> A ! unat h" if "h \<in> set (xs @ ys)" "h \<noteq> 0xFF" for h
    using ok that s(1) by (auto simp: table_ok_def)
  have new: "v \<notin> set (filter (\<lambda>h. h \<noteq> 0xFF) (xs @ ys))" unfolding set_filter using used [of v] n(2) un by blast
  have dis: "distinct (filter (\<lambda>h. h \<noteq> 0xFF) (xs @ ys))" using ok by (simp add: table_ok_def s(1) i(3))
  have d: "distinct (filter (\<lambda>h. h \<noteq> 0xFF) (xs @ v # ys))" using dis new unfolding filter_append filter.simps distinct_append set_append by (cases "v = 0xFF") simp_all
  have a: "unat h < 32 \<and> A' ! unat h" if "h \<in> set (xs @ v # ys)" "h \<noteq> 0xFF" for h
  proof (cases "h = v")
    case True
    then show ?thesis using n un ok by (simp add: table_ok_def)
  next
    case False
    then have "unat h \<noteq> n" using un by (metis word_unat_eq_iff)
    then show ?thesis using that used [of h] n(3) False by auto
  qed
  have "length A' = 32" using ok n(3) by (simp add: table_ok_def)
  then show ?thesis
    using table_shape [OF ok t i(1)] d a unfolding table_ok_def s(2) v_def [symmetric] by blast
qed

lemma table_close:
  assumes ok: "table_ok H A" and t: "t < length H" and i: "i < 20" "H ! t ! i \<noteq> 0xFF"
  shows "table_ok (H[t := (H ! t)[i := 0xFF]]) (A[unat (H ! t ! i) := False])"
proof -
  have l: "i < length (H ! t)" "5 \<le> i" using ok nth_mem [OF t] i by (auto simp: table_ok_def not_le [symmetric])
  obtain xs ys where s: "concat H = xs @ H ! t ! i # ys" "\<And>v. concat (H[t := (H ! t)[i := v]]) = xs @ v # ys"
    using concat_upd [OF t l(1)] by metis
  have d: "distinct (filter (\<lambda>h. h \<noteq> 0xFF) (xs @ ys))" "H ! t ! i \<notin> set (filter (\<lambda>h. h \<noteq> 0xFF) (xs @ ys))"
    using ok i(2) by (auto simp: table_ok_def s(1))
  have "unat h < 32 \<and> A[unat (H ! t ! i) := False] ! unat h" if "h \<in> set (xs @ ys)" "h \<noteq> 0xFF" for h
  proof -
    have "h \<noteq> H ! t ! i" using that d(2) by auto
    then have "unat h \<noteq> unat (H ! t ! i)" by (auto dest: word_unat_eq_iff [THEN iffD2])
    moreover have "unat h < 32 \<and> A ! unat h" using ok that by (auto simp: table_ok_def s(1))
    ultimately show ?thesis by simp
  qed
  then show ?thesis
    using table_shape [OF ok t l(2)] ok d unfolding table_ok_def s(2) by simp
qed

text \<open>The end of a task: its files are closed one after the other.\<close>

definition clear_acts :: "u8 list \<Rightarrow> bool list \<Rightarrow> bool list" where
  "clear_acts hs A = fold (\<lambda>h A. if h \<noteq> 0xFF \<and> unat h < 32 then A[unat h := False] else A) hs A"

lemma close_handles_acts: "acts (close_handles hs f) = clear_acts hs (acts f)"
proof (induction hs arbitrary: f)
  case (Cons h hs)
  have "nat (uint h) < 32 \<longleftrightarrow> uint h < 32" by (simp add: nat_less_iff del: nat_uint_eq)
  then have "uint h < 32 \<longleftrightarrow> unat h < 32" by simp
  then show ?case using Cons by (simp add: close_handles_def clear_acts_def close_acts)
qed (simp add: close_handles_def clear_acts_def)

lemma clear_acts_nth: "length (clear_acts hs A) = length A"
  "(\<And>h. h \<in> set hs \<Longrightarrow> h \<noteq> 0xFF \<Longrightarrow> unat h \<noteq> n) \<Longrightarrow> clear_acts hs A ! n = A ! n"
  by (induction hs arbitrary: A) (simp_all add: clear_acts_def)

lemma table_clear:
  assumes ok: "table_ok H A" and t: "t < length H"
  shows "table_ok (H[t := no_handles]) (clear_acts (drop 5 (H ! t)) A)"
proof -
  have c: "concat H = concat (take t H) @ H ! t @ concat (drop (Suc t) H)"
    using arg_cong [OF id_take_nth_drop [OF t], of concat] by simp
  have c': "concat (H[t := no_handles]) = concat (take t H) @ no_handles @ concat (drop (Suc t) H)"
    using t by (simp add: upd_conv_take_nth_drop)
  let ?P = "concat (take t H)" and ?S = "concat (drop (Suc t) H)"
  have ff: "filter (\<lambda>h. h \<noteq> 0xFF) no_handles = []" by (simp add: no_handles_def)
  have sep: "h \<notin> set (H ! t)" if "h \<in> set (?P @ ?S)" "h \<noteq> 0xFF" for h
    using ok that unfolding table_ok_def c by (auto simp del: set_concat concat_append)
  have "unat h < 32 \<and> clear_acts (drop 5 (H ! t)) A ! unat h" if h: "h \<in> set (?P @ ?S)" "h \<noteq> 0xFF" for h
  proof -
    have "unat g \<noteq> unat h" if "g \<in> set (drop 5 (H ! t))" for g
      using sep [OF h] in_set_dropD [OF that] by (auto dest: word_unat_eq_iff [THEN iffD2])
    moreover have "unat h < 32 \<and> A ! unat h" using ok h unfolding table_ok_def c by auto
    ultimately show ?thesis by (simp add: clear_acts_nth)
  qed
  moreover have "distinct (filter (\<lambda>h. h \<noteq> 0xFF) (?P @ ?S))" using ok unfolding table_ok_def c by auto
  moreover have "\<forall>hm \<in> set (H[t := no_handles]). length hm = 20 \<and> (\<forall>i < 5. hm ! i = 0xFF)"
    using ok set_update_subset_insert [of H t no_handles] by (auto simp: table_ok_def no_handles_def DOS_MAX_HANDLES_def)
  ultimately show ?thesis
    using ok unfolding table_ok_def c' by (auto simp: ff clear_acts_nth(1) no_handles_def)
qed

section \<open>INT 21h and the handle tables\<close>

lemma ok_put_lin [simp]: "handles_ok (kern (put_lin m s)) = handles_ok (kern s)"
  by (simp add: put_lin_def)

lemma ok_put_fat: "acts f = acts (dfat s) \<Longrightarrow> handles_ok (kern (put_fat f s)) = handles_ok (kern s)"
  by (simp add: put_fat_def handles_ok_def hmaps_def dfat_def)

lemma ok_upd_dtask [simp]:
  assumes "\<And>d. d_active (g d) = d_active d" "\<And>d. handle_map (g d) = handle_map d"
  shows "handles_ok (kern (upd_dtask t g s)) = handles_ok (kern s)"
proof -
  have "hmaps (kern (upd_dtask t g s)) = hmaps (kern s)"
  proof (cases "t < length (dos_tasks (kern s))")
    case True
    show ?thesis
      by (rule nth_equalityI) (use assms True in \<open>auto simp: hmaps_def upd_dtask_def dtask_def nth_list_update\<close>)
  qed (simp add: hmaps_def upd_dtask_def list_update_beyond)
  then show ?thesis by (simp add: handles_ok_def upd_dtask_def)
qed

lemma hmaps_set_map:
  assumes "t < length (dos_tasks (kern s))" "d_active (dtask t s)"
  shows "hmaps (kern (upd_dtask t (\<lambda>k. k\<lparr>handle_map := hm k\<rparr>) s)) = (hmaps (kern s))[t := hm (dtask t s)]"
  by (rule nth_equalityI) (use assms in \<open>auto simp: hmaps_def upd_dtask_def dtask_def nth_list_update\<close>)

lemma ok_task:
  assumes "handles_ok (kern s)" "t < DOS_MAX_TASKS" "d_active (dtask t s)"
  shows "t < length (dos_tasks (kern s))" "t < length (hmaps (kern s))" "hmaps (kern s) ! t = handle_map (dtask t s)"
    "length (handle_map (dtask t s)) = 20" "length (acts (dfat s)) = 32"
proof -
  show l: "t < length (dos_tasks (kern s))" "t < length (hmaps (kern s))" "hmaps (kern s) ! t = handle_map (dtask t s)"
    using assms by (simp_all add: handles_ok_def hmaps_def dtask_def)
  then have "handle_map (dtask t s) \<in> set (hmaps (kern s))" by (metis nth_mem)
  then show "length (handle_map (dtask t s)) = 20" "length (acts (dfat s)) = 32"
    using assms(1) by (simp_all add: handles_ok_def table_ok_def dfat_def)
qed

lemma open_with_ok:
  assumes ok: "handles_ok (kern s)" and t: "t < DOS_MAX_TASKS" "d_active (dtask t s)"
    and op: "dos_open_with t path mode err r s = Some (c, r', s')"
  shows "handles_ok (kern s')"
proof -
  note tk = ok_task [OF ok t]
  obtain h f1 where f: "fat_open path mode (dfat s) = Some (h, f1)" using op by (auto simp: dos_open_with_def split: option.splits)
  have o: "opened (acts (dfat s)) h (acts f1)" using fat_open_opened [OF f] .
  obtain d hm where al: "alloc_dos_handle (handle_map (dtask t s)) h = (d, hm)" by fastforce
  have ev: "s' = (if h < 0 then put_fat f1 s else if d < 0 then put_fat (snd (fat_close h f1)) (put_fat f1 s)
      else upd_dtask t (\<lambda>k. k\<lparr>handle_map := hm\<rparr>) (put_fat f1 s))"
    using op f al by (auto simp: dos_open_with_def ret_def Let_def split: if_splits)
  consider "h < 0" | "0 \<le> h" "d < 0" | "0 \<le> h" "0 \<le> d" by linarith
  then show ?thesis
  proof cases
    case 1
    then show ?thesis using ok o by (simp add: ev ok_put_fat opened_def)
  next
    case 2
    have "acts (snd (fat_close h f1)) = acts (dfat s)" using opened_closed [OF o tk(5)] .
    moreover have "put_fat (snd (fat_close h f1)) (put_fat f1 s) = put_fat (snd (fat_close h f1)) s" by (simp add: put_fat_def)
    ultimately show ?thesis using 2 ok by (simp add: ev ok_put_fat)
  next
    case 3
    obtain i where i: "find (\<lambda>i. handle_map (dtask t s) ! i = 0xFF) [5..<DOS_MAX_HANDLES] = Some i" "d = int i"
        "hm = (handle_map (dtask t s))[i := of_int h]"
      using al 3 by (auto simp: alloc_dos_handle_def split: option.splits)
    have fi: "5 \<le> i" "i < 20" "handle_map (dtask t s) ! i = 0xFF"
      using i(1) by (auto simp: find_Some_iff) (simp add: DOS_MAX_HANDLES_def)
    have "table_ok ((hmaps (kern s))[t := (hmaps (kern s) ! t)[i := of_nat (nat h)]]) (acts f1)"
      by (rule table_open [where A = "acts (dfat s)"]) (use ok tk fi o 3 in \<open>simp_all add: handles_ok_def dfat_def\<close>)
    moreover have "(of_nat (nat h) :: u8) = of_int h" using 3 by simp
    moreover have "hmaps (kern s') = (hmaps (kern s))[t := hm]"
      using hmaps_set_map [of t "put_fat f1 s" "\<lambda>_. hm"] tk 3 t by (simp add: ev) (simp add: put_fat_def hmaps_def)
    moreover have "fat (kern s') = f1" "length (dos_tasks (kern s')) = length (dos_tasks (kern s))"
      using 3 by (simp_all add: ev upd_dtask_def put_fat_def)
    ultimately show ?thesis using ok tk(3) i(3) by (simp add: handles_ok_def)
  qed
qed

lemma close_ok:
  assumes ok: "handles_ok (kern s)" and t: "t < DOS_MAX_TASKS" "d_active (dtask t s)" and cl: "int21_3E t r s = Some (c, r', s')"
  shows "handles_ok (kern s')"
proof -
  note tk = ok_task [OF ok t]
  define h where "h = bx_handle r"
  define fh where "fh = dos_to_fat_handle (handle_map (dtask t s)) h"
  show ?thesis
  proof (cases "fh < 0")
    case True
    then show ?thesis using cl ok by (simp add: int21_3E_def Let_def ret_def flip: h_def fh_def)
  next
    case False
    then have hh: "0 \<le> h" "nat h < 20" "handle_map (dtask t s) ! nat h \<noteq> 0xFF" "fh = uint (handle_map (dtask t s) ! nat h)"
      by (auto simp: fh_def dos_to_fat_handle_def DOS_MAX_HANDLES_def split: if_splits)
    have ev: "s' = upd_dtask t (\<lambda>k. k\<lparr>handle_map := (handle_map k)[nat h := 0xFF]\<rparr>) (put_fat (snd (fat_close fh (dfat s))) s)"
      using cl False by (simp add: int21_3E_def Let_def ret_def flip: h_def fh_def)
    have un: "unat (handle_map (dtask t s) ! nat h) < 32"
      using ok tk hh nth_mem [of "nat h" "handle_map (dtask t s)"] nth_mem [OF tk(2)] by (auto simp: handles_ok_def table_ok_def)
    have lt: "fh < 32" using un hh(4) by (metis nat_less_iff nat_uint_eq of_nat_numeral uint_ge_0)
    have ac: "acts (snd (fat_close fh (dfat s))) = (acts (dfat s))[unat (handle_map (dtask t s) ! nat h) := False]"
      using lt False hh(4) by (simp add: close_acts)
    have "table_ok ((hmaps (kern s))[t := (hmaps (kern s) ! t)[nat h := 0xFF]]) ((acts (dfat s))[unat (hmaps (kern s) ! t ! nat h) := False])"
      by (rule table_close) (use ok tk hh in \<open>simp_all add: handles_ok_def dfat_def\<close>)
    moreover have "hmaps (kern s') = (hmaps (kern s))[t := (handle_map (dtask t s))[nat h := 0xFF]]"
      using hmaps_set_map [of t "put_fat (snd (fat_close fh (dfat s))) s" "\<lambda>k. (handle_map k)[nat h := 0xFF]"] tk t
      by (simp add: ev) (simp add: put_fat_def hmaps_def)
    moreover have "fat (kern s') = snd (fat_close fh (dfat s))" "length (dos_tasks (kern s')) = length (dos_tasks (kern s))"
      by (simp_all add: ev upd_dtask_def put_fat_def)
    ultimately show ?thesis using ok tk(3) ac by (simp add: handles_ok_def)
  qed
qed

text \<open>
  The console hooks may let other tasks run. What is asked of them is that they keep the invariant, and that the calling task
  stays alive.
\<close>

definition console_ok :: "dos_env \<Rightarrow> bool" where
  "console_ok env \<longleftrightarrow>
     (\<forall>t c s. handles_ok (kern s) \<longrightarrow> handles_ok (kern (con_putc env t c s))) \<and>
     (\<forall>t s c s'. con_getc env t s = Some (c, s') \<longrightarrow> handles_ok (kern s) \<longrightarrow> handles_ok (kern s'))"

lemma con_putc_ok: "console_ok env \<Longrightarrow> handles_ok (kern s) \<Longrightarrow> handles_ok (kern (con_putc env t c s))"
  by (simp add: console_ok_def)

lemma con_getc_ok: "console_ok env \<Longrightarrow> con_getc env t s = Some (c, s') \<Longrightarrow> handles_ok (kern s) \<Longrightarrow> handles_ok (kern s')"
  by (auto simp: console_ok_def)

lemma dollar_out_ok: "console_ok env \<Longrightarrow> handles_ok (kern s) \<Longrightarrow> handles_ok (kern (dollar_out env t a n s))"
  by (induction env t a n s rule: dollar_out.induct) (auto simp: con_putc_ok)

lemma console_out_ok: "console_ok env \<Longrightarrow> handles_ok (kern s) \<Longrightarrow> handles_ok (kern (console_out env t a n s))"
  by (induction env t a n s rule: console_out.induct) (auto simp: con_putc_ok)

lemma line_input_ok:
  assumes env: "console_ok env" and "line_input env t a mx n s = Some y"
  shows "handles_ok (kern s) \<longrightarrow> handles_ok (kern (snd y))"
  using assms(2)
proof (rule line_input.raw_induct [where P = "\<lambda>e t a mx n s y. e = env \<longrightarrow> handles_ok (kern s) \<longrightarrow> handles_ok (kern (snd y))",
      THEN mp, OF _ _ refl, rotated], goal_cases)
  case (1 rec e t a mx n s y)
  have ih: "handles_ok (kern (snd y))" if "rec env t a mx k u = Some y" "handles_ok (kern u)" for k u
    using 1(1) that by blast
  show ?case
  proof (cases "con_getc e t s")
    case None
    then show ?thesis using 1(2) by (auto split: if_splits)
  next
    case (Some p)
    obtain ch s1 where p: "p = (ch, s1)" by fastforce
    show ?thesis
    proof (intro impI)
      assume e: "e = env" and ok: "handles_ok (kern s)"
      have o1: "handles_ok (kern s1)" using con_getc_ok [OF env] Some p e ok by blast
      show "handles_ok (kern (snd y))"
        using 1(2) Some p e ok o1 by (auto split: if_splits simp: con_putc_ok [OF env] elim!: ih)
    qed
  qed
qed

lemma stdin_read_ok:
  assumes env: "console_ok env"
  shows "handles_ok (kern s) \<Longrightarrow> stdin_read env t a n i s = Some (j, s') \<Longrightarrow> handles_ok (kern s')"
proof (induction n arbitrary: i s)
  case (Suc n)
  obtain ch s1 where g: "con_getc env t s = Some (ch, s1)" using Suc.prems(2) by (auto split: option.splits)
  have o1: "handles_ok (kern s1)" using con_getc_ok [OF env g Suc.prems(1)] .
  show ?case
    using Suc.prems(2) g o1 by (auto simp: Let_def con_putc_ok [OF env] split: if_splits elim!: Suc.IH [rotated])
qed simp

lemma int21_console_ok:
  assumes "console_ok env" "handles_ok (kern s)" "int21_console env t ah r s = Some (c, r', s')"
  shows "handles_ok (kern s')"
  using assms line_input_ok [OF assms(1)]
  by (fastforce simp: int21_console_def ret_def Let_def split: if_splits option.splits prod.splits intro: con_putc_ok con_getc_ok dollar_out_ok)

lemmas fat_calls_acts = delete_acts rmdir_acts mkdir_acts path_acts read_acts write_acts

lemma dos_path_call_ok:
  assumes "\<And>p f x f'. op p f = Some (x, f') \<Longrightarrow> acts f' = acts f" "handles_ok (kern s)" "dos_path_call op e r s = Some (c, r', s')"
  shows "handles_ok (kern s')"
  using assms by (auto simp: dos_path_call_def ret_def ok_put_fat split: option.splits if_splits)

lemma open_close_ok:
  assumes "handles_ok (kern s)" "fat_open p mode (dfat s) = Some (fd, f1)" "acts f2 = acts f1"
  shows "handles_ok (kern (put_fat (snd (fat_close fd f2)) s))" "fd < 0 \<Longrightarrow> handles_ok (kern (put_fat f1 s))"
    "acts (snd (fat_close fd f2)) = acts (dfat s)"
proof -
  have l: "length (acts (dfat s)) = 32" using assms(1) by (simp add: handles_ok_def table_ok_def dfat_def)
  note o = fat_open_opened [OF assms(2)]
  show a: "acts (snd (fat_close fd f2)) = acts (dfat s)" using opened_closed [of "acts (dfat s)" fd f2] o l assms(3) by simp
  then show "handles_ok (kern (put_fat (snd (fat_close fd f2)) s))" using assms(1) by (simp add: ok_put_fat)
  show "handles_ok (kern (put_fat f1 s))" if "fd < 0" using o that assms(1) by (auto simp: opened_def ok_put_fat)
qed

lemma int21_file_ok:
  assumes env: "console_ok env" and ok: "handles_ok (kern s)" and t: "t < DOS_MAX_TASKS" "d_active (dtask t s)"
    and ev: "int21_file env t ah r s = Some (c, r', s')"
  shows "handles_ok (kern s')"
proof -
  have rd: "handles_ok (kern s')" if "int21_3F env t r s = Some (c, r', s')"
    using that ok stdin_read_ok [OF env ok]
    by (auto simp: int21_3F_def Let_def ret_def ok_put_fat split: if_splits option.splits prod.splits dest: read_acts)
  have wr: "handles_ok (kern s')" if "int21_40 env t r s = Some (c, r', s')"
    using that ok console_out_ok [OF env ok]
    by (auto simp: int21_40_def Let_def ret_def ok_put_fat split: if_splits prod.splits dest: write_acts)
  have sk: "handles_ok (kern s')" if "int21_42 t r s = Some (c, r', s')"
    using that ok by (auto simp: int21_42_def Let_def ret_def ok_put_fat seek_acts split: if_splits)
  have at: "handles_ok (kern s')" if "int21_43 r s = Some (c, r', s')"
    using that ok open_close_ok [OF ok]
    by (fastforce simp: int21_43_def ret_def split: if_splits option.splits prod.splits)
  have ff: "handles_ok (kern s')" if "int21_4E env t r s = Some (c, r', s')"
    using that ok by (auto simp: int21_4E_def Let_def ret_def ok_put_fat split: if_splits option.splits prod.splits dest!: path_acts(3))
  have fn: "handles_ok (kern s')" if "int21_4F env t r s = Some (c, r', s')"
    using that ok by (auto simp: int21_4F_def Let_def ret_def ok_put_fat split: if_splits option.splits prod.splits dest!: path_acts(4))
  have rn: "handles_ok (kern s')" if "int21_56 r s = Some (c, r', s')"
    using that ok by (auto simp: int21_56_def ret_def ok_put_fat split: if_splits option.splits prod.splits dest!: path_acts(1))
  have dt: "handles_ok (kern s')" if "int21_57 t r s = Some (c, r', s')"
    using that ok datetime_acts [of _ "dfat s"]
    by (auto simp: int21_57_def Let_def ret_def split: if_splits prod.splits intro!: ok_put_fat [THEN iffD2]) (metis snd_conv)+
  have cw: "handles_ok (kern s')" if "int21_47 env r s = Some (c, r', s')"
    using that ok by (auto simp: int21_47_def Let_def ret_def)
  have pc: "handles_ok (kern s')" if "dos_path_call op e r s = Some (c, r', s')" "op \<in> {fat_delete, fat_mkdir, fat_rmdir, fat_chdir}" for op e
    by (rule dos_path_call_ok [OF _ ok that(1)]) (use that(2) in \<open>auto dest: delete_acts mkdir_acts rmdir_acts path_acts\<close>)
  have op: "handles_ok (kern s')" if "dos_open_with t path mode e r s = Some (c, r', s')" for path mode e
    using open_with_ok [OF ok t that] .
  show ?thesis
    using ev rd wr sk at ff fn rn dt cw pc op close_ok [OF ok t, of r c r' s']
    unfolding int21_file_def int21_3C_def int21_3D_def by (auto split: if_splits)
qed

lemma exec_image_acts:
  assumes ok: "handles_ok (kern s)" and f: "acts f = acts (dfat s)"
  shows "exec_exe env pn ct es psp blk ft pp f m = Some (ent, f', m') \<Longrightarrow> acts f' = acts (dfat s)"
    "exec_com pn ct es psp blk ft pp f m = Some (ent, f', m') \<Longrightarrow> acts f' = acts (dfat s)"
proof -
  have l: "length (acts (dfat s)) = 32" using ok by (simp add: handles_ok_def table_ok_def dfat_def)
  have cl: "acts (snd (fat_close fd f2)) = acts (dfat s)" if "fat_open p md f = Some (fd, f1)" "acts f2 = acts f1" for p md fd f1 f2
    using opened_closed [of "acts (dfat s)" fd f2] fat_open_opened [OF that(1)] l f that(2) by simp
  show "acts f' = acts (dfat s)" if "exec_com pn ct es psp blk ft pp f m = Some (ent, f', m')"
    using that cl by (auto simp: exec_com_def Let_def split: option.splits prod.splits dest: read_acts)
  assume ex: "exec_exe env pn ct es psp blk ft pp f m = Some (ent, f', m')"
  obtain efd f1 where o: "fat_open pn 0 f = Some (efd, f1)" using ex by (auto simp: exec_exe_def split: option.splits)
  obtain k hb f2 where hd: "fat_read_buf efd (take 28 (junk env)) f1 = (k, hb, f2)" by (metis prod_cases3)
  let ?h = "mz_of hb"
  obtain tot m1 where mc: "exec_exe_mcbs psp (exec_exe_paras ?h blk) blk ft m = (tot, m1)" by fastforce
  obtain n bs f3 where rd: "fat_read efd (image_size ?h) (snd (fat_seek efd (header_size ?h) f2)) = (n, bs, f3)" by (metis prod_cases3)
  have a3: "acts f3 = acts f1" using read_buf_acts [OF hd] read_acts [OF rd] by (simp add: seek_acts)
  have "\<exists>f4. acts f4 = acts f1 \<and> f' = snd (fat_close efd f4)"
    using ex a3 apply_relocs_acts [of "unat (num_relocs ?h)" efd "psp + 0x10" "take 4 (junk env)" "snd (fat_seek efd (ucast (reloc_offset ?h)) f3)"]
    by (auto simp: exec_exe_def Let_def o hd mc rd seek_acts split: if_splits prod.splits) (metis fst_conv)+
  then show "acts f' = acts (dfat s)" using cl [OF o] by blast
qed

lemma int21_4B_ok:
  assumes ok: "handles_ok (kern s)" and ev: "int21_4B env t r s = Some (c, r', s')"
  shows "handles_ok (kern s')"
proof -
  define p where "p = v86_read_asciiz (v86_ptr (r_ds r) (r_edx r)) 128 (lin s)"
  obtain fd f1 where o: "fat_open p 0 (dfat s) = Some (fd, f1)" using ev by (auto simp: int21_4B_def Let_def p_def split: option.splits)
  obtain k sig f2 where sg: "fat_read_buf fd (take 2 (junk env)) f1 = (k, sig, f2)" by (metis prod_cases3)
  define f3 where "f3 = snd (fat_close fd f2)"
  note oc = open_close_ok [OF ok o read_buf_acts [OF sg], folded f3_def]
  have img: "handles_ok (kern (upd_dtask t (\<lambda>k. k\<lparr>psp_seg := a1, dta_seg := a2, dta_off := a3, next_alloc_seg := a4\<rparr>)
        (put_lin m (put_fat f (s\<lparr>parent := a5, child := a6\<rparr>)))))" if "acts f = acts (dfat s)" for a1 a2 a3 a4 a5 a6 f m
  proof -
    have "handles_ok (kern (put_fat f (s\<lparr>parent := a5, child := a6\<rparr>))) = handles_ok (kern (s\<lparr>parent := a5, child := a6\<rparr>))"
      using that by (intro ok_put_fat) (simp add: dfat_def)
    then show ?thesis using ok by simp
  qed
  show ?thesis
    using ev oc(1,2) img exec_image_acts [OF ok oc(3)]
    unfolding int21_4B_def Let_def p_def [symmetric] o option.case prod.case sg f3_def [symmetric] ret_def
    by (auto split: if_splits option.splits prod.splits)
qed

lemma int21_4C_ok: "handles_ok (kern s) \<Longrightarrow> int21_4C t r s = Some (c, r', s') \<Longrightarrow> handles_ok (kern s')"
  by (auto simp: int21_4C_def Let_def ret_def split: if_splits option.splits)

lemma int21_space_ok:
  assumes "handles_ok (kern s)"
  shows "int21_36 r s = Some (c, r', s') \<Longrightarrow> handles_ok (kern s')" "int21_73 r s = Some (c, r', s') \<Longrightarrow> handles_ok (kern s')"
proof -
  have a: "acts f2 = acts f" if "fat_count_free_clusters f = (n, f2)" for f n f2
    using count_free_acts [of f] that by simp
  show "int21_36 r s = Some (c, r', s') \<Longrightarrow> handles_ok (kern s')" "int21_73 r s = Some (c, r', s') \<Longrightarrow> handles_ok (kern s')"
    using assms by (auto simp: int21_36_def int21_73_def Let_def ret_def ok_put_fat split: if_splits prod.splits dest!: a)
qed

lemma int21_rest_ok:
  assumes "handles_ok (kern s)"
  shows "int21_task t ah r s = Some (c, r', s') \<Longrightarrow> handles_ok (kern s')" "int21_drive ah r s = Some (c, r', s') \<Longrightarrow> handles_ok (kern s')"
    "int21_misc ah r s = Some (c, r', s') \<Longrightarrow> handles_ok (kern s')" "int21_date_time env ah r s = Some (c, r', s') \<Longrightarrow> handles_ok (kern s')"
    "int21_vectors ah r s = Some (c, r', s') \<Longrightarrow> handles_ok (kern s')" "int21_country ah r s = Some (c, r', s') \<Longrightarrow> handles_ok (kern s')"
    "int21_52 r s = Some (c, r', s') \<Longrightarrow> handles_ok (kern s')" "int21_69 r s = Some (c, r', s') \<Longrightarrow> handles_ok (kern s')"
    "int21_29 r s = Some (c, r', s') \<Longrightarrow> handles_ok (kern s')" "int21_48 t r s = Some (c, r', s') \<Longrightarrow> handles_ok (kern s')"
    "int21_49 r s = Some (c, r', s') \<Longrightarrow> handles_ok (kern s')" "int21_4A r s = Some (c, r', s') \<Longrightarrow> handles_ok (kern s')"
proof -
  show "int21_task t ah r s = Some (c, r', s') \<Longrightarrow> handles_ok (kern s')"
    using assms by (auto simp: int21_task_def ret_def split: if_splits)
  show "int21_drive ah r s = Some (c, r', s') \<Longrightarrow> handles_ok (kern s')"
    using assms by (auto simp: int21_drive_def Let_def ret_def ok_put_fat split: if_splits)
  show "int21_misc ah r s = Some (c, r', s') \<Longrightarrow> handles_ok (kern s')"
    using assms unfolding int21_misc_def ret_def by (simp only: split: if_splits) auto
  show "int21_date_time env ah r s = Some (c, r', s') \<Longrightarrow> handles_ok (kern s')"
    using assms by (auto simp: int21_date_time_def ret_def split: if_splits option.splits prod.splits)
  show "int21_vectors ah r s = Some (c, r', s') \<Longrightarrow> handles_ok (kern s')"
    using assms by (auto simp: int21_vectors_def Let_def ret_def split: if_splits)
  show "int21_country ah r s = Some (c, r', s') \<Longrightarrow> handles_ok (kern s')"
    using assms by (auto simp: int21_country_def ret_def split: if_splits)
  show "int21_52 r s = Some (c, r', s') \<Longrightarrow> handles_ok (kern s')" "int21_69 r s = Some (c, r', s') \<Longrightarrow> handles_ok (kern s')"
    using assms by (auto simp: int21_52_def int21_69_def Let_def ret_def split: if_splits)
  show "int21_29 r s = Some (c, r', s') \<Longrightarrow> handles_ok (kern s')"
    using assms by (auto simp: int21_29_def Let_def ret_def split: option.splits prod.splits)
  show "int21_48 t r s = Some (c, r', s') \<Longrightarrow> handles_ok (kern s')"
    using assms by (auto simp: int21_48_def ret_def split: option.splits prod.splits)
  show "int21_49 r s = Some (c, r', s') \<Longrightarrow> handles_ok (kern s')" "int21_4A r s = Some (c, r', s') \<Longrightarrow> handles_ok (kern s')"
    using assms by (auto simp: int21_49_def int21_4A_def ret_def split: option.splits sum.splits mcb_error.splits)
qed

lemma dos_int21_ok:
  assumes env: "console_ok env" and ok: "handles_ok (kern s)" and ev: "dos_int21 env task_id r s = Some (c, r', s')"
  shows "handles_ok (kern s')"
proof (cases "0 \<le> task_id \<and> task_id < int DOS_MAX_TASKS \<and> d_active (dtask (nat task_id) s)")
  case False
  then show ?thesis using ev ok by (auto simp: dos_int21_def Let_def ret_def split: if_splits)
next
  case True
  define t where "t = nat task_id"
  have t: "t < DOS_MAX_TASKS" "d_active (dtask t s)" using True by (auto simp: t_def nat_less_iff)
  have oc: "handles_ok (kern s')" if "int21_0C env t r s = Some (c, r', s')"
    using that ok int21_console_ok [OF env ok] by (auto simp: int21_0C_def ret_def split: if_splits option.splits)
  note each = int21_console_ok [OF env ok, of t _ r c r' s'] oc int21_file_ok [OF env ok t, of _ r c r' s'] int21_4B_ok [OF ok, of env t r c r' s']
    int21_4C_ok [OF ok, of t r c r' s'] int21_space_ok [OF ok, of r c r' s'] int21_rest_ok [OF ok]
  have nf: "\<not> (task_id < 0 \<or> task_id \<ge> int DOS_MAX_TASKS)" using True by auto
  show ?thesis
    using ev unfolding dos_int21_def Let_def if_not_P [OF nf] t_def [symmetric]
    using t(2) by (simp only: not_True_eq_False if_False split: if_splits) (blast intro: each)+
qed

section \<open>Histories\<close>

text \<open>What changes the handles: INT 21h calls, and tasks that start and end.\<close>

inductive dos_step :: "dos_env \<Rightarrow> dos_state \<Rightarrow> dos_state \<Rightarrow> bool" for env where
  Int21: "dos_int21 env task_id r s = Some (c, r', s') \<Longrightarrow> dos_step env s s'"
| Create: "dos_create_task (kern s) = (task_id, k) \<Longrightarrow> dos_step env s (s\<lparr>kern := k\<rparr>)"
| Destroy: "t < DOS_MAX_TASKS \<Longrightarrow> d_active (dtask t s) \<Longrightarrow> dos_step env s (s\<lparr>kern := dos_destroy_task (int t) (kern s)\<rparr>)"

definition no_files :: "kernel \<Rightarrow> bool" where
  "no_files k \<longleftrightarrow> length (dos_tasks k) = DOS_MAX_TASKS \<and> (\<forall>d \<in> set (dos_tasks k). \<not> d_active d) \<and>
     length (handles (fat k)) = FAT_MAX_HANDLES"

lemma no_files_ok: "no_files k \<Longrightarrow> handles_ok k"
proof -
  assume nf: "no_files k"
  have h: "hm = no_handles" if "hm \<in> set (hmaps k)" for hm using nf that by (auto simp: hmaps_def no_files_def)
  then have "x = 0xFF" if "x \<in> set (concat (hmaps k))" for x using that by (fastforce simp: no_handles_def)
  then have "filter (\<lambda>x. x \<noteq> 0xFF) (concat (hmaps k)) = []" "\<forall>x \<in> set (concat (hmaps k)). x \<noteq> 0xFF \<longrightarrow> unat x < 32 \<and> acts (fat k) ! unat x"
    by (auto simp: filter_empty_conv)
  moreover have "\<forall>hm \<in> set (hmaps k). length hm = 20 \<and> (\<forall>i < 5. hm ! i = 0xFF)"
    by (intro ballI) (drule h, simp add: no_handles_def DOS_MAX_HANDLES_def)
  moreover have "length (acts (fat k)) = 32" using nf by (simp add: no_files_def acts_def FAT_MAX_HANDLES_def)
  ultimately show ?thesis using nf by (simp add: handles_ok_def table_ok_def no_files_def)
qed

lemma create_ok:
  assumes "handles_ok k" "dos_create_task k = (task_id, k')"
  shows "handles_ok k'"
proof (cases "find_slot (\<lambda>d. \<not> d_active d) (dos_tasks k)")
  case None
  then show ?thesis using assms by (simp add: dos_create_task_def)
next
  case (Some i)
  note i = find_slot_SomeD [OF Some]
  have "hmaps k' = hmaps k"
    by (rule nth_equalityI) (use assms(2) Some i in \<open>auto simp: dos_create_task_def hmaps_def nth_list_update no_handles_def split: if_splits\<close>)
  then show ?thesis using assms Some by (auto simp: handles_ok_def dos_create_task_def)
qed

lemma destroy_ok:
  assumes ok: "handles_ok (kern s)" and t: "t < DOS_MAX_TASKS" "d_active (dtask t s)"
  shows "handles_ok (dos_destroy_task (int t) (kern s))"
proof -
  note tk = ok_task [OF ok t]
  let ?k = "dos_destroy_task (int t) (kern s)"
  have f: "acts (fat ?k) = clear_acts (drop 5 (hmaps (kern s) ! t)) (acts (fat (kern s)))"
    using t tk(3) by (simp add: dos_destroy_task_def close_handles_acts dtask_def Let_def)
  have "hmaps ?k = (hmaps (kern s))[t := no_handles]"
    by (rule nth_equalityI) (use t(1) tk(1) in \<open>auto simp: dos_destroy_task_def hmaps_def nth_list_update Let_def\<close>)
  moreover have "length (dos_tasks ?k) = length (dos_tasks (kern s))" by (simp add: dos_destroy_task_def Let_def)
  ultimately show ?thesis
    using table_clear [of "hmaps (kern s)" "acts (fat (kern s))" t] ok tk(2) f by (simp add: handles_ok_def)
qed

lemma dos_step_ok: "dos_step env s s' \<Longrightarrow> console_ok env \<Longrightarrow> handles_ok (kern s) \<Longrightarrow> handles_ok (kern s')"
  by (induction rule: dos_step.induct) (auto intro: dos_int21_ok create_ok destroy_ok)

lemma dos_steps_ok: "(dos_step env)\<^sup>*\<^sup>* s s' \<Longrightarrow> console_ok env \<Longrightarrow> handles_ok (kern s) \<Longrightarrow> handles_ok (kern s')"
  by (induction rule: rtranclp_induct) (auto intro: dos_step_ok)

text \<open>Two places of the maps that hold the same handle are the same place.\<close>

lemma table_unique:
  assumes ok: "table_ok H A" and t: "t < length H" "i < 20" "u < length H" "j < 20" "H ! t ! i \<noteq> 0xFF" "H ! t ! i = H ! u ! j"
  shows "t = u \<and> i = j"
proof (rule ccontr)
  assume ne: "\<not> (t = u \<and> i = j)"
  define H' where "H' = H[t := (H ! t)[i := 0xFF]]"
  have c: "table_ok H' (A[unat (H ! t ! i) := False])" unfolding H'_def by (rule table_close [OF ok t(1,2,5)])
  have u: "u < length H'" "H' ! u ! j = H ! t ! i" using ne t ok nth_mem [OF t(1)] by (auto simp: H'_def nth_list_update)
  have "length (H' ! u) = 20" using c nth_mem [OF u(1)] by (auto simp: table_ok_def)
  then have "H ! t ! i \<in> set (concat H')" using u t(4) nth_mem [OF u(1)] nth_mem [of j "H' ! u"] by auto
  then have "unat (H ! t ! i) < 32" "A[unat (H ! t ! i) := False] ! unat (H ! t ! i)" using c t(5) by (auto simp: table_ok_def)
  then show False using ok by (simp add: table_ok_def)
qed

text \<open>
  C9. Files of DOS tasks stay apart. Whatever INT 21h calls the tasks make and however tasks start and end, from a state without tasks: a DOS
  handle that a live task has open stands for a file handle that is open in the file system, and two such handles, of one task or of two,
  never stand for the same file handle, so closing one cannot close a file under another. The console hooks, in which other tasks
  may run, are only asked to keep this.
\<close>

theorem dos_handles_isolated:
  assumes "no_files (kern s0)" "console_ok env" "(dos_step env)\<^sup>*\<^sup>* s0 s"
    and t: "t < DOS_MAX_TASKS" "d_active (dtask t s)" "i < DOS_MAX_HANDLES" "handle_map (dtask t s) ! i \<noteq> 0xFF"
  shows "5 \<le> i \<and> get_handle (dos_to_fat_handle (handle_map (dtask t s)) (int i)) (dfat s) \<noteq> None \<and>
    (\<forall>u j. u < DOS_MAX_TASKS \<longrightarrow> d_active (dtask u s) \<longrightarrow> j < DOS_MAX_HANDLES \<longrightarrow>
       dos_to_fat_handle (handle_map (dtask u s)) (int j) = dos_to_fat_handle (handle_map (dtask t s)) (int i) \<longrightarrow> u = t \<and> j = i)"
proof -
  have ok: "handles_ok (kern s)" using dos_steps_ok [OF assms(3,2) no_files_ok [OF assms(1)]] .
  then have tab: "table_ok (hmaps (kern s)) (acts (dfat s))" by (simp add: handles_ok_def dfat_def)
  note tk = ok_task [OF ok t(1,2)]
  have i: "i < 20" using t(3) by (simp add: DOS_MAX_HANDLES_def)
  let ?h = "handle_map (dtask t s) ! i"
  have hm: "handle_map (dtask t s) \<in> set (hmaps (kern s))" using tk(2,3) by (metis nth_mem)
  have low: "5 \<le> i" using tab hm t(4) by (auto simp: table_ok_def not_less [symmetric])
  have "?h \<in> set (concat (hmaps (kern s)))" using hm i tk(4) by (metis UN_I nth_mem set_concat)
  then have a: "unat ?h < 32" "acts (dfat s) ! unat ?h" using tab t(4) by (auto simp: table_ok_def)
  have fh: "dos_to_fat_handle (handle_map (dtask t s)) (int i) = uint ?h" using t(3,4) by (simp add: dos_to_fat_handle_def)
  have "uint ?h < 32" using a(1) by (metis nat_less_iff nat_uint_eq of_nat_numeral uint_ge_0)
  then have g: "get_handle (uint ?h) (dfat s) \<noteq> None"
    using a tk(5) by (simp add: get_handle_def acts_def FAT_MAX_HANDLES_def)
  have un: "u = t \<and> j = i" if u: "u < DOS_MAX_TASKS" "d_active (dtask u s)" "j < DOS_MAX_HANDLES"
      "dos_to_fat_handle (handle_map (dtask u s)) (int j) = uint ?h" for u j
  proof -
    note uk = ok_task [OF ok u(1,2)]
    have "uint (handle_map (dtask u s) ! j) = uint ?h"
      using u(3,4) by (auto simp: dos_to_fat_handle_def split: if_splits) (metis uint_ge_0 neg_0_le_iff_le not_one_le_zero)
    then have "handle_map (dtask u s) ! j = ?h" by (simp only: word_uint_eq_iff)
    then have eq: "hmaps (kern s) ! t ! i = hmaps (kern s) ! u ! j" using tk(3) uk(3) by metis
    have j: "j < 20" and ne: "hmaps (kern s) ! t ! i \<noteq> 0xFF" using u(3) t(4) tk(3) by (auto simp only: DOS_MAX_HANDLES_def)
    show ?thesis using table_unique [OF tab tk(2) i uk(2) j ne eq] by metis
  qed
  show ?thesis unfolding fh using low g un by blast
qed

text \<open>The witness's history: a task starts and opens the file \<open>AB.T\<close>.\<close>

definition demo_boot :: dos_state where
  "demo_boot = demo_com_state\<lparr>kern := (kern demo_com_state)\<lparr>dos_tasks := replicate 8 ((dos_tasks demo_dos ! 0)\<lparr>d_active := False\<rparr>)\<rparr>\<rparr>"

definition demo_started :: dos_state where
  "demo_started = demo_boot\<lparr>kern := snd (dos_create_task (kern demo_boot))\<rparr>"

lemma demo_opened:
  "map_option (\<lambda>(c, r, s). (d_active (dtask 0 s), handle_map (dtask 0 s) ! 5)) (dos_int21 demo_env 0 (demo_regs\<lparr>r_eax := 0x3D00\<rparr>) demo_started) =
   Some (True, 0)"
  by code_simp

theorem dos_handles_isolated_witness:
  "\<exists>s. (dos_step demo_env)\<^sup>*\<^sup>* demo_boot s \<and> handle_map (dtask 0 s) ! 5 = 0 \<and> get_handle 0 (dfat s) \<noteq> None"
proof -
  obtain c r s where o: "dos_int21 demo_env 0 (demo_regs\<lparr>r_eax := 0x3D00\<rparr>) demo_started = Some (c, r, s)"
      "d_active (dtask 0 s)" "handle_map (dtask 0 s) ! 5 = 0"
    using demo_opened by (auto split: option.splits prod.splits)
  have "dos_step demo_env demo_boot demo_started"
    unfolding demo_started_def by (rule dos_step.Create [where task_id = "fst (dos_create_task (kern demo_boot))"]) simp
  with dos_step.Int21 [OF o(1)] have st: "(dos_step demo_env)\<^sup>*\<^sup>* demo_boot s" by (meson converse_rtranclp_into_rtranclp r_into_rtranclp)
  have nf: "no_files (kern demo_boot)"
    by (simp add: no_files_def demo_boot_def demo_com_state_def example_exe_def DOS_MAX_TASKS_def FAT_MAX_HANDLES_def)
  have co: "console_ok demo_env" by (simp add: console_ok_def demo_env_def)
  have "dos_to_fat_handle (handle_map (dtask 0 s)) (int 5) = 0"
    using o(3) by (simp add: dos_to_fat_handle_def DOS_MAX_HANDLES_def)
  then show ?thesis
    using dos_handles_isolated [OF nf co st, of 0 5] o(2,3) st by (auto simp: DOS_MAX_TASKS_def DOS_MAX_HANDLES_def)
qed
end
