(* ===== verification/Spec2Isabelle.thy ===== *)
theory Spec2Isabelle
  imports Prelude Pmm Kheap Fat_Table Fat_Dir Fat_File Fat_Rw Fat_Ops Fat_Mount Dma Paging Spaces Sched Irq Timers Net
    Loopback Resolve Mcb Loader Dos Exec Handles
begin

text \<open>
  Verification of the PineCore kernel, a monolithic 32-bit x86 kernel that runs DOS programs in virtual-8086 tasks under a
  preemptive scheduler, with a FAT file system, loadable modules and sockets. The C sources are under src/src/kernel,
  src/src/include and src/src/modules.

  \<^bold>\<open>How the parts fit together.\<close> The page allocator (pmm.c) hands out 4 KB frames; the pager (vmm.c) builds the kernel's
  page tables from them, and the V86 monitor (v86.c) a private address space for each task that shares the kernel's tables.
  A byte-granular heap (heap.c) and a DMA region with its own bitmap (dma.c) sit beside it. The scheduler (sched.c) is
  driven by the CMOS clock's interrupt (rtc.c, idt.c) and switches stacks and page directories. Block devices are mounted
  (mount.c) and read and written through the FAT code (fat.c) by the shell and the DOS services. Modules hook
  interrupt lines (irq.c over pic.c), timer ticks (pit.c) and disks (int13.c); a network module registers as the
  provider behind the socket calls (net.c), of which the loopback module (loopback.c) is one. A DOS program runs in a V86 task
  with a DOS task slot (dos.c): it is loaded (comload.c, exeload.c) into memory described by a chain of memory control blocks, and its
  INT 21h calls reach the file system through a map of handles.

  \<^bold>\<open>Conventions.\<close> C integers are machine words at their width wherever their wrap-around can matter, and natural numbers
  for array indices that the code keeps in range. Structures are records with the field names of the source, static variables are
  fields of the component's state record, a function takes that state and returns it changed, with its C return value
  first. Null pointers are 0 or \<open>None\<close>; an array access out of bounds does not occur in the modelled code except where a theorem says so.
  Serial log lines, \<open>cli\<close>/\<open>sti\<close> brackets and delays are left out.
  Loops that the data ends are recursive functions with a measure; loops that hardware, other tasks or a damaged disk can keep from
  ending (\<open>delay_loop\<close>, \<open>rtc_wait_ready\<close>, \<open>dns_wait\<close>, the walks along cluster chains) are partial functions or have fuel, and the
  theorems that use them prove that they return.

  \<^bold>\<open>Theories.\<close>

  \<^item> \<open>Prelude\<close>: machine integers, byte bitmaps, little-endian fields, the first-match scan of a fixed table, and the
    locale \<open>slot_table\<close>, the contract of tables whose entries are claimed and released. It is interpreted for the file handles in
    \<open>Fat_Ops\<close>.
  \<^item> \<open>Pmm\<close> (pmm.c): the frame bitmap and its counters. The allocator returns the lowest free frame it can see; after any
    calls the counter equals the number of free bits; marking a region covers exactly the frames that contain a byte of it. The last few frames that do not fill a
    bitmap byte are never handed out.
  \<^item> \<open>Kheap\<close> (heap.c): block headers as words in memory. \<open>kmalloc\<close> and \<open>kfree\<close> refine first-fit allocation with splitting and
    coalescing on an abstract block list, so live blocks are disjoint and inside the heap. The size rounding wraps
    for the three largest requests.
  \<^item> \<open>Fat_Table\<close>, \<open>Fat_Dir\<close>, \<open>Fat_File\<close>, \<open>Fat_Rw\<close>, \<open>Fat_Ops\<close> (fat.c): table entries of FAT12, FAT16 and FAT32, with the
    nibbles FAT12 entries share; allocation; 8.3 names and directory walks; open, read, write, seek, create, delete,
    rename, mkdir, rmdir, chdir, find. Devices are a map from sector numbers to 512-byte sectors with sets of sectors that fail.
    Reading and writing are proved against the bytes of the file's cluster chain, with everything else on the disk
    unchanged; deletion frees exactly the chain. The file bytes, cluster counts and chain
    lengths are bounded by the volume's own limits, stated as \<open>vol_geom\<close> and \<open>fat_sized\<close>.
  \<^item> \<open>Fat_Mount\<close> (fat.c, mount.c): the boot-sector layout and FAT type, and the letters given to partitions.
  \<^item> \<open>Dma\<close> (dma.c): first-fit allocation of aligned runs of 16-byte units in the region kept from the page allocator.
  \<^item> \<open>Paging\<close>, \<open>Spaces\<close> (vmm.c, v86.c, dos.c): page directories and tables as words of physical memory, creation and
    destruction of V86 tasks with their DOS task. An ownership invariant over all frames gives
    isolation: conventional memory of two live tasks is disjoint in every history.
  \<^item> \<open>Sched\<close> (sched.c, the clock case of idt.c): the task table, round-robin choice, blocking, exit, and preemption.
    At most one task runs; a ready task runs after at most 16 ticks; with two tasks left, the exit of one strands the other.
  \<^item> \<open>Irq\<close> (pic.c, irq.c, idt.c, int13.c): masks and port writes, handler chains, gates, dispatch, the disk registry. The chains refine
    multisets of handlers; an interrupt runs each registered handler once, and the end of
    interrupt is signalled twice.
  \<^item> \<open>Timers\<close> (pit.c, rtc.c, klog.c): callbacks run exactly on their schedule while the tick counter does not wrap; the clock's
    divider; BCD conversion; the watchdog fires once, at the right tick.
  \<^item> \<open>Net\<close> (net.c): provider registration, descriptors, the resolver and all system calls over an arbitrary provider. The
    reply parser never depends on bytes behind the datagram.
  \<^item> \<open>Loopback\<close> (loopback.c): every operation of the provider. The locale \<open>bounded_queue\<close> is the contract of a stream buffer,
    interpreted for the ring; connected pairs are byte-exact FIFO channels under any other traffic, unless a connected
    socket is made to listen.
  \<^item> \<open>Mcb\<close> (dos.c): memory control blocks as bytes of real-mode memory. Functions 48h, 49h and 4Ah and the sweeps of 4Ch refine
    operations on the list of blocks; all walks return on well-formed chains.
  \<^item> \<open>Loader\<close> (comload.c, exeload.c): environment, PSP, COM and EXE images and relocation; an EXE load stays inside its arena.
  \<^item> \<open>Dos\<close>, \<open>Exec\<close> (dos.c): every function of \<open>dos_int21\<close> over the file system and the memory chain; running a COM program and
    returning from it restores the parent.
  \<^item> \<open>Handles\<close>: which FAT handles are open across the calls of the two layers. The locale \<open>fat_frame\<close> of \<open>Fat_Ops\<close> collects what the internal routines of fat.c
    leave alone; it is interpreted for the drive variables and for the handle table.
  \<^item> \<open>Resolve\<close>: resolver and loopback provider together: every encodable name resolves.

  \<^bold>\<open>Parameters.\<close> The contents of disks and which sectors fail; what interrupt handlers, timer callbacks and the clock chip
  do; what interrupts change between two rounds of the resolver's loop; the console hooks of INT 21h and the earlier contents of its local buffers; the time stamp counter; the addresses of assembly
  stubs. Each theorem that restricts one states the restriction as a hypothesis.

  \<^bold>\<open>Not modelled.\<close> The V86 instruction emulator and DPMI host (instruction emulation on register frames, mode switches), the ELF module loader and the
  configuration parser, keyboard, mouse, screen and disk-controller drivers (port I/O), the USB stack, the
  shell, and assembly code. TLB invalidation, caches and interrupt timing inside a C function have no counterpart.
\<close>

end
